(* ===== verification/Prelude.thy ===== *)
theory Prelude
  imports Main "HOL-Library.Word" "HOL-Library.AList"
begin

text \<open>
  Shared vocabulary of the development: the machine integers of the C++ sources as words,
  byte strings as lists, the failures of C++ code as values of a sum type, the operations
  of \<^verbatim>\<open>std::string\<close> that the sources call, and the generic lemmas on words and lists that
  the components use.  \<open>u64_arith\<close> collects the facts that move 64-bit arithmetic to the
  natural numbers.
\<close>

unbundle bit_operations_syntax

named_theorems u64_arith \<open>facts that turn 64-bit words into natural numbers\<close>
named_theorems std_string_simps \<open>lengths and contents of std::string operations\<close>

type_synonym byte = "8 word"
type_synonym bytes = "byte list"
type_synonym u8 = "8 word"
type_synonym u16 = "16 word"
type_synonym u32 = "32 word"
type_synonym u64 = "64 word"

section \<open>Failures of C++ code\<close>

text \<open>
  What a C++ operation can do instead of returning: throw \<^verbatim>\<open>std::runtime_error\<close> (with its
  message), \<^verbatim>\<open>std::out_of_range\<close>, \<^verbatim>\<open>std::invalid_argument\<close>, the \<^verbatim>\<open>unix_error\<close> of \<^verbatim>\<open>src/util/exception.hh\<close>
  (with the attempted call and the error code) or its base class \<^verbatim>\<open>tagged_error\<close>, thrown for failures
  of name resolution, run into undefined behaviour (reading the front of an
  empty deque, indexing a vector out of range), or loop for ever.
\<close>

datatype cpp_error =
    Runtime_Error string
  | Out_Of_Range
  | Invalid_Argument
  | Unix_Error string int
  | Tagged_Error string int
  | Undefined_Behaviour
  | Diverges

type_synonym 'a result = "cpp_error + 'a"

fun rbind :: "'a result \<Rightarrow> ('a \<Rightarrow> 'b result) \<Rightarrow> 'b result" where
  "rbind (Inl e) f = Inl e"
| "rbind (Inr x) f = f x"

lemma rbind_Inr_iff:
  "rbind m f = Inr y \<longleftrightarrow> (\<exists>x. m = Inr x \<and> f x = Inr y)"
  by (cases m) auto

lemma rbind_assoc: "rbind (rbind m f) g = rbind m (\<lambda>x. rbind (f x) g)"
  by (cases m) auto

section \<open>std::string\<close>

text \<open>
  \<^verbatim>\<open>size()\<close> where it takes part in 64-bit arithmetic, \<^verbatim>\<open>resize(n)\<close> (which pads with zero bytes
  when it grows the string), \<^verbatim>\<open>substr(pos)\<close> and \<^verbatim>\<open>append(str, pos)\<close>, which throw when
  \<open>pos\<close> lies beyond the end.
\<close>

definition size64 :: "'a list \<Rightarrow> u64" where
  "size64 xs = of_nat (length xs)"

definition str_resize :: "nat \<Rightarrow> bytes \<Rightarrow> bytes" where
  "str_resize n xs = take n xs @ replicate (n - length xs) 0"

definition str_substr :: "bytes \<Rightarrow> nat \<Rightarrow> bytes result" where
  "str_substr xs pos = (if length xs < pos then Inl Out_Of_Range else Inr (drop pos xs))"

definition str_append_from :: "bytes \<Rightarrow> bytes \<Rightarrow> nat \<Rightarrow> bytes result" where
  "str_append_from xs ys pos =
     (if length ys < pos then Inl Out_Of_Range else Inr (xs @ drop pos ys))"

lemma str_resize_shrink [simp, std_string_simps]: "n \<le> length xs \<Longrightarrow> str_resize n xs = take n xs"
  by (simp add: str_resize_def)

lemma length_str_resize [simp, std_string_simps]: "length (str_resize n xs) = n"
  by (simp add: str_resize_def)

lemma str_substr_ok [simp, std_string_simps]: "pos \<le> length xs \<Longrightarrow> str_substr xs pos = Inr (drop pos xs)"
  by (simp add: str_substr_def)

lemma str_append_from_ok [simp, std_string_simps]:
  "pos \<le> length ys \<Longrightarrow> str_append_from xs ys pos = Inr (xs @ drop pos ys)"
  by (simp add: str_append_from_def)

text \<open>\<^verbatim>\<open>std::to_string\<close> of integers, and hexadecimal output with a minimal width.\<close>

definition digit_char :: "nat \<Rightarrow> char" where
  "digit_char d = (if d < 10 then char_of (48 + d) else char_of (87 + d))"

fun digits :: "nat \<Rightarrow> nat \<Rightarrow> string" where
  "digits base n =
     (if base \<le> 1 \<or> n < base then [digit_char n] else digits base (n div base) @ [digit_char (n mod base)])"

declare digits.simps [simp del]

definition dec_string :: "nat \<Rightarrow> string" where
  "dec_string n = digits 10 n"

definition int_string :: "int \<Rightarrow> string" where
  "int_string i = (if i < 0 then CHR ''-'' # dec_string (nat (- i)) else dec_string (nat i))"

definition hex_string :: "nat \<Rightarrow> string" where
  "hex_string n = digits 16 n"

section \<open>64-bit words as natural numbers\<close>

lemma unat_u64_less: "unat (x :: u64) < 2 ^ 64"
  using unsigned_less [where ?w = x and ?'a = nat] by simp

lemma unat_of_nat_u64 [u64_arith]: "n < 2 ^ 64 \<Longrightarrow> unat (of_nat n :: u64) = n"
  by (simp add: unat_of_nat take_bit_nat_eq_self)

lemma unat_size64 [u64_arith]: "length xs < 2 ^ 64 \<Longrightarrow> unat (size64 xs) = length xs"
  by (simp add: size64_def unat_of_nat_u64)

lemma unat_add_u64 [u64_arith]:
  "unat (x :: u64) + unat y < 2 ^ 64 \<Longrightarrow> unat (x + y) = unat x + unat y"
  by (simp add: unat_word_ariths)

lemma unat_add_size64 [u64_arith]:
  "unat (x :: u64) + length ys < 2 ^ 64 \<Longrightarrow> unat (x + size64 ys) = unat x + length ys"
  using unat_size64 [of ys] by (simp add: unat_add_u64)

lemma unat_sub_u64 [u64_arith]: "y \<le> (x :: u64) \<Longrightarrow> unat (x - y) = unat x - unat y"
  by (simp add: unat_sub)

lemma of_nat_diff_size64: "unat x \<le> length s \<Longrightarrow> size64 s - x = of_nat (length s - unat x)"
  by (simp add: size64_def of_nat_diff)

lemma of_nat_unat_u64 [simp]: "of_nat (unat (x :: u64)) = x"
  by simp

section \<open>Association lists\<close>

text \<open>\<^verbatim>\<open>std::unordered_map\<close> is modelled as an association list with distinct keys.\<close>

lemma alist_update_subset: "set (AList.update k v xs) \<subseteq> insert (k, v) (set xs)"
  by (induction xs) auto

lemma alist_delete_subset: "set (AList.delete k xs) \<subseteq> set xs"
  by (induction xs) auto

end
