(* ===== verification/Byte_Stream.thy ===== *)
theory Byte_Stream
  imports Prelude
begin

text \<open>
  \<^verbatim>\<open>src/src/byte_stream.hh\<close>, \<^verbatim>\<open>byte_stream.cc\<close> and \<^verbatim>\<open>byte_stream_helpers.cc\<close>: the bounded byte
  stream with its writer and reader views.  The state is the record of the base class; the
  writer and reader operations are the functions \<open>Writer_*\<close> and \<open>Reader_*\<close>.  An operation
  that can throw or run into undefined behaviour returns a \<open>result\<close>.  The counters are
  64-bit and may wrap around: every lemma holds for them modulo \<open>2 ^ 64\<close>.

  The locale \<open>byte_queue\<close> states the contract that the readers of a stream rely on; the
  model is an interpretation of it.
\<close>

record byte_stream =
  bs_capacity :: u64
  bs_segments :: "bytes list"
  bs_skip_in_front :: u64
  bs_bytes_pushed :: u64
  bs_bytes_popped :: u64
  bs_error :: bool
  bs_closed :: bool

definition ByteStream_new :: "u64 \<Rightarrow> byte_stream" where
  "ByteStream_new capacity =
     \<lparr>bs_capacity = capacity, bs_segments = [], bs_skip_in_front = 0, bs_bytes_pushed = 0,
      bs_bytes_popped = 0, bs_error = False, bs_closed = False\<rparr>"

definition set_error :: "byte_stream \<Rightarrow> byte_stream" where
  "set_error bs = bs\<lparr>bs_error := True\<rparr>"

definition has_error :: "byte_stream \<Rightarrow> bool" where
  "has_error bs = bs_error bs"

section \<open>Writer\<close>

definition available_capacity :: "byte_stream \<Rightarrow> u64" where
  "available_capacity bs = bs_capacity bs - (bs_bytes_pushed bs - bs_bytes_popped bs)"

definition Writer_push :: "bytes \<Rightarrow> byte_stream \<Rightarrow> byte_stream" where
  "Writer_push data bs =
     (let avail = available_capacity bs
      in if data = [] \<or> avail = 0 then bs
         else let data = (if unat avail < length data then str_resize (unat avail) data else data)
              in bs\<lparr>bs_bytes_pushed := bs_bytes_pushed bs + size64 data,
                    bs_segments := bs_segments bs @ [data]\<rparr>)"

definition Writer_close :: "byte_stream \<Rightarrow> byte_stream" where
  "Writer_close bs = bs\<lparr>bs_closed := True\<rparr>"

definition is_closed :: "byte_stream \<Rightarrow> bool" where
  "is_closed bs = bs_closed bs"

definition bytes_pushed :: "byte_stream \<Rightarrow> u64" where
  "bytes_pushed bs = bs_bytes_pushed bs"

section \<open>Reader\<close>

definition Reader_peek :: "byte_stream \<Rightarrow> bytes result" where
  "Reader_peek bs =
     (case bs_segments bs of
        [] \<Rightarrow> Inr []
      | s # _ \<Rightarrow> str_substr s (unat (bs_skip_in_front bs)))"

text \<open>The loop of \<^verbatim>\<open>Reader::pop\<close>; \<^verbatim>\<open>segments_.front()\<close> of an empty deque is undefined behaviour.\<close>

fun pop_loop :: "bytes list \<Rightarrow> u64 \<Rightarrow> u64 \<Rightarrow> (bytes list \<times> u64) result" where
  "pop_loop [] skip len = (if 0 < len then Inl Undefined_Behaviour else Inr ([], skip))"
| "pop_loop (s # segs) skip len =
     (if 0 < len then
        let front_remaining = size64 s - skip
        in if front_remaining \<le> len then pop_loop segs 0 (len - front_remaining)
           else Inr (s # segs, skip + len)
      else Inr (s # segs, skip))"

definition Reader_pop :: "u64 \<Rightarrow> byte_stream \<Rightarrow> byte_stream result" where
  "Reader_pop len bs =
     (let len = min len (bs_bytes_pushed bs - bs_bytes_popped bs)
      in rbind (pop_loop (bs_segments bs) (bs_skip_in_front bs) len)
           (\<lambda>(segs, skip). Inr (bs\<lparr>bs_bytes_popped := bs_bytes_popped bs + len,
                                   bs_segments := segs, bs_skip_in_front := skip\<rparr>)))"

definition is_finished :: "byte_stream \<Rightarrow> bool" where
  "is_finished bs \<longleftrightarrow> bs_closed bs \<and> bs_bytes_pushed bs = bs_bytes_popped bs"

definition bytes_buffered :: "byte_stream \<Rightarrow> u64" where
  "bytes_buffered bs = bs_bytes_pushed bs - bs_bytes_popped bs"

definition bytes_popped :: "byte_stream \<Rightarrow> u64" where
  "bytes_popped bs = bs_bytes_popped bs"

text \<open>
  The helper \<^verbatim>\<open>read\<close>: peek and pop until \<open>max_len\<close> bytes are read or nothing is buffered.  It
  throws when bytes are buffered and \<^verbatim>\<open>peek\<close> shows none.  Each turn pops at least one byte.
\<close>

function read_loop :: "byte_stream \<Rightarrow> nat \<Rightarrow> bytes \<Rightarrow> (bytes \<times> byte_stream) result" where
  "read_loop bs max_len out =
     (if bytes_buffered bs \<noteq> 0 \<and> length out < max_len then
        case Reader_peek bs of
          Inl e \<Rightarrow> Inl e
        | Inr view \<Rightarrow>
            if view = [] then Inl (Runtime_Error ''Reader::peek() returned empty string_view'')
            else let view = take (max_len - length out) view
                 in case Reader_pop (size64 view) bs of
                      Inl e \<Rightarrow> Inl e
                    | Inr bs' \<Rightarrow> read_loop bs' max_len (out @ view)
      else Inr (out, bs))"
  by pat_completeness auto
termination
  by (relation "measure (\<lambda>(bs, max_len, out). max_len - length out)")
    (auto simp: min_def neq_Nil_conv)

declare read_loop.simps [simp del]

definition read :: "byte_stream \<Rightarrow> u64 \<Rightarrow> (bytes \<times> byte_stream) result" where
  "read bs max_len = read_loop bs (unat max_len) []"

section \<open>The contract of a byte queue\<close>

text \<open>
  What the code that drains a stream (\<^verbatim>\<open>read\<close>, \<^verbatim>\<open>TCPSender::send_segment\<close>) relies on: \<open>peek\<close>
  shows a non-empty prefix of the buffered bytes, \<open>pop\<close> removes bytes from the front and
  changes nothing else.
\<close>

locale byte_queue =
  fixes inv :: "'s \<Rightarrow> bool"
    and content :: "'s \<Rightarrow> bytes"
    and frame :: "'s \<Rightarrow> 'f"
    and peek :: "'s \<Rightarrow> bytes result"
    and pop :: "u64 \<Rightarrow> 's \<Rightarrow> 's result"
  assumes bounded: "inv s \<Longrightarrow> length (content s) < 2 ^ 64"
    and peek_prefix: "inv s \<Longrightarrow> content s \<noteq> [] \<Longrightarrow>
      \<exists>view rest. peek s = Inr view \<and> content s = view @ rest \<and> view \<noteq> []"
    and pop_front: "inv s \<Longrightarrow>
      \<exists>s'. pop n s = Inr s' \<and> inv s' \<and> content s' = drop (unat n) (content s) \<and> frame s' = frame s"
begin

lemma peek_then_pop:
  assumes "inv s" and "content s \<noteq> []" and "0 < n"
  obtains view s' where "peek s = Inr view" and "view \<noteq> []"
    and "pop (size64 (take n view)) s = Inr s'" and "inv s'" and "frame s' = frame s"
    and "content s = take n view @ content s'"
proof -
  obtain view rest where view: "peek s = Inr view" "content s = view @ rest" "view \<noteq> []"
    using peek_prefix [OF assms(1,2)] by blast
  have "length view < 2 ^ 64" using bounded [OF assms(1)] view(2) by simp
  then have len: "unat (size64 (take n view)) = length (take n view)" by (simp add: unat_size64)
  obtain s' where s': "pop (size64 (take n view)) s = Inr s'" "inv s'" "frame s' = frame s"
      "content s' = drop (length (take n view)) (content s)"
    using pop_front [OF assms(1), of "size64 (take n view)"] len by auto
  have "content s = take n view @ content s'"
    using s'(4) view(2) by (cases "n \<le> length view") (simp_all add: append_assoc [symmetric] del: append_assoc)
  with view s' that show ?thesis by blast
qed

text \<open>A loop that peeks and pops until it holds \<open>n\<close> bytes collects the first \<open>n\<close> buffered bytes.\<close>

lemma drain_loop:
  assumes stop: "\<And>s out. inv s \<Longrightarrow> content s = [] \<or> n \<le> length out \<Longrightarrow> loop s out = Inr (out, s)"
    and step: "\<And>s out view s'. inv s \<Longrightarrow> content s \<noteq> [] \<Longrightarrow> length out < n \<Longrightarrow>
      peek s = Inr view \<Longrightarrow> view \<noteq> [] \<Longrightarrow> pop (size64 (take (n - length out) view)) s = Inr s' \<Longrightarrow>
      loop s out = loop s' (out @ take (n - length out) view)"
    and "inv s"
  shows "\<exists>s'. loop s out = Inr (out @ take (n - length out) (content s), s') \<and> inv s'
      \<and> content s' = drop (n - length out) (content s) \<and> frame s' = frame s"
  using assms(3)
proof (induction "n - length out" arbitrary: s out rule: less_induct)
  case less
  show ?case
  proof (cases "content s = [] \<or> n \<le> length out")
    case True
    then show ?thesis using stop [OF less.prems] less.prems by auto
  next
    case False
    let ?k = "n - length out"
    obtain view s' where s': "peek s = Inr view" "view \<noteq> []" "pop (size64 (take ?k view)) s = Inr s'"
        "inv s'" "frame s' = frame s" "content s = take ?k view @ content s'"
      using peek_then_pop [OF less.prems, of ?k] False by auto
    have eq: "loop s out = loop s' (out @ take ?k view)"
      using step [OF less.prems _ _ s'(1-3)] False by auto
    have lt: "n - length (out @ take ?k view) < ?k"
      using False s'(2) by (cases view) auto
    show ?thesis
      using less.hyps [OF lt s'(4)] False s'(5,6) unfolding eq by (auto simp: min_def)
  qed
qed

end

section \<open>Well-formed streams\<close>

definition bs_content :: "byte_stream \<Rightarrow> bytes" where
  "bs_content bs = drop (unat (bs_skip_in_front bs)) (concat (bs_segments bs))"

fun front_ok :: "bytes list \<Rightarrow> u64 \<Rightarrow> bool" where
  "front_ok [] skip \<longleftrightarrow> skip = 0"
| "front_ok (s # segs) skip \<longleftrightarrow> unat skip < length s"

definition bs_wf :: "byte_stream \<Rightarrow> bool" where
  "bs_wf bs \<longleftrightarrow> [] \<notin> set (bs_segments bs)
     \<and> (\<forall>s \<in> set (bs_segments bs). length s \<le> unat (bs_capacity bs))
     \<and> front_ok (bs_segments bs) (bs_skip_in_front bs)
     \<and> bs_bytes_pushed bs - bs_bytes_popped bs = of_nat (length (bs_content bs))
     \<and> length (bs_content bs) \<le> unat (bs_capacity bs)"

definition bs_frame :: "byte_stream \<Rightarrow> u64 \<times> u64 \<times> bool \<times> bool" where
  "bs_frame bs = (bs_capacity bs, bs_bytes_pushed bs, bs_error bs, bs_closed bs)"

lemma front_ok_0: "[] \<notin> set segs \<Longrightarrow> front_ok segs 0"
  by (cases segs) auto

lemma pop_loop_ok:
  assumes "[] \<notin> set segs" and "front_ok segs skip"
    and "unat len \<le> length (drop (unat skip) (concat segs))"
    and "\<forall>s \<in> set segs. length s < 2 ^ 64"
  shows "\<exists>segs' skip'. pop_loop segs skip len = Inr (segs', skip') \<and> [] \<notin> set segs'
      \<and> set segs' \<subseteq> set segs \<and> front_ok segs' skip'
      \<and> drop (unat skip') (concat segs') = drop (unat len) (drop (unat skip) (concat segs))"
  using assms
proof (induction segs arbitrary: skip len)
  case Nil
  then show ?case by (auto simp: unat_eq_0 word_gt_0)
next
  case (Cons s segs)
  show ?case
  proof (cases "len = 0")
    case True
    then show ?thesis using Cons.prems by auto
  next
    case False
    let ?r = "length s - unat skip"
    have skip: "unat skip < length s" using Cons.prems(2) by simp
    have rem: "unat (size64 s - skip) = ?r"
      using Cons.prems(4) skip by (simp add: unat_sub word_le_nat_alt unat_size64)
    show ?thesis
    proof (cases "size64 s - skip \<le> len")
      case True
      then have le: "?r \<le> unat len" using rem by (simp add: word_le_nat_alt)
      have len': "unat (len - (size64 s - skip)) = unat len - ?r"
        using True rem by (simp add: unat_sub)
      have pre: "front_ok segs 0" "unat len - ?r \<le> length (concat segs)"
        using Cons.prems skip by (auto intro: front_ok_0)
      obtain segs' skip' where "pop_loop segs 0 (len - (size64 s - skip)) = Inr (segs', skip')"
          "[] \<notin> set segs'" "set segs' \<subseteq> set segs" "front_ok segs' skip'"
          "drop (unat skip') (concat segs') = drop (unat len - ?r) (concat segs)"
        using Cons.IH [of 0 "len - (size64 s - skip)"] Cons.prems(1,4) len' pre by auto
      then show ?thesis using True False le skip by (auto simp: word_gt_0 Let_def)
    next
      case notle: False
      then have lt: "unat len < ?r" using rem by (simp add: word_le_nat_alt)
      moreover have "unat (skip + len) = unat skip + unat len"
        using lt Cons.prems(4) skip by (intro unat_add_u64) auto
      ultimately show ?thesis using notle False Cons.prems
        by (auto simp: word_gt_0 Let_def add.commute)
    qed
  qed
qed

lemma bs_wf_length: "bs_wf bs \<Longrightarrow> length (bs_content bs) < 2 ^ 64"
  using unat_u64_less [of "bs_capacity bs"] by (simp add: bs_wf_def)

lemma unat_bytes_buffered: "bs_wf bs \<Longrightarrow> unat (bytes_buffered bs) = length (bs_content bs)"
  using bs_wf_length by (simp add: bytes_buffered_def bs_wf_def unat_of_nat_u64)

lemma bytes_buffered_eq_0_iff: "bs_wf bs \<Longrightarrow> bytes_buffered bs = 0 \<longleftrightarrow> bs_content bs = []"
  using unat_bytes_buffered [of bs] by (simp add: unat_eq_0 [symmetric])

lemma unat_available_capacity:
  assumes "bs_wf bs"
  shows "unat (available_capacity bs) = unat (bs_capacity bs) - length (bs_content bs)"
proof -
  have "available_capacity bs = bs_capacity bs - bytes_buffered bs"
    by (simp add: available_capacity_def bytes_buffered_def)
  moreover have "bytes_buffered bs \<le> bs_capacity bs"
    using assms unat_bytes_buffered [OF assms] by (simp add: word_le_nat_alt bs_wf_def)
  ultimately show ?thesis using unat_bytes_buffered [OF assms] by (simp add: unat_sub)
qed

lemma bs_wf_new: "bs_wf (ByteStream_new c)" "bs_content (ByteStream_new c) = []"
  by (simp_all add: bs_wf_def ByteStream_new_def bs_content_def)

lemma bs_content_snoc:
  "front_ok (bs_segments bs) (bs_skip_in_front bs) \<Longrightarrow>
   drop (unat (bs_skip_in_front bs)) (concat (bs_segments bs @ [d])) = bs_content bs @ d"
  by (cases "bs_segments bs") (auto simp: bs_content_def)

lemma Writer_push_Nil [simp]: "Writer_push [] bs = bs"
  by (simp add: Writer_push_def)

lemma Writer_push_eq:
  fixes data bs
  assumes "bs_wf bs"
  defines "d \<equiv> take (unat (available_capacity bs)) data"
  shows "Writer_push data bs = (if d = [] then bs else
    bs\<lparr>bs_bytes_pushed := bs_bytes_pushed bs + size64 d, bs_segments := bs_segments bs @ [d]\<rparr>)"
  by (auto simp: Writer_push_def d_def Let_def unat_eq_0 not_less)

lemma Writer_push_ok:
  fixes data bs
  assumes "bs_wf bs"
  defines "d \<equiv> take (unat (available_capacity bs)) data"
  shows "bs_wf (Writer_push data bs)"
    and "bs_content (Writer_push data bs) = bs_content bs @ d"
    and "bytes_pushed (Writer_push data bs) = bytes_pushed bs + size64 d"
proof -
  have fo: "front_ok (bs_segments bs) (bs_skip_in_front bs)" using assms(1) by (simp add: bs_wf_def)
  have fo': "front_ok (bs_segments bs @ [d]) (bs_skip_in_front bs)" if "d \<noteq> []"
    using fo that by (cases "bs_segments bs") auto
  have room: "length (bs_content bs) + length d \<le> unat (bs_capacity bs)"
    using assms(1) unat_available_capacity [OF assms(1)] by (auto simp: d_def bs_wf_def min_def)
  show content: "bs_content (Writer_push data bs) = bs_content bs @ d"
    using bs_content_snoc [OF fo, of d]
    by (simp add: Writer_push_eq [OF assms(1)] d_def [symmetric] bs_content_def)
  show "bytes_pushed (Writer_push data bs) = bytes_pushed bs + size64 d"
    by (simp add: Writer_push_eq [OF assms(1)] d_def [symmetric] bytes_pushed_def size64_def)
  have "bs_bytes_pushed bs - bs_bytes_popped bs = of_nat (length (bs_content bs))"
    using assms(1) by (simp add: bs_wf_def)
  then have "bs_bytes_pushed bs + size64 d - bs_bytes_popped bs = of_nat (length (bs_content bs @ d))"
    by (simp add: size64_def algebra_simps)
  then show "bs_wf (Writer_push data bs)"
    using assms(1) content fo' room
    by (auto simp: bs_wf_def Writer_push_eq [OF assms(1)] d_def [symmetric])
qed

lemma Writer_push_fields [simp]:
  "bs_capacity (Writer_push data bs) = bs_capacity bs"
  "bs_bytes_popped (Writer_push data bs) = bs_bytes_popped bs"
  "bs_error (Writer_push data bs) = bs_error bs"
  "bs_closed (Writer_push data bs) = bs_closed bs"
  by (simp_all add: Writer_push_def Let_def)

lemma bs_wf_flags [simp]:
  "bs_wf (bs\<lparr>bs_error := e\<rparr>) = bs_wf bs" "bs_wf (bs\<lparr>bs_closed := c\<rparr>) = bs_wf bs"
  "bs_content (bs\<lparr>bs_error := e\<rparr>) = bs_content bs" "bs_content (bs\<lparr>bs_closed := c\<rparr>) = bs_content bs"
  by (simp_all add: bs_wf_def bs_content_def)

lemma Reader_peek_ok:
  assumes "bs_wf bs" and "bs_content bs \<noteq> []"
  shows "\<exists>view rest. Reader_peek bs = Inr view \<and> bs_content bs = view @ rest \<and> view \<noteq> []"
  using assms by (cases "bs_segments bs") (auto simp: Reader_peek_def bs_content_def bs_wf_def)

lemma Reader_pop_ok:
  assumes "bs_wf bs"
  shows "\<exists>bs'. Reader_pop n bs = Inr bs' \<and> bs_wf bs' \<and> bs_content bs' = drop (unat n) (bs_content bs)
    \<and> bs_frame bs' = bs_frame bs"
proof -
  let ?m = "min n (bytes_buffered bs)"
  have m: "unat ?m = min (unat n) (length (bs_content bs))"
    using unat_bytes_buffered [OF assms] by (simp add: min_def word_le_nat_alt)
  have pre: "[] \<notin> set (bs_segments bs)" "front_ok (bs_segments bs) (bs_skip_in_front bs)"
      "unat ?m \<le> length (bs_content bs)" "\<forall>s \<in> set (bs_segments bs). length s < 2 ^ 64"
    using assms m unat_u64_less [of "bs_capacity bs"] by (auto simp: bs_wf_def)
  obtain segs skip where pop: "pop_loop (bs_segments bs) (bs_skip_in_front bs) ?m = Inr (segs, skip)"
      "[] \<notin> set segs" "set segs \<subseteq> set (bs_segments bs)" "front_ok segs skip"
      "drop (unat skip) (concat segs) = drop (unat ?m) (bs_content bs)"
    using pop_loop_ok [of "bs_segments bs" "bs_skip_in_front bs" ?m, folded bs_content_def] pre by blast
  define bs' where "bs' = bs\<lparr>bs_bytes_popped := bs_bytes_popped bs + ?m,
    bs_segments := segs, bs_skip_in_front := skip\<rparr>"
  have "bs_content bs' = drop (unat ?m) (bs_content bs)"
    using pop(5) by (simp add: bs'_def bs_content_def [of "bs\<lparr>bs_bytes_popped := _,
      bs_segments := _, bs_skip_in_front := _\<rparr>"])
  then have c: "bs_content bs' = drop (unat n) (bs_content bs)"
    unfolding m by (simp add: min_def)
  have le: "unat ?m \<le> length (bs_content bs)" by (simp add: m)
  have "bs_bytes_pushed bs - (bs_bytes_popped bs + ?m) = of_nat (length (bs_content bs)) - ?m"
    using assms by (simp add: bs_wf_def diff_diff_eq [symmetric])
  also have "\<dots> = of_nat (length (bs_content bs) - unat ?m)"
    using le by (simp add: of_nat_diff)
  also have "length (bs_content bs) - unat ?m = length (bs_content bs')"
    using unat_bytes_buffered [OF assms] by (simp only: c m length_drop)
  finally have "bs_wf bs'"
    using assms pop c by (auto simp: bs_wf_def bs'_def)
  then show ?thesis
    using pop(1) c by (auto simp: Reader_pop_def Let_def bs'_def bytes_buffered_def bs_frame_def)
qed

interpretation stream: byte_queue bs_wf bs_content bs_frame Reader_peek Reader_pop
  by unfold_locales (rule bs_wf_length Reader_peek_ok Reader_pop_ok, assumption+)+

lemma is_finished_iff: "bs_wf bs \<Longrightarrow> is_finished bs \<longleftrightarrow> bs_closed bs \<and> bs_content bs = []"
  using bytes_buffered_eq_0_iff [of bs] by (auto simp: is_finished_def bytes_buffered_def)

section \<open>Correctness of the stream\<close>

text \<open>
  A stream as a bounded buffer: the buffered bytes, the capacity, and everything that was
  accepted and delivered so far.  \<open>stream_op\<close> lists what the owner of a stream can do;
  \<open>run_op\<close> and \<open>run_ops\<close> perform it on the model and keep the bytes that \<^verbatim>\<open>pop\<close> discards.
\<close>

datatype stream_op = Push bytes | Pop u64 | Close | Set_Error

fun run_op :: "stream_op \<Rightarrow> byte_stream \<Rightarrow> byte_stream result" where
  "run_op (Push d) bs = Inr (Writer_push d bs)"
| "run_op (Pop n) bs = Reader_pop n bs"
| "run_op Close bs = Inr (Writer_close bs)"
| "run_op Set_Error bs = Inr (set_error bs)"

fun run_ops :: "stream_op list \<Rightarrow> byte_stream \<Rightarrow> byte_stream result" where
  "run_ops [] bs = Inr bs"
| "run_ops (p # ps) bs = rbind (run_op p bs) (run_ops ps)"

text \<open>The specification: an unbounded history of the bytes written and the bytes read.\<close>

fun spec_op :: "nat \<Rightarrow> stream_op \<Rightarrow> bytes \<times> bytes \<Rightarrow> bytes \<times> bytes" where
  "spec_op cap (Push d) (inp, out) = (inp @ take (cap - (length inp - length out)) d, out)"
| "spec_op cap (Pop n) (inp, out) = (inp, take (length out + unat n) inp)"
| "spec_op cap _ h = h"

fun spec_ops :: "nat \<Rightarrow> stream_op list \<Rightarrow> bytes \<times> bytes \<Rightarrow> bytes \<times> bytes" where
  "spec_ops cap [] h = h"
| "spec_ops cap (p # ps) h = spec_ops cap ps (spec_op cap p h)"

definition stream_refines :: "byte_stream \<Rightarrow> nat \<Rightarrow> bytes \<times> bytes \<Rightarrow> bool" where
  "stream_refines bs cap h \<longleftrightarrow> bs_wf bs \<and> unat (bs_capacity bs) = cap
     \<and> fst h = snd h @ bs_content bs
     \<and> bytes_pushed bs = size64 (fst h) \<and> bytes_popped bs = size64 (snd h)"

lemma stream_refines_push:
  assumes "stream_refines bs cap h"
  shows "stream_refines (Writer_push d bs) cap (spec_op cap (Push d) h)"
proof (cases h)
  case (Pair inp out)
  have wf: "bs_wf bs" using assms by (simp add: stream_refines_def)
  have "unat (available_capacity bs) = cap - (length inp - length out)"
    using unat_available_capacity [OF wf] assms Pair by (simp add: stream_refines_def)
  then show ?thesis
    using Writer_push_ok [OF wf, of d] assms Pair
    by (simp add: stream_refines_def bytes_popped_def size64_def)
qed

lemma stream_refines_pop:
  assumes "stream_refines bs cap h"
  shows "\<exists>bs'. Reader_pop n bs = Inr bs' \<and> stream_refines bs' cap (spec_op cap (Pop n) h)"
proof (cases h)
  case (Pair inp out)
  have wf: "bs_wf bs" and inp: "inp = out @ bs_content bs"
    and pushed: "bytes_pushed bs = size64 inp"
    using assms Pair by (auto simp: stream_refines_def)
  obtain bs' where bs': "Reader_pop n bs = Inr bs'" "bs_wf bs'" "bs_frame bs' = bs_frame bs"
      "bs_content bs' = drop (unat n) (bs_content bs)"
    using Reader_pop_ok [OF wf] by blast
  have "bytes_popped bs' = bytes_pushed bs' - of_nat (length (bs_content bs'))"
    using bs'(2) by (simp add: bs_wf_def bytes_pushed_def bytes_popped_def algebra_simps)
  also have "\<dots> = size64 (out @ take (unat n) (bs_content bs))"
    using bs'(3,4) pushed inp
    by (auto simp: size64_def bs_frame_def bytes_pushed_def min_def of_nat_diff)
  finally show ?thesis
    using bs' assms Pair inp by (auto simp: stream_refines_def bs_frame_def bytes_pushed_def)
qed

lemma stream_refines_op:
  assumes "stream_refines bs cap h"
  shows "\<exists>bs'. run_op p bs = Inr bs' \<and> stream_refines bs' cap (spec_op cap p h)"
proof (cases p)
  case Close
  then show ?thesis using assms
    by (cases h) (simp add: stream_refines_def Writer_close_def bytes_pushed_def bytes_popped_def)
next
  case Set_Error
  then show ?thesis using assms
    by (cases h) (simp add: stream_refines_def set_error_def bytes_pushed_def bytes_popped_def)
qed (use assms stream_refines_push stream_refines_pop in auto)

lemma stream_refines_ops:
  "stream_refines bs cap h \<Longrightarrow>
   \<exists>bs'. run_ops ps bs = Inr bs' \<and> stream_refines bs' cap (spec_ops cap ps h)"
proof (induction ps arbitrary: bs h)
  case (Cons p ps)
  from stream_refines_op [OF Cons.prems, of p] obtain bs1 where
    "run_op p bs = Inr bs1" "stream_refines bs1 cap (spec_op cap p h)" by blast
  with Cons.IH show ?case by fastforce
qed simp

lemma stream_refines_new: "stream_refines (ByteStream_new c) (unat c) ([], [])"
  by (simp add: stream_refines_def bs_wf_new bytes_pushed_def bytes_popped_def size64_def)
    (simp add: ByteStream_new_def)

text \<open>
  C8. Any sequence of pushes, pops, closes and error marks on a new stream runs without an
  exception or undefined behaviour and implements the FIFO specification: the bytes still
  buffered are those written (cut at the capacity) and not yet read, at most the capacity many,
  and the two counters are the numbers of bytes written and read modulo \<open>2 ^ 64\<close>.
\<close>

theorem byte_stream_fifo:
  "\<exists>bs. run_ops ps (ByteStream_new c) = Inr bs \<and>
     (case spec_ops (unat c) ps ([], []) of (inp, out) \<Rightarrow>
        inp = out @ bs_content bs \<and> length (bs_content bs) \<le> unat c \<and>
        bytes_pushed bs = size64 inp \<and> bytes_popped bs = size64 out \<and>
        unat (bytes_buffered bs) = length (bs_content bs) \<and>
        unat (available_capacity bs) = unat c - length (bs_content bs))"
proof -
  obtain bs where bs: "run_ops ps (ByteStream_new c) = Inr bs"
      "stream_refines bs (unat c) (spec_ops (unat c) ps ([], []))"
    using stream_refines_ops [OF stream_refines_new] by blast
  from bs(2) have wf: "bs_wf bs" by (simp add: stream_refines_def)
  show ?thesis
    using bs unat_bytes_buffered [OF wf] unat_available_capacity [OF wf]
    by (auto simp: stream_refines_def bs_wf_def split: prod.split)
qed

lemma read_loop_ok:
  assumes "bs_wf bs"
  shows "\<exists>bs'. read_loop bs n out = Inr (out @ take (n - length out) (bs_content bs), bs') \<and> bs_wf bs'
    \<and> bs_content bs' = drop (n - length out) (bs_content bs) \<and> bs_frame bs' = bs_frame bs"
proof (rule stream.drain_loop [OF _ _ assms, where loop = "\<lambda>bs out. read_loop bs n out"])
  fix s :: byte_stream and o' :: bytes
  assume "bs_wf s" and "bs_content s = [] \<or> n \<le> length o'"
  then show "read_loop s n o' = Inr (o', s)"
    by (subst read_loop.simps) (auto simp: bytes_buffered_eq_0_iff)
next
  fix s s' :: byte_stream and o' view :: bytes
  assume "bs_wf s" "bs_content s \<noteq> []" "length o' < n" "Reader_peek s = Inr view" "view \<noteq> []"
    "Reader_pop (size64 (take (n - length o') view)) s = Inr s'"
  then show "read_loop s n o' = read_loop s' n (o' @ take (n - length o') view)"
    by (subst read_loop.simps) (auto simp: bytes_buffered_eq_0_iff)
qed

text \<open>
  \<open>read\<close> never throws on a well-formed stream: it returns the first \<open>max_len\<close> buffered
  bytes, removes exactly them, and leaves capacity, counters of the writer and flags alone.
\<close>

theorem read_takes_prefix:
  assumes "bs_wf bs"
  shows "\<exists>bs'. read bs max_len = Inr (take (unat max_len) (bs_content bs), bs') \<and> bs_wf bs' \<and>
     bs_content bs' = drop (unat max_len) (bs_content bs) \<and> bs_frame bs' = bs_frame bs"
  using read_loop_ok [OF assms, of "unat max_len" "[]"] by (simp add: read_def)

theorem read_takes_prefix_witness:
  "\<exists>bs'. read (Writer_push [1, 2, 3] (ByteStream_new 8)) 2 = Inr ([1, 2], bs') \<and> bs_content bs' = [3]"
proof -
  have "bs_wf (Writer_push [1, 2, 3] (ByteStream_new 8))"
    by (simp add: Writer_push_ok bs_wf_new)
  moreover have "bs_content (Writer_push [1, 2, 3] (ByteStream_new 8)) = [1, 2, 3]"
    by (simp add: bs_content_def Writer_push_def ByteStream_new_def available_capacity_def Let_def)
  ultimately show ?thesis using read_takes_prefix [of "Writer_push [1, 2, 3] (ByteStream_new 8)" 2] by auto
qed

end
