(* ===== verification/Reassembler.thy ===== *)
theory Reassembler
  imports Byte_Stream
begin

text \<open>
  \<^verbatim>\<open>src/src/reassembler.hh\<close> and \<^verbatim>\<open>src/src/reassembler.cc\<close>: substrings of a byte stream arrive in any
  order, overlapping and repeated; the reassembler keeps those inside its window and writes
  the contiguous prefix to its output stream.  The \<^verbatim>\<open>std::map\<close> of pending substrings is an
  association list with ascending keys.  \<open>insert\<close> is the composition of the four numbered
  steps of the source.
\<close>

section \<open>The ordered map of pending substrings\<close>

text \<open>\<^verbatim>\<open>std::map::emplace\<close> does nothing when the key is present.\<close>

fun map_emplace :: "u64 \<Rightarrow> bytes \<Rightarrow> (u64 \<times> bytes) list \<Rightarrow> (u64 \<times> bytes) list" where
  "map_emplace k v [] = [(k, v)]"
| "map_emplace k v ((k', v') # m) =
     (if k < k' then (k, v) # (k', v') # m
      else if k = k' then (k', v') # m
      else (k', v') # map_emplace k v m)"

record reassembler =
  ra_output :: byte_stream
  ra_pending :: "(u64 \<times> bytes) list"
  ra_end_index :: u64
  ra_eof_seen :: bool

definition Reassembler_new :: "byte_stream \<Rightarrow> reassembler" where
  "Reassembler_new output =
     \<lparr>ra_output = output, ra_pending = [], ra_end_index = 0, ra_eof_seen = False\<rparr>"

text \<open>Step 1: clip the substring to the acceptable window.\<close>

definition clip :: "u64 \<Rightarrow> u64 \<Rightarrow> u64 \<Rightarrow> bytes \<Rightarrow> u64 \<times> bytes" where
  "clip first_unassembled first_unacceptable first_index data =
     (if first_unacceptable \<le> first_index \<or> first_index + size64 data \<le> first_unassembled
      then (first_index, [])
      else
        let (first_index, data) =
              (if first_index < first_unassembled
               then (first_unassembled, drop (unat (first_unassembled - first_index)) data)
               else (first_index, data))
        in if first_unacceptable < first_index + size64 data
           then (first_index, str_resize (unat (first_unacceptable - first_index)) data)
           else (first_index, data))"

text \<open>Step 2: merge with the immediate predecessor (the last key that is at most \<open>first_index\<close>).\<close>

definition merge_prev ::
  "(u64 \<times> bytes) list \<Rightarrow> u64 \<Rightarrow> bytes \<Rightarrow> ((u64 \<times> bytes) list \<times> u64 \<times> bytes) result" where
  "merge_prev pending first_index data =
     (let upto = takeWhile (\<lambda>(k, _). k \<le> first_index) pending;
          next = dropWhile (\<lambda>(k, _). k \<le> first_index) pending
      in if data = [] \<or> upto = [] then Inr (pending, first_index, data)
         else
           let (prev_index, prev_data) = last upto;
               prev_end = prev_index + size64 prev_data
           in if first_index \<le> prev_end then
                if first_index + size64 data \<le> prev_end then Inr (pending, first_index, [])
                else rbind (str_append_from prev_data data (unat (prev_end - first_index)))
                       (\<lambda>data. Inr (butlast upto @ next, prev_index, data))
              else Inr (pending, first_index, data))"

text \<open>Step 3: absorb every successor that touches or overlaps.\<close>

fun absorb_loop ::
  "(u64 \<times> bytes) list \<Rightarrow> u64 \<Rightarrow> bytes \<Rightarrow> ((u64 \<times> bytes) list \<times> bytes) result" where
  "absorb_loop [] first_index data = Inr ([], data)"
| "absorb_loop ((k, d) # rest) first_index data =
     (if k \<le> first_index + size64 data then
        let next_end = k + size64 d
        in if first_index + size64 data < next_end
           then rbind (str_append_from data d (unat (first_index + size64 data - k)))
                  (absorb_loop rest first_index)
           else absorb_loop rest first_index data
      else Inr ((k, d) # rest, data))"

definition absorb_next ::
  "(u64 \<times> bytes) list \<Rightarrow> u64 \<Rightarrow> bytes \<Rightarrow> (u64 \<times> bytes) list result" where
  "absorb_next pending first_index data =
     (if data = [] then Inr pending
      else
        let before = takeWhile (\<lambda>(k, _). k < first_index) pending;
            from = dropWhile (\<lambda>(k, _). k < first_index) pending
        in rbind (absorb_loop from first_index data)
             (\<lambda>(rest, data). Inr (map_emplace first_index data (before @ rest))))"

text \<open>Step 4: flush the contiguous prefix into the output stream.\<close>

fun flush :: "(u64 \<times> bytes) list \<Rightarrow> byte_stream \<Rightarrow> (u64 \<times> bytes) list \<times> byte_stream" where
  "flush [] out = ([], out)"
| "flush ((k, d) # pending) out =
     (if k = bytes_pushed out then flush pending (Writer_push d out) else ((k, d) # pending, out))"

definition insert :: "u64 \<Rightarrow> bytes \<Rightarrow> bool \<Rightarrow> reassembler \<Rightarrow> reassembler result" where
  "insert first_index data is_last_substring r =
     (let out = ra_output r;
          (end_index, eof_seen) =
            (if is_last_substring then (first_index + size64 data, True)
             else (ra_end_index r, ra_eof_seen r));
          first_unassembled = bytes_pushed out;
          first_unacceptable = first_unassembled + available_capacity out;
          (first_index, data) = clip first_unassembled first_unacceptable first_index data
      in rbind (merge_prev (ra_pending r) first_index data) (\<lambda>(pending, first_index, data).
           rbind (absorb_next pending first_index data) (\<lambda>pending.
             let (pending, out) = flush pending out;
                 out = (if eof_seen \<and> bytes_pushed out = end_index then Writer_close out else out)
             in Inr \<lparr>ra_output = out, ra_pending = pending, ra_end_index = end_index,
                     ra_eof_seen = eof_seen\<rparr>)))"

definition count_bytes_pending :: "reassembler \<Rightarrow> u64" where
  "count_bytes_pending r = fold (\<lambda>(_, data) total. total + size64 data) (ra_pending r) 0"

definition Reassembler_set_error :: "reassembler \<Rightarrow> reassembler" where
  "Reassembler_set_error r = r\<lparr>ra_output := set_error (ra_output r)\<rparr>"

definition Reassembler_has_error :: "reassembler \<Rightarrow> bool" where
  "Reassembler_has_error r = has_error (ra_output r)"

definition Reassembler_close :: "reassembler \<Rightarrow> reassembler" where
  "Reassembler_close r = r\<lparr>ra_output := Writer_close (ra_output r)\<rparr>"

section \<open>Substrings of a stream\<close>

definition substr_at :: "bytes \<Rightarrow> nat \<Rightarrow> bytes \<Rightarrow> bool" where
  "substr_at s k d \<longleftrightarrow> take (length d) (drop k s) = d"

lemma substr_at_Nil [simp]: "substr_at s k []"
  by (simp add: substr_at_def)

lemma substr_at_iff: "substr_at s k d \<longleftrightarrow> (\<exists>rest. drop k s = d @ rest)"
  unfolding substr_at_def by (metis append_eq_conv_conj append_take_drop_id)

lemma substr_atI: "drop k s = d @ rest \<Longrightarrow> substr_at s k d"
  by (auto simp: substr_at_iff)

lemma substr_at_bound: "substr_at s k d \<Longrightarrow> d \<noteq> [] \<Longrightarrow> k + length d \<le> length s"
  by (auto simp: substr_at_iff dest!: arg_cong [where f = length] simp flip: length_greater_0_conv)

lemma substr_at_drop:
  assumes "substr_at s k d"
  shows "substr_at s (k + n) (drop n d)"
proof -
  obtain rest where "drop k s = d @ rest" using assms by (auto simp: substr_at_iff)
  then have "drop (k + n) s = drop n d @ drop (n - length d) rest"
    by (metis add.commute drop_append drop_drop)
  then show ?thesis by (rule substr_atI)
qed

lemma substr_at_take:
  assumes "substr_at s k d"
  shows "substr_at s k (take n d)"
proof -
  obtain rest where "drop k s = d @ rest" using assms by (auto simp: substr_at_iff)
  then have "drop k s = take n d @ (drop n d @ rest)" by simp
  then show ?thesis by (rule substr_atI)
qed

lemma substr_at_append:
  assumes "substr_at s k d" and "substr_at s (k + length d) e"
  shows "substr_at s k (d @ e)"
proof -
  obtain ys where ys: "drop k s = d @ ys" using assms(1) by (auto simp: substr_at_iff)
  then have "drop (k + length d) s = ys" by (metis add.commute append_eq_conv_conj drop_drop)
  with assms(2) ys show ?thesis by (auto simp: substr_at_iff)
qed

lemma substr_at_join:
  assumes "substr_at s k d" and "substr_at s k' e" and "k' \<le> k + length d"
  shows "substr_at s k (d @ drop (k + length d - k') e)"
  using substr_at_append [OF assms(1)] substr_at_drop [OF assms(2), of "k + length d - k'"] assms(3)
  by simp

section \<open>Windows of pending substrings\<close>

text \<open>
  \<open>pend_ok lo hi m\<close>: the entries of \<open>m\<close> are non-empty, lie in ascending order strictly above
  \<open>lo\<close>, never overlap or touch, and end at \<open>hi\<close> at the latest.  \<open>cover m\<close> is the set of
  stream indices they hold.
\<close>

fun pend_ok :: "nat \<Rightarrow> nat \<Rightarrow> (u64 \<times> bytes) list \<Rightarrow> bool" where
  "pend_ok lo hi [] \<longleftrightarrow> True"
| "pend_ok lo hi ((k, d) # m) \<longleftrightarrow>
     lo < unat k \<and> d \<noteq> [] \<and> unat k + length d \<le> hi \<and> pend_ok (unat k + length d) hi m"

definition cover :: "(u64 \<times> bytes) list \<Rightarrow> nat set" where
  "cover m = (\<Union>(k, d) \<in> set m. {unat k ..< unat k + length d})"

lemma cover_simps [simp]:
  "cover [] = {}" "cover ((k, d) # m) = {unat k ..< unat k + length d} \<union> cover m"
  "cover (m @ m') = cover m \<union> cover m'"
  by (auto simp: cover_def)

lemma pend_ok_mono: "pend_ok lo hi m \<Longrightarrow> lo' \<le> lo \<Longrightarrow> hi \<le> hi' \<Longrightarrow> pend_ok lo' hi' m"
  by (induction lo hi m arbitrary: lo' rule: pend_ok.induct) auto

lemma pend_ok_entry:
  "pend_ok lo hi m \<Longrightarrow> (k, d) \<in> set m \<Longrightarrow> lo < unat k \<and> d \<noteq> [] \<and> unat k + length d \<le> hi"
  by (induction lo hi m rule: pend_ok.induct) (auto dest: pend_ok_mono)

lemma pend_ok_append:
  "pend_ok lo hi (m @ m') \<longleftrightarrow>
     pend_ok lo hi m \<and> pend_ok (if m = [] then lo else case last m of (k, d) \<Rightarrow> unat k + length d) hi m'"
  by (induction lo hi m rule: pend_ok.induct) auto

lemma pend_ok_snoc:
  "pend_ok lo hi (m @ [(k, d)]) \<longleftrightarrow>
     pend_ok lo (unat k - 1) m \<and> lo < unat k \<and> d \<noteq> [] \<and> unat k + length d \<le> hi"
  by (induction lo hi m rule: pend_ok.induct) auto

lemma pend_ok_cover: "pend_ok lo hi m \<Longrightarrow> cover m \<subseteq> {lo <..< hi}"
  by (auto simp: cover_def dest: pend_ok_entry)

lemma pend_ok_rebase:
  "pend_ok lo hi m \<Longrightarrow> \<forall>(k, d) \<in> set m. lo' < unat k \<Longrightarrow> pend_ok lo' hi m"
  by (cases m) auto

text \<open>Splitting at a key, as \<^verbatim>\<open>upper_bound\<close> and \<^verbatim>\<open>lower_bound\<close> do.\<close>

lemma upper_bound_keys:
  "pend_ok lo hi m \<Longrightarrow> (k, d) \<in> set (dropWhile (\<lambda>(k, _). k \<le> x) m) \<Longrightarrow> unat x < unat k"
proof (induction lo hi m rule: pend_ok.induct)
  case (2 lo hi k' d' m)
  show ?case
  proof (cases "k' \<le> x")
    case False
    then have "unat x < unat k'" by (simp add: word_le_nat_alt)
    moreover have "unat k' \<le> unat k" using 2 False by (auto dest: pend_ok_entry)
    ultimately show ?thesis by simp
  qed (use 2 in auto)
qed simp

lemma lower_bound_split:
  assumes "\<forall>(k, d) \<in> set a. unat k < unat x" and "\<forall>(k, d) \<in> set b. unat x < unat k"
  shows "takeWhile (\<lambda>(k, _). k < x) (a @ b) = a" and "dropWhile (\<lambda>(k, _). k < x) (a @ b) = b"
proof -
  have a: "\<forall>y \<in> set a. (\<lambda>(k, _). k < x) y" using assms(1) by (auto simp: word_less_nat_alt)
  have b: "b = [] \<or> \<not> (\<lambda>(k, _). k < x) (hd b)"
    using assms(2) by (cases b) (auto simp: word_less_nat_alt)
  show "takeWhile (\<lambda>(k, _). k < x) (a @ b) = a"
    using a b by (cases b) (auto simp: takeWhile_append takeWhile_eq_all_conv)
  show "dropWhile (\<lambda>(k, _). k < x) (a @ b) = b"
    using a b by (cases b) (auto simp: dropWhile_append dropWhile_eq_Nil_conv)
qed

lemma map_emplace_mid:
  "\<forall>(k, d) \<in> set a. unat k < unat x \<Longrightarrow> \<forall>(k, d) \<in> set b. unat x < unat k \<Longrightarrow>
   map_emplace x v (a @ b) = a @ (x, v) # b"
proof (induction a)
  case Nil
  then show ?case by (cases b) (auto simp: word_less_nat_alt)
next
  case (Cons y a)
  then show ?case by (cases y) (auto simp: word_less_nat_alt)
qed

section \<open>The steps of insert\<close>

abbreviation span :: "u64 \<Rightarrow> bytes \<Rightarrow> nat set" where
  "span k d \<equiv> {unat k ..< unat k + length d}"

abbreviation all_substr :: "bytes \<Rightarrow> (u64 \<times> bytes) list \<Rightarrow> bool" where
  "all_substr s m \<equiv> (\<forall>(k, d) \<in> set m. substr_at s (unat k) d)"

lemma clip_ok:
  assumes "unat lo \<le> unat hi" and "unat fi + length data < 2 ^ 64" and "substr_at s (unat fi) data"
  shows "\<exists>fi' data'. clip lo hi fi data = (fi', data') \<and> substr_at s (unat fi') data'
    \<and> span fi' data' = span fi data \<inter> {unat lo ..< unat hi}
    \<and> (data' \<noteq> [] \<longrightarrow> unat lo \<le> unat fi' \<and> unat fi' + length data' \<le> unat hi)"
proof (cases "hi \<le> fi \<or> fi + size64 data \<le> lo")
  case True
  then have "span fi data \<inter> {unat lo ..< unat hi} = {}"
    using unat_add_size64 [OF assms(2)] by (auto simp: word_le_nat_alt)
  then show ?thesis using True by (auto simp: clip_def)
next
  case False
  then have out: "unat fi < unat hi" "unat lo < unat fi + length data"
    using unat_add_size64 [OF assms(2)] by (auto simp: word_le_nat_alt)
  define fi1 where "fi1 = (if fi < lo then lo else fi)"
  define d1 where "d1 = (if fi < lo then drop (unat (lo - fi)) data else data)"
  have fi1: "unat fi1 = max (unat lo) (unat fi)" by (auto simp: fi1_def word_less_nat_alt)
  have d1: "d1 = drop (unat fi1 - unat fi) data"
    by (auto simp: d1_def fi1_def word_less_nat_alt unat_sub word_le_nat_alt)
  have len1: "unat fi1 + length d1 = unat fi + length data" using out fi1 d1 by auto
  have sub1: "substr_at s (unat fi1) d1"
    using substr_at_drop [OF assms(3), of "unat fi1 - unat fi"] fi1 d1 by simp
  have end1: "unat (fi1 + size64 d1) = unat fi + length data"
    using len1 assms(2) by (simp add: unat_add_size64)
  have eq: "clip lo hi fi data =
      (fi1, if hi < fi1 + size64 d1 then str_resize (unat (hi - fi1)) d1 else d1)"
    using False by (auto simp: clip_def fi1_def d1_def Let_def)
  show ?thesis
  proof (cases "hi < fi1 + size64 d1")
    case True
    then have "unat hi < unat fi + length data" using end1 by (simp add: word_less_nat_alt)
    moreover have "unat (hi - fi1) = unat hi - unat fi1"
      using out fi1 assms(1) by (simp add: unat_sub word_le_nat_alt)
    ultimately show ?thesis
      using eq True len1 fi1 out assms(1) substr_at_take [OF sub1] by auto
  next
    case notgt: False
    then have "unat fi + length data \<le> unat hi" using end1 by (simp add: word_less_nat_alt)
    then show ?thesis using eq notgt len1 fi1 out sub1 by auto
  qed
qed

text \<open>
  What step 2 leaves for step 3: the entries \<open>a\<close> that end below the working segment, the
  entries \<open>b\<close> that start above its first index, and the working segment itself.
\<close>

definition merge_post ::
  "bytes \<Rightarrow> nat \<Rightarrow> nat \<Rightarrow> nat set \<Rightarrow> (u64 \<times> bytes) list \<Rightarrow> (u64 \<times> bytes) list \<Rightarrow> u64 \<Rightarrow> bytes \<Rightarrow> bool"
  where
  "merge_post s lo hi held a b fi d \<longleftrightarrow> d \<noteq> [] \<and> lo \<le> unat fi \<and> unat fi + length d \<le> hi
     \<and> pend_ok lo (unat fi - 1) a \<and> (a \<noteq> [] \<longrightarrow> lo < unat fi) \<and> pend_ok (unat fi) hi b
     \<and> all_substr s (a @ b) \<and> substr_at s (unat fi) d \<and> cover a \<union> span fi d \<union> cover b = held"

lemma merge_prev_ok:
  assumes m: "pend_ok lo hi m" "all_substr s m"
    and data: "substr_at s (unat fi) data" "data \<noteq> []" "lo \<le> unat fi" "unat fi + length data \<le> hi"
    and hi: "hi < 2 ^ 64"
  shows "(merge_prev m fi data = Inr (m, fi, []) \<and> span fi data \<subseteq> cover m) \<or>
    (\<exists>a b fi' d'. merge_prev m fi data = Inr (a @ b, fi', d')
       \<and> merge_post s lo hi (cover m \<union> span fi data) a b fi' d')"
proof -
  define a where "a = takeWhile (\<lambda>(k, _). k \<le> fi) m"
  define b where "b = dropWhile (\<lambda>(k, _). k \<le> fi) m"
  have ab: "m = a @ b" by (simp add: a_def b_def)
  have b_gt: "\<forall>(k, d) \<in> set b. unat fi < unat k"
    using upper_bound_keys [OF m(1)] by (auto simp: b_def)
  show ?thesis
  proof (cases "a = []")
    case True
    then have "merge_prev m fi data = Inr ([] @ m, fi, data)"
      by (simp add: merge_prev_def a_def Let_def)
    moreover have "pend_ok (unat fi) hi m"
      using m(1) b_gt ab True by (auto intro: pend_ok_rebase)
    ultimately show ?thesis using m(2) data unfolding merge_post_def by fastforce
  next
    case False
    then obtain a0 pk pd where a: "a = a0 @ [(pk, pd)]" by (metis rev_exhaust surj_pair)
    have pk_le: "unat pk \<le> unat fi"
      using set_takeWhileD [of "(pk, pd)" "\<lambda>(k, _). k \<le> fi" m] a a_def by (simp add: word_le_nat_alt)
    have ok: "pend_ok lo (unat pk - 1) a0" "lo < unat pk" "pd \<noteq> []" "unat pk + length pd \<le> hi"
        "pend_ok (unat pk + length pd) hi b"
      using m(1) pend_ok_append [of lo hi a b] pend_ok_snoc [of lo hi a0 pk pd] by (simp_all add: ab a)
    have b_ok: "pend_ok (unat fi) hi b" using ok(5) b_gt by (rule pend_ok_rebase)
    have p_end: "unat (pk + size64 pd) = unat pk + length pd"
      using ok(4) hi by (simp add: unat_add_size64)
    have d_end: "unat (fi + size64 data) = unat fi + length data"
      using data(4) hi by (simp add: unat_add_size64)
    have sub: "substr_at s (unat pk) pd" "all_substr s (a0 @ b)" using m(2) ab a by auto
    have cov: "cover m = cover a0 \<union> span pk pd \<union> cover b" by (auto simp: ab a)
    have eq: "merge_prev m fi data =
        (if fi \<le> pk + size64 pd then
           if fi + size64 data \<le> pk + size64 pd then Inr (m, fi, [])
           else rbind (str_append_from pd data (unat (pk + size64 pd - fi)))
                  (\<lambda>data. Inr (a0 @ b, pk, data))
         else Inr (m, fi, data))"
      using data(2) False by (simp add: merge_prev_def a_def [symmetric] b_def [symmetric] a Let_def)
    show ?thesis
    proof (cases "fi \<le> pk + size64 pd")
      case near: True
      then have near': "unat fi \<le> unat pk + length pd" using p_end by (simp add: word_le_nat_alt)
      show ?thesis
      proof (cases "fi + size64 data \<le> pk + size64 pd")
        case True
        then have "span fi data \<subseteq> span pk pd" using p_end d_end pk_le by (auto simp: word_le_nat_alt)
        then show ?thesis using eq near True cov by auto
      next
        case past: False
        then have past': "unat pk + length pd < unat fi + length data"
          using p_end d_end by (simp add: word_le_nat_alt)
        let ?o = "unat pk + length pd - unat fi"
        have o: "unat (pk + size64 pd - fi) = ?o" using near p_end by (simp add: unat_sub)
        have res: "merge_prev m fi data = Inr (a0 @ b, pk, pd @ drop ?o data)"
          using eq near past o past' near' by simp
        have "pend_ok (unat pk) hi b" using ok(5) by (rule pend_ok_mono) simp_all
        moreover have "substr_at s (unat pk) (pd @ drop ?o data)"
          using sub(1) data(1) near' by (rule substr_at_join)
        ultimately have "merge_post s lo hi (cover m \<union> span fi data) a0 b pk (pd @ drop ?o data)"
          using ok(1-4) sub(2) data(4) near' past' pk_le cov by (auto simp: merge_post_def)
        with res show ?thesis by blast
      qed
    next
      case far: False
      then have "unat pk + length pd < unat fi" using p_end by (simp add: word_le_nat_alt)
      then have "pend_ok lo (unat fi - 1) a" using ok by (simp add: a pend_ok_snoc)
      then have "merge_post s lo hi (cover m \<union> span fi data) a b fi data"
        using b_ok data m(2) ab ok(2) pk_le by (auto simp: merge_post_def)
      with eq far ab show ?thesis by auto
    qed
  qed
qed

lemma absorb_loop_ok:
  assumes "pend_ok (unat fi) hi b" and "all_substr s b"
    and "substr_at s (unat fi) d" and "unat fi + length d \<le> hi" and "hi < 2 ^ 64"
  shows "\<exists>rest d'. absorb_loop b fi d = Inr (rest, d') \<and> length d \<le> length d' \<and> unat fi + length d' \<le> hi
    \<and> pend_ok (unat fi + length d') hi rest \<and> set rest \<subseteq> set b \<and> substr_at s (unat fi) d'
    \<and> span fi d' \<union> cover rest = span fi d \<union> cover b"
  using assms
proof (induction b arbitrary: d)
  case (Cons x rest)
  obtain k e where x: "x = (k, e)" by (cases x)
  have ok: "unat fi < unat k" "e \<noteq> []" "unat k + length e \<le> hi" "pend_ok (unat k + length e) hi rest"
    using Cons.prems(1) by (simp_all add: x)
  have rest_ok: "pend_ok (unat fi) hi rest" using ok(4) by (rule pend_ok_mono) (use ok(1) in simp_all)
  have d_end: "unat (fi + size64 d) = unat fi + length d"
    using Cons.prems(4,5) by (simp add: unat_add_size64)
  have e_end: "unat (k + size64 e) = unat k + length e"
    using ok(3) Cons.prems(5) by (simp add: unat_add_size64)
  show ?case
  proof (cases "k \<le> fi + size64 d")
    case near: True
    then have near': "unat k \<le> unat fi + length d" using d_end by (simp add: word_le_nat_alt)
    define d1 where "d1 = (if fi + size64 d < k + size64 e
       then d @ drop (unat fi + length d - unat k) e else d)"
    have o: "unat (fi + size64 d - k) = unat fi + length d - unat k"
      using near d_end by (simp add: unat_sub)
    have eq: "absorb_loop (x # rest) fi d = absorb_loop rest fi d1"
      using near near' o e_end d_end by (auto simp: x d1_def Let_def word_less_nat_alt)
    have len: "unat fi + length d1 = max (unat fi + length d) (unat k + length e)"
      using near' e_end d_end by (auto simp: d1_def word_less_nat_alt)
    have "substr_at s (unat fi) d1"
      using substr_at_join [OF Cons.prems(3) _ near'] Cons.prems(2,3) by (auto simp: d1_def x)
    then obtain r d' where "absorb_loop rest fi d1 = Inr (r, d')" "length d1 \<le> length d'"
        "unat fi + length d' \<le> hi" "pend_ok (unat fi + length d') hi r" "set r \<subseteq> set rest"
        "substr_at s (unat fi) d'" "span fi d' \<union> cover r = span fi d1 \<union> cover rest"
      using Cons.IH [of d1] rest_ok Cons.prems len ok by auto
    moreover have "span fi d1 = span fi d \<union> span k e" using len ok(1) near' by auto
    ultimately show ?thesis using eq len by (auto simp: x)
  next
    case far: False
    then have "unat fi + length d < unat k" using d_end by (simp add: word_le_nat_alt)
    with far show ?thesis using Cons.prems ok by (auto simp: x)
  qed
qed simp

text \<open>Before the flush, the first entry may start exactly at the first unassembled byte.\<close>

definition pend_ready :: "nat \<Rightarrow> nat \<Rightarrow> (u64 \<times> bytes) list \<Rightarrow> bool" where
  "pend_ready lo hi m \<longleftrightarrow> pend_ok lo hi m \<or>
     (\<exists>k d rest. m = (k, d) # rest \<and> unat k = lo \<and> d \<noteq> [] \<and> lo + length d \<le> hi
        \<and> pend_ok (lo + length d) hi rest)"

lemma absorb_next_ok:
  assumes "merge_post s lo hi held a b fi d" and "hi < 2 ^ 64"
  shows "\<exists>m. absorb_next (a @ b) fi d = Inr m \<and> pend_ready lo hi m \<and> all_substr s m \<and> cover m = held"
proof -
  note mp = assms(1) [unfolded merge_post_def]
  have a_lt: "\<forall>(k, e) \<in> set a. unat k < unat fi"
    using mp by (auto dest!: pend_ok_entry simp flip: length_greater_0_conv)
  have b_gt: "\<forall>(k, e) \<in> set b. unat fi < unat k"
    using mp by (auto dest!: pend_ok_entry)
  obtain rest d' where r: "absorb_loop b fi d = Inr (rest, d')" "length d \<le> length d'"
      "unat fi + length d' \<le> hi" "pend_ok (unat fi + length d') hi rest" "set rest \<subseteq> set b"
      "substr_at s (unat fi) d'" "span fi d' \<union> cover rest = span fi d \<union> cover b"
    using absorb_loop_ok [of fi hi b s d] mp assms(2) by auto
  have rest_gt: "\<forall>(k, e) \<in> set rest. unat fi < unat k" using b_gt r(5) by auto
  have eq: "absorb_next (a @ b) fi d = Inr (a @ (fi, d') # rest)"
    using mp r(1) lower_bound_split [OF a_lt b_gt] map_emplace_mid [OF a_lt rest_gt]
    by (simp add: absorb_next_def)
  have d': "d' \<noteq> []" using mp r(2) by auto
  have "pend_ready lo hi (a @ (fi, d') # rest)"
  proof (cases "a = [] \<and> unat fi = lo")
    case True
    then show ?thesis using r d' by (auto simp: pend_ready_def)
  next
    case False
    then have "lo < unat fi" using mp by auto
    then have "pend_ok lo hi (a @ [(fi, d')])" using mp d' r(3) by (simp add: pend_ok_snoc)
    then have "pend_ok lo hi ((a @ [(fi, d')]) @ rest)"
      using r(4) by (subst pend_ok_append) simp
    then show ?thesis by (simp add: pend_ready_def)
  qed
  moreover have "all_substr s (a @ (fi, d') # rest)" using mp r(5,6) by auto
  moreover have "cover (a @ (fi, d') # rest) = held" using mp r(7) by auto
  ultimately show ?thesis using eq by blast
qed

lemma flush_stuck: "pend_ok (unat (bytes_pushed out)) hi m \<Longrightarrow> flush m out = (m, out)"
  by (cases m) auto

lemma flush_ok:
  assumes "bs_wf out" and "lo = unat (bytes_pushed out)" and "hi = lo + unat (available_capacity out)"
    and "hi < 2 ^ 64" and "pend_ready lo hi m" and "all_substr s m"
  shows "\<exists>d m'. flush m out = (m', Writer_push d out) \<and> length d \<le> unat (available_capacity out)
    \<and> substr_at s lo d \<and> pend_ok (lo + length d) hi m' \<and> all_substr s m'
    \<and> {..<lo + length d} \<union> cover m' = {..<lo} \<union> cover m"
  using assms(5) unfolding pend_ready_def
proof (elim disjE exE conjE)
  assume "pend_ok lo hi m"
  then show ?thesis using flush_stuck assms
    by (intro exI [of _ "[]"] exI [of _ m]) auto
next
  fix k d rest
  assume m: "m = (k, d) # rest" "unat k = lo" "d \<noteq> []" "lo + length d \<le> hi" "pend_ok (lo + length d) hi rest"
  then have k: "k = bytes_pushed out" using assms(2) by (simp add: word_unat_eq_iff)
  have fits: "length d \<le> unat (available_capacity out)" using m(4) assms(3) by simp
  have "unat (bytes_pushed (Writer_push d out)) = lo + length d"
    using Writer_push_ok(3) [OF assms(1), of d] fits m(4) assms(2,4) by (simp add: unat_add_size64)
  then have "flush rest (Writer_push d out) = (rest, Writer_push d out)"
    using m(5) by (intro flush_stuck) simp
  then show ?thesis using m k fits assms(2,6)
    by (intro exI [of _ d] exI [of _ rest]) auto
qed

section \<open>The invariant\<close>

text \<open>
  \<open>ra_inv s r\<close>: everything \<open>r\<close> holds comes from the stream \<open>s\<close>.  The output stream has been
  given a prefix of \<open>s\<close>; the pending entries lie, sorted and with gaps, strictly between the
  first unassembled and the first unacceptable byte; the end of the stream, once seen, is the
  end of \<open>s\<close>; the output is closed exactly when all of \<open>s\<close> is assembled (or after an error).
  The indices never reach \<open>2 ^ 64\<close>.
\<close>

definition assembled :: "reassembler \<Rightarrow> nat" where
  "assembled r = unat (bytes_pushed (ra_output r))"

definition window_end :: "reassembler \<Rightarrow> nat" where
  "window_end r = unat (bytes_popped (ra_output r)) + unat (bs_capacity (ra_output r))"

definition held :: "reassembler \<Rightarrow> nat set" where
  "held r = {..<assembled r} \<union> cover (ra_pending r)"

definition ra_inv :: "bytes \<Rightarrow> reassembler \<Rightarrow> bool" where
  "ra_inv s r \<longleftrightarrow>
     (let out = ra_output r
      in bs_wf out \<and> length s + unat (bs_capacity out) < 2 ^ 64
       \<and> assembled r = unat (bytes_popped out) + length (bs_content out)
       \<and> substr_at s (unat (bytes_popped out)) (bs_content out) \<and> assembled r \<le> length s
       \<and> pend_ok (assembled r) (window_end r) (ra_pending r) \<and> all_substr s (ra_pending r)
       \<and> (ra_eof_seen r \<longrightarrow> unat (ra_end_index r) = length s
            \<and> (assembled r = length s \<longrightarrow> is_closed out))
       \<and> (is_closed out \<longrightarrow> has_error out \<or> ra_eof_seen r \<and> assembled r = length s))"

lemma ra_inv_new: "length s + unat c < 2 ^ 64 \<Longrightarrow> ra_inv s (Reassembler_new (ByteStream_new c))"
  by (simp add: ra_inv_def Reassembler_new_def bs_wf_new assembled_def is_closed_def)
    (simp add: ByteStream_new_def bytes_pushed_def bytes_popped_def)

lemma ra_inv_window:
  assumes "ra_inv s r"
  shows "window_end r < 2 ^ 64" and "assembled r \<le> window_end r"
    and "window_end r = assembled r + unat (available_capacity (ra_output r))"
    and "unat (bytes_pushed (ra_output r) + available_capacity (ra_output r)) = window_end r"
proof -
  let ?out = "ra_output r"
  have wf: "bs_wf ?out" and le: "assembled r \<le> length s" "length s + unat (bs_capacity ?out) < 2 ^ 64"
    and eq: "assembled r = unat (bytes_popped ?out) + length (bs_content ?out)"
    using assms by (simp_all add: ra_inv_def Let_def)
  show lt: "window_end r < 2 ^ 64" using le eq by (simp add: window_end_def)
  have "length (bs_content ?out) \<le> unat (bs_capacity ?out)" using wf by (simp add: bs_wf_def)
  then show w: "window_end r = assembled r + unat (available_capacity ?out)"
    using unat_available_capacity [OF wf] eq by (simp add: window_end_def)
  then show "assembled r \<le> window_end r" by simp
  show "unat (bytes_pushed ?out + available_capacity ?out) = window_end r"
    using w lt by (simp add: unat_add_u64 assembled_def)
qed

lemma store_ok:
  assumes "pend_ok lo hi m" and "all_substr s m" and "substr_at s (unat fi) d"
    and "d \<noteq> [] \<longrightarrow> lo \<le> unat fi \<and> unat fi + length d \<le> hi" and "hi < 2 ^ 64"
  shows "\<exists>m1 fi1 d1 m'. merge_prev m fi d = Inr (m1, fi1, d1) \<and> absorb_next m1 fi1 d1 = Inr m'
    \<and> pend_ready lo hi m' \<and> all_substr s m' \<and> cover m' = cover m \<union> span fi d"
proof (cases "d = []")
  case True
  then show ?thesis using assms(1,2) by (simp add: merge_prev_def absorb_next_def pend_ready_def Let_def)
next
  case False
  from merge_prev_ok [OF assms(1-3) False _ _ assms(5)] assms(4) False
  consider "merge_prev m fi d = Inr (m, fi, [])" "span fi d \<subseteq> cover m"
    | a b fi' d' where "merge_prev m fi d = Inr (a @ b, fi', d')"
        "merge_post s lo hi (cover m \<union> span fi d) a b fi' d'"
    by blast
  then show ?thesis
  proof cases
    case 1
    then show ?thesis using assms(1,2) by (auto simp: absorb_next_def pend_ready_def)
  next
    case 2
    then show ?thesis using absorb_next_ok [OF 2(2) assms(5)] by blast
  qed
qed

lemma insert_ok:
  assumes inv: "ra_inv s r" and sub: "substr_at s (unat fi) data"
    and fits: "unat fi + length data < 2 ^ 64" and last: "is_last \<longrightarrow> unat fi + length data = length s"
  shows "\<exists>r'. insert fi data is_last r = Inr r' \<and> ra_inv s r'
    \<and> held r' = held r \<union> (span fi data \<inter> {..<window_end r}) \<and> window_end r' = window_end r
    \<and> bytes_popped (ra_output r') = bytes_popped (ra_output r)
    \<and> has_error (ra_output r') = has_error (ra_output r) \<and> ra_eof_seen r' = (is_last \<or> ra_eof_seen r)
    \<and> bs_capacity (ra_output r') = bs_capacity (ra_output r)"
proof -
  let ?out = "ra_output r" and ?lo = "assembled r" and ?hi = "window_end r"
  note win = ra_inv_window [OF inv]
  note I = inv [unfolded ra_inv_def Let_def]
  have wf: "bs_wf ?out" using I by simp
  obtain fi1 d1 where clip: "clip (bytes_pushed ?out) (bytes_pushed ?out + available_capacity ?out) fi data = (fi1, d1)"
      "substr_at s (unat fi1) d1" "span fi1 d1 = span fi data \<inter> {?lo ..< ?hi}"
      "d1 \<noteq> [] \<longrightarrow> ?lo \<le> unat fi1 \<and> unat fi1 + length d1 \<le> ?hi"
    using clip_ok [OF _ fits sub, of "bytes_pushed ?out" "bytes_pushed ?out + available_capacity ?out"] win
    by (auto simp: assembled_def)
  obtain m1 fi2 d2 m2 where store: "merge_prev (ra_pending r) fi1 d1 = Inr (m1, fi2, d2)"
      "absorb_next m1 fi2 d2 = Inr m2" "pend_ready ?lo ?hi m2" "all_substr s m2"
      "cover m2 = cover (ra_pending r) \<union> span fi1 d1"
    using store_ok [OF _ _ clip(2,4) win(1)] I by blast
  obtain d m3 where fl: "flush m2 ?out = (m3, Writer_push d ?out)"
      "length d \<le> unat (available_capacity ?out)" "substr_at s ?lo d" "pend_ok (?lo + length d) ?hi m3"
      "all_substr s m3" "{..<?lo + length d} \<union> cover m3 = {..<?lo} \<union> cover m2"
    using flush_ok [OF wf assembled_def win(3,1) store(3,4)] by blast
  define ei where "ei = (if is_last then fi + size64 data else ra_end_index r)"
  define eof where "eof = (is_last \<or> ra_eof_seen r)"
  define out1 where "out1 = Writer_push d ?out"
  define out2 where "out2 = (if eof \<and> bytes_pushed out1 = ei then Writer_close out1 else out1)"
  define r' where "r' = \<lparr>ra_output = out2, ra_pending = m3, ra_end_index = ei, ra_eof_seen = eof\<rparr>"
  have res: "insert fi data is_last r = Inr r'"
    using clip(1) store(1,2) fl(1)
    by (auto simp: insert_def Let_def r'_def out2_def out1_def ei_def eof_def)
  have push: "bs_wf out1" "bs_content out1 = bs_content ?out @ d" "bytes_pushed out1 = bytes_pushed ?out + size64 d"
    using Writer_push_ok [OF wf, of d] fl(2) by (simp_all add: out1_def)
  have out2: "bs_wf out2" "bs_content out2 = bs_content ?out @ d" "bytes_pushed out2 = bytes_pushed out1"
      "bytes_popped out2 = bytes_popped ?out" "bs_capacity out2 = bs_capacity ?out"
      "bs_error out2 = bs_error ?out" "bs_closed out2 = (eof \<and> bytes_pushed out1 = ei \<or> bs_closed ?out)"
    using push by (auto simp: out2_def Writer_close_def bytes_pushed_def bytes_popped_def out1_def)
  have asm: "assembled r' = ?lo + length d"
    using push(3) out2(3) fl(2) win(1,3) by (simp add: r'_def assembled_def unat_add_size64)
  have win': "window_end r' = ?hi" using out2 by (simp add: window_end_def r'_def)
  have bound: "?lo + length d \<le> length s" using fl(3) I substr_at_bound [of s ?lo d] by (cases "d = []") auto
  have sub': "substr_at s (unat (bytes_popped ?out)) (bs_content ?out @ d)"
    using I fl(3) by (intro substr_at_append) simp_all
  have ei: "eof \<longrightarrow> unat ei = length s"
    using I last fits by (auto simp: ei_def eof_def unat_add_size64)
  have full: "eof \<and> bytes_pushed out1 = ei \<longleftrightarrow> eof \<and> assembled r' = length s"
    using ei out2(3) by (auto simp: r'_def assembled_def word_unat_eq_iff)
  have "ra_inv s r'"
    using I out2 asm win' bound sub' fl(4,5) ei full
    by (auto simp: ra_inv_def Let_def r'_def eof_def is_closed_def has_error_def)
  moreover have "held r' = held r \<union> (span fi data \<inter> {..<?hi})"
    using fl(6) store(5) clip(3) asm by (auto simp: held_def r'_def)
  ultimately show ?thesis
    using res win' out2 by (auto simp: r'_def eof_def has_error_def)
qed

lemma ra_invD:
  assumes "ra_inv s r"
  shows "bs_wf (ra_output r)" and "assembled r \<le> length s"
    and "pend_ok (assembled r) (window_end r) (ra_pending r)" and "all_substr s (ra_pending r)"
  using assms unfolding ra_inv_def Let_def by blast+

lemma assembled_notin_held: "ra_inv s r \<Longrightarrow> assembled r \<notin> held r"
  using pend_ok_cover [OF ra_invD(3), of s r] by (auto simp: held_def)

lemma ra_inv_content:
  assumes "ra_inv s r"
  shows "bs_content (ra_output r) = drop (unat (bytes_popped (ra_output r))) (take (assembled r) s)"
  using assms by (auto simp: ra_inv_def Let_def substr_at_def drop_take)

text \<open>Reading from the output moves the window and keeps the invariant.\<close>

lemma ra_inv_pop:
  assumes "ra_inv s r"
  shows "\<exists>out'. Reader_pop n (ra_output r) = Inr out' \<and> ra_inv s (r\<lparr>ra_output := out'\<rparr>)
    \<and> window_end r \<le> window_end (r\<lparr>ra_output := out'\<rparr>) \<and> held (r\<lparr>ra_output := out'\<rparr>) = held r"
proof -
  let ?out = "ra_output r"
  note I = assms [unfolded ra_inv_def Let_def]
  obtain out' where o: "Reader_pop n ?out = Inr out'" "bs_wf out'" "bs_frame out' = bs_frame ?out"
      "bs_content out' = drop (unat n) (bs_content ?out)"
    using Reader_pop_ok [of ?out n] I by blast
  let ?r = "r\<lparr>ra_output := out'\<rparr>" and ?k = "min (unat n) (length (bs_content ?out))"
  have fr: "bs_capacity out' = bs_capacity ?out" "bytes_pushed out' = bytes_pushed ?out"
      "has_error out' = has_error ?out" "is_closed out' = is_closed ?out"
    using o(3) by (auto simp: bs_frame_def bytes_pushed_def has_error_def is_closed_def)
  have "bytes_popped out' = bytes_pushed out' - of_nat (length (bs_content out'))"
    using o(2) by (simp add: bs_wf_def bytes_pushed_def bytes_popped_def algebra_simps)
  moreover have "unat (of_nat (length (bs_content out')) :: u64) = length (bs_content out')"
    using bs_wf_length [OF o(2)] by (simp add: unat_of_nat_u64)
  moreover have "length (bs_content out') \<le> assembled r" using I o(4) by simp
  ultimately have "unat (bytes_popped out') = assembled r - length (bs_content out')"
    using fr(2) by (simp add: unat_sub word_le_nat_alt assembled_def)
  then have pop: "unat (bytes_popped out') = unat (bytes_popped ?out) + ?k" using I o(4) by simp
  have asm: "assembled ?r = assembled r" by (simp add: assembled_def fr)
  have win: "window_end r \<le> window_end ?r" using pop fr(1) by (simp add: window_end_def)
  have pnd: "pend_ok (assembled ?r) (window_end ?r) (ra_pending r)"
    using I win asm pend_ok_mono by fastforce
  have "substr_at s (unat (bytes_popped out')) (bs_content out')"
    using I substr_at_drop [of s "unat (bytes_popped ?out)" "bs_content ?out" ?k] pop o(4)
    by (cases "unat n \<le> length (bs_content ?out)") (simp_all add: min_def)
  then have "ra_inv s ?r"
    using I o(2,4) pop fr asm pnd by (auto simp: ra_inv_def Let_def min_def)
  then show ?thesis using o(1) win asm by (simp add: held_def)
qed

section \<open>Correctness\<close>

text \<open>
  C11. One insertion: given a substring of the stream \<open>s\<close> (marked last only if it ends \<open>s\<close>),
  \<open>insert\<close> succeeds, keeps the invariant, and the set of stream indices the reassembler holds
  grows by exactly the part of the substring inside the window.  The prefix written to the
  output is as long as it can be: the next index is not held.  The output still shows bytes of
  \<open>s\<close> at their places.
\<close>

theorem reassembler_insert:
  assumes "ra_inv s r" and "substr_at s (unat first_index) data"
    and "unat first_index + length data < 2 ^ 64"
    and "is_last \<Longrightarrow> unat first_index + length data = length s"
  shows "\<exists>r'. insert first_index data is_last r = Inr r' \<and> ra_inv s r' \<and>
    held r' = held r \<union> ({unat first_index ..< unat first_index + length data} \<inter> {..<window_end r}) \<and>
    {..<assembled r'} \<subseteq> held r' \<and> assembled r' \<notin> held r' \<and>
    bs_content (ra_output r') = drop (unat (bytes_popped (ra_output r))) (take (assembled r') s)"
proof -
  from insert_ok [OF assms(1-3), of is_last] assms(4) obtain r' where
    r': "insert first_index data is_last r = Inr r'" "ra_inv s r'"
      "held r' = held r \<union> ({unat first_index ..< unat first_index + length data} \<inter> {..<window_end r})"
      "bytes_popped (ra_output r') = bytes_popped (ra_output r)"
    by blast
  then show ?thesis
    using assembled_notin_held [OF r'(2)] ra_inv_content [OF r'(2)] by (auto simp: held_def)
qed

theorem reassembler_insert_witness:
  "\<exists>r'. insert 1 [8, 9] True (Reassembler_new (ByteStream_new 4)) = Inr r' \<and> held r' = {1, 2}"
proof -
  have "ra_inv [7, 8, 9] (Reassembler_new (ByteStream_new 4))" by (rule ra_inv_new) simp
  moreover have "held (Reassembler_new (ByteStream_new 4)) = {}"
    "window_end (Reassembler_new (ByteStream_new 4)) = 4"
    by (simp_all add: held_def assembled_def window_end_def Reassembler_new_def ByteStream_new_def
        bytes_pushed_def bytes_popped_def)
  ultimately show ?thesis
    using reassembler_insert [of "[7, 8, 9]" "Reassembler_new (ByteStream_new 4)" 1 "[8, 9]" True]
    by (auto simp: substr_at_def atLeastLessThan_nat_numeral)
qed

fun insert_all :: "(u64 \<times> bytes \<times> bool) list \<Rightarrow> reassembler \<Rightarrow> reassembler result" where
  "insert_all [] r = Inr r"
| "insert_all ((first_index, data, is_last) # segs) r =
     rbind (insert first_index data is_last r) (insert_all segs)"

definition seg_of :: "bytes \<Rightarrow> u64 \<times> bytes \<times> bool \<Rightarrow> bool" where
  "seg_of s seg \<longleftrightarrow> (case seg of (k, d, is_last) \<Rightarrow>
     substr_at s (unat k) d \<and> unat k + length d \<le> length s \<and> (is_last \<longrightarrow> unat k + length d = length s))"

definition seg_span :: "u64 \<times> bytes \<times> bool \<Rightarrow> nat set" where
  "seg_span seg = (case seg of (k, d, _) \<Rightarrow> {unat k ..< unat k + length d})"

lemma insert_all_ok:
  assumes "ra_inv s r" and "list_all (seg_of s) segs"
  shows "\<exists>r'. insert_all segs r = Inr r' \<and> ra_inv s r'
    \<and> held r' = held r \<union> (\<Union>(seg_span ` set segs) \<inter> {..<window_end r})
    \<and> bytes_popped (ra_output r') = bytes_popped (ra_output r)
    \<and> ra_eof_seen r' = (ra_eof_seen r \<or> (\<exists>(k, d, l) \<in> set segs. l))"
  using assms
proof (induction segs arbitrary: r)
  case (Cons x segs)
  obtain k d l where x: "x = (k, d, l)" by (cases x)
  have seg: "substr_at s (unat k) d" "unat k + length d < 2 ^ 64" "l \<longrightarrow> unat k + length d = length s"
    using Cons.prems by (auto simp: x seg_of_def ra_inv_def Let_def)
  obtain r1 where r1: "insert k d l r = Inr r1" "ra_inv s r1"
      "held r1 = held r \<union> (span k d \<inter> {..<window_end r})" "window_end r1 = window_end r"
      "bytes_popped (ra_output r1) = bytes_popped (ra_output r)" "ra_eof_seen r1 = (l \<or> ra_eof_seen r)"
    using insert_ok [OF Cons.prems(1) seg] by blast
  from Cons.IH [OF r1(2)] Cons.prems(2) obtain r' where
    "insert_all segs r1 = Inr r'" "ra_inv s r'"
    "held r' = held r1 \<union> (\<Union>(seg_span ` set segs) \<inter> {..<window_end r1})"
    "bytes_popped (ra_output r') = bytes_popped (ra_output r1)"
    "ra_eof_seen r' = (ra_eof_seen r1 \<or> (\<exists>(k, d, l) \<in> set segs. l))" by auto
  with r1 show ?case by (auto simp: x seg_span_def)
qed simp

lemma ra_complete:
  assumes "ra_inv s r" and "{..<length s} \<subseteq> held r"
  shows "assembled r = length s" and "ra_pending r = []"
proof -
  show a: "assembled r = length s"
    using assembled_notin_held [OF assms(1)] assms(2) ra_invD(2) [OF assms(1)]
    by (metis in_mono le_neq_implies_less lessThan_iff)
  show "ra_pending r = []"
  proof (cases "ra_pending r")
    case (Cons x m)
    obtain k d where x: "x = (k, d)" by (cases x)
    have "unat k > length s" "d \<noteq> []" "substr_at s (unat k) d"
      using ra_invD(3,4) [OF assms(1)] a Cons x by auto
    then show ?thesis using substr_at_bound by fastforce
  qed
qed

text \<open>
  C7. Reassembly in any order: insert any sequence of substrings of \<open>s\<close>, reordered, repeated
  and overlapping as the network may deliver them, into a new reassembler whose capacity holds
  \<open>s\<close>.  If together they cover \<open>s\<close> and one of them is marked last, the output is exactly \<open>s\<close>,
  the stream is closed and nothing is left pending.
\<close>

theorem reassembly_any_order:
  assumes "length s \<le> unat c" and "length s + unat c < 2 ^ 64"
    and "list_all (seg_of s) segs" and "{..<length s} \<subseteq> \<Union>(seg_span ` set segs)"
    and "(k, d, True) \<in> set segs"
  shows "\<exists>r. insert_all segs (Reassembler_new (ByteStream_new c)) = Inr r \<and>
    bs_content (ra_output r) = s \<and> is_closed (ra_output r) \<and> ra_pending r = []"
proof -
  let ?r = "Reassembler_new (ByteStream_new c)"
  have new: "held ?r = {}" "window_end ?r = unat c" "bytes_popped (ra_output ?r) = 0"
    by (simp_all add: held_def assembled_def window_end_def Reassembler_new_def ByteStream_new_def
        bytes_pushed_def bytes_popped_def)
  obtain r where r: "insert_all segs ?r = Inr r" "ra_inv s r"
      "held r = \<Union>(seg_span ` set segs) \<inter> {..<unat c}" "bytes_popped (ra_output r) = 0" "ra_eof_seen r"
    using insert_all_ok [OF ra_inv_new [OF assms(2)] assms(3)] new assms(5) by fastforce
  have "{..<length s} \<subseteq> held r" using r(3) assms(1,4) by auto
  note full = ra_complete [OF r(2) this]
  moreover have "is_closed (ra_output r)" using r(2,5) full(1) by (simp add: ra_inv_def Let_def)
  moreover have "bs_content (ra_output r) = s" using ra_inv_content [OF r(2)] r(4) full(1) by simp
  ultimately show ?thesis using r(1) by blast
qed

theorem reassembly_any_order_witness:
  "\<exists>r. insert_all [(1, [8, 9], True), (0, [7, 8], False)] (Reassembler_new (ByteStream_new 4)) = Inr r \<and>
    bs_content (ra_output r) = [7, 8, 9] \<and> is_closed (ra_output r)"
proof -
  have "list_all (seg_of [7, 8, 9]) [(1, [8, 9], True), (0, [7, 8], False)]"
    by (simp add: seg_of_def substr_at_def)
  moreover have "{..<length [7 :: byte, 8, 9]} \<subseteq>
      \<Union>(seg_span ` set [(1, [8, 9], True), (0, [7, 8], False)])"
    by (auto simp: seg_span_def)
  ultimately show ?thesis
    using reassembly_any_order [of "[7, 8, 9]" 4 "[(1, [8, 9], True), (0, [7, 8], False)]" 1 "[8, 9]"]
    by auto
qed

lemma card_cover: "pend_ok lo hi m \<Longrightarrow> card (cover m) = sum_list (map (\<lambda>(k, d). length d) m)"
proof (induction lo hi m rule: pend_ok.induct)
  case (2 lo hi k d m)
  have "span k d \<inter> cover m = {}" using 2 pend_ok_cover [of "unat k + length d" hi m] by fastforce
  moreover have "finite (cover m)" by (auto simp: cover_def)
  ultimately show ?case using 2 by (simp add: card_Un_disjoint)
qed simp

lemma fold_pending:
  "unat t + sum_list (map (\<lambda>(k, d). length d) m) < 2 ^ 64 \<Longrightarrow>
   unat (fold (\<lambda>(_, data) total. total + size64 data) m t)
   = unat t + sum_list (map (\<lambda>(k, d). length d) m)"
  by (induction m arbitrary: t) (auto simp: unat_add_size64)

text \<open>
  \<open>count_bytes_pending\<close> counts every stored byte exactly once, no stored byte is stored
  twice, and the bytes pending never exceed the capacity that is left in the output stream.
\<close>

theorem pending_bytes_bounded:
  assumes "ra_inv s r"
  shows "unat (count_bytes_pending r) = card (cover (ra_pending r)) \<and>
    unat (count_bytes_pending r) \<le> unat (available_capacity (ra_output r))"
proof -
  note ok = ra_invD(3) [OF assms]
  have "card (cover (ra_pending r)) \<le> card {assembled r <..< window_end r}"
    using pend_ok_cover [OF ok] by (intro card_mono) simp_all
  then have "card (cover (ra_pending r)) \<le> unat (available_capacity (ra_output r))"
    using ra_inv_window(3) [OF assms] by simp
  moreover have "unat (available_capacity (ra_output r)) < 2 ^ 64" by (rule unat_u64_less)
  ultimately show ?thesis
    using fold_pending [of 0 "ra_pending r"] card_cover [OF ok] by (simp add: count_bytes_pending_def)
qed

theorem pending_bytes_bounded_witness:
  "unat (count_bytes_pending ((Reassembler_new (ByteStream_new 4))\<lparr>ra_pending := [(1, [8, 9])]\<rparr>))
   = card (cover [(1, [8, 9])])"
proof -
  have "ra_inv [7, 8, 9] ((Reassembler_new (ByteStream_new 4))\<lparr>ra_pending := [(1, [8, 9])]\<rparr>)"
    using ra_inv_new [of "[7, 8, 9]" 4]
    by (simp add: ra_inv_def Let_def substr_at_def assembled_def window_end_def Reassembler_new_def)
      (simp add: ByteStream_new_def bytes_pushed_def bytes_popped_def)
  from pending_bytes_bounded [OF this] show ?thesis by simp
qed

section \<open>Flags\<close>

lemma flush_error: "bs_error (snd (flush m out)) = bs_error out"
  by (induction m out rule: flush.induct) auto
lemma flush_closed: "bs_closed (snd (flush m out)) = bs_closed out"
  by (induction m out rule: flush.induct) auto

lemma insert_flags:
  assumes "insert fi d l r = Inr r'"
  shows "has_error (ra_output r') = has_error (ra_output r)"
    and "is_closed (ra_output r) \<Longrightarrow> is_closed (ra_output r')"
  using assms by (auto simp: insert_def Let_def rbind_Inr_iff case_prod_beta has_error_def is_closed_def
      Writer_close_def flush_error flush_closed split: if_splits)

end
