(* ===== verification/Wrapping_Integers.thy ===== *)
theory Wrapping_Integers
  imports Prelude
begin

text \<open>
  \<^verbatim>\<open>src/src/wrapping_integers.hh\<close> and \<^verbatim>\<open>src/src/wrapping_integers.cc\<close>: 32-bit sequence numbers
  that start at an arbitrary zero point, and the conversions between them and 64-bit absolute
  sequence numbers.  The lemmas show that \<open>unwrap\<close> inverts \<open>wrap\<close> and returns, among all
  64-bit numbers with the given wrapped form, one that is closest to the checkpoint.
\<close>

datatype wrap32 = Wrap32 (raw_value: u32)

definition wrap32_plus :: "wrap32 \<Rightarrow> u32 \<Rightarrow> wrap32" where
  "wrap32_plus w n = Wrap32 (raw_value w + n)"

definition wrap32_eq :: "wrap32 \<Rightarrow> wrap32 \<Rightarrow> bool" where
  "wrap32_eq a b \<longleftrightarrow> raw_value a = raw_value b"

definition wrap :: "u64 \<Rightarrow> wrap32 \<Rightarrow> wrap32" where
  "wrap n zero_point = wrap32_plus zero_point (ucast n)"

definition wrap_distance :: "u64 \<Rightarrow> u64 \<Rightarrow> u64" where
  "wrap_distance checkpoint v = (if checkpoint < v then v - checkpoint else checkpoint - v)"

definition unwrap_candidate :: "wrap32 \<Rightarrow> wrap32 \<Rightarrow> u64 \<Rightarrow> u64" where
  "unwrap_candidate w zero_point checkpoint =
     (let offset = raw_value w - raw_value zero_point
      in (checkpoint AND NOT 0xFFFFFFFF) OR ucast offset)"

definition unwrap :: "wrap32 \<Rightarrow> wrap32 \<Rightarrow> u64 \<Rightarrow> u64" where
  "unwrap w zero_point checkpoint =
     (let kRound = push_bit 32 (1 :: u64);
          candidate = unwrap_candidate w zero_point checkpoint;
          distance = wrap_distance checkpoint;
          prev = candidate - kRound;
          (best, best_dist) =
            (if kRound \<le> candidate \<and> distance prev < distance candidate
             then (prev, distance prev) else (candidate, distance candidate));
          next = candidate + kRound
      in if distance next < best_dist then next else best)"

section \<open>Natural-number view\<close>

definition absdiff :: "nat \<Rightarrow> nat \<Rightarrow> nat" where
  "absdiff a b = (if a < b then b - a else a - b)"

lemma wrap32_eq_iff [simp]: "wrap32_eq a b \<longleftrightarrow> a = b"
  by (cases a; cases b) (simp add: wrap32_eq_def)

lemma unat_wrap_distance: "unat (wrap_distance c v) = absdiff (unat c) (unat v)"
  by (simp add: wrap_distance_def absdiff_def word_less_nat_alt unat_sub word_le_nat_alt)

lemma unat_ucast_u32: "unat (ucast (v :: u64) :: u32) = unat v mod 2 ^ 32"
  by (simp add: unsigned_ucast_eq take_bit_eq_mod)

lemma unat_ucast_u64: "unat (ucast (v :: u32) :: u64) = unat v"
  by (simp add: unsigned_ucast_eq take_bit_nat_eq_self unsigned_less [where ?w = v and ?'a = nat, simplified, THEN less_trans])

lemma wrap_eq_iff:
  "wrap v zp = w \<longleftrightarrow> unat v mod 2 ^ 32 = unat (raw_value w - raw_value zp)"
proof -
  have "wrap v zp = w \<longleftrightarrow> (ucast v :: u32) = raw_value w - raw_value zp"
    by (cases w) (auto simp: wrap_def wrap32_plus_def)
  also have "\<dots> \<longleftrightarrow> unat (ucast v :: u32) = unat (raw_value w - raw_value zp)"
    by (simp add: word_unat_eq_iff)
  finally show ?thesis by (simp add: unat_ucast_u32)
qed

lemma and_not_low32: "(c :: u64) AND NOT 0xFFFFFFFF = push_bit 32 (drop_bit 32 c)"
proof -
  have "(0xFFFFFFFF :: u64) = mask 32" by (simp add: mask_eq_exp_minus_1)
  then show ?thesis by (simp only:) (auto simp: bit_eq_iff bit_simps)
qed

lemma unat_high32: "unat ((c :: u64) AND NOT 0xFFFFFFFF) = unat c div 2 ^ 32 * 2 ^ 32"
proof -
  have "unat c div 2 ^ 32 * 2 ^ 32 < 2 ^ 64"
    using unat_u64_less [of c] div_times_less_eq_dividend [of "unat c" "2 ^ 32"]
    by (rule le_less_trans [rotated])
  moreover have "unat (push_bit 32 (drop_bit 32 c)) = take_bit 64 (push_bit 32 (drop_bit 32 (take_bit 64 (unat c))))"
    by (simp only: unsigned_push_bit_eq unsigned_drop_bit_eq) simp
  ultimately show ?thesis unfolding and_not_low32
    by (simp only: push_bit_eq_mult drop_bit_eq_div take_bit_nat_eq_self unat_u64_less)
qed

lemma nat_or_add_low32:
  fixes a b :: nat
  assumes "b < 2 ^ 32"
  shows "(a * 2 ^ 32) OR b = a * 2 ^ 32 + b"
proof -
  have b: "take_bit 32 b = b" using assms by (simp add: take_bit_nat_eq_self)
  have "push_bit 32 a AND take_bit 32 b = 0"
    by (auto simp: bit_eq_iff bit_simps)
  then have "push_bit 32 a AND b = 0" by (simp add: b)
  then show ?thesis by (metis disjunctive_add_eq_or push_bit_eq_mult)
qed

lemma unat_unwrap_candidate:
  "unat (unwrap_candidate w zp c)
   = unat c div 2 ^ 32 * 2 ^ 32 + unat (raw_value w - raw_value zp)"
proof -
  have "unat (raw_value w - raw_value zp) < 2 ^ 32"
    using unsigned_less [where ?w = "raw_value w - raw_value zp" and ?'a = nat] by simp
  then show ?thesis
    by (simp only: unwrap_candidate_def Let_def unsigned_or_eq unat_high32 unat_ucast_u64
        nat_or_add_low32)
qed

text \<open>
  The candidate of the same 32-bit round as the checkpoint, its predecessor and its
  successor bracket the checkpoint: every other number with the same low half is farther away.
\<close>

lemma closest_of_three:
  fixes c v :: nat
  assumes "v mod 2 ^ 32 = off" and "cand = c div 2 ^ 32 * 2 ^ 32 + off"
  shows "absdiff c cand \<le> absdiff c v
    \<or> (2 ^ 32 \<le> cand \<and> absdiff c (cand - 2 ^ 32) \<le> absdiff c v)
    \<or> (cand + 2 ^ 32 \<le> v \<and> absdiff c (cand + 2 ^ 32) \<le> absdiff c v)"
proof -
  define k q t where "k = v div 2 ^ 32" and "q = c div 2 ^ 32" and "t = c mod 2 ^ 32"
  have v: "v = k * 2 ^ 32 + off"
    using assms(1) div_mult_mod_eq [of v "2 ^ 32"] by (simp only: k_def)
  have c: "c = q * 2 ^ 32 + t"
    using div_mult_mod_eq [of c "2 ^ 32"] by (simp only: q_def t_def)
  have cand: "cand = q * 2 ^ 32 + off" by (simp only: assms(2) q_def)
  have bounds: "t < 2 ^ 32" "off < 2 ^ 32" unfolding t_def assms(1) [symmetric] by simp_all
  consider "k < q" | "k = q" | "q < k" by linarith
  then show ?thesis
  proof cases
    case 1
    then have "(2 :: nat) ^ 32 \<le> cand" and "v \<le> cand - 2 ^ 32" and "cand - 2 ^ 32 < c"
      using v c cand bounds by simp_all
    then show ?thesis by (auto simp: absdiff_def)
  next
    case 2
    then show ?thesis using v cand by simp
  next
    case 3
    then have "cand + 2 ^ 32 \<le> v" and "c < cand + 2 ^ 32"
      using v c cand bounds by simp_all
    then show ?thesis by (auto simp: absdiff_def)
  qed
qed

lemma unat_unwrap:
  fixes w zp c
  defines "cand \<equiv> unat (unwrap_candidate w zp c)"
  shows "unat (unwrap w zp c) =
    (let best = (if 2 ^ 32 \<le> cand \<and> absdiff (unat c) (cand - 2 ^ 32) < absdiff (unat c) cand
                 then cand - 2 ^ 32 else cand);
         next = (cand + 2 ^ 32) mod 2 ^ 64
     in if absdiff (unat c) next < absdiff (unat c) best then next else best)"
proof -
  let ?C = "unwrap_candidate w zp c"
  have round: "unat (push_bit 32 (1 :: u64)) = 2 ^ 32" by simp
  have le: "push_bit 32 1 \<le> ?C \<longleftrightarrow> 2 ^ 32 \<le> cand"
    by (simp only: word_le_nat_alt round cand_def)
  have prev: "2 ^ 32 \<le> cand \<Longrightarrow> unat (?C - push_bit 32 1) = cand - 2 ^ 32"
    using le by (simp only: unat_sub round cand_def)
  have "unat (?C + push_bit 32 1) = (unat ?C + unat (push_bit 32 (1 :: u64))) mod 2 ^ LENGTH(64)"
    by (rule unat_word_ariths(1))
  then have nxt: "unat (?C + push_bit 32 1) = (cand + 2 ^ 32) mod 2 ^ 64"
    by (simp only: round cand_def) simp
  have dist: "wrap_distance c a < wrap_distance c b
      \<longleftrightarrow> absdiff (unat c) (unat a) < absdiff (unat c) (unat b)" for a b
    by (simp only: word_less_nat_alt unat_wrap_distance)
  show ?thesis
  proof (cases "2 ^ 32 \<le> cand \<and> absdiff (unat c) (cand - 2 ^ 32) < absdiff (unat c) cand")
    case True
    then show ?thesis
      by (simp only: unwrap_def Let_def le dist prev nxt cand_def [symmetric] if_True prod.case
          conj_absorb simp_thms if_distrib [of unat])
  next
    case False
    have "push_bit 32 1 \<le> ?C \<and> wrap_distance c (?C - push_bit 32 1) < wrap_distance c ?C \<longleftrightarrow> False"
      using False by (auto simp only: le dist prev cand_def [symmetric])
    then show ?thesis using False
      by (simp only: unwrap_def Let_def dist nxt cand_def [symmetric] if_False prod.case
          if_distrib [of unat])
  qed
qed

text \<open>The next candidate past the top of the 64-bit range wraps to a number that is never chosen.\<close>

lemma absdiff_candidate_less:
  "absdiff (unat c) (unat (unwrap_candidate w zp c)) < 2 ^ 32"
proof -
  have off: "unat (raw_value w - raw_value zp) < 2 ^ 32"
    using unsigned_less [where ?w = "raw_value w - raw_value zp" and ?'a = nat] by simp
  have "unat c div 2 ^ 32 * 2 ^ 32 + unat c mod 2 ^ 32 = unat c" by (rule div_mult_mod_eq)
  moreover have "unat c mod 2 ^ 32 < 2 ^ 32" by simp
  ultimately show ?thesis using off unfolding unat_unwrap_candidate absdiff_def by (simp only: split: if_split) linarith
qed

lemma absdiff_overflow:
  assumes "absdiff c cand < 2 ^ 32" and "cand < 2 ^ 64" and "2 ^ 64 \<le> cand + 2 ^ 32"
  shows "absdiff c cand < absdiff c ((cand + 2 ^ 32) mod 2 ^ 64)"
proof -
  have "(cand + 2 ^ 32) mod 2 ^ 64 = cand + 2 ^ 32 - 2 ^ 64"
    using assms(2,3) by (simp add: mod_if)
  moreover have "cand + 2 ^ 32 - 2 ^ 64 < c" and "c - (cand + 2 ^ 32 - 2 ^ 64) > 2 ^ 32"
    using assms by (auto simp: absdiff_def split: if_splits)
  ultimately show ?thesis using assms(1) by (simp add: absdiff_def)
qed

lemma nearest_of_three:
  fixes d :: "nat \<Rightarrow> nat"
  defines "r b p x n \<equiv> (let best = (if b \<and> d p < d x then p else x)
                         in if d n < d best then n else best)"
  shows "d (r b p x n) \<le> d x" and "b \<Longrightarrow> d (r b p x n) \<le> d p" and "d (r b p x n) \<le> d n"
    and "r b p x n = x \<or> (b \<and> r b p x n = p) \<or> (r b p x n = n \<and> d n < d x)"
  by (auto simp: r_def Let_def)

lemma absdiff_unwrap_le:
  fixes w zp c
  defines "cand \<equiv> unat (unwrap_candidate w zp c)"
  defines "r \<equiv> unat (unwrap w zp c)"
  shows "absdiff (unat c) r \<le> absdiff (unat c) cand"
    and "2 ^ 32 \<le> cand \<Longrightarrow> absdiff (unat c) r \<le> absdiff (unat c) (cand - 2 ^ 32)"
    and "cand + 2 ^ 32 < 2 ^ 64 \<Longrightarrow> absdiff (unat c) r \<le> absdiff (unat c) (cand + 2 ^ 32)"
proof -
  note r = r_def [unfolded unat_unwrap, folded cand_def]
  show "absdiff (unat c) r \<le> absdiff (unat c) cand"
    using nearest_of_three(1) [where d = "absdiff (unat c)"] unfolding r Let_def .
  show "absdiff (unat c) r \<le> absdiff (unat c) (cand - 2 ^ 32)" if "2 ^ 32 \<le> cand"
    using nearest_of_three(2) [where d = "absdiff (unat c)", OF that] unfolding r Let_def .
  show "absdiff (unat c) r \<le> absdiff (unat c) (cand + 2 ^ 32)" if "cand + 2 ^ 32 < 2 ^ 64"
    using nearest_of_three(3) [where d = "absdiff (unat c)"] unfolding r Let_def mod_less [OF that] .
qed

lemma unwrap_choices:
  fixes w zp c
  defines "cand \<equiv> unat (unwrap_candidate w zp c)"
  shows "unat (unwrap w zp c) = cand \<or> (2 ^ 32 \<le> cand \<and> unat (unwrap w zp c) = cand - 2 ^ 32)
    \<or> unat (unwrap w zp c) = cand + 2 ^ 32"
proof -
  have over: "absdiff (unat c) cand < absdiff (unat c) ((cand + 2 ^ 32) mod 2 ^ 64)"
    if "2 ^ 64 \<le> cand + 2 ^ 32"
    using absdiff_overflow absdiff_candidate_less unat_u64_less that unfolding cand_def by blast
  note r = unat_unwrap [of w zp c, folded cand_def]
  consider "unat (unwrap w zp c) = cand" | "2 ^ 32 \<le> cand \<and> unat (unwrap w zp c) = cand - 2 ^ 32"
    | "unat (unwrap w zp c) = (cand + 2 ^ 32) mod 2 ^ 64"
      "absdiff (unat c) ((cand + 2 ^ 32) mod 2 ^ 64) < absdiff (unat c) cand"
    using nearest_of_three(4) [where d = "absdiff (unat c)", of "2 ^ 32 \<le> cand" "cand - 2 ^ 32" cand
      "(cand + 2 ^ 32) mod 2 ^ 64"] unfolding r Let_def by blast
  then show ?thesis
  proof cases
    case 3
    then have "cand + 2 ^ 32 < 2 ^ 64" using over by linarith
    with 3 show ?thesis by simp
  qed simp_all
qed

lemma unwrap_mod: "unat (unwrap w zp c) mod 2 ^ 32 = unat (raw_value w - raw_value zp)"
proof -
  have "unat (unwrap_candidate w zp c) mod 2 ^ 32 = unat (raw_value w - raw_value zp)"
    using unsigned_less [where ?w = "raw_value w - raw_value zp" and ?'a = nat]
    by (simp add: unat_unwrap_candidate)
  then show ?thesis
    using unwrap_choices [of w zp c] by (auto simp: le_mod_geq)
qed

section \<open>Correctness of wrap and unwrap\<close>

lemma wrap_unwrap: "wrap (unwrap w zp c) zp = w"
  by (simp only: wrap_eq_iff unwrap_mod)

lemma unwrap_closest_aux:
  assumes "wrap v zp = w"
  shows "absdiff (unat c) (unat (unwrap w zp c)) \<le> absdiff (unat c) (unat v)"
proof -
  have "unat v mod 2 ^ 32 = unat (raw_value w - raw_value zp)"
    using assms by (simp only: wrap_eq_iff)
  from closest_of_three [OF this unat_unwrap_candidate]
  show ?thesis
    using absdiff_unwrap_le [where w = w and zp = zp and c = c] unat_u64_less [of v]
    by (meson le_less_trans le_trans)
qed


text \<open>
  C19. \<open>unwrap\<close> inverts \<open>wrap\<close> and picks the closest number: the result wraps to the given
  32-bit number, and no 64-bit number that wraps to it is closer to the checkpoint.
\<close>

theorem unwrap_closest:
  "wrap (unwrap w zp checkpoint) zp = w \<and>
   (\<forall>v. wrap v zp = w \<longrightarrow>
      wrap_distance checkpoint (unwrap w zp checkpoint) \<le> wrap_distance checkpoint v)"
  using unwrap_closest_aux by (simp add: wrap_unwrap word_le_nat_alt unat_wrap_distance)

theorem unwrap_closest_witness:
  "wrap_distance 0 (unwrap (Wrap32 17) (Wrap32 15) 0) \<le> wrap_distance 0 (2 + 0x100000000)"
proof -
  have "wrap (2 + 0x100000000) (Wrap32 15) = Wrap32 17"
    by (simp add: wrap_def wrap32_plus_def)
  then show ?thesis using unwrap_closest [of "Wrap32 17" "Wrap32 15" 0] by blast
qed

lemma mod_eq_near:
  fixes a b :: nat
  assumes "a mod m = b mod m" and "a < b + m" and "b < a + m"
  shows "a = b"
proof (cases "a \<le> b")
  case True
  then have "m dvd b - a" using assms(1) by (metis mod_eq_dvd_iff_nat)
  with True assms(3) show ?thesis by (auto dest: dvd_imp_le)
next
  case False
  then have "m dvd a - b" using assms(1) by (simp add: mod_eq_dvd_iff_nat)
  with False assms(2) show ?thesis by (auto dest: dvd_imp_le)
qed

lemma unwrap_wrap:
  assumes "absdiff (unat checkpoint) (unat x) < 2 ^ 31"
  shows "unwrap (wrap x zp) zp checkpoint = x"
proof -
  define r where "r = unwrap (wrap x zp) zp checkpoint"
  have "absdiff (unat checkpoint) (unat r) \<le> absdiff (unat checkpoint) (unat x)"
    unfolding r_def by (rule unwrap_closest_aux) simp
  then have near: "unat r < unat x + 2 ^ 32" "unat x < unat r + 2 ^ 32"
    using assms by (auto simp: absdiff_def split: if_splits)
  have "wrap r zp = wrap x zp" unfolding r_def by (rule wrap_unwrap)
  then have "unat r mod 2 ^ 32 = unat x mod 2 ^ 32"
    using wrap_eq_iff [of r zp "wrap x zp"] wrap_eq_iff [of x zp "wrap x zp"] by simp
  then have "unat r = unat x" using near by (rule mod_eq_near)
  then show ?thesis unfolding r_def by (simp add: word_unat_eq_iff)
qed

text \<open>
  A sequence number survives the trip through its 32-bit form whenever it lies within half a
  round (fewer than \<open>2 ^ 31\<close>) of the checkpoint.
\<close>

theorem wrap_roundtrip:
  assumes "unat (wrap_distance checkpoint x) < 2 ^ 31"
  shows "unwrap (wrap x zp) zp checkpoint = x"
  using assms by (simp only: unat_wrap_distance unwrap_wrap)

theorem wrap_roundtrip_witness:
  "unwrap (wrap 0x1000000FF (Wrap32 7)) (Wrap32 7) 0x100000000 = 0x1000000FF"
  by (rule wrap_roundtrip) (simp add: wrap_distance_def)

end
