(* ===== verification/TCP_Messages.thy ===== *)
theory TCP_Messages
  imports Wrapping_Integers
begin

text \<open>
  The messages the two halves of a TCP connection exchange (\<^verbatim>\<open>src/util/tcp_sender_message.hh\<close>,
  \<^verbatim>\<open>src/util/tcp_receiver_message.hh\<close>) and the constants of \<^verbatim>\<open>src/util/tcp_config.hh\<close>.
\<close>

record sender_message =
  sm_seqno :: wrap32
  sm_SYN :: bool
  sm_payload :: bytes
  sm_FIN :: bool
  sm_RST :: bool

definition sequence_length :: "sender_message \<Rightarrow> u64" where
  "sequence_length m = of_bool (sm_SYN m) + size64 (sm_payload m) + of_bool (sm_FIN m)"

record receiver_message =
  rm_ackno :: "wrap32 option"
  rm_window_size :: u16
  rm_RST :: bool

definition MAX_PAYLOAD_SIZE :: u64 where
  "MAX_PAYLOAD_SIZE = 1000"

definition DEFAULT_CAPACITY :: u64 where
  "DEFAULT_CAPACITY = 64000"

definition TIMEOUT_DFLT :: u16 where
  "TIMEOUT_DFLT = 1000"

definition MAX_RETX_ATTEMPTS :: nat where
  "MAX_RETX_ATTEMPTS = 8"

record tcp_config =
  cfg_rt_timeout :: u16
  cfg_recv_capacity :: u64
  cfg_send_capacity :: u64
  cfg_isn :: wrap32

definition TCPConfig_default :: tcp_config where
  "TCPConfig_default = \<lparr>cfg_rt_timeout = TIMEOUT_DFLT, cfg_recv_capacity = DEFAULT_CAPACITY,
     cfg_send_capacity = DEFAULT_CAPACITY, cfg_isn = Wrap32 137\<rparr>"

text \<open>The number of sequence numbers of a segment as a natural number.\<close>

definition seq_len :: "sender_message \<Rightarrow> nat" where
  "seq_len m = of_bool (sm_SYN m) + length (sm_payload m) + of_bool (sm_FIN m)"

lemma sequence_length_eq: "sequence_length m = of_nat (seq_len m)"
  by (simp add: sequence_length_def seq_len_def size64_def)

lemma unat_sequence_length: "seq_len m < 2 ^ 64 \<Longrightarrow> unat (sequence_length m) = seq_len m"
  by (simp add: sequence_length_eq unat_of_nat_u64)

end
