(* ===== verification/TCP_Receiver.thy ===== *)
theory TCP_Receiver
  imports Reassembler TCP_Messages
begin

text \<open>
  \<^verbatim>\<open>src/src/tcp_receiver.hh\<close> and \<^verbatim>\<open>src/src/tcp_receiver.cc\<close>: the receiving half of a connection.
  It turns the sequence numbers of incoming segments into stream indices, feeds the
  reassembler and answers with an acknowledgment number and a window.
\<close>

record tcp_receiver =
  tr_reassembler :: reassembler
  tr_isn :: "wrap32 option"

definition TCPReceiver_new :: "reassembler \<Rightarrow> tcp_receiver" where
  "TCPReceiver_new reassembler = \<lparr>tr_reassembler = reassembler, tr_isn = None\<rparr>"

definition Receiver_receive :: "sender_message \<Rightarrow> tcp_receiver \<Rightarrow> tcp_receiver result" where
  "Receiver_receive message r =
     (if sm_RST message then
        Inr (r\<lparr>tr_reassembler := Reassembler_close (Reassembler_set_error (tr_reassembler r))\<rparr>)
      else if tr_isn r = None \<and> \<not> sm_SYN message then Inr r
      else
        let isn = (case tr_isn r of None \<Rightarrow> sm_seqno message | Some isn \<Rightarrow> isn);
            checkpoint = bytes_pushed (ra_output (tr_reassembler r));
            abs_seqno = unwrap (sm_seqno message) isn checkpoint;
            stream_index = (if sm_SYN message then abs_seqno else abs_seqno - 1)
        in rbind (insert stream_index (sm_payload message) (sm_FIN message) (tr_reassembler r))
             (\<lambda>ra. Inr (r\<lparr>tr_reassembler := ra, tr_isn := Some isn\<rparr>)))"

definition Receiver_send :: "tcp_receiver \<Rightarrow> receiver_message" where
  "Receiver_send r =
     (let writer = ra_output (tr_reassembler r);
          window_size = ucast (min (available_capacity writer) 0xFFFF) :: u16
      in if Reassembler_has_error (tr_reassembler r)
         then \<lparr>rm_ackno = None, rm_window_size = 0, rm_RST = True\<rparr>
         else case tr_isn r of
           None \<Rightarrow> \<lparr>rm_ackno = None, rm_window_size = window_size, rm_RST = False\<rparr>
         | Some isn \<Rightarrow>
             let next_seqno = 1 + bytes_pushed writer + (if is_closed writer then 1 else 0)
             in \<lparr>rm_ackno = Some (wrap next_seqno isn), rm_window_size = window_size, rm_RST = False\<rparr>)"

section \<open>Segments of a stream\<close>

text \<open>
  \<open>carries s isn k m\<close>: the segment \<open>m\<close> of a connection with initial sequence number \<open>isn\<close>
  carries the bytes of the stream \<open>s\<close> from index \<open>k\<close> on: a SYN segment starts the stream,
  any other segment has the sequence number of its first byte (one more than the index, for
  the SYN); FIN marks the end of \<open>s\<close>.
\<close>

definition carries :: "bytes \<Rightarrow> wrap32 \<Rightarrow> nat \<Rightarrow> sender_message \<Rightarrow> bool" where
  "carries s isn k m \<longleftrightarrow> \<not> sm_RST m
     \<and> (if sm_SYN m then k = 0 \<and> sm_seqno m = isn else sm_seqno m = wrap (of_nat (1 + k)) isn)
     \<and> substr_at s k (sm_payload m) \<and> k + length (sm_payload m) \<le> length s
     \<and> (sm_FIN m \<longrightarrow> k + length (sm_payload m) = length s)"

definition tr_inv :: "bytes \<Rightarrow> wrap32 \<Rightarrow> tcp_receiver \<Rightarrow> bool" where
  "tr_inv s isn r \<longleftrightarrow> ra_inv s (tr_reassembler r) \<and> tr_isn r \<in> {None, Some isn}
     \<and> (tr_isn r = None \<longrightarrow> assembled (tr_reassembler r) = 0 \<and> \<not> ra_eof_seen (tr_reassembler r))"

lemma unwrap_zero_point:
  assumes "unat checkpoint < 2 ^ 31"
  shows "unwrap isn isn checkpoint = 0"
proof -
  have "wrap 0 isn = isn" by (cases isn) (simp add: wrap_def wrap32_plus_def)
  then show ?thesis
    using unwrap_wrap [of checkpoint 0 isn] assms by (simp add: absdiff_def)
qed

text \<open>The stream index the receiver computes is the one the segment carries.\<close>

lemma stream_index_ok:
  assumes "carries s isn k m" and "length s < 2 ^ 63"
    and "if sm_SYN m then unat checkpoint < 2 ^ 31 else absdiff (unat checkpoint) (1 + k) < 2 ^ 31"
  shows "(if sm_SYN m then unwrap (sm_seqno m) isn checkpoint else unwrap (sm_seqno m) isn checkpoint - 1)
    = of_nat k"
proof (cases "sm_SYN m")
  case True
  then show ?thesis using assms by (simp add: carries_def unwrap_zero_point)
next
  case False
  then have "k < 2 ^ 63" using assms by (simp add: carries_def)
  then have "unat (of_nat (1 + k) :: u64) = 1 + k" by (intro unat_of_nat_u64) simp
  then have "unwrap (wrap (of_nat (1 + k)) isn) isn checkpoint = of_nat (1 + k)"
    using assms(3) False by (intro unwrap_wrap) simp
  then show ?thesis using False assms(1) by (simp add: carries_def)
qed

lemma Receiver_receive_ok:
  assumes inv: "tr_inv s isn r" and m: "carries s isn k m" and len: "length s < 2 ^ 63"
    and est: "tr_isn r \<noteq> None \<or> sm_SYN m"
    and near: "if sm_SYN m then assembled (tr_reassembler r) < 2 ^ 31
               else absdiff (assembled (tr_reassembler r)) (1 + k) < 2 ^ 31"
  shows "\<exists>r'. Receiver_receive m r = Inr r' \<and> tr_inv s isn r' \<and> tr_isn r' = Some isn
    \<and> held (tr_reassembler r') = held (tr_reassembler r)
        \<union> ({k ..< k + length (sm_payload m)} \<inter> {..<window_end (tr_reassembler r)})
    \<and> ra_eof_seen (tr_reassembler r') = (sm_FIN m \<or> ra_eof_seen (tr_reassembler r))
    \<and> has_error (ra_output (tr_reassembler r')) = has_error (ra_output (tr_reassembler r))
    \<and> bytes_popped (ra_output (tr_reassembler r')) = bytes_popped (ra_output (tr_reassembler r))
    \<and> window_end (tr_reassembler r') = window_end (tr_reassembler r)"
proof -
  let ?ra = "tr_reassembler r"
  have k: "unat (of_nat k :: u64) = k" using m len by (intro unat_of_nat_u64) (simp add: carries_def)
  have isn: "(case tr_isn r of None \<Rightarrow> sm_seqno m | Some i \<Rightarrow> i) = isn"
    using inv m est by (auto simp: tr_inv_def carries_def split: option.splits)
  have idx: "(if sm_SYN m then unwrap (sm_seqno m) isn (bytes_pushed (ra_output ?ra))
      else unwrap (sm_seqno m) isn (bytes_pushed (ra_output ?ra)) - 1) = of_nat k"
    by (rule stream_index_ok [OF m len near [unfolded assembled_def]])
  obtain ra where ra: "insert (of_nat k) (sm_payload m) (sm_FIN m) ?ra = Inr ra" "ra_inv s ra"
      "held ra = held ?ra \<union> ({k ..< k + length (sm_payload m)} \<inter> {..<window_end ?ra})"
      "ra_eof_seen ra = (sm_FIN m \<or> ra_eof_seen ?ra)"
      "has_error (ra_output ra) = has_error (ra_output ?ra)"
      "bytes_popped (ra_output ra) = bytes_popped (ra_output ?ra)" "window_end ra = window_end ?ra"
    using insert_ok [of s ?ra "of_nat k" "sm_payload m" "sm_FIN m"] inv m len k
    by (auto simp: tr_inv_def carries_def)
  have "Receiver_receive m r = Inr (r\<lparr>tr_reassembler := ra, tr_isn := Some isn\<rparr>)"
    using m est isn idx ra(1) by (auto simp: Receiver_receive_def carries_def Let_def)
  then show ?thesis using ra inv by (simp add: tr_inv_def)
qed

section \<open>Correctness\<close>

text \<open>
  Receiving a segment: once the connection is established (or the segment is the SYN), a
  segment that carries the bytes \<open>k, k + 1, \<dots>\<close> of the peer's stream, with a sequence number
  within \<open>2 ^ 31\<close> of the next expected byte, stores exactly the bytes inside the window at
  their places, and the bytes that were held stay held.
\<close>

theorem receiver_stores_segment:
  assumes "tr_inv s isn r" and "carries s isn k m" and "length s < 2 ^ 63"
    and "tr_isn r \<noteq> None \<or> sm_SYN m"
    and "if sm_SYN m then assembled (tr_reassembler r) < 2 ^ 31
         else absdiff (assembled (tr_reassembler r)) (1 + k) < 2 ^ 31"
  shows "\<exists>r'. Receiver_receive m r = Inr r' \<and> tr_inv s isn r' \<and> tr_isn r' = Some isn \<and>
    held (tr_reassembler r') = held (tr_reassembler r)
      \<union> ({k ..< k + length (sm_payload m)} \<inter> {..<window_end (tr_reassembler r)})"
  using Receiver_receive_ok [OF assms] by blast

lemma tr_inv_new:
  "length s + unat c < 2 ^ 64 \<Longrightarrow> tr_inv s isn (TCPReceiver_new (Reassembler_new (ByteStream_new c)))"
  using ra_inv_new [of s c]
  by (simp add: tr_inv_def TCPReceiver_new_def Reassembler_new_def assembled_def ByteStream_new_def
      bytes_pushed_def)

theorem receiver_stores_segment_witness:
  "\<exists>r'. Receiver_receive \<lparr>sm_seqno = Wrap32 0xFFFFFFFF, sm_SYN = True, sm_payload = [5, 6],
          sm_FIN = False, sm_RST = False\<rparr>
        (TCPReceiver_new (Reassembler_new (ByteStream_new 9))) = Inr r'
      \<and> held (tr_reassembler r') = {0, 1}"
proof -
  let ?r = "TCPReceiver_new (Reassembler_new (ByteStream_new 9))"
  have new: "held (tr_reassembler ?r) = {}" "window_end (tr_reassembler ?r) = 9"
      "assembled (tr_reassembler ?r) = 0"
    by (simp_all add: held_def assembled_def window_end_def Reassembler_new_def ByteStream_new_def
        bytes_pushed_def bytes_popped_def TCPReceiver_new_def)
  show ?thesis
    using receiver_stores_segment [OF tr_inv_new [of "[5, 6, 7]" 9 "Wrap32 0xFFFFFFFF"], of 0
        "\<lparr>sm_seqno = Wrap32 0xFFFFFFFF, sm_SYN = True, sm_payload = [5, 6], sm_FIN = False, sm_RST = False\<rparr>"] new
    by (auto simp: carries_def substr_at_def atLeast0LessThan lessThan_nat_numeral)
qed

lemma unat_window: "unat (ucast (min a 0xFFFF :: u64) :: u16) = min (unat a) 65535"
proof -
  have "unat (min a 0xFFFF) = min (unat a) 65535" by (simp add: min_def word_le_nat_alt)
  then show ?thesis by (simp add: unsigned_ucast_eq take_bit_nat_eq_self)
qed

text \<open>A whole connection: the SYN segment first, then segments in any order.\<close>

fun receive_all :: "sender_message list \<Rightarrow> tcp_receiver \<Rightarrow> tcp_receiver result" where
  "receive_all [] r = Inr r"
| "receive_all (m # ms) r = rbind (Receiver_receive m r) (receive_all ms)"

definition msg_span :: "nat \<times> sender_message \<Rightarrow> nat set" where
  "msg_span x = (case x of (k, m) \<Rightarrow> {k ..< k + length (sm_payload m)})"

lemma receive_all_ok:
  assumes "tr_inv s isn r" and "list_all (\<lambda>(k, m). carries s isn k m) ms"
    and "length s < 2 ^ 31 - 1" and "tr_isn r \<noteq> None \<or> (ms \<noteq> [] \<and> sm_SYN (snd (hd ms)))"
  shows "\<exists>r'. receive_all (map snd ms) r = Inr r' \<and> tr_inv s isn r'
    \<and> (tr_isn r \<noteq> None \<or> ms \<noteq> [] \<longrightarrow> tr_isn r' = Some isn)
    \<and> held (tr_reassembler r') = held (tr_reassembler r)
        \<union> (\<Union>(msg_span ` set ms) \<inter> {..<window_end (tr_reassembler r)})
    \<and> ra_eof_seen (tr_reassembler r') = (ra_eof_seen (tr_reassembler r) \<or> (\<exists>(k, m) \<in> set ms. sm_FIN m))
    \<and> has_error (ra_output (tr_reassembler r')) = has_error (ra_output (tr_reassembler r))
    \<and> bytes_popped (ra_output (tr_reassembler r')) = bytes_popped (ra_output (tr_reassembler r))
    \<and> window_end (tr_reassembler r') = window_end (tr_reassembler r)"
  using assms
proof (induction ms arbitrary: r)
  case Nil
  then show ?case by (auto simp: tr_inv_def)
next
  case (Cons x ms)
  obtain k m where x: "x = (k, m)" by (cases x)
  have m: "carries s isn k m" using Cons.prems(2) x by simp
  have "assembled (tr_reassembler r) \<le> length s" "k \<le> length s"
    using Cons.prems(1) m ra_invD(2) by (auto simp: tr_inv_def carries_def)
  then have near: "if sm_SYN m then assembled (tr_reassembler r) < 2 ^ 31
      else absdiff (assembled (tr_reassembler r)) (1 + k) < 2 ^ 31"
    using Cons.prems(3) by (auto simp: absdiff_def)
  obtain r1 where r1: "Receiver_receive m r = Inr r1" "tr_inv s isn r1" "tr_isn r1 = Some isn"
      "held (tr_reassembler r1) = held (tr_reassembler r)
        \<union> ({k ..< k + length (sm_payload m)} \<inter> {..<window_end (tr_reassembler r)})"
      "ra_eof_seen (tr_reassembler r1) = (sm_FIN m \<or> ra_eof_seen (tr_reassembler r))"
      "has_error (ra_output (tr_reassembler r1)) = has_error (ra_output (tr_reassembler r))"
      "bytes_popped (ra_output (tr_reassembler r1)) = bytes_popped (ra_output (tr_reassembler r))"
      "window_end (tr_reassembler r1) = window_end (tr_reassembler r)"
    using Receiver_receive_ok [OF Cons.prems(1) m _ _ near] Cons.prems(3,4) x by auto
  from Cons.IH [OF r1(2)] Cons.prems(2,3) r1(3) obtain r' where
    "receive_all (map snd ms) r1 = Inr r'" "tr_inv s isn r'" "tr_isn r' = Some isn"
    "held (tr_reassembler r') = held (tr_reassembler r1)
        \<union> (\<Union>(msg_span ` set ms) \<inter> {..<window_end (tr_reassembler r1)})"
    "ra_eof_seen (tr_reassembler r') = (ra_eof_seen (tr_reassembler r1) \<or> (\<exists>(k, m) \<in> set ms. sm_FIN m))"
    "has_error (ra_output (tr_reassembler r')) = has_error (ra_output (tr_reassembler r1))"
    "bytes_popped (ra_output (tr_reassembler r')) = bytes_popped (ra_output (tr_reassembler r1))"
    "window_end (tr_reassembler r') = window_end (tr_reassembler r1)"
    by auto
  with r1 show ?case by (auto simp: x msg_span_def)
qed

lemma first_gap:
  assumes "ra_inv s ra" and "{..<n} \<subseteq> held ra" and "n \<notin> held ra"
  shows "assembled ra = n"
proof -
  have "{..<assembled ra} \<subseteq> held ra" by (auto simp: held_def)
  then show ?thesis
    using assembled_notin_held [OF assms(1)] assms(2,3) by (metis lessThan_iff linorder_neqE_nat subsetD)
qed

lemma window_room:
  assumes "ra_inv s ra" and "bytes_popped (ra_output ra) = 0"
  shows "unat (available_capacity (ra_output ra)) = window_end ra - assembled ra"
proof -
  let ?out = "ra_output ra"
  have wf: "bs_wf ?out" "assembled ra = length (bs_content ?out)" using assms by (auto simp: ra_inv_def Let_def)
  have "unat (of_nat (length (bs_content ?out)) :: u64) = length (bs_content ?out)"
    using wf(1) by (intro unat_of_nat_u64 le_less_trans[OF _ unat_u64_less[of "bs_capacity ?out"]]) (simp add: bs_wf_def)
  then show ?thesis
    using wf assms(2) by (simp add: available_capacity_def bs_wf_def window_end_def unat_sub word_le_nat_alt)
qed

text \<open>
  C20. The receiver's answer names the first byte it lacks.  Whatever segments of a stream \<open>s\<close> it was given after
  the SYN, in any order, overlapping and with gaps, and not read from: if \<open>n\<close> is the first index that no
  segment has brought within the capacity, the first \<open>n\<close> bytes of \<open>s\<close> can be read, the acknowledgment
  covers the SYN, these bytes and, when all of \<open>s\<close> and its FIN are there, the FIN, and
  the window is the capacity that is left, at most 65535.
\<close>

theorem receiver_acknowledges:
  assumes "length s < 2 ^ 31 - 1" and "length s + unat c < 2 ^ 64"
    and "list_all (\<lambda>(k, m). carries s isn k m) ((0, syn) # ms)" and "sm_SYN syn"
    and "{..<n} \<subseteq> \<Union>(msg_span ` set ((0, syn) # ms)) \<inter> {..<unat c}"
    and "n \<notin> \<Union>(msg_span ` set ((0, syn) # ms)) \<inter> {..<unat c}"
  shows "\<exists>r. receive_all (syn # map snd ms) (TCPReceiver_new (Reassembler_new (ByteStream_new c))) = Inr r \<and>
    bs_content (ra_output (tr_reassembler r)) = take n s \<and>
    Receiver_send r =
      \<lparr>rm_ackno = Some (wrap (of_nat (1 + n + (if n = length s \<and> (\<exists>(k, m) \<in> set ((0, syn) # ms). sm_FIN m) then 1 else 0))) isn),
       rm_window_size = of_nat (min (unat c - n) 65535), rm_RST = False\<rparr>"
proof -
  let ?r = "TCPReceiver_new (Reassembler_new (ByteStream_new c))" and ?fin = "\<exists>(k, m) \<in> set ((0, syn) # ms). sm_FIN m"
  have new: "held (tr_reassembler ?r) = {}" "window_end (tr_reassembler ?r) = unat c"
      "bytes_popped (ra_output (tr_reassembler ?r)) = 0" "\<not> has_error (ra_output (tr_reassembler ?r))"
      "\<not> ra_eof_seen (tr_reassembler ?r)"
    by (simp_all add: held_def assembled_def window_end_def Reassembler_new_def ByteStream_new_def
        bytes_pushed_def bytes_popped_def TCPReceiver_new_def has_error_def)
  obtain r where r: "receive_all (map snd ((0, syn) # ms)) ?r = Inr r" "tr_inv s isn r" "tr_isn r = Some isn"
      "held (tr_reassembler r) = \<Union>(msg_span ` set ((0, syn) # ms)) \<inter> {..<unat c}"
      "ra_eof_seen (tr_reassembler r) = ?fin" "\<not> has_error (ra_output (tr_reassembler r))"
      "bytes_popped (ra_output (tr_reassembler r)) = 0" "window_end (tr_reassembler r) = unat c"
    using receive_all_ok [OF tr_inv_new [OF assms(2)] assms(3,1)] assms(4) new by auto
  have inv: "ra_inv s (tr_reassembler r)" using r(2) by (simp add: tr_inv_def)
  have n: "assembled (tr_reassembler r) = n" using first_gap [OF inv] assms(5,6) unfolding r(4) by blast
  have closed: "is_closed (ra_output (tr_reassembler r)) \<longleftrightarrow> n = length s \<and> ?fin"
    using inv r(5,6) n by (auto simp: ra_inv_def Let_def)
  have pushed: "bytes_pushed (ra_output (tr_reassembler r)) = of_nat n"
    using n unfolding assembled_def by (metis of_nat_unat_u64)
  have "unat (available_capacity (ra_output (tr_reassembler r))) = unat c - n"
    using window_room [OF inv r(7)] n r(8) by simp
  then have "ucast (min (available_capacity (ra_output (tr_reassembler r))) 0xFFFF) = (of_nat (min (unat c - n) 65535) :: u16)"
    by (simp only: word_unat_eq_iff unat_window unat_of_nat) (simp add: take_bit_nat_eq_self)
  then have "Receiver_send r = \<lparr>rm_ackno = Some (wrap (of_nat (1 + n + (if n = length s \<and> ?fin then 1 else 0))) isn),
      rm_window_size = of_nat (min (unat c - n) 65535), rm_RST = False\<rparr>"
    using closed pushed r(3,6) by (auto simp: Receiver_send_def Reassembler_has_error_def Let_def)
  then show ?thesis using r(1,7) ra_inv_content [OF inv] n by auto
qed

text \<open>A gap: byte 0 and bytes 2 and 3 with the FIN have arrived, byte 1 has not.\<close>

theorem receiver_acknowledges_witness:
  "\<exists>r. receive_all
      [\<lparr>sm_seqno = Wrap32 7, sm_SYN = True, sm_payload = [5], sm_FIN = False, sm_RST = False\<rparr>,
       \<lparr>sm_seqno = Wrap32 10, sm_SYN = False, sm_payload = [8, 9], sm_FIN = True, sm_RST = False\<rparr>]
      (TCPReceiver_new (Reassembler_new (ByteStream_new 4))) = Inr r \<and>
    bs_content (ra_output (tr_reassembler r)) = [5] \<and>
    Receiver_send r = \<lparr>rm_ackno = Some (Wrap32 9), rm_window_size = 3, rm_RST = False\<rparr>"
  using receiver_acknowledges [of "[5, 6, 8, 9]" 4 "Wrap32 7"
      "\<lparr>sm_seqno = Wrap32 7, sm_SYN = True, sm_payload = [5], sm_FIN = False, sm_RST = False\<rparr>"
      "[(2, \<lparr>sm_seqno = Wrap32 10, sm_SYN = False, sm_payload = [8, 9], sm_FIN = True, sm_RST = False\<rparr>)]" 1]
  by (simp add: carries_def substr_at_def msg_span_def wrap_def wrap32_plus_def lessThan_Suc)

lemma receive_all_delivers:
  assumes "length s < 2 ^ 31 - 1" and "length s \<le> unat c" and "length s + unat c < 2 ^ 64"
    and "list_all (\<lambda>(k, m). carries s isn k m) ((0, syn) # ms)" and "sm_SYN syn"
    and "{..<length s} \<subseteq> \<Union>(msg_span ` set ((0, syn) # ms))"
    and "\<exists>(k, m) \<in> set ((0, syn) # ms). sm_FIN m"
  shows "\<exists>r. receive_all (syn # map snd ms) (TCPReceiver_new (Reassembler_new (ByteStream_new c))) = Inr r \<and>
    bs_content (ra_output (tr_reassembler r)) = s \<and> is_closed (ra_output (tr_reassembler r)) \<and>
    rm_ackno (Receiver_send r) = Some (wrap (of_nat (length s + 2)) isn)"
proof -
  let ?r = "TCPReceiver_new (Reassembler_new (ByteStream_new c))"
  have new: "held (tr_reassembler ?r) = {}" "window_end (tr_reassembler ?r) = unat c"
      "bytes_popped (ra_output (tr_reassembler ?r)) = 0" "\<not> has_error (ra_output (tr_reassembler ?r))"
    by (simp_all add: held_def assembled_def window_end_def Reassembler_new_def ByteStream_new_def
        bytes_pushed_def bytes_popped_def TCPReceiver_new_def has_error_def)
  obtain r where r: "receive_all (map snd ((0, syn) # ms)) ?r = Inr r" "tr_inv s isn r" "tr_isn r = Some isn"
      "held (tr_reassembler r) = \<Union>(msg_span ` set ((0, syn) # ms)) \<inter> {..<unat c}"
      "ra_eof_seen (tr_reassembler r)" "\<not> has_error (ra_output (tr_reassembler r))"
      "bytes_popped (ra_output (tr_reassembler r)) = 0"
    using receive_all_ok [OF tr_inv_new [OF assms(3)] assms(4,1)] assms(5,7) new by auto
  have inv: "ra_inv s (tr_reassembler r)" using r(2) by (simp add: tr_inv_def)
  have "{..<length s} \<subseteq> held (tr_reassembler r)" unfolding r(4) using assms(2,6) by auto
  note full = ra_complete(1) [OF inv this]
  have closed: "is_closed (ra_output (tr_reassembler r))"
    using inv r(5) full by (simp add: ra_inv_def Let_def)
  have "bytes_pushed (ra_output (tr_reassembler r)) = of_nat (length s)"
    using full unfolding assembled_def by (metis of_nat_unat_u64)
  then have "rm_ackno (Receiver_send r) = Some (wrap (of_nat (length s + 2)) isn)"
    using closed r(3,6) by (simp add: Receiver_send_def Reassembler_has_error_def Let_def algebra_simps)
  then show ?thesis
    using r(1,7) closed ra_inv_content [OF inv] full by auto
qed

text \<open>
  C6. Delivery: a new receiver that is given the SYN segment and then, in any order and with any
  repetition, segments that together carry the whole stream \<open>s\<close> and its FIN delivers exactly
  \<open>s\<close>, if it fits in the receiver's capacity and is shorter than \<open>2 ^ 31 - 1\<close> bytes, to its reader, closes the stream and acknowledges SYN, bytes and FIN.
\<close>

theorem receiver_delivers_stream:
  assumes "length s < 2 ^ 31 - 1" and "length s \<le> unat c" and "length s + unat c < 2 ^ 64"
    and "list_all (\<lambda>(k, m). carries s isn k m) ((0, syn) # ms)" and "sm_SYN syn"
    and "{..<length s} \<subseteq> \<Union>(msg_span ` set ((0, syn) # ms))"
    and "\<exists>(k, m) \<in> set ((0, syn) # ms). sm_FIN m"
  shows "\<exists>r. receive_all (syn # map snd ms) (TCPReceiver_new (Reassembler_new (ByteStream_new c))) = Inr r \<and>
    bs_content (ra_output (tr_reassembler r)) = s \<and> is_closed (ra_output (tr_reassembler r)) \<and>
    rm_ackno (Receiver_send r) = Some (wrap (of_nat (length s + 2)) isn)"
  using assms by (rule receive_all_delivers)

theorem receiver_delivers_stream_witness:
  "\<exists>r. receive_all
      [\<lparr>sm_seqno = Wrap32 7, sm_SYN = True, sm_payload = [], sm_FIN = False, sm_RST = False\<rparr>,
       \<lparr>sm_seqno = Wrap32 9, sm_SYN = False, sm_payload = [6], sm_FIN = True, sm_RST = False\<rparr>,
       \<lparr>sm_seqno = Wrap32 8, sm_SYN = False, sm_payload = [5, 6], sm_FIN = False, sm_RST = False\<rparr>]
      (TCPReceiver_new (Reassembler_new (ByteStream_new 4))) = Inr r \<and>
    bs_content (ra_output (tr_reassembler r)) = [5, 6]"
proof -
  have "{..<length [5 :: byte, 6]} = {0, 1}" by auto
  then show ?thesis
    using receiver_delivers_stream [of "[5, 6]" 4 "Wrap32 7"
      "\<lparr>sm_seqno = Wrap32 7, sm_SYN = True, sm_payload = [], sm_FIN = False, sm_RST = False\<rparr>"
      "[(1, \<lparr>sm_seqno = Wrap32 9, sm_SYN = False, sm_payload = [6], sm_FIN = True, sm_RST = False\<rparr>),
        (0, \<lparr>sm_seqno = Wrap32 8, sm_SYN = False, sm_payload = [5, 6], sm_FIN = False, sm_RST = False\<rparr>)]"]
    by (auto simp: carries_def substr_at_def msg_span_def wrap_def wrap32_plus_def)
qed

section \<open>Resets and stray segments\<close>

lemma Receiver_receive_error:
  assumes "has_error (ra_output (tr_reassembler r))" and "Receiver_receive m r = Inr r'"
  shows "has_error (ra_output (tr_reassembler r'))"
  using assms by (auto simp: Receiver_receive_def Let_def rbind_Inr_iff insert_flags
      Reassembler_close_def Reassembler_set_error_def Writer_close_def set_error_def has_error_def
      split: if_splits option.splits dest: insert_flags(1) [unfolded has_error_def])

lemma receive_all_error:
  "has_error (ra_output (tr_reassembler r)) \<Longrightarrow> receive_all ms r = Inr r' \<Longrightarrow>
   has_error (ra_output (tr_reassembler r'))"
  by (induction ms arbitrary: r) (auto simp: rbind_Inr_iff dest: Receiver_receive_error)

text \<open>
  C34. A reset is final: after a segment with RST the inbound stream is closed with an error, and
  whatever arrives later, the receiver answers with a reset, no acknowledgment and a zero window.
\<close>

theorem receiver_reset_final:
  assumes "sm_RST m" and "receive_all (m # ms) r = Inr r'"
  shows "Receiver_send r' = \<lparr>rm_ackno = None, rm_window_size = 0, rm_RST = True\<rparr>"
proof -
  let ?r = "r\<lparr>tr_reassembler := Reassembler_close (Reassembler_set_error (tr_reassembler r))\<rparr>"
  have "Receiver_receive m r = Inr ?r" using assms(1) by (simp add: Receiver_receive_def)
  then have "receive_all ms ?r = Inr r'" using assms(2) by simp
  moreover have "has_error (ra_output (tr_reassembler ?r))"
    by (simp add: Reassembler_close_def Reassembler_set_error_def Writer_close_def set_error_def has_error_def)
  ultimately have "has_error (ra_output (tr_reassembler r'))" by (rule receive_all_error [rotated])
  then show ?thesis by (simp add: Receiver_send_def Reassembler_has_error_def Let_def)
qed

theorem receiver_reset_final_witness:
  "case receive_all
      [\<lparr>sm_seqno = Wrap32 0, sm_SYN = False, sm_payload = [], sm_FIN = False, sm_RST = True\<rparr>,
       \<lparr>sm_seqno = Wrap32 0, sm_SYN = True, sm_payload = [65], sm_FIN = False, sm_RST = False\<rparr>]
      (TCPReceiver_new (Reassembler_new (ByteStream_new 40))) of
     Inl e \<Rightarrow> False | Inr r \<Rightarrow> rm_RST (Receiver_send r)"
proof -
  let ?m = "\<lparr>sm_seqno = Wrap32 0, sm_SYN = False, sm_payload = [], sm_FIN = False, sm_RST = True\<rparr>"
  let ?m2 = "\<lparr>sm_seqno = Wrap32 0, sm_SYN = True, sm_payload = [65], sm_FIN = False, sm_RST = False\<rparr>"
  let ?r = "TCPReceiver_new (Reassembler_new (ByteStream_new 40))"
  have "case receive_all [?m, ?m2] ?r of Inl e \<Rightarrow> False | Inr r \<Rightarrow> True" by code_simp
  then obtain r where "receive_all [?m, ?m2] ?r = Inr r" by (auto split: sum.splits)
  with receiver_reset_final [of ?m "[?m2]" ?r r] show ?thesis by simp
qed

text \<open>
  A segment before the start of the stream can close it.  A segment with the initial
  sequence number and without SYN has the stream index \<open>0 - 1\<close>, which wraps to \<open>2 ^ 64 - 1\<close>; its
  payload is dropped, but its FIN sets the end of the stream to \<open>2 ^ 64 - 1\<close> plus the length of
  the payload, modulo \<open>2 ^ 64\<close>.  With one byte of payload that is zero, and a stream that has not
  received a byte is closed.
\<close>

theorem receiver_premature_close:
  "case receive_all
      [\<lparr>sm_seqno = Wrap32 0, sm_SYN = True, sm_payload = [], sm_FIN = False, sm_RST = False\<rparr>,
       \<lparr>sm_seqno = Wrap32 0, sm_SYN = False, sm_payload = [65], sm_FIN = True, sm_RST = False\<rparr>]
      (TCPReceiver_new (Reassembler_new (ByteStream_new 4000))) of
     Inl e \<Rightarrow> False
   | Inr r \<Rightarrow> is_closed (ra_output (tr_reassembler r)) \<and> bytes_pushed (ra_output (tr_reassembler r)) = 0
       \<and> \<not> has_error (ra_output (tr_reassembler r))"
  by code_simp

end
