(* ===== verification/Timer.thy ===== *)
theory Timer
  imports Prelude
begin

text \<open>
  \<^verbatim>\<open>src/src/timer.hh\<close>: the millisecond countdown \<^verbatim>\<open>Timer\<close>, the constants of \<^verbatim>\<open>NetworkTimer\<close> and
  the \<^verbatim>\<open>RetransmissionTimer\<close> with exponential backoff.  All quantities are 64-bit.  The locale
  \<open>countdown\<close> states what the users of a timer rely on; both timers interpret it.
\<close>

record timer =
  tm_timeout_ms :: u64
  tm_elapsed_ms :: u64
  tm_running :: bool

definition Timer_new :: "u64 \<Rightarrow> timer" where
  "Timer_new timeout_ms = \<lparr>tm_timeout_ms = timeout_ms, tm_elapsed_ms = 0, tm_running = False\<rparr>"

definition Timer_start :: "timer \<Rightarrow> timer" where
  "Timer_start t = t\<lparr>tm_running := True, tm_elapsed_ms := 0\<rparr>"

definition Timer_stop :: "timer \<Rightarrow> timer" where
  "Timer_stop t = t\<lparr>tm_running := False, tm_elapsed_ms := 0\<rparr>"

definition Timer_tick :: "u64 \<Rightarrow> timer \<Rightarrow> timer" where
  "Timer_tick ms t = (if tm_running t then t\<lparr>tm_elapsed_ms := tm_elapsed_ms t + ms\<rparr> else t)"

definition Timer_is_expired :: "timer \<Rightarrow> bool" where
  "Timer_is_expired t \<longleftrightarrow> tm_running t \<and> tm_timeout_ms t \<le> tm_elapsed_ms t"

definition set_timeout_ms :: "u64 \<Rightarrow> timer \<Rightarrow> timer" where
  "set_timeout_ms ms t = t\<lparr>tm_timeout_ms := ms\<rparr>"

definition ARP_REQUEST_TIMEOUT :: u64 where
  "ARP_REQUEST_TIMEOUT = 5000"

definition ARP_ENTRY_TIMEOUT :: u64 where
  "ARP_ENTRY_TIMEOUT = 30000"

section \<open>The retransmission timer\<close>

record retransmission_timer =
  rt_initial_RTO_ms :: u64
  rt_timer :: timer
  rt_consecutive_retransmissions :: u64

definition RetransmissionTimer_new :: "u64 \<Rightarrow> retransmission_timer" where
  "RetransmissionTimer_new initial_RTO_ms =
     \<lparr>rt_initial_RTO_ms = initial_RTO_ms, rt_timer = Timer_new initial_RTO_ms,
      rt_consecutive_retransmissions = 0\<rparr>"

definition rt_start :: "retransmission_timer \<Rightarrow> retransmission_timer" where
  "rt_start r = r\<lparr>rt_timer := Timer_start (rt_timer r)\<rparr>"

definition rt_stop :: "retransmission_timer \<Rightarrow> retransmission_timer" where
  "rt_stop r = r\<lparr>rt_timer := Timer_stop (rt_timer r)\<rparr>"

definition rt_tick :: "u64 \<Rightarrow> retransmission_timer \<Rightarrow> retransmission_timer" where
  "rt_tick ms r = r\<lparr>rt_timer := Timer_tick ms (rt_timer r)\<rparr>"

definition rt_is_running :: "retransmission_timer \<Rightarrow> bool" where
  "rt_is_running r = tm_running (rt_timer r)"

definition rt_is_expired :: "retransmission_timer \<Rightarrow> bool" where
  "rt_is_expired r = Timer_is_expired (rt_timer r)"

definition reset_backoff :: "retransmission_timer \<Rightarrow> retransmission_timer" where
  "reset_backoff r = r\<lparr>rt_timer := set_timeout_ms (rt_initial_RTO_ms r) (rt_timer r),
     rt_consecutive_retransmissions := 0\<rparr>"

definition record_retransmission :: "retransmission_timer \<Rightarrow> retransmission_timer" where
  "record_retransmission r =
     r\<lparr>rt_consecutive_retransmissions := rt_consecutive_retransmissions r + 1,
       rt_timer := set_timeout_ms (tm_timeout_ms (rt_timer r) * 2) (rt_timer r)\<rparr>"

lemmas timer_defs = Timer_new_def Timer_start_def Timer_stop_def Timer_tick_def Timer_is_expired_def
  set_timeout_ms_def
lemmas rt_defs = RetransmissionTimer_new_def rt_start_def rt_stop_def rt_tick_def rt_is_running_def
  rt_is_expired_def reset_backoff_def record_retransmission_def

section \<open>The contract of a countdown\<close>

locale countdown =
  fixes elapsed :: "'t \<Rightarrow> u64"
    and timeout :: "'t \<Rightarrow> u64"
    and running :: "'t \<Rightarrow> bool"
    and start :: "'t \<Rightarrow> 't"
    and tick :: "u64 \<Rightarrow> 't \<Rightarrow> 't"
    and expired :: "'t \<Rightarrow> bool"
  assumes start: "running (start t)" "elapsed (start t) = 0" "timeout (start t) = timeout t"
    and tick: "running (tick ms t) = running t" "timeout (tick ms t) = timeout t"
      "running t \<Longrightarrow> elapsed (tick ms t) = elapsed t + ms"
    and expired: "expired t \<longleftrightarrow> running t \<and> timeout t \<le> elapsed t"
begin

lemma ticks_elapsed:
  assumes "running t" and "unat (elapsed t) + sum_list (map unat mss) < 2 ^ 64"
  shows "unat (elapsed (fold tick mss t)) = unat (elapsed t) + sum_list (map unat mss)
    \<and> running (fold tick mss t) \<and> timeout (fold tick mss t) = timeout t"
  using assms
proof (induction mss arbitrary: t)
  case (Cons ms mss)
  have "unat (elapsed (tick ms t)) = unat (elapsed t) + unat ms"
    using Cons.prems by (simp add: tick unat_add_u64)
  then show ?case using Cons.IH [of "tick ms t"] Cons.prems by (simp add: tick)
qed simp

text \<open>A started countdown expires exactly when the time that has passed reaches the timeout.\<close>

lemma expires_on_time:
  assumes "sum_list (map unat mss) < 2 ^ 64"
  shows "expired (fold tick mss (start t)) \<longleftrightarrow> unat (timeout t) \<le> sum_list (map unat mss)"
  using ticks_elapsed [of "start t" mss] assms by (simp add: start expired word_le_nat_alt)

end

interpretation plain: countdown tm_elapsed_ms tm_timeout_ms tm_running Timer_start Timer_tick Timer_is_expired
  by unfold_locales (auto simp: timer_defs)

interpretation backoff: countdown "tm_elapsed_ms \<circ> rt_timer" "tm_timeout_ms \<circ> rt_timer" rt_is_running
    rt_start rt_tick rt_is_expired
  by unfold_locales (auto simp: timer_defs rt_defs)

section \<open>Correctness\<close>

lemma fun_pow_record_retransmission:
  "tm_timeout_ms (rt_timer ((record_retransmission ^^ n) r)) = tm_timeout_ms (rt_timer r) * 2 ^ n"
  "rt_consecutive_retransmissions ((record_retransmission ^^ n) r) = rt_consecutive_retransmissions r + of_nat n"
  "rt_initial_RTO_ms ((record_retransmission ^^ n) r) = rt_initial_RTO_ms r"
  by (induction n) (simp_all add: record_retransmission_def set_timeout_ms_def algebra_simps)

lemma unat_mult_pow2:
  assumes "unat (x :: u64) * 2 ^ n < 2 ^ 64"
  shows "unat (x * 2 ^ n) = unat x * 2 ^ n"
proof -
  have "x * 2 ^ n = of_nat (unat x * 2 ^ n)" by simp
  then show ?thesis using unat_of_nat_u64 [OF assms] by metis
qed

text \<open>
  Exponential backoff: after a successful acknowledgment has reset the backoff and \<open>n\<close>
  retransmissions have been recorded, a restarted retransmission timer expires exactly when
  \<open>2 ^ n\<close> times the initial timeout has passed, in whatever steps the time is reported.
\<close>

theorem backoff_doubles:
  assumes "unat (rt_initial_RTO_ms r) * 2 ^ n < 2 ^ 64" and "sum_list (map unat mss) < 2 ^ 64"
  shows "rt_is_expired (fold rt_tick mss (rt_start ((record_retransmission ^^ n) (reset_backoff r))))
    \<longleftrightarrow> unat (rt_initial_RTO_ms r) * 2 ^ n \<le> sum_list (map unat mss)"
proof -
  have "tm_timeout_ms (rt_timer ((record_retransmission ^^ n) (reset_backoff r))) = rt_initial_RTO_ms r * 2 ^ n"
    by (simp add: fun_pow_record_retransmission reset_backoff_def set_timeout_ms_def)
  then show ?thesis
    using backoff.expires_on_time [OF assms(2)] unat_mult_pow2 [OF assms(1)] by simp
qed

theorem backoff_doubles_witness:
  "\<not> rt_is_expired (fold rt_tick [3000, 4999]
       (rt_start ((record_retransmission ^^ 3) (reset_backoff (RetransmissionTimer_new 1000))))) \<and>
   rt_is_expired (fold rt_tick [3000, 4999, 1]
       (rt_start ((record_retransmission ^^ 3) (reset_backoff (RetransmissionTimer_new 1000)))))"
  using backoff_doubles [of "RetransmissionTimer_new 1000" 3 "[3000, 4999]"]
    backoff_doubles [of "RetransmissionTimer_new 1000" 3 "[3000, 4999, 1]"]
  by (simp add: RetransmissionTimer_new_def)

end
