(* ===== verification/TCP_Sender.thy ===== *)
theory TCP_Sender
  imports TCP_Receiver Timer
begin

text \<open>
  \<^verbatim>\<open>src/src/tcp_sender.hh\<close> and \<^verbatim>\<open>tcp_sender.cc\<close>: the sending half of a TCP connection.  The
  \<^verbatim>\<open>transmit\<close> callback is modelled by the segments an operation hands to it, in order.  The
  theory ends with the composition of a sender with the receiver of \<open>TCP_Receiver\<close>.
\<close>

record tcp_sender =
  ts_input :: byte_stream
  ts_isn :: wrap32
  ts_timer :: retransmission_timer
  ts_window_size :: u16
  ts_zero_window :: bool
  ts_next_seqno :: u64
  ts_bytes_in_flight :: u64
  ts_syn_sent :: bool
  ts_fin_sent :: bool
  ts_outstanding :: "sender_message list"

definition TCPSender_new :: "byte_stream \<Rightarrow> wrap32 \<Rightarrow> u64 \<Rightarrow> tcp_sender" where
  "TCPSender_new input isn initial_RTO_ms =
     \<lparr>ts_input = input, ts_isn = isn, ts_timer = RetransmissionTimer_new initial_RTO_ms,
      ts_window_size = 1, ts_zero_window = False, ts_next_seqno = 0, ts_bytes_in_flight = 0,
      ts_syn_sent = False, ts_fin_sent = False, ts_outstanding = []\<rparr>"

definition make_empty_message :: "tcp_sender \<Rightarrow> sender_message" where
  "make_empty_message s =
     \<lparr>sm_seqno = wrap32_plus (ts_isn s) (ucast (ts_next_seqno s)), sm_SYN = False, sm_payload = [],
      sm_FIN = False, sm_RST = has_error (ts_input s)\<rparr>"

text \<open>
  The loop of \<^verbatim>\<open>send_segment\<close> that fills the payload.  If \<^verbatim>\<open>peek\<close> showed nothing while bytes are
  buffered, \<^verbatim>\<open>pop(0)\<close> would change nothing and the loop would run for ever.
\<close>

function payload_loop :: "u64 \<Rightarrow> byte_stream \<Rightarrow> bytes \<Rightarrow> (bytes \<times> byte_stream) result" where
  "payload_loop payload_room reader payload =
     (if length payload < unat payload_room \<and> 0 < bytes_buffered reader then
        case Reader_peek reader of
          Inl e \<Rightarrow> Inl e
        | Inr front \<Rightarrow>
            let view = take (unat payload_room - length payload) front
            in if view = [] then Inl Diverges
               else case Reader_pop (size64 view) reader of
                      Inl e \<Rightarrow> Inl e
                    | Inr reader' \<Rightarrow> payload_loop payload_room reader' (payload @ view)
      else Inr (payload, reader))"
  by pat_completeness auto
termination
  by (relation "measure (\<lambda>(room, reader, payload). unat room - length payload)")
    (auto simp: min_def neq_Nil_conv)

declare payload_loop.simps [simp del]

text \<open>\<^verbatim>\<open>send_segment\<close>: the segment it transmits, or \<open>None\<close> when it returns false.\<close>

definition send_segment :: "u64 \<Rightarrow> tcp_sender \<Rightarrow> (sender_message option \<times> tcp_sender) result" where
  "send_segment window_remaining s =
     (if window_remaining = 0 then Inr (None, s)
      else
        let msg = make_empty_message s;
            msg = (if \<not> ts_syn_sent s then msg\<lparr>sm_SYN := True\<rparr> else msg);
            length = (if \<not> ts_syn_sent s then 1 else 0 :: u64);
            payload_room = min (window_remaining - length) MAX_PAYLOAD_SIZE
        in rbind (payload_loop payload_room (ts_input s) []) (\<lambda>(payload, input).
             let msg = msg\<lparr>sm_payload := payload\<rparr>;
                 length = length + size64 payload;
                 fin = (\<not> ts_fin_sent s \<and> is_closed input \<and> bytes_buffered input = 0
                        \<and> length < window_remaining);
                 msg = (if fin then msg\<lparr>sm_FIN := True\<rparr> else msg);
                 length = (if fin then length + 1 else length);
                 s = s\<lparr>ts_input := input\<rparr>
             in if length = 0 then Inr (None, s)
                else Inr (Some msg,
                  s\<lparr>ts_next_seqno := ts_next_seqno s + length,
                    ts_bytes_in_flight := ts_bytes_in_flight s + length,
                    ts_syn_sent := ts_syn_sent s \<or> sm_SYN msg,
                    ts_fin_sent := ts_fin_sent s \<or> sm_FIN msg,
                    ts_outstanding := ts_outstanding s @ [msg],
                    ts_timer := (if \<not> rt_is_running (ts_timer s) then rt_start (ts_timer s)
                                 else ts_timer s)\<rparr>)))"

text \<open>Each segment takes at least one and at most \<open>window_remaining\<close> sequence numbers.\<close>

lemma payload_loop_length:
  "payload_loop room reader payload = Inr (payload', reader') \<Longrightarrow> length payload \<le> unat room \<Longrightarrow>
   length payload' \<le> unat room"
proof (induction room reader payload rule: payload_loop.induct)
  case (1 room reader payload)
  from "1.prems"(1) show ?case
    unfolding payload_loop.simps [of room reader payload] using "1.prems"(2) "1.IH"
    by (auto simp: Let_def split: if_splits sum.splits)
qed

lemma send_segment_advance:
  assumes "send_segment w s = Inr (Some m, s')"
  shows "\<exists>len. 0 < len \<and> len \<le> w \<and> ts_next_seqno s' = ts_next_seqno s + len"
proof -
  let ?l = "if \<not> ts_syn_sent s then 1 else 0 :: u64"
  have w: "w \<noteq> 0" using assms by (auto simp: send_segment_def)
  obtain p input where p: "payload_loop (min (w - ?l) MAX_PAYLOAD_SIZE) (ts_input s) [] = Inr (p, input)"
    using assms w by (fastforce simp: send_segment_def Let_def rbind_Inr_iff)
  have le: "?l \<le> w" using w by (simp add: word_le_nat_alt unat_gt_0 Suc_le_eq)
  have "length p \<le> unat (min (w - ?l) MAX_PAYLOAD_SIZE)" using payload_loop_length [OF p] by simp
  then have lp: "length p \<le> unat w - unat ?l" using le by (auto simp: min_def unat_sub word_le_nat_alt split: if_splits)
  then have "unat ?l + length p \<le> unat w" using le by (simp add: word_le_nat_alt)
  moreover have "unat ?l + length p < 2 ^ 64" using calculation unat_u64_less [of w] by linarith
  ultimately have len: "?l + size64 p \<le> w" "unat (?l + size64 p) = unat ?l + length p"
    by (simp_all add: word_le_nat_alt unat_add_size64)
  show ?thesis
  proof (cases "\<not> ts_fin_sent s \<and> is_closed input \<and> bytes_buffered input = 0 \<and> ?l + size64 p < w")
    case True
    then have lt: "unat (?l + size64 p) < unat w" by (simp only: word_less_nat_alt)
    then have "unat (?l + size64 p + 1) = unat (?l + size64 p) + 1"
      using unat_add_u64 [of "?l + size64 p" 1] unat_u64_less [of w] by simp
    then have "?l + size64 p + 1 \<le> w" "0 < ?l + size64 p + 1"
      using lt unfolding word_le_nat_alt word_less_nat_alt unat_0 by linarith+
    then show ?thesis using assms w p True
      by (intro exI [of _ "?l + size64 p + 1"]) (auto simp: send_segment_def Let_def split: if_splits)
  next
    case False
    then show ?thesis using assms w p len(1)
      by (intro exI [of _ "?l + size64 p"]) (auto simp: send_segment_def Let_def word_gt_0 split: if_splits)
  qed
qed

text \<open>The loop of \<^verbatim>\<open>push\<close>.\<close>

function push_loop ::
  "u64 \<Rightarrow> tcp_sender \<Rightarrow> sender_message list \<Rightarrow> (sender_message list \<times> tcp_sender) result" where
  "push_loop right_edge s sent =
     (if ts_next_seqno s < right_edge \<and> \<not> ts_fin_sent s then
        case send_segment (right_edge - ts_next_seqno s) s of
          Inl e \<Rightarrow> Inl e
        | Inr (None, s') \<Rightarrow> Inr (sent, s')
        | Inr (Some m, s') \<Rightarrow> push_loop right_edge s' (sent @ [m])
      else Inr (sent, s))"
  by pat_completeness auto
termination
proof (relation "measure (\<lambda>(right_edge, s, sent). unat (right_edge - ts_next_seqno s))", goal_cases)
  case (2 right_edge s sent y o' s' m)
  then obtain len where len: "0 < len" "len \<le> right_edge - ts_next_seqno s"
      "ts_next_seqno s' = ts_next_seqno s + len"
    using send_segment_advance [of "right_edge - ts_next_seqno s" s m s'] by auto
  have "right_edge - ts_next_seqno s' = right_edge - ts_next_seqno s - len"
    unfolding len(3) by (simp add: diff_diff_add)
  then have "unat (right_edge - ts_next_seqno s') = unat (right_edge - ts_next_seqno s) - unat len"
    using unat_sub [OF len(2)] by (simp only:)
  then show ?case using len(1,2) by (auto simp: word_less_nat_alt word_le_nat_alt)
qed simp

declare push_loop.simps [simp del]

definition Sender_push :: "tcp_sender \<Rightarrow> (sender_message list \<times> tcp_sender) result" where
  "Sender_push s =
     (let effective_window = (if ts_zero_window s then 1 else ucast (ts_window_size s)) :: u64;
          abs_ack = ts_next_seqno s - ts_bytes_in_flight s;
          right_edge = abs_ack + effective_window
      in push_loop right_edge s [])"

text \<open>The loop of \<^verbatim>\<open>receive\<close> that drops acknowledged segments.\<close>

fun ack_loop ::
  "wrap32 \<Rightarrow> u64 \<Rightarrow> u64 \<Rightarrow> sender_message list \<Rightarrow> u64 \<Rightarrow> bool \<Rightarrow> sender_message list \<times> u64 \<times> bool" where
  "ack_loop isn next_seqno abs_ackno [] in_flight acked = ([], in_flight, acked)"
| "ack_loop isn next_seqno abs_ackno (seg # segs) in_flight acked =
     (let seg_end = unwrap (sm_seqno seg) isn next_seqno + sequence_length seg
      in if seg_end > abs_ackno then (seg # segs, in_flight, acked)
         else ack_loop isn next_seqno abs_ackno segs (in_flight - sequence_length seg) True)"

definition Sender_receive :: "receiver_message \<Rightarrow> tcp_sender \<Rightarrow> tcp_sender" where
  "Sender_receive msg s =
     (if rm_RST msg then
        s\<lparr>ts_outstanding := [], ts_bytes_in_flight := 0, ts_timer := rt_stop (ts_timer s),
          ts_input := set_error (ts_input s)\<rparr>
      else
        let s = s\<lparr>ts_zero_window := (rm_window_size msg = 0), ts_window_size := rm_window_size msg\<rparr>
        in case rm_ackno msg of
             None \<Rightarrow> s
           | Some ackno \<Rightarrow>
               let abs_ackno = unwrap ackno (ts_isn s) (ts_next_seqno s)
               in if abs_ackno > ts_next_seqno s then s
                  else let (outstanding, in_flight, acked_anything) =
                             ack_loop (ts_isn s) (ts_next_seqno s) abs_ackno (ts_outstanding s)
                               (ts_bytes_in_flight s) False;
                           s = s\<lparr>ts_outstanding := outstanding, ts_bytes_in_flight := in_flight\<rparr>
                       in if acked_anything then
                            let timer = reset_backoff (ts_timer s)
                            in s\<lparr>ts_timer := (if outstanding = [] then rt_stop timer else rt_start timer)\<rparr>
                          else s)"

definition Sender_tick :: "u64 \<Rightarrow> tcp_sender \<Rightarrow> sender_message list \<times> tcp_sender" where
  "Sender_tick ms_since_last_tick s =
     (let s = s\<lparr>ts_timer := rt_tick ms_since_last_tick (ts_timer s)\<rparr>
      in if \<not> rt_is_expired (ts_timer s) \<or> ts_outstanding s = [] then ([], s)
         else let timer = (if \<not> ts_zero_window s then record_retransmission (ts_timer s) else ts_timer s)
              in ([hd (ts_outstanding s)], s\<lparr>ts_timer := rt_start timer\<rparr>))"

definition sequence_numbers_in_flight :: "tcp_sender \<Rightarrow> u64" where
  "sequence_numbers_in_flight s = ts_bytes_in_flight s"

definition consecutive_retransmissions :: "tcp_sender \<Rightarrow> u64" where
  "consecutive_retransmissions s = rt_consecutive_retransmissions (ts_timer s)"

section \<open>The state of a connection\<close>

text \<open>
  \<open>inp\<close> is the outbound stream: all bytes the application has written.  \<open>seg_at inp isn a m\<close>:
  the segment \<open>m\<close> starts at the absolute sequence number \<open>a\<close> (zero is the SYN) and has the
  part of the stream that belongs there.  \<open>chain inp isn a ms e\<close>: the segments \<open>ms\<close> follow
  each other from \<open>a\<close> up to \<open>e\<close> without gap or overlap.
\<close>

definition seg_at :: "bytes \<Rightarrow> wrap32 \<Rightarrow> nat \<Rightarrow> sender_message \<Rightarrow> bool" where
  "seg_at inp isn a m \<longleftrightarrow> sm_seqno m = wrap (of_nat a) isn \<and> (sm_SYN m \<longleftrightarrow> a = 0)
     \<and> substr_at inp (a - 1) (sm_payload m) \<and> a - 1 + length (sm_payload m) \<le> length inp
     \<and> (sm_FIN m \<longrightarrow> a - 1 + length (sm_payload m) = length inp)
     \<and> 0 < seq_len m \<and> length (sm_payload m) \<le> unat MAX_PAYLOAD_SIZE"

fun chain :: "bytes \<Rightarrow> wrap32 \<Rightarrow> nat \<Rightarrow> sender_message list \<Rightarrow> nat \<Rightarrow> bool" where
  "chain inp isn a [] e \<longleftrightarrow> a = e"
| "chain inp isn a (m # ms) e \<longleftrightarrow> seg_at inp isn a m \<and> chain inp isn (a + seq_len m) ms e"

definition ts_inv :: "bytes \<Rightarrow> tcp_sender \<Rightarrow> bool" where
  "ts_inv inp s \<longleftrightarrow> bs_wf (ts_input s)
     \<and> (\<exists>sent. inp = sent @ bs_content (ts_input s)
          \<and> unat (ts_next_seqno s) = of_bool (ts_syn_sent s) + length sent + of_bool (ts_fin_sent s)
          \<and> (\<not> ts_syn_sent s \<longrightarrow> sent = [] \<and> \<not> ts_fin_sent s))
     \<and> (ts_fin_sent s \<longrightarrow> is_closed (ts_input s) \<and> bs_content (ts_input s) = [])
     \<and> unat (ts_bytes_in_flight s) \<le> unat (ts_next_seqno s) \<and> unat (ts_bytes_in_flight s) \<le> 65535
     \<and> chain inp (ts_isn s) (unat (ts_next_seqno s) - unat (ts_bytes_in_flight s))
         (ts_outstanding s) (unat (ts_next_seqno s))
     \<and> (\<forall>m \<in> set (ts_outstanding s). sm_FIN m \<longrightarrow> ts_fin_sent s)
     \<and> (rt_is_running (ts_timer s) \<longleftrightarrow> ts_outstanding s \<noteq> [])"

lemma chain_append:
  "chain inp isn a (ms @ ms') e \<longleftrightarrow> (\<exists>b. chain inp isn a ms b \<and> chain inp isn b ms' e)"
  by (induction ms arbitrary: a) auto

lemma chain_sum: "chain inp isn a ms e \<Longrightarrow> e = a + sum_list (map seq_len ms)"
  by (induction ms arbitrary: a) fastforce+

lemma chain_seg_at:
  "chain inp isn a ms e \<Longrightarrow> m \<in> set ms \<Longrightarrow> \<exists>b \<ge> a. b + seq_len m \<le> e \<and> seg_at inp isn b m"
proof (induction ms arbitrary: a)
  case (Cons x ms)
  have tail: "seg_at inp isn a x" "chain inp isn (a + seq_len x) ms e" using Cons.prems(1) by auto
  show ?case
  proof (cases "m = x")
    case True
    then show ?thesis using tail chain_sum [OF tail(2)] by auto
  next
    case False
    then obtain b where "a + seq_len x \<le> b" "b + seq_len m \<le> e" "seg_at inp isn b m"
      using Cons.IH [OF tail(2)] Cons.prems(2) by auto
    then show ?thesis by (intro exI [of _ b]) simp
  qed
qed simp

lemma seg_at_grow:
  assumes "seg_at inp isn a m" and "sm_FIN m \<Longrightarrow> ys = []"
  shows "seg_at (inp @ ys) isn a m"
proof -
  have "substr_at (inp @ ys) (a - 1) (sm_payload m)"
    using assms(1) by (auto simp: seg_at_def substr_at_def)
  then show ?thesis using assms by (auto simp: seg_at_def)
qed

lemma chain_grow:
  "chain inp isn a ms e \<Longrightarrow> (\<And>m. m \<in> set ms \<Longrightarrow> sm_FIN m \<Longrightarrow> ys = []) \<Longrightarrow> chain (inp @ ys) isn a ms e"
  by (induction ms arbitrary: a) (auto intro: seg_at_grow)

lemma ts_inv_new: "bs_wf input \<Longrightarrow> ts_inv (bs_content input) (TCPSender_new input isn rto)"
  by (simp add: ts_inv_def TCPSender_new_def rt_is_running_def RetransmissionTimer_new_def Timer_new_def)

lemma ts_invI:
  assumes "bs_wf (ts_input s)" and "inp = sent @ bs_content (ts_input s)"
    and "unat (ts_next_seqno s) = of_bool (ts_syn_sent s) + length sent + of_bool (ts_fin_sent s)"
    and "\<not> ts_syn_sent s \<Longrightarrow> sent = [] \<and> \<not> ts_fin_sent s"
    and "ts_fin_sent s \<Longrightarrow> is_closed (ts_input s) \<and> bs_content (ts_input s) = []"
    and "unat (ts_bytes_in_flight s) \<le> unat (ts_next_seqno s)" and "unat (ts_bytes_in_flight s) \<le> 65535"
    and "chain inp (ts_isn s) (unat (ts_next_seqno s) - unat (ts_bytes_in_flight s))
      (ts_outstanding s) (unat (ts_next_seqno s))"
    and "\<And>m. m \<in> set (ts_outstanding s) \<Longrightarrow> sm_FIN m \<Longrightarrow> ts_fin_sent s"
    and "rt_is_running (ts_timer s) \<longleftrightarrow> ts_outstanding s \<noteq> []"
  shows "ts_inv inp s"
  unfolding ts_inv_def using assms by blast

lemma ts_invD:
  assumes "ts_inv inp s"
  shows "bs_wf (ts_input s)" and "ts_fin_sent s \<Longrightarrow> is_closed (ts_input s) \<and> bs_content (ts_input s) = []"
    and "unat (ts_bytes_in_flight s) \<le> unat (ts_next_seqno s)" and "unat (ts_bytes_in_flight s) \<le> 65535"
    and "chain inp (ts_isn s) (unat (ts_next_seqno s) - unat (ts_bytes_in_flight s))
      (ts_outstanding s) (unat (ts_next_seqno s))"
    and "m \<in> set (ts_outstanding s) \<Longrightarrow> sm_FIN m \<Longrightarrow> ts_fin_sent s"
    and "rt_is_running (ts_timer s) \<longleftrightarrow> ts_outstanding s \<noteq> []"
  using assms unfolding ts_inv_def by blast+

lemma ts_inv_input:
  assumes "ts_inv inp s" and "bs_wf input" and "bs_content input = bs_content (ts_input s)"
    and "is_closed (ts_input s) \<Longrightarrow> is_closed input"
  shows "ts_inv inp (s\<lparr>ts_input := input\<rparr>)"
  using assms by (simp add: ts_inv_def)

section \<open>Sending\<close>

lemma payload_loop_acc:
  assumes "bs_wf bs"
  shows "\<exists>bs'. payload_loop room bs out = Inr (out @ take (unat room - length out) (bs_content bs), bs')
    \<and> bs_wf bs' \<and> bs_content bs' = drop (unat room - length out) (bs_content bs) \<and> bs_frame bs' = bs_frame bs"
proof (rule stream.drain_loop [OF _ _ assms, where loop = "payload_loop room"])
  fix s :: byte_stream and o' :: bytes
  assume "bs_wf s" and "bs_content s = [] \<or> unat room \<le> length o'"
  then show "payload_loop room s o' = Inr (o', s)"
    by (subst payload_loop.simps) (auto simp: bytes_buffered_eq_0_iff word_gt_0)
next
  fix s s' :: byte_stream and o' view :: bytes
  assume "bs_wf s" "bs_content s \<noteq> []" "length o' < unat room" "Reader_peek s = Inr view" "view \<noteq> []"
    "Reader_pop (size64 (take (unat room - length o') view)) s = Inr s'"
  then show "payload_loop room s o' = payload_loop room s' (o' @ take (unat room - length o') view)"
    by (subst payload_loop.simps) (simp add: bytes_buffered_eq_0_iff word_gt_0)
qed

lemmas payload_loop_ok = payload_loop_acc [where out = "[]", simplified]

text \<open>The length of the segment that \<^verbatim>\<open>send_segment\<close> builds, and whether it has a FIN.\<close>

definition payload_len :: "nat \<Rightarrow> tcp_sender \<Rightarrow> nat" where
  "payload_len w s = min (min (w - of_bool (\<not> ts_syn_sent s)) (unat MAX_PAYLOAD_SIZE))
     (length (bs_content (ts_input s)))"

definition takes_fin :: "nat \<Rightarrow> tcp_sender \<Rightarrow> bool" where
  "takes_fin w s \<longleftrightarrow> \<not> ts_fin_sent s \<and> is_closed (ts_input s)
     \<and> payload_len w s = length (bs_content (ts_input s))
     \<and> of_bool (\<not> ts_syn_sent s) + payload_len w s < w"

lemma send_segment_eq:
  fixes w :: u64
  assumes "bs_wf (ts_input s)" and "w \<noteq> 0"
  defines "n \<equiv> payload_len (unat w) s" and "fin \<equiv> takes_fin (unat w) s" and "syn \<equiv> \<not> ts_syn_sent s"
  shows "\<exists>input'. bs_wf input' \<and> bs_content input' = drop n (bs_content (ts_input s))
    \<and> bs_frame input' = bs_frame (ts_input s)
    \<and> send_segment w s = (if of_bool syn + n + of_bool fin = (0 :: nat) then Inr (None, s\<lparr>ts_input := input'\<rparr>)
        else let m = \<lparr>sm_seqno = wrap (ts_next_seqno s) (ts_isn s), sm_SYN = syn,
                      sm_payload = take n (bs_content (ts_input s)), sm_FIN = fin,
                      sm_RST = has_error (ts_input s)\<rparr>
          in Inr (Some m, s\<lparr>ts_input := input', ts_next_seqno := ts_next_seqno s + sequence_length m,
               ts_bytes_in_flight := ts_bytes_in_flight s + sequence_length m, ts_syn_sent := True,
               ts_fin_sent := ts_fin_sent s \<or> fin, ts_outstanding := ts_outstanding s @ [m],
               ts_timer := (if \<not> rt_is_running (ts_timer s) then rt_start (ts_timer s) else ts_timer s)\<rparr>))"
proof -
  let ?l = "if \<not> ts_syn_sent s then 1 else 0 :: u64"
  let ?room = "min (w - ?l) MAX_PAYLOAD_SIZE"
  let ?c = "bs_content (ts_input s)"
  obtain input' where i: "payload_loop ?room (ts_input s) [] = Inr (take (unat ?room) ?c, input')"
      "bs_wf input'" "bs_content input' = drop (unat ?room) ?c" "bs_frame input' = bs_frame (ts_input s)"
    using payload_loop_ok [OF assms(1)] by blast
  have w: "0 < unat w" using assms(2) by (simp add: unat_gt_0)
  have l: "unat ?l = of_bool syn" by (simp add: syn_def)
  have "?l \<le> w" using w by (simp add: word_le_nat_alt)
  then have "unat (w - ?l) = unat w - of_bool syn" using l by (simp add: unat_sub)
  then have room: "unat ?room = min (unat w - of_bool syn) (unat MAX_PAYLOAD_SIZE)"
    by (simp add: min_def word_le_nat_alt)
  have n: "take (unat ?room) ?c = take n ?c" "drop (unat ?room) ?c = drop n ?c" "n \<le> length ?c"
  proof -
    have "n = min (unat ?room) (length ?c)" by (simp only: n_def payload_len_def room syn_def)
    then show "take (unat ?room) ?c = take n ?c" "drop (unat ?room) ?c = drop n ?c" "n \<le> length ?c"
      by (simp_all only: min_def split: if_split) auto
  qed
  have nw: "of_bool syn + n \<le> unat w" using w by (auto simp: n_def payload_len_def syn_def min_def)
  then have len: "unat (?l + size64 (take n ?c)) = of_bool syn + n"
    using n(3) l unat_u64_less [of w] unat_add_size64 [of ?l "take n ?c"] by simp
  have buf: "bytes_buffered input' = 0 \<longleftrightarrow> n = length ?c"
    using bytes_buffered_eq_0_iff [OF i(2)] i(3) n by auto
  have closed: "is_closed input' = is_closed (ts_input s)"
    using i(4) by (simp add: bs_frame_def is_closed_def)
  have fin: "(\<not> ts_fin_sent s \<and> is_closed input' \<and> bytes_buffered input' = 0
      \<and> ?l + size64 (take n ?c) < w) = fin"
    unfolding fin_def takes_fin_def n_def [symmetric] buf closed word_less_nat_alt len syn_def by simp
  let ?p = "take n ?c"
  have zero: "((if fin then ?l + size64 ?p + 1 else ?l + size64 ?p) = 0) \<longleftrightarrow> of_bool syn + n + of_bool fin = (0 :: nat)"
  proof (cases fin)
    case True
    then have "of_bool syn + n < unat w" by (simp add: fin_def takes_fin_def n_def syn_def)
    then have "unat (?l + size64 ?p + 1) = of_bool syn + n + 1"
      using len unat_u64_less [of w] unat_add_u64 [of "?l + size64 ?p" 1] by simp
    then have "?l + size64 ?p + 1 \<noteq> 0" by (metis add_is_0 one_neq_zero unat_0)
    then show ?thesis using True by simp
  next
    case False
    then show ?thesis using len by (auto simp only: if_False unat_0 of_bool_eq add_0_right simp flip: unat_eq_0)
  qed
  have m: "make_empty_message s = \<lparr>sm_seqno = wrap (ts_next_seqno s) (ts_isn s), sm_SYN = False, sm_payload = [],
      sm_FIN = False, sm_RST = has_error (ts_input s)\<rparr>"
    by (simp add: make_empty_message_def wrap_def)
  show ?thesis
    apply (intro exI [of _ input'] conjI)
    subgoal using i(2) .
    subgoal using i(3) n(2) by simp
    subgoal using i(4) .
    subgoal
      unfolding send_segment_def Let_def i(1) rbind.simps prod.case n(1) fin zero m
      using assms(2) by (cases "ts_syn_sent s"; cases fin) (simp_all add: syn_def sequence_length_def)
    done
qed

lemma unat_MAX_PAYLOAD_SIZE: "unat MAX_PAYLOAD_SIZE = 1000"
  by (simp add: MAX_PAYLOAD_SIZE_def)


text \<open>What is left to send: the SYN, buffered bytes, or the FIN of a closed stream.\<close>

definition has_more :: "tcp_sender \<Rightarrow> bool" where
  "has_more s \<longleftrightarrow> \<not> ts_fin_sent s \<and>
     (\<not> ts_syn_sent s \<or> bs_content (ts_input s) \<noteq> [] \<or> is_closed (ts_input s))"

text \<open>
  \<open>pushes inp s ms s'\<close>: the sender went from \<open>s\<close> to \<open>s'\<close> by transmitting the new segments \<open>ms\<close>,
  which continue the sequence numbers of \<open>s\<close>; nothing is acknowledged on the way.
\<close>

definition pushes :: "bytes \<Rightarrow> tcp_sender \<Rightarrow> sender_message list \<Rightarrow> tcp_sender \<Rightarrow> bool" where
  "pushes inp s ms s' \<longleftrightarrow> ts_inv inp s' \<and> ts_isn s' = ts_isn s
     \<and> ts_window_size s' = ts_window_size s \<and> ts_zero_window s' = ts_zero_window s
     \<and> bs_frame (ts_input s') = bs_frame (ts_input s)
     \<and> ts_outstanding s' = ts_outstanding s @ ms
     \<and> chain inp (ts_isn s) (unat (ts_next_seqno s)) ms (unat (ts_next_seqno s'))
     \<and> unat (ts_next_seqno s') - unat (ts_bytes_in_flight s') = unat (ts_next_seqno s) - unat (ts_bytes_in_flight s)
     \<and> (\<forall>m \<in> set ms. sm_RST m = has_error (ts_input s) \<and> (sm_FIN m \<longrightarrow> ts_fin_sent s'))
     \<and> (ts_fin_sent s \<longrightarrow> ts_fin_sent s')"

lemma pushes_refl: "ts_inv inp s \<Longrightarrow> pushes inp s [] s"
  by (simp add: pushes_def)

lemma pushes_trans:
  assumes "pushes inp s ms s1" and "pushes inp s1 ms' s2"
  shows "pushes inp s (ms @ ms') s2"
proof -
  have "has_error (ts_input s1) = has_error (ts_input s)"
    using assms(1) by (simp add: pushes_def bs_frame_def has_error_def)
  then show ?thesis using assms by (auto simp: pushes_def chain_append)
qed

lemma send_segment_ok:
  assumes inv: "ts_inv inp s" and nf: "\<not> ts_fin_sent s" and w: "0 < w"
    and fit: "unat (ts_bytes_in_flight s) + unat w \<le> 65535" "unat (ts_next_seqno s) + unat w < 2 ^ 64"
  shows "\<exists>r s'. send_segment w s = Inr (r, s')
    \<and> (case r of None \<Rightarrow> pushes inp s [] s' \<and> \<not> has_more s'
       | Some m \<Rightarrow> pushes inp s [m] s' \<and> seq_len m \<le> unat w)"
proof -
  define n where "n = payload_len (unat w) s"
  define fin where "fin = takes_fin (unat w) s"
  define syn where "syn = (\<not> ts_syn_sent s)"
  let ?c = "bs_content (ts_input s)"
  let ?m = "\<lparr>sm_seqno = wrap (ts_next_seqno s) (ts_isn s), sm_SYN = syn, sm_payload = take n ?c, sm_FIN = fin,
    sm_RST = has_error (ts_input s)\<rparr>"
  have wf: "bs_wf (ts_input s)" using inv by (simp add: ts_inv_def)
  obtain input' where i: "bs_wf input'" "bs_content input' = drop n ?c" "bs_frame input' = bs_frame (ts_input s)"
      "send_segment w s = (if of_bool syn + n + of_bool fin = (0 :: nat) then Inr (None, s\<lparr>ts_input := input'\<rparr>)
        else let m = ?m
          in Inr (Some m, s\<lparr>ts_input := input', ts_next_seqno := ts_next_seqno s + sequence_length m,
               ts_bytes_in_flight := ts_bytes_in_flight s + sequence_length m, ts_syn_sent := True,
               ts_fin_sent := ts_fin_sent s \<or> fin, ts_outstanding := ts_outstanding s @ [m],
               ts_timer := (if \<not> rt_is_running (ts_timer s) then rt_start (ts_timer s) else ts_timer s)\<rparr>))"
    using send_segment_eq [OF wf, of w] w unfolding n_def fin_def syn_def by (auto simp: word_gt_0)
  have w0: "0 < unat w" using w by (simp add: word_less_nat_alt)
  have nc: "n \<le> length ?c" "n \<le> 1000" by (simp_all add: n_def payload_len_def unat_MAX_PAYLOAD_SIZE)
  have flags: "is_closed input' = is_closed (ts_input s)"
    using i(3) by (simp add: bs_frame_def is_closed_def)
  obtain sent where sent: "inp = sent @ ?c" "unat (ts_next_seqno s) = of_bool (\<not> syn) + length sent"
      "syn \<Longrightarrow> sent = []"
    using inv nf by (auto simp: ts_inv_def syn_def)
  show ?thesis
  proof (cases "of_bool syn + n + of_bool fin = (0 :: nat)")
    case True
    then have z: "n = 0" "\<not> fin" "\<not> syn" by (auto split: if_splits)
    then have "?c = []" using w0 by (auto simp: n_def payload_len_def unat_MAX_PAYLOAD_SIZE syn_def min_def split: if_splits)
    moreover from this have "\<not> is_closed (ts_input s)"
      using z w0 nf by (auto simp: fin_def takes_fin_def payload_len_def syn_def)
    moreover have "ts_inv inp (s\<lparr>ts_input := input'\<rparr>)"
      using inv i(1,2) z(1) flags by (intro ts_inv_input) simp_all
    ultimately show ?thesis using i True z flags by (simp add: syn_def pushes_def has_more_def)
  next
    case False
    have sl: "seq_len ?m = of_bool syn + n + of_bool fin" using nc by (simp add: seq_len_def)
    have slw: "seq_len ?m \<le> unat w"
      using w0 unfolding sl by (auto simp: fin_def takes_fin_def n_def payload_len_def syn_def)
    have seql: "unat (sequence_length ?m) = seq_len ?m"
      using slw unat_u64_less [of w] by (intro unat_sequence_length) linarith
    have next': "unat (ts_next_seqno s + sequence_length ?m) = unat (ts_next_seqno s) + seq_len ?m"
      using fit slw seql by (subst unat_add_u64) simp_all
    have fl': "unat (ts_bytes_in_flight s + sequence_length ?m) = unat (ts_bytes_in_flight s) + seq_len ?m"
      using fit slw seql by (subst unat_add_u64) simp_all
    have at: "seg_at inp (ts_isn s) (unat (ts_next_seqno s)) ?m"
    proof -
      have "unat (ts_next_seqno s) - 1 = length sent" and "syn \<longleftrightarrow> unat (ts_next_seqno s) = 0"
        using sent(2,3) by (auto split: if_splits)
      moreover have "fin \<Longrightarrow> n = length ?c" by (simp add: fin_def takes_fin_def n_def)
      moreover have "0 < seq_len ?m" using False sl by simp
      ultimately show ?thesis unfolding seg_at_def unat_MAX_PAYLOAD_SIZE
        using nc sent(1) by (simp add: substr_at_def)
    qed
    let ?s = "s\<lparr>ts_input := input', ts_next_seqno := ts_next_seqno s + sequence_length ?m,
               ts_bytes_in_flight := ts_bytes_in_flight s + sequence_length ?m, ts_syn_sent := True,
               ts_fin_sent := ts_fin_sent s \<or> fin, ts_outstanding := ts_outstanding s @ [?m],
               ts_timer := (if \<not> rt_is_running (ts_timer s) then rt_start (ts_timer s) else ts_timer s)\<rparr>"
    have "ts_inv inp ?s"
    proof (rule ts_invI [where sent = "sent @ take n ?c"])
      show "inp = (sent @ take n ?c) @ bs_content (ts_input ?s)" using sent i(2) by simp
      show "unat (ts_next_seqno ?s) = of_bool (ts_syn_sent ?s) + length (sent @ take n ?c) + of_bool (ts_fin_sent ?s)"
        using sent(2) sl nc nf next' by simp
      show "ts_fin_sent ?s \<Longrightarrow> is_closed (ts_input ?s) \<and> bs_content (ts_input ?s) = []"
        using flags i(2) nf by (simp add: fin_def takes_fin_def n_def)
      show "unat (ts_bytes_in_flight ?s) \<le> 65535" using fit(1) slw fl' by simp
      show "unat (ts_bytes_in_flight ?s) \<le> unat (ts_next_seqno ?s)"
        using ts_invD(3) [OF inv] next' fl' by simp
      show "chain inp (ts_isn ?s) (unat (ts_next_seqno ?s) - unat (ts_bytes_in_flight ?s))
          (ts_outstanding ?s) (unat (ts_next_seqno ?s))"
        using ts_invD(5) [OF inv] at next' fl' by (auto simp: chain_append)
      show "sm_FIN m \<Longrightarrow> ts_fin_sent ?s" if "m \<in> set (ts_outstanding ?s)" for m
        using that ts_invD(6) [OF inv, of m] by auto
      show "rt_is_running (ts_timer ?s) \<longleftrightarrow> ts_outstanding ?s \<noteq> []"
        by (simp add: rt_is_running_def rt_start_def Timer_start_def)
    qed (simp_all add: i(1))
    moreover have "send_segment w s = Inr (Some ?m, ?s)" using i(4) False by (simp only: if_False Let_def)
    ultimately show ?thesis using i(3) at slw next' fl' by (simp add: pushes_def)
  qed
qed

definition eff_window :: "tcp_sender \<Rightarrow> nat" where
  "eff_window s = (if ts_zero_window s then 1 else unat (ts_window_size s))"

lemma eff_window_less: "eff_window s \<le> 65535"
  using unsigned_less [where ?w = "ts_window_size s" and ?'a = nat] by (simp add: eff_window_def)

lemma push_loop_ok:
  assumes "ts_inv inp s" and "unat right_edge \<le> unat (ts_next_seqno s) - unat (ts_bytes_in_flight s) + 65535"
  shows "\<exists>ms s'. push_loop right_edge s out = Inr (out @ ms, s') \<and> pushes inp s ms s'
    \<and> (ms = [] \<or> ts_next_seqno s' \<le> right_edge) \<and> (right_edge \<le> ts_next_seqno s' \<or> \<not> has_more s')"
  using assms
proof (induction right_edge s out rule: push_loop.induct)
  case (1 right_edge s out)
  note inv = "1.prems"(1)
  show ?case
  proof (cases "ts_next_seqno s < right_edge \<and> \<not> ts_fin_sent s")
    case False
    then show ?thesis
      using pushes_refl [OF inv] by (subst push_loop.simps) (auto simp: has_more_def not_less)
  next
    case True
    let ?w = "right_edge - ts_next_seqno s"
    have uw: "unat ?w = unat right_edge - unat (ts_next_seqno s)"
      using True by (intro unat_sub less_imp_le) simp
    have lt: "unat (ts_next_seqno s) < unat right_edge" using True by (simp add: word_less_nat_alt)
    then have "0 < ?w" unfolding word_less_nat_alt uw by simp
    moreover have "unat (ts_bytes_in_flight s) + unat ?w \<le> 65535"
      using "1.prems"(2) lt uw ts_invD(3) [OF inv] by linarith
    moreover have "unat (ts_next_seqno s) + unat ?w < 2 ^ 64"
      using lt uw unat_u64_less [of right_edge] by linarith
    ultimately obtain r s1 where s1: "send_segment ?w s = Inr (r, s1)"
      and r: "case r of None \<Rightarrow> pushes inp s [] s1 \<and> \<not> has_more s1
       | Some m \<Rightarrow> pushes inp s [m] s1 \<and> seq_len m \<le> unat ?w"
      using send_segment_ok [OF inv] True by blast
    show ?thesis
    proof (cases r)
      case None
      then show ?thesis using True s1 r by (subst push_loop.simps) auto
    next
      case (Some m)
      then have p: "pushes inp s [m] s1" and le: "seq_len m \<le> unat ?w" using r by simp_all
      have nx: "unat (ts_next_seqno s1) = unat (ts_next_seqno s) + seq_len m"
        using p by (simp add: pushes_def)
      have "unat right_edge \<le> unat (ts_next_seqno s1) - unat (ts_bytes_in_flight s1) + 65535"
        using "1.prems"(2) p by (simp add: pushes_def)
      from "1.IH" [OF True s1 [unfolded Some] refl refl _ this] p obtain ms s' where
        ms: "push_loop right_edge s1 (out @ [m]) = Inr (out @ m # ms, s')" "pushes inp s1 ms s'"
        "ms = [] \<or> ts_next_seqno s' \<le> right_edge" "right_edge \<le> ts_next_seqno s' \<or> \<not> has_more s'"
        by (auto simp: pushes_def)
      have "ts_next_seqno s1 \<le> right_edge" unfolding word_le_nat_alt using nx le uw lt by linarith
      moreover have "ms = [] \<Longrightarrow> ts_next_seqno s' = ts_next_seqno s1"
        using ms(2) by (simp add: pushes_def word_unat_eq_iff)
      moreover have "push_loop right_edge s out = push_loop right_edge s1 (out @ [m])"
        using True s1 Some by (subst push_loop.simps) simp
      ultimately show ?thesis using ms pushes_trans [OF p ms(2)] by fastforce
    qed
  qed
qed

lemma unat_right_edge:
  assumes "ts_inv inp s"
  shows "unat (ts_next_seqno s - ts_bytes_in_flight s) = unat (ts_next_seqno s) - unat (ts_bytes_in_flight s)"
  using ts_invD(3) [OF assms] by (intro unat_sub) (simp add: word_le_nat_alt)

lemma unat_eff_window: "unat (if ts_zero_window s then 1 else ucast (ts_window_size s) :: u64) = eff_window s"
  using unsigned_less [where ?w = "ts_window_size s" and ?'a = nat]
  by (simp add: eff_window_def unsigned_ucast_eq take_bit_nat_eq_self)

lemma Sender_push_ok:
  assumes inv: "ts_inv inp s"
  shows "\<exists>ms s'. Sender_push s = Inr (ms, s') \<and> pushes inp s ms s'
    \<and> (ms = [] \<or> unat (ts_bytes_in_flight s') \<le> eff_window s)
    \<and> (unat (ts_next_seqno s) + 65535 < 2 ^ 64 \<longrightarrow>
         eff_window s \<le> unat (ts_bytes_in_flight s') \<or> \<not> has_more s')"
proof -
  let ?w = "if ts_zero_window s then 1 else ucast (ts_window_size s) :: u64"
  let ?ack = "ts_next_seqno s - ts_bytes_in_flight s"
  define re where "re = ?ack + ?w"
  have le: "unat re \<le> unat ?ack + eff_window s"
    unfolding re_def unat_eff_window [of s, symmetric] by (simp add: unat_word_ariths)
  have eq: "unat re = unat ?ack + eff_window s" if "unat ?ack + eff_window s < 2 ^ 64"
    using that unat_add_u64 [of ?ack ?w] unfolding re_def unat_eff_window by simp
  have "unat re \<le> unat (ts_next_seqno s) - unat (ts_bytes_in_flight s) + 65535"
    using le eff_window_less [of s] unat_right_edge [OF inv] by linarith
  from push_loop_ok [OF inv this, of "[]"] obtain ms s' where
    ms: "push_loop re s [] = Inr (ms, s')" "pushes inp s ms s'"
      "ms = [] \<or> ts_next_seqno s' \<le> re" "re \<le> ts_next_seqno s' \<or> \<not> has_more s'"
    by auto
  have ack: "unat (ts_next_seqno s') - unat (ts_bytes_in_flight s') = unat ?ack"
    and inv': "ts_inv inp s'"
    using ms(2) unat_right_edge [OF inv] by (simp_all add: pushes_def)
  have "ms = [] \<or> unat (ts_bytes_in_flight s') \<le> eff_window s"
    using ms(3) ack le ts_invD(3) [OF inv'] unfolding word_le_nat_alt by (elim disjE) auto
  moreover have "eff_window s \<le> unat (ts_bytes_in_flight s') \<or> \<not> has_more s'"
    if "unat (ts_next_seqno s) + 65535 < 2 ^ 64"
  proof -
    have "unat ?ack + eff_window s < 2 ^ 64"
      using that eff_window_less [of s] unat_right_edge [OF inv] by linarith
    then show ?thesis
      using ms(4) ack eq ts_invD(3) [OF inv'] unfolding word_le_nat_alt by linarith
  qed
  moreover have "Sender_push s = Inr (ms, s')" using ms(1) by (simp add: Sender_push_def re_def Let_def)
  ultimately show ?thesis using ms(2) by blast
qed

section \<open>Acknowledgments\<close>

text \<open>The end of an outstanding segment, as the sender computes it, is its absolute end.\<close>

lemma seg_end_ok:
  assumes "seg_at inp isn a m" and "a + seq_len m \<le> unat next" and "unat next - a \<le> 65535"
  shows "unat (unwrap (sm_seqno m) isn next + sequence_length m) = a + seq_len m"
proof -
  have a: "unat (of_nat a :: u64) = a" using assms(2) unat_u64_less [of "next"] by (intro unat_of_nat_u64) linarith
  have "absdiff (unat next) (unat (of_nat a :: u64)) < 2 ^ 31"
    using assms(2,3) by (simp add: a absdiff_def)
  then have "unwrap (sm_seqno m) isn next = of_nat a"
    using assms(1) by (simp add: seg_at_def unwrap_wrap)
  moreover have "unat (sequence_length m) = seq_len m"
    using assms(2) unat_u64_less [of "next"] by (intro unat_sequence_length) linarith
  ultimately show ?thesis
    using unat_add_u64 [of "of_nat a" "sequence_length m"] a assms(2) unat_u64_less [of "next"] by simp
qed

lemma ack_loop_ok:
  assumes "chain inp isn a ms (unat next)" and "a + unat fl = unat next" and "unat fl \<le> 65535"
  shows "\<exists>acked rest fl'. ms = acked @ rest \<and> ack_loop isn next ackno ms fl b = (rest, fl', b \<or> acked \<noteq> [])
    \<and> chain inp isn (unat next - unat fl') rest (unat next) \<and> chain inp isn a acked (unat next - unat fl')
    \<and> unat fl' \<le> unat fl
    \<and> (acked \<noteq> [] \<longrightarrow> unat next - unat fl' \<le> unat ackno)
    \<and> (rest = [] \<or> unat ackno < unat next - unat fl' + seq_len (hd rest))"
  using assms
proof (induction ms arbitrary: a fl b)
  case Nil
  then show ?case by auto
next
  case (Cons m ms)
  have m: "seg_at inp isn a m" and tl: "chain inp isn (a + seq_len m) ms (unat next)" using Cons.prems(1) by auto
  have le: "a + seq_len m \<le> unat next" using chain_sum [OF tl] by simp
  have se: "unat (unwrap (sm_seqno m) isn next + sequence_length m) = a + seq_len m"
    using Cons.prems(2,3) by (intro seg_end_ok [OF m le]) linarith
  show ?case
  proof (cases "unwrap (sm_seqno m) isn next + sequence_length m > ackno")
    case True
    then have "unat ackno < a + seq_len m" using se by (simp only: word_less_nat_alt)
    moreover have "unat next - unat fl = a" using Cons.prems(2) by simp
    ultimately show ?thesis using True Cons.prems(1)
      by (intro exI [of _ "[]"] exI [of _ "m # ms"] exI [of _ fl]) (simp add: Let_def)
  next
    case False
    let ?fl = "fl - sequence_length m"
    have "unat (sequence_length m) = seq_len m"
      using le unat_u64_less [of "next"] by (intro unat_sequence_length) linarith
    moreover from this have "sequence_length m \<le> fl" using le Cons.prems(2) by (simp add: word_le_nat_alt)
    ultimately have fl: "unat ?fl = unat fl - seq_len m" "seq_len m \<le> unat fl"
      by (simp_all add: unat_sub word_le_nat_alt)
    have pre: "a + seq_len m + unat ?fl = unat next" "unat ?fl \<le> 65535" using fl Cons.prems(2,3) by linarith+
    have ack: "a + seq_len m \<le> unat ackno" using False se by (simp add: not_less word_le_nat_alt)
    obtain d rest fl' where IH: "ms = d @ rest"
        "ack_loop isn next ackno ms ?fl True = (rest, fl', True)"
        "chain inp isn (unat next - unat fl') rest (unat next)"
        "chain inp isn (a + seq_len m) d (unat next - unat fl')" "unat fl' \<le> unat ?fl"
        "d \<noteq> [] \<longrightarrow> unat next - unat fl' \<le> unat ackno"
        "rest = [] \<or> unat ackno < unat next - unat fl' + seq_len (hd rest)"
      using Cons.IH [OF tl pre, of True] by auto
    have "unat next - unat fl' \<le> unat ackno" using IH(4,6) ack by (cases d) auto
    then show ?thesis
      using IH m False fl(1)
      by (intro exI [of _ "m # d"] exI [of _ rest] exI [of _ fl']) (simp add: Let_def)
  qed
qed

lemma ack_loop_inv:
  assumes inv: "ts_inv inp s"
    and loop: "ack_loop (ts_isn s) (ts_next_seqno s) ackno (ts_outstanding s) (ts_bytes_in_flight s) False
      = (outs, fl, acked)"
  obtains d where "ts_outstanding s = d @ outs" and "acked \<longleftrightarrow> d \<noteq> []"
    and "unat fl \<le> unat (ts_bytes_in_flight s)"
    and "chain inp (ts_isn s) (unat (ts_next_seqno s) - unat fl) outs (unat (ts_next_seqno s))"
    and "d \<noteq> [] \<longrightarrow> unat (ts_next_seqno s) - unat fl \<le> unat ackno"
    and "outs \<noteq> [] \<longrightarrow> unat ackno < unat (ts_next_seqno s) - unat fl + seq_len (hd outs)"
    and "chain inp (ts_isn s) (unat (ts_next_seqno s) - unat (ts_bytes_in_flight s)) d (unat (ts_next_seqno s) - unat fl)"
proof -
  have "unat (ts_next_seqno s) - unat (ts_bytes_in_flight s) + unat (ts_bytes_in_flight s) = unat (ts_next_seqno s)"
    using ts_invD(3) [OF inv] by simp
  from ack_loop_ok [OF ts_invD(5) [OF inv] this ts_invD(4) [OF inv], of ackno False, unfolded loop] that
  show ?thesis by (auto simp only: prod.inject)
qed

lemma Sender_receive_cases:
  obtains (RST) "rm_RST msg"
    | (window) "\<not> rm_RST msg" "Sender_receive msg s =
        s\<lparr>ts_zero_window := (rm_window_size msg = 0), ts_window_size := rm_window_size msg\<rparr>"
      "\<forall>ackno. rm_ackno msg = Some ackno \<longrightarrow> ts_next_seqno s < unwrap ackno (ts_isn s) (ts_next_seqno s)"
    | (ack) ackno outs fl acked where "\<not> rm_RST msg" "rm_ackno msg = Some ackno"
        "unwrap ackno (ts_isn s) (ts_next_seqno s) \<le> ts_next_seqno s"
        "ack_loop (ts_isn s) (ts_next_seqno s) (unwrap ackno (ts_isn s) (ts_next_seqno s))
           (ts_outstanding s) (ts_bytes_in_flight s) False = (outs, fl, acked)"
        "Sender_receive msg s =
           s\<lparr>ts_zero_window := (rm_window_size msg = 0), ts_window_size := rm_window_size msg,
             ts_outstanding := outs, ts_bytes_in_flight := fl,
             ts_timer := (if \<not> acked then ts_timer s
                else if outs = [] then rt_stop (reset_backoff (ts_timer s))
                else rt_start (reset_backoff (ts_timer s)))\<rparr>"
proof (cases "rm_RST msg")
  case False
  show ?thesis
  proof (cases "rm_ackno msg")
    case None
    then show ?thesis using False window by (simp add: Sender_receive_def Let_def)
  next
    case (Some ackno)
    obtain outs fl acked where loop: "ack_loop (ts_isn s) (ts_next_seqno s)
        (unwrap ackno (ts_isn s) (ts_next_seqno s)) (ts_outstanding s) (ts_bytes_in_flight s) False = (outs, fl, acked)"
      by (cases "ack_loop (ts_isn s) (ts_next_seqno s)
        (unwrap ackno (ts_isn s) (ts_next_seqno s)) (ts_outstanding s) (ts_bytes_in_flight s) False")
    show ?thesis
    proof (cases "ts_next_seqno s < unwrap ackno (ts_isn s) (ts_next_seqno s)")
      case True
      then show ?thesis using False Some by (intro window) (simp_all add: Sender_receive_def Let_def)
    next
      case nlt: False
      then show ?thesis using False Some loop
        by (intro ack [OF False Some _ loop]) (simp_all add: Sender_receive_def Let_def not_less)
    qed
  qed
qed (rule RST)

text \<open>Outstanding segments may be dropped from the front, if the timer keeps running for the rest.\<close>

lemma ts_inv_drop:
  assumes "ts_inv inp s" and "unat fl \<le> unat (ts_bytes_in_flight s)"
    and "chain inp (ts_isn s) (unat (ts_next_seqno s) - unat fl) outs (unat (ts_next_seqno s))"
    and "set outs \<subseteq> set (ts_outstanding s)" and "rt_is_running t \<longleftrightarrow> outs \<noteq> []"
  shows "ts_inv inp (s\<lparr>ts_zero_window := z, ts_window_size := w, ts_outstanding := outs,
    ts_bytes_in_flight := fl, ts_timer := t\<rparr>)"
  using assms unfolding ts_inv_def by (simp add: subset_iff) blast

lemma Sender_receive_ok:
  assumes inv: "ts_inv inp s"
  shows "ts_inv inp (Sender_receive msg s)"
proof (cases rule: Sender_receive_cases [where msg = msg and s = s])
  case RST
  have "ts_inv inp (s\<lparr>ts_zero_window := ts_zero_window s, ts_window_size := ts_window_size s,
      ts_outstanding := [], ts_bytes_in_flight := 0, ts_timer := rt_stop (ts_timer s)\<rparr>)"
    by (rule ts_inv_drop [OF inv]) (simp_all add: rt_is_running_def rt_stop_def Timer_stop_def)
  from ts_inv_input [OF this, of "set_error (ts_input s)"] show ?thesis
    using RST ts_invD(1) [OF inv] by (simp add: Sender_receive_def set_error_def is_closed_def)
next
  case window
  then show ?thesis using inv by (simp add: ts_inv_def)
next
  case (ack ackno outs fl acked)
  obtain d where d: "ts_outstanding s = d @ outs" "acked \<longleftrightarrow> d \<noteq> []" "unat fl \<le> unat (ts_bytes_in_flight s)"
      "chain inp (ts_isn s) (unat (ts_next_seqno s) - unat fl) outs (unat (ts_next_seqno s))"
    by (rule ack_loop_inv [OF inv ack(4)])
  show ?thesis unfolding ack(5)
    using ts_invD(7) [OF inv] d(1,2)
    by (intro ts_inv_drop [OF inv d(3,4)])
      (auto simp: rt_is_running_def rt_stop_def rt_start_def Timer_stop_def Timer_start_def)
qed

section \<open>Timeouts\<close>

lemma ts_inv_timer: "ts_inv inp s \<Longrightarrow> rt_is_running t = rt_is_running (ts_timer s) \<Longrightarrow> ts_inv inp (s\<lparr>ts_timer := t\<rparr>)"
  by (simp add: ts_inv_def)

lemma Sender_tick_ok:
  assumes inv: "ts_inv inp s" and "Sender_tick ms s = (out, s')"
  shows "ts_inv inp s'" and "set out \<subseteq> set (ts_outstanding s)" and "ts_next_seqno s' = ts_next_seqno s"
    and "ts_fin_sent s' = ts_fin_sent s" and "ts_input s' = ts_input s"
    and "ts_isn s' = ts_isn s"
proof -
  have r: "rt_is_running (rt_tick n t) = rt_is_running t" for n t by (rule backoff.tick)
  have "rt_is_running t' \<Longrightarrow> ts_outstanding s \<noteq> [] \<Longrightarrow> ts_inv inp (s\<lparr>ts_timer := t'\<rparr>)" for t'
    using inv by (simp add: ts_inv_def)
  then show "ts_inv inp s'"
    using assms(2) ts_inv_timer [OF inv r] by (auto simp: Sender_tick_def Let_def backoff.start split: if_splits)
  show "set out \<subseteq> set (ts_outstanding s)" "ts_next_seqno s' = ts_next_seqno s" "ts_fin_sent s' = ts_fin_sent s"
    "ts_input s' = ts_input s" "ts_isn s' = ts_isn s"
    using assms(2) by (auto simp: Sender_tick_def Let_def split: if_splits)
qed

section \<open>Runs of a sender\<close>

text \<open>
  \<open>sender_run c isn rto s inp tr\<close>: a new sender with an outbound stream of capacity \<open>c\<close> can
  reach the state \<open>s\<close> after the application has written \<open>inp\<close> and the segments \<open>tr\<close> have been
  transmitted.  The application writes until it closes the stream, and may set the error flag;
  messages of the peer are arbitrary; time passes in arbitrary steps.
\<close>

inductive sender_run :: "u64 \<Rightarrow> wrap32 \<Rightarrow> u64 \<Rightarrow> tcp_sender \<Rightarrow> bytes \<Rightarrow> sender_message list \<Rightarrow> bool"
  for c isn rto where
  new: "sender_run c isn rto (TCPSender_new (ByteStream_new c) isn rto) [] []"
| "write": "sender_run c isn rto s inp tr \<Longrightarrow> \<not> is_closed (ts_input s) \<Longrightarrow>
    sender_run c isn rto (s\<lparr>ts_input := Writer_push d (ts_input s)\<rparr>)
      (inp @ take (unat (available_capacity (ts_input s))) d) tr"
| close: "sender_run c isn rto s inp tr \<Longrightarrow>
    sender_run c isn rto (s\<lparr>ts_input := Writer_close (ts_input s)\<rparr>) inp tr"
| error: "sender_run c isn rto s inp tr \<Longrightarrow>
    sender_run c isn rto (s\<lparr>ts_input := set_error (ts_input s)\<rparr>) inp tr"
| push: "sender_run c isn rto s inp tr \<Longrightarrow> Sender_push s = Inr (ms, s') \<Longrightarrow>
    sender_run c isn rto s' inp (tr @ ms)"
| receive: "sender_run c isn rto s inp tr \<Longrightarrow> sender_run c isn rto (Sender_receive msg s) inp tr"
| tick: "sender_run c isn rto s inp tr \<Longrightarrow> Sender_tick t s = (ms, s') \<Longrightarrow>
    sender_run c isn rto s' inp (tr @ ms)"

definition covers :: "bytes \<Rightarrow> wrap32 \<Rightarrow> sender_message list \<Rightarrow> nat \<Rightarrow> bool" where
  "covers inp isn tr n \<longleftrightarrow> (\<forall>i < n. \<exists>m \<in> set tr. \<exists>a. seg_at inp isn a m \<and> a \<le> i \<and> i < a + seq_len m)"

definition run_inv :: "wrap32 \<Rightarrow> tcp_sender \<Rightarrow> bytes \<Rightarrow> sender_message list \<Rightarrow> bool" where
  "run_inv isn s inp tr \<longleftrightarrow> ts_inv inp s \<and> ts_isn s = isn
     \<and> (\<forall>m \<in> set tr. (\<exists>a. seg_at inp isn a m \<and> a + seq_len m \<le> unat (ts_next_seqno s))
          \<and> (sm_FIN m \<longrightarrow> ts_fin_sent s) \<and> (sm_RST m \<longrightarrow> has_error (ts_input s)))
     \<and> set (ts_outstanding s) \<subseteq> set tr
     \<and> covers inp isn tr (unat (ts_next_seqno s))"

lemma covers_mono: "covers inp isn tr n \<Longrightarrow> set tr \<subseteq> set tr' \<Longrightarrow> covers inp isn tr' n"
  unfolding covers_def by blast

lemma chain_covers: "chain inp isn n ms e \<Longrightarrow> covers inp isn tr n \<Longrightarrow> covers inp isn (tr @ ms) e"
proof (induction ms arbitrary: n tr)
  case (Cons m ms)
  have "covers inp isn (tr @ [m]) (n + seq_len m)"
    unfolding covers_def
  proof (intro allI impI)
    fix i assume i: "i < n + seq_len m"
    show "\<exists>m' \<in> set (tr @ [m]). \<exists>a. seg_at inp isn a m' \<and> a \<le> i \<and> i < a + seq_len m'"
      using Cons.prems i by (cases "i < n") (fastforce simp: covers_def)+
  qed
  then show ?case using Cons.IH [of "n + seq_len m" "tr @ [m]"] Cons.prems(1) by simp
qed simp

lemma Writer_push_flags [simp]:
  "is_closed (Writer_push d bs) = is_closed bs" "has_error (Writer_push d bs) = has_error bs"
  by (simp_all add: Writer_push_def is_closed_def has_error_def Let_def)

lemma run_inv_write:
  assumes run: "run_inv isn s inp tr" and open': "\<not> is_closed (ts_input s)"
  shows "run_inv isn (s\<lparr>ts_input := Writer_push d (ts_input s)\<rparr>)
    (inp @ take (unat (available_capacity (ts_input s))) d) tr"
proof -
  let ?d = "take (unat (available_capacity (ts_input s))) d"
  have inv: "ts_inv inp s" using run by (simp add: run_inv_def)
  have nf: "\<not> ts_fin_sent s" using ts_invD(2) [OF inv] open' by blast
  note push = Writer_push_ok [OF ts_invD(1) [OF inv], of d]
  have "chain (inp @ ?d) (ts_isn s) (unat (ts_next_seqno s) - unat (ts_bytes_in_flight s))
      (ts_outstanding s) (unat (ts_next_seqno s))"
    using ts_invD(6) [OF inv] nf by (intro chain_grow ts_invD(5) [OF inv]) blast
  then have ts: "ts_inv (inp @ ?d) (s\<lparr>ts_input := Writer_push d (ts_input s)\<rparr>)"
    using inv nf push(1,2) by (simp add: ts_inv_def)
  have at: "seg_at (inp @ ?d) isn a m" if "m \<in> set tr" "seg_at inp isn a m" for a m
    using that run nf by (intro seg_at_grow) (auto simp: run_inv_def)
  then have "covers (inp @ ?d) isn tr (unat (ts_next_seqno s))"
    using run unfolding run_inv_def covers_def by meson
  moreover have "\<forall>m \<in> set tr. (\<exists>a. seg_at (inp @ ?d) isn a m \<and> a + seq_len m \<le> unat (ts_next_seqno s))
      \<and> (sm_FIN m \<longrightarrow> ts_fin_sent s) \<and> (sm_RST m \<longrightarrow> has_error (ts_input s))"
    using run at unfolding run_inv_def by meson
  ultimately show ?thesis using run ts by (simp add: run_inv_def)
qed

lemma run_inv_push:
  assumes run: "run_inv isn s inp tr" and push: "Sender_push s = Inr (ms, s')"
  shows "run_inv isn s' inp (tr @ ms)"
proof -
  have p: "pushes inp s ms s'"
    using Sender_push_ok [of inp s] run push by (auto simp: run_inv_def)
  have err: "has_error (ts_input s') = has_error (ts_input s)"
    using p by (simp add: pushes_def bs_frame_def has_error_def)
  have ch: "chain inp isn (unat (ts_next_seqno s)) ms (unat (ts_next_seqno s'))"
    using p run by (simp add: pushes_def run_inv_def)
  have "ts_next_seqno s \<le> ts_next_seqno s'" using chain_sum [OF ch] by (simp add: word_le_nat_alt)
  then have le: "unat (ts_next_seqno s) \<le> unat (ts_next_seqno s')" by (simp add: word_le_nat_alt)
  have old: "(\<exists>a. seg_at inp isn a m \<and> a + seq_len m \<le> unat (ts_next_seqno s'))
      \<and> (sm_FIN m \<longrightarrow> ts_fin_sent s') \<and> (sm_RST m \<longrightarrow> has_error (ts_input s'))" if "m \<in> set tr" for m
    using run that le p err unfolding run_inv_def pushes_def by (meson order.trans)
  have new: "(\<exists>a. seg_at inp isn a m \<and> a + seq_len m \<le> unat (ts_next_seqno s'))
      \<and> (sm_FIN m \<longrightarrow> ts_fin_sent s') \<and> (sm_RST m \<longrightarrow> has_error (ts_input s'))" if "m \<in> set ms" for m
    using chain_seg_at [OF ch that] p err that unfolding pushes_def by meson
  have "covers inp isn (tr @ ms) (unat (ts_next_seqno s'))"
    using run by (intro chain_covers [OF ch]) (simp add: run_inv_def)
  moreover have "ts_inv inp s'" "ts_isn s' = isn" "set (ts_outstanding s') \<subseteq> set (tr @ ms)"
    using p run by (auto simp: pushes_def run_inv_def)
  ultimately show ?thesis unfolding run_inv_def using old new by auto
qed

lemma run_inv_tick:
  assumes run: "run_inv isn s inp tr" and tick: "Sender_tick t s = (ms, s')"
  shows "run_inv isn s' inp (tr @ ms)"
proof -
  have inv: "ts_inv inp s" using run by (simp add: run_inv_def)
  note ok = Sender_tick_ok [OF inv tick]
  have "ts_outstanding s' = ts_outstanding s"
    using tick by (auto simp: Sender_tick_def Let_def split: if_splits)
  moreover have "set (tr @ ms) = set tr" using ok(2) run by (auto simp: run_inv_def)
  moreover have "covers inp isn (tr @ ms) (unat (ts_next_seqno s))"
    using run by (auto simp: run_inv_def intro: covers_mono)
  ultimately show ?thesis using run ok by (simp add: run_inv_def)
qed

lemma run_inv_receive:
  assumes run: "run_inv isn s inp tr"
  shows "run_inv isn (Sender_receive msg s) inp tr"
proof -
  let ?s = "Sender_receive msg s"
  have inv: "ts_inv inp s" using run by (simp add: run_inv_def)
  have "set (ts_outstanding ?s) \<subseteq> set (ts_outstanding s) \<and> ts_isn ?s = ts_isn s
      \<and> ts_next_seqno ?s = ts_next_seqno s \<and> ts_fin_sent ?s = ts_fin_sent s
      \<and> (has_error (ts_input s) \<longrightarrow> has_error (ts_input ?s))"
  proof (cases rule: Sender_receive_cases [where msg = msg and s = s])
    case (ack ackno outs fl acked)
    have "set outs \<subseteq> set (ts_outstanding s)" by (rule ack_loop_inv [OF inv ack(4)]) auto
    then show ?thesis by (simp add: ack(5))
  qed (simp_all add: Sender_receive_def set_error_def has_error_def)
  then show ?thesis using run Sender_receive_ok [OF inv, of msg] by (auto simp: run_inv_def)
qed

lemma sender_run_inv: "sender_run c isn rto s inp tr \<Longrightarrow> run_inv isn s inp tr"
proof (induction rule: sender_run.induct)
  case new
  then show ?case
    using ts_inv_new [OF bs_wf_new(1), of c isn rto] bs_wf_new(2)
    by (simp add: run_inv_def covers_def) (simp add: TCPSender_new_def)
next
  case (close s inp tr)
  then show ?case
    using ts_inv_input [of inp s "Writer_close (ts_input s)"] ts_invD(1) [of inp s]
    by (simp add: run_inv_def Writer_close_def is_closed_def has_error_def)
next
  case (error s inp tr)
  then show ?case
    using ts_inv_input [of inp s "set_error (ts_input s)"] ts_invD(1) [of inp s]
    by (simp add: run_inv_def set_error_def is_closed_def has_error_def)
qed (simp_all add: run_inv_write run_inv_push run_inv_receive run_inv_tick)

section \<open>Correctness\<close>

text \<open>
  C5. Every run of a sender keeps its books: whatever the application, the peer and the clock do,
  the bytes in flight are the sequence numbers of the outstanding segments, the outstanding
  segments follow each other up to the next sequence number and carry the written stream, the
  retransmission timer runs exactly while something is outstanding, and every segment ever
  transmitted, again or for the first time, is the part of the stream its sequence number names.
\<close>

theorem sender_run_sound:
  assumes "sender_run c isn rto s inp tr"
  shows "unat (sequence_numbers_in_flight s) = sum_list (map seq_len (ts_outstanding s)) \<and>
    chain inp isn (unat (ts_next_seqno s) - unat (sequence_numbers_in_flight s)) (ts_outstanding s)
      (unat (ts_next_seqno s)) \<and>
    (rt_is_running (ts_timer s) \<longleftrightarrow> ts_outstanding s \<noteq> []) \<and>
    (\<forall>m \<in> set tr. \<exists>a. seg_at inp isn a m \<and> a + seq_len m \<le> unat (ts_next_seqno s)) \<and>
    covers inp isn tr (unat (ts_next_seqno s))"
proof -
  have run: "run_inv isn s inp tr" using sender_run_inv [OF assms] .
  then have inv: "ts_inv inp s" by (simp add: run_inv_def)
  have "unat (ts_bytes_in_flight s) = sum_list (map seq_len (ts_outstanding s))"
    using chain_sum [OF ts_invD(5) [OF inv]] ts_invD(3) [OF inv] by linarith
  then show ?thesis
    using run ts_invD(5,7) [OF inv] unfolding run_inv_def sequence_numbers_in_flight_def by blast
qed

lemma sender_run_push:
  "sender_run c isn rto s inp tr \<Longrightarrow> Sender_push s = Inr (ms, s') \<Longrightarrow> tr' = tr @ ms \<Longrightarrow>
   sender_run c isn rto s' inp tr'"
  by (simp add: sender_run.push)

theorem sender_run_sound_witness:
  "\<exists>s. sender_run 8 (Wrap32 9) 1000 s []
      [\<lparr>sm_seqno = Wrap32 9, sm_SYN = True, sm_payload = [], sm_FIN = False, sm_RST = False\<rparr>] \<and>
    rt_is_running (ts_timer s)"
proof -
  let ?new = "TCPSender_new (ByteStream_new 8) (Wrap32 9) 1000"
  let ?m = "\<lparr>sm_seqno = Wrap32 9, sm_SYN = True, sm_payload = [], sm_FIN = False, sm_RST = False\<rparr>"
  have "case Sender_push ?new of Inl e \<Rightarrow> False | Inr (ms, s') \<Rightarrow> ms = [?m] \<and> ts_outstanding s' = [?m]"
    by code_simp
  then obtain s where s: "Sender_push ?new = Inr ([?m], s)" "ts_outstanding s = [?m]"
    by (auto split: sum.splits)
  have run: "sender_run 8 (Wrap32 9) 1000 s [] [?m]"
    using sender_run_push [OF sender_run.new s(1)] by simp
  from sender_run_sound [OF run] s(2) have "rt_is_running (ts_timer s)" by simp
  with run show ?thesis by blast
qed

text \<open>
  C16. Pushing fills the window and never overruns it: on every state that satisfies the invariant
  \<^verbatim>\<open>push\<close> returns, the segments it transmits continue the stream at the next sequence number,
  the sequence numbers in flight afterwards fit the receiver's window (one, for a closed window)
  if it transmitted anything, and it stops only when the window is full or when neither SYN nor
  bytes nor FIN are left to send.
\<close>

theorem sender_push_fills_window:
  assumes "ts_inv inp s" and "unat (ts_next_seqno s) + 65535 < 2 ^ 64"
  shows "\<exists>ms s'. Sender_push s = Inr (ms, s') \<and> ts_inv inp s' \<and>
    chain inp (ts_isn s) (unat (ts_next_seqno s)) ms (unat (ts_next_seqno s')) \<and>
    ts_outstanding s' = ts_outstanding s @ ms \<and>
    (ms = [] \<or> unat (sequence_numbers_in_flight s') \<le> eff_window s) \<and>
    (eff_window s \<le> unat (sequence_numbers_in_flight s') \<or> \<not> has_more s')"
  using Sender_push_ok [OF assms(1)] assms(2) unfolding pushes_def sequence_numbers_in_flight_def by blast

theorem sender_push_fills_window_witness:
  "\<exists>ms s'. Sender_push (TCPSender_new (Writer_push [1, 2] (ByteStream_new 8)) (Wrap32 9) 1000) = Inr (ms, s') \<and>
    map seq_len ms = [1]"
proof -
  let ?s = "TCPSender_new (Writer_push [1, 2] (ByteStream_new 8)) (Wrap32 9) 1000"
  have inv: "ts_inv (bs_content (Writer_push [1, 2] (ByteStream_new 8))) ?s"
    by (intro ts_inv_new Writer_push_ok(1) bs_wf_new)
  have "unat (ts_next_seqno ?s) + 65535 < 2 ^ 64" by (simp add: TCPSender_new_def)
  from sender_push_fills_window [OF inv this] obtain ms s' where ms: "Sender_push ?s = Inr (ms, s')"
    by blast
  have "case Sender_push ?s of Inl e \<Rightarrow> False | Inr (ms, s') \<Rightarrow> map seq_len ms = [1]" by code_simp
  then show ?thesis using ms by simp
qed

text \<open>
  C21. An acknowledgment of everything before the absolute sequence number \<open>a\<close> drops exactly the
  outstanding segments that end at or before \<open>a\<close>, counts their sequence numbers out of flight and
  adopts the advertised window.  If it drops one, the timeout is back at its initial value with no
  retransmissions counted, and the timer restarts, or stops when nothing is outstanding;
  otherwise the timer is left alone.
\<close>

theorem sender_ack:
  fixes msg s
  assumes "ts_inv inp s" and "\<not> rm_RST msg" and "rm_ackno msg = Some (wrap (of_nat a) (ts_isn s))"
    and "a \<le> unat (ts_next_seqno s)" and "unat (ts_next_seqno s) - a < 2 ^ 31"
  defines "s' \<equiv> Sender_receive msg s"
  shows "\<exists>gone. ts_outstanding s = gone @ ts_outstanding s' \<and>
    unat (ts_bytes_in_flight s') + sum_list (map seq_len gone) = unat (ts_bytes_in_flight s) \<and>
    (gone \<noteq> [] \<longrightarrow> unat (ts_next_seqno s) - unat (ts_bytes_in_flight s') \<le> a) \<and>
    (ts_outstanding s' \<noteq> [] \<longrightarrow>
       a < unat (ts_next_seqno s) - unat (ts_bytes_in_flight s') + seq_len (hd (ts_outstanding s'))) \<and>
    ts_window_size s' = rm_window_size msg \<and> ts_zero_window s' = (rm_window_size msg = 0) \<and>
    ts_timer s' = (if gone = [] then ts_timer s
      else if ts_outstanding s' = [] then rt_stop (reset_backoff (ts_timer s))
      else rt_start (reset_backoff (ts_timer s)))"
proof -
  have a: "unat (of_nat a :: u64) = a"
    using assms(4) unat_u64_less [of "ts_next_seqno s"] by (intro unat_of_nat_u64) linarith
  have un: "unwrap (wrap (of_nat a) (ts_isn s)) (ts_isn s) (ts_next_seqno s) = of_nat a"
    using assms(4,5) by (intro unwrap_wrap) (simp add: a absdiff_def)
  have le: "of_nat a \<le> ts_next_seqno s" unfolding word_le_nat_alt a by (rule assms(4))
  show ?thesis
  proof (cases rule: Sender_receive_cases [where msg = msg and s = s])
    case (ack ackno outs fl acked)
    have ackno: "unwrap ackno (ts_isn s) (ts_next_seqno s) = of_nat a" using ack(2) assms(3) un by simp
    obtain gone where g: "ts_outstanding s = gone @ outs" "acked \<longleftrightarrow> gone \<noteq> []"
        "unat fl \<le> unat (ts_bytes_in_flight s)"
        "chain inp (ts_isn s) (unat (ts_next_seqno s) - unat fl) outs (unat (ts_next_seqno s))"
        "gone \<noteq> [] \<longrightarrow> unat (ts_next_seqno s) - unat fl \<le> unat (of_nat a :: u64)"
        "outs \<noteq> [] \<longrightarrow> unat (of_nat a :: u64) < unat (ts_next_seqno s) - unat fl + seq_len (hd outs)"
        "chain inp (ts_isn s) (unat (ts_next_seqno s) - unat (ts_bytes_in_flight s)) gone (unat (ts_next_seqno s) - unat fl)"
      by (rule ack_loop_inv [OF assms(1) ack(4) [unfolded ackno]])
    have "unat fl + sum_list (map seq_len gone) = unat (ts_bytes_in_flight s)"
      using chain_sum [OF g(7)] g(3) ts_invD(3) [OF assms(1)] by linarith
    then show ?thesis unfolding s'_def ack(5) using g(1,2,5,6) a by (intro exI [of _ gone]) simp
  qed (use assms(2,3) un le in auto)
qed

theorem sender_ack_witness:
  "\<exists>s. Sender_push (TCPSender_new (Writer_push [1, 2] (ByteStream_new 8)) (Wrap32 9) 1000)
      = Inr ([\<lparr>sm_seqno = Wrap32 9, sm_SYN = True, sm_payload = [], sm_FIN = False, sm_RST = False\<rparr>], s) \<and>
    (let s' = Sender_receive \<lparr>rm_ackno = Some (Wrap32 10), rm_window_size = 5, rm_RST = False\<rparr> s
     in ts_window_size s' = 5 \<and> ts_outstanding s' = [] \<and> ts_timer s' = rt_stop (reset_backoff (ts_timer s)))"
proof -
  let ?new = "TCPSender_new (Writer_push [1, 2] (ByteStream_new 8)) (Wrap32 9) 1000"
  let ?m = "\<lparr>sm_seqno = Wrap32 9, sm_SYN = True, sm_payload = [], sm_FIN = False, sm_RST = False\<rparr>"
  let ?ack = "\<lparr>rm_ackno = Some (Wrap32 10), rm_window_size = 5, rm_RST = False\<rparr>"
  have "case Sender_push ?new of Inl e \<Rightarrow> False
    | Inr (ms, s') \<Rightarrow> ms = [?m] \<and> ts_outstanding s' = [?m] \<and> ts_next_seqno s' = 1 \<and> ts_isn s' = Wrap32 9
        \<and> ts_outstanding (Sender_receive ?ack s') = []"
    by code_simp
  then obtain s where s: "Sender_push ?new = Inr ([?m], s)" "ts_outstanding s = [?m]" "ts_next_seqno s = 1"
      "ts_isn s = Wrap32 9" "ts_outstanding (Sender_receive ?ack s) = []"
    by (auto split: sum.splits)
  have "ts_inv (bs_content (Writer_push [1, 2] (ByteStream_new 8))) ?new"
    by (intro ts_inv_new Writer_push_ok(1) bs_wf_new)
  from Sender_push_ok [OF this] s(1) have inv: "ts_inv (bs_content (Writer_push [1, 2] (ByteStream_new 8))) s"
    by (auto simp: pushes_def)
  have "wrap (of_nat 1) (ts_isn s) = Wrap32 10" using s(4) by (simp add: wrap_def wrap32_plus_def)
  with sender_ack [OF inv, of ?ack 1] s show ?thesis by (intro exI [of _ s]) auto
qed

text \<open>Time that passes in several steps.\<close>

fun tick_all :: "u64 list \<Rightarrow> tcp_sender \<Rightarrow> sender_message list \<times> tcp_sender" where
  "tick_all [] s = ([], s)"
| "tick_all (t # ts) s = (case Sender_tick t s of (ms, s') \<Rightarrow> case tick_all ts s' of (ms', s'') \<Rightarrow> (ms @ ms', s''))"

lemma tick_all_quiet:
  assumes "rt_is_running (ts_timer s)"
    and "unat (tm_elapsed_ms (rt_timer (ts_timer s))) + sum_list (map unat ts) < unat (tm_timeout_ms (rt_timer (ts_timer s)))"
  shows "tick_all ts s = ([], s\<lparr>ts_timer := fold rt_tick ts (ts_timer s)\<rparr>)"
  using assms
proof (induction ts arbitrary: s)
  case (Cons t ts)
  let ?s = "s\<lparr>ts_timer := rt_tick t (ts_timer s)\<rparr>"
  have el: "unat (tm_elapsed_ms (rt_timer (rt_tick t (ts_timer s)))) = unat (tm_elapsed_ms (rt_timer (ts_timer s))) + unat t"
    using Cons.prems backoff.tick(3) [OF Cons.prems(1), of t] unat_u64_less [of "tm_timeout_ms (rt_timer (ts_timer s))"]
    by (simp add: unat_add_u64)
  have to: "tm_timeout_ms (rt_timer (rt_tick t (ts_timer s))) = tm_timeout_ms (rt_timer (ts_timer s))"
    using backoff.tick(2) [of t "ts_timer s"] by simp
  have "\<not> rt_is_expired (rt_tick t (ts_timer s))"
    using el to Cons.prems(2) by (simp add: rt_is_expired_def Timer_is_expired_def word_le_nat_alt)
  then have "Sender_tick t s = ([], ?s)" by (simp add: Sender_tick_def Let_def)
  moreover have "tick_all ts ?s = ([], ?s\<lparr>ts_timer := fold rt_tick ts (ts_timer ?s)\<rparr>)"
    using Cons.prems el to by (intro Cons.IH) (simp_all add: backoff.tick)
  ultimately show ?case by simp
qed simp

lemma tick_all_snoc:
  "tick_all (ts @ [t]) s = (case tick_all ts s of (ms, s') \<Rightarrow> case Sender_tick t s' of (ms', s'') \<Rightarrow> (ms @ ms', s''))"
  by (induction ts arbitrary: s) (auto split: prod.splits)

text \<open>
  C22. Retransmission: while segments are outstanding, nothing is transmitted before the time since
  the timer started reaches the timeout, and when it does, exactly the oldest outstanding segment
  is transmitted again, nothing else of the connection changes, the timer restarts, and the
  timeout doubles and the retransmission is counted unless the receiver's window is closed.
\<close>

theorem sender_retransmits:
  fixes s ts t
  defines "e \<equiv> unat (tm_elapsed_ms (rt_timer (ts_timer s))) + sum_list (map unat ts)"
    and "rto \<equiv> unat (tm_timeout_ms (rt_timer (ts_timer s)))"
  assumes "ts_inv inp s" and "ts_outstanding s \<noteq> []" and "e < rto" and "rto \<le> e + unat t" and "e + unat t < 2 ^ 64"
  shows "fst (tick_all ts s) = [] \<and> (\<exists>timer.
    tick_all (ts @ [t]) s = ([hd (ts_outstanding s)], s\<lparr>ts_timer := timer\<rparr>) \<and>
    rt_is_running timer \<and> tm_elapsed_ms (rt_timer timer) = 0 \<and>
    tm_timeout_ms (rt_timer timer) = tm_timeout_ms (rt_timer (ts_timer s)) * (if ts_zero_window s then 1 else 2) \<and>
    rt_consecutive_retransmissions timer = consecutive_retransmissions s + (if ts_zero_window s then 0 else 1))"
proof -
  let ?t1 = "fold rt_tick ts (ts_timer s)"
  have run: "rt_is_running (ts_timer s)" using assms(3,4) ts_invD(7) by blast
  have quiet: "tick_all ts s = ([], s\<lparr>ts_timer := ?t1\<rparr>)"
    using assms(5) unfolding e_def rto_def by (rule tick_all_quiet [OF run])
  have "e < 2 ^ 64" using assms(7) by linarith
  then have t1: "unat (tm_elapsed_ms (rt_timer ?t1)) = e" "rt_is_running ?t1"
      "tm_timeout_ms (rt_timer ?t1) = tm_timeout_ms (rt_timer (ts_timer s))"
    using backoff.ticks_elapsed [OF run, of ts] unfolding e_def by simp_all
  have cnt: "rt_consecutive_retransmissions (fold rt_tick ts r) = rt_consecutive_retransmissions r" for r
    by (induction ts arbitrary: r) (simp_all add: rt_tick_def)
  have "unat (tm_elapsed_ms (rt_timer (rt_tick t ?t1))) = e + unat t"
    using backoff.tick(3) [OF t1(2), of t] t1(1) assms(7) by (simp add: unat_add_u64)
  then have expired: "rt_is_expired (rt_tick t ?t1)"
    using assms(6) t1(2,3) backoff.tick(1,2) [of t ?t1] unfolding rto_def backoff.expired
    by (simp add: word_le_nat_alt)
  define t2 where "t2 = rt_start (if \<not> ts_zero_window s then record_retransmission (rt_tick t ?t1) else rt_tick t ?t1)"
  have "Sender_tick t (s\<lparr>ts_timer := ?t1\<rparr>) = ([hd (ts_outstanding s)], s\<lparr>ts_timer := t2\<rparr>)"
    using assms(4) expired by (simp add: Sender_tick_def Let_def t2_def)
  then have "tick_all (ts @ [t]) s = ([hd (ts_outstanding s)], s\<lparr>ts_timer := t2\<rparr>)"
    using quiet by (simp add: tick_all_snoc)
  moreover have "rt_is_running t2" "tm_elapsed_ms (rt_timer t2) = 0"
    by (simp_all add: t2_def rt_start_def rt_is_running_def Timer_start_def)
  moreover have "tm_timeout_ms (rt_timer t2) = tm_timeout_ms (rt_timer (ts_timer s)) * (if ts_zero_window s then 1 else 2)"
    using t1(3) by (simp add: t2_def rt_defs timer_defs)
  moreover have "rt_consecutive_retransmissions t2 = consecutive_retransmissions s + (if ts_zero_window s then 0 else 1)"
    by (simp add: t2_def rt_defs cnt consecutive_retransmissions_def)
  ultimately show ?thesis using quiet by auto
qed

theorem sender_retransmits_witness:
  "\<exists>s m. Sender_push (TCPSender_new (ByteStream_new 8) (Wrap32 9) 1000) = Inr ([m], s) \<and>
    fst (tick_all [600, 399] s) = [] \<and> fst (tick_all ([600, 399] @ [1]) s) = [m] \<and>
    consecutive_retransmissions (snd (tick_all ([600, 399] @ [1]) s)) = 1"
proof -
  let ?new = "TCPSender_new (ByteStream_new 8) (Wrap32 9) 1000"
  have "case Sender_push ?new of Inl e \<Rightarrow> False
    | Inr (ms, s') \<Rightarrow> length ms = 1 \<and> ts_outstanding s' = ms \<and> tm_elapsed_ms (rt_timer (ts_timer s')) = 0
        \<and> tm_timeout_ms (rt_timer (ts_timer s')) = 1000 \<and> consecutive_retransmissions s' = 0 \<and> \<not> ts_zero_window s'"
    by code_simp
  then obtain m s where s: "Sender_push ?new = Inr ([m], s)" "ts_outstanding s = [m]"
      "tm_elapsed_ms (rt_timer (ts_timer s)) = 0" "tm_timeout_ms (rt_timer (ts_timer s)) = 1000"
      "consecutive_retransmissions s = 0" "\<not> ts_zero_window s"
    by (auto split: sum.splits simp: length_Suc_conv)
  have "ts_inv (bs_content (ByteStream_new 8)) ?new" by (intro ts_inv_new bs_wf_new)
  from Sender_push_ok [OF this] s(1) have inv: "ts_inv (bs_content (ByteStream_new 8)) s"
    by (auto simp: pushes_def)
  from sender_retransmits [OF inv, of "[600, 399]" 1] s(2-6)
  have r: "fst (tick_all [600, 399] s) = []" "\<exists>timer. tick_all ([600, 399] @ [1]) s = ([m], s\<lparr>ts_timer := timer\<rparr>)
      \<and> rt_consecutive_retransmissions timer = 1"
    by auto
  from r(2) obtain timer where "tick_all ([600, 399] @ [1]) s = ([m], s\<lparr>ts_timer := timer\<rparr>)"
      "rt_consecutive_retransmissions timer = 1" by blast
  with r(1) s(1) show ?thesis
    by (intro exI [of _ s] exI [of _ m]) (simp add: consecutive_retransmissions_def)
qed

end
