(* ===== verification/Checksum.thy ===== *)
theory Checksum
  imports Prelude
begin

text \<open>
  \<^verbatim>\<open>src/util/checksum.hh\<close>: the Internet checksum.  The sum is a 32-bit word that may wrap around;
  \<^verbatim>\<open>value()\<close> folds it to sixteen bits with end-around carry and complements it.
\<close>

record checksum =
  ck_sum :: u32
  ck_parity :: bool

definition InternetChecksum_new :: "u32 \<Rightarrow> checksum" where
  "InternetChecksum_new initial = \<lparr>ck_sum = initial, ck_parity = False\<rparr>"

fun checksum_add :: "bytes \<Rightarrow> checksum \<Rightarrow> checksum" where
  "checksum_add [] c = c"
| "checksum_add (i # data) c =
     (let val = (ucast i :: u16);
          val = (if \<not> ck_parity c then push_bit 8 val else val)
      in checksum_add data \<lparr>ck_sum = ck_sum c + ucast val, ck_parity = \<not> ck_parity c\<rparr>)"

fun checksum_add_all :: "bytes list \<Rightarrow> checksum \<Rightarrow> checksum" where
  "checksum_add_all [] c = c"
| "checksum_add_all (x # data) c = checksum_add_all data (checksum_add x c)"

lemma unat_u32_less: "unat (x :: u32) < 2 ^ 32"
  using unsigned_less [where ?w = x and ?'a = nat] by simp

lemma unat_of_nat_u32: "n < 2 ^ 32 \<Longrightarrow> unat (of_nat n :: u32) = n"
  by (simp add: unat_of_nat take_bit_nat_eq_self)

lemma unat_low_u32: "unat (ucast (ucast (r :: u32) :: u16) :: u32) = unat r mod 65536"
  by (simp add: unsigned_ucast_eq unsigned_take_bit_eq take_bit_nat_def)

lemma unat_high_u32: "unat (drop_bit 16 (r :: u32)) = unat r div 65536"
  using unat_u32_less [of r] by (simp add: unsigned_drop_bit_eq drop_bit_nat_def take_bit_nat_def)

lemma unat_fold_step:
  "unat (drop_bit 16 (r :: u32) + ucast (ucast r :: u16)) = unat r div 65536 + unat r mod 65536"
proof -
  have "unat r div 65536 < 65536" using unat_u32_less [of r] by (simp add: less_mult_imp_div_less)
  moreover have "unat r mod 65536 < 65536" by simp
  ultimately have "unat r div 65536 + unat r mod 65536 < 2 ^ 32" by simp
  then show ?thesis by (simp add: unat_word_ariths unat_low_u32 unat_high_u32)
qed

lemma fold_nat:
  assumes "65535 < (n :: nat)"
  shows "n div 65536 + n mod 65536 < n" and "n div 65536 + n mod 65536 \<noteq> 0"
    and "(n div 65536 + n mod 65536) mod 65535 = n mod 65535"
proof -
  obtain q r where n: "n = 65536 * q + r" "r < 65536" "n div 65536 = q" "n mod 65536 = r"
    by (metis mod_less_divisor mult_div_mod_eq zero_less_numeral)
  then have q: "0 < q" using assms by (cases q) auto
  have "q + r < n" "q + r \<noteq> 0" using n(1) q by linarith+
  then show "n div 65536 + n mod 65536 < n" "n div 65536 + n mod 65536 \<noteq> 0" unfolding n(3,4) .
  have "n = q + r + q * 65535" using n(1) by simp
  then show "(n div 65536 + n mod 65536) mod 65535 = n mod 65535" unfolding n(3,4) by (metis mod_mult_self1)
qed

text \<open>The loop of \<^verbatim>\<open>value()\<close>.\<close>

function value_loop :: "u32 \<Rightarrow> u32" where
  "value_loop ret = (if ret > 0xffff then value_loop (drop_bit 16 ret + ucast (ucast ret :: u16)) else ret)"
  by pat_completeness auto
termination
proof (relation "measure unat", goal_cases)
  case (2 ret)
  then have "65535 < unat ret" by (simp add: word_less_nat_alt)
  then show ?case by (simp only: in_measure unat_fold_step fold_nat(1))
qed simp

declare value_loop.simps [simp del]

definition checksum_value :: "checksum \<Rightarrow> u16" where
  "checksum_value c = ucast (NOT (value_loop (ck_sum c)))"

section \<open>The sum as a natural number\<close>

text \<open>
  \<open>word_sum par data\<close>: the sum of the big-endian 16-bit words of \<open>data\<close>; \<open>par\<close> says that the first
  byte is the low half of a word.
\<close>

fun word_sum :: "bool \<Rightarrow> bytes \<Rightarrow> nat" where
  "word_sum par [] = 0"
| "word_sum par (b # data) = (if par then unat b else 256 * unat b) + word_sum (\<not> par) data"

lemma word_sum_le: "word_sum par data \<le> 65280 * length data"
proof (induction data arbitrary: par)
  case (Cons b data)
  have "unat b < 256" using unsigned_less [where ?w = b and ?'a = nat] by simp
  then show ?case using Cons.IH [of "\<not> par"] by (cases par) auto
qed simp

lemma word_sum_append: "word_sum par (xs @ ys) = word_sum par xs + word_sum (par = even (length xs)) ys"
proof (induction xs arbitrary: par)
  case (Cons x xs)
  have "((\<not> par) = even (length xs)) = (par = even (length (x # xs)))" by auto
  then show ?case using Cons.IH [of "\<not> par"] by (simp only: append_Cons word_sum.simps add.assoc)
qed simp

lemma checksum_add_append: "checksum_add (xs @ ys) c = checksum_add ys (checksum_add xs c)"
  by (induction xs arbitrary: c) (auto simp: Let_def)

lemma checksum_add_all_eq: "checksum_add_all bs c = checksum_add (concat bs) c"
  by (induction bs arbitrary: c) (auto simp: checksum_add_append)

lemma checksum_add_sum:
  "ck_sum (checksum_add data c) = ck_sum c + of_nat (word_sum (ck_parity c) data)"
proof (induction data arbitrary: c)
  case (Cons b data)
  have lt: "unat b < 256" using unsigned_less [where ?w = b and ?'a = nat] by simp
  have "unat (push_bit 8 (ucast b :: u16)) = 256 * unat b" "unat (ucast b :: u16) = unat b"
    using lt by (simp_all add: unsigned_push_bit_eq unsigned_ucast_eq take_bit_nat_def push_bit_nat_def)
  then have "ucast (push_bit 8 (ucast b :: u16)) = (of_nat (256 * unat b) :: u32)"
    "ucast (ucast b :: u16) = (of_nat (unat b) :: u32)"
    by (metis of_nat_unat)+
  then show ?case by (simp add: Cons.IH Let_def)
qed simp

lemma value_loop_mod: "unat (value_loop r) \<le> 65535 \<and> unat (value_loop r) mod 65535 = unat r mod 65535
  \<and> (value_loop r = 0 \<longleftrightarrow> r = 0)"
proof (induction r rule: value_loop.induct)
  case (1 r)
  show ?case
  proof (cases "r > 0xffff")
    case True
    let ?r = "drop_bit 16 r + ucast (ucast r :: u16)"
    have eq: "value_loop r = value_loop ?r" using True by (subst value_loop.simps) simp
    have big: "65535 < unat r" using True by (simp add: word_less_nat_alt)
    have "unat ?r mod 65535 = unat r mod 65535" unfolding unat_fold_step by (rule fold_nat(3) [OF big])
    moreover have "unat ?r \<noteq> 0" unfolding unat_fold_step by (rule fold_nat(2) [OF big])
    then have "?r \<noteq> 0" by auto
    moreover have "r \<noteq> 0" using True by auto
    ultimately show ?thesis using "1.IH" [OF True] unfolding eq by simp
  next
    case False
    then have "value_loop r = r" by (subst value_loop.simps) simp
    moreover have "unat r \<le> 65535" using False by (simp add: word_less_nat_alt)
    ultimately show ?thesis by simp
  qed
qed

section \<open>Correctness\<close>

lemma unat_checksum_value: "unat (checksum_value c) = 65535 - unat (value_loop (ck_sum c))"
proof -
  define v where "v = value_loop (ck_sum c)"
  have le: "unat v \<le> 65535" using value_loop_mod [of "ck_sum c"] by (simp add: v_def)
  have "unat (NOT v) = 4294967295 - unat v"
  proof -
    have "NOT v = - 1 - v" by (simp add: not_eq_complement)
    moreover have "unat (- 1 - v) = unat (- 1 :: u32) - unat v" by (intro unat_sub) simp
    moreover have "unat (- 1 :: u32) = 4294967295" by (simp add: unsigned_minus_1_eq_mask mask_eq_exp_minus_1)
    ultimately show ?thesis by simp
  qed
  then have "unat (NOT v) = 65535 * 65536 + (65535 - unat v)" using le by simp
  then have "unat (checksum_value c) = (65535 * 65536 + (65535 - unat v)) mod 65536"
    by (simp only: checksum_value_def v_def [symmetric] unsigned_ucast_eq take_bit_nat_def)
      (simp add: mod_mod_cancel)
  then have "unat (checksum_value c) = (65535 - unat v) mod 65536" by (simp only: mod_mult_self3)
  then show ?thesis by (simp add: v_def)
qed

lemma checksum_value_zero_iff:
  "checksum_value c = 0 \<longleftrightarrow> ck_sum c \<noteq> 0 \<and> 65535 dvd unat (ck_sum c)"
proof -
  have v: "unat (value_loop (ck_sum c)) \<le> 65535"
      "unat (value_loop (ck_sum c)) mod 65535 = unat (ck_sum c) mod 65535"
      "value_loop (ck_sum c) = 0 \<longleftrightarrow> ck_sum c = 0"
    using value_loop_mod by auto
  have "checksum_value c = 0 \<longleftrightarrow> unat (value_loop (ck_sum c)) = 65535"
    using v(1) unat_checksum_value [of c] by (auto simp: unat_eq_0 [symmetric])
  also have "\<dots> \<longleftrightarrow> unat (value_loop (ck_sum c)) \<noteq> 0 \<and> unat (value_loop (ck_sum c)) mod 65535 = 0"
    using v(1) by (auto simp: le_less mod_less)
  also have "\<dots> \<longleftrightarrow> ck_sum c \<noteq> 0 \<and> 65535 dvd unat (ck_sum c)"
    using v(2,3) by (auto simp: unat_eq_0 dvd_eq_mod_eq_0)
  finally show ?thesis .
qed

text \<open>The two bytes of a checksum field in network order.\<close>

definition cksum_bytes :: "u16 \<Rightarrow> bytes" where
  "cksum_bytes ck = [ucast (drop_bit 8 ck), ucast ck]"

lemma word_sum_cksum_bytes: "word_sum False (cksum_bytes ck) = unat ck"
proof -
  have "unat ck < 65536" using unsigned_less [where ?w = ck and ?'a = nat] by simp
  then have "unat (ucast (drop_bit 8 ck) :: byte) = unat ck div 256" "unat (ucast ck :: byte) = unat ck mod 256"
    by (simp_all add: unsigned_ucast_eq unsigned_drop_bit_eq drop_bit_nat_def take_bit_nat_def less_mult_imp_div_less)
  then show ?thesis by (simp add: cksum_bytes_def)
qed

lemma complement_sum:
  assumes s: "s < 2 ^ 32 - 65536" and c: "ck_sum c = of_nat s" and c': "ck_sum c' = of_nat (s + unat (checksum_value c))"
  shows "checksum_value c' = 0"
proof -
  let ?v = "unat (value_loop (of_nat s))" and ?k = "unat (checksum_value c)"
  have u: "unat (of_nat s :: u32) = s" by (rule unat_of_nat_u32) (use s in linarith)
  have v: "?v \<le> 65535" "?v mod 65535 = s mod 65535" "?v = 0 \<longleftrightarrow> s = 0"
    using value_loop_mod [of "of_nat s"] unfolding u
    by (simp_all only: unat_eq_0) (metis u unat_eq_0)
  have k: "?k = 65535 - ?v" unfolding unat_checksum_value c ..
  have u': "unat (of_nat (s + ?k) :: u32) = s + ?k" by (rule unat_of_nat_u32) (use s k in linarith)
  have "(s + ?k + ?v) mod 65535 = s mod 65535" using k v(1) by simp
  then have "(s + ?k + ?v) mod 65535 = (0 + ?v) mod 65535" using v(2) by simp
  then have "65535 dvd s + ?k" by (simp add: mod_eq_dvd_iff_nat)
  moreover have "s + ?k \<noteq> 0" using k v(1,3) by linarith
  ultimately show ?thesis unfolding checksum_value_zero_iff c' u' using u' by (metis unat_0)
qed

lemma checksum_insert:
  fixes pre post :: bytes and ck
  assumes "even (length pre)" and "unat initial + word_sum False (pre @ cksum_bytes 0 @ post) < 2 ^ 32 - 65536"
    and ck: "ck = checksum_value (checksum_add (pre @ cksum_bytes 0 @ post) (InternetChecksum_new initial))"
  shows "checksum_value (checksum_add (pre @ cksum_bytes ck @ post) (InternetChecksum_new initial)) = 0"
proof -
  have ws: "word_sum False (pre @ cksum_bytes k @ post) = word_sum False pre + (unat k + word_sum False post)" for k
    using assms(1) word_sum_cksum_bytes [of k] by (simp add: word_sum_append cksum_bytes_def)
  have sum: "ck_sum (checksum_add (pre @ cksum_bytes k @ post) (InternetChecksum_new initial))
      = of_nat (unat initial + word_sum False (pre @ cksum_bytes k @ post))" for k
    by (simp add: checksum_add_sum InternetChecksum_new_def)
  have "unat initial + word_sum False (pre @ cksum_bytes ck @ post)
      = unat initial + word_sum False (pre @ cksum_bytes 0 @ post) + unat ck"
    unfolding ws by simp
  then show ?thesis using complement_sum [OF assms(2) sum] sum [of ck] ck by simp
qed

text \<open>
  The checksum verifies: when the field for the checksum, at an even offset and counted as
  zero, is filled with the complemented sum of the data and of the pseudo-header, then the sum over
  the filled data gives zero, which is how the receiver recognizes intact data.
\<close>

theorem checksum_verifies:
  fixes pre post :: bytes
  assumes "even (length pre)" and "length pre + 2 + length post \<le> 65535" and "unat initial < 2 ^ 19"
  shows "checksum_value (checksum_add (pre @ cksum_bytes (checksum_value
      (checksum_add (pre @ cksum_bytes 0 @ post) (InternetChecksum_new initial))) @ post) (InternetChecksum_new initial)) = 0"
proof -
  have "word_sum False (pre @ cksum_bytes 0 @ post) \<le> 65280 * (length pre + (2 + length post))"
    using word_sum_le [of False "pre @ cksum_bytes 0 @ post"] by (simp add: cksum_bytes_def)
  also have "\<dots> \<le> 65280 * 65535" using assms(2) by (intro mult_left_mono) simp_all
  finally have "unat initial + word_sum False (pre @ cksum_bytes 0 @ post) < 2 ^ 32 - 65536"
    using assms(3) by simp
  then show ?thesis by (rule checksum_insert [OF assms(1) _ refl])
qed

theorem checksum_verifies_witness:
  "checksum_value (checksum_add ([0x45, 0] @ cksum_bytes 0xbaf8 @ [7]) (InternetChecksum_new 0)) \<noteq> 0 \<and>
   checksum_value (checksum_add ([0x45, 0] @ cksum_bytes (checksum_value
      (checksum_add ([0x45, 0] @ cksum_bytes 0 @ [7]) (InternetChecksum_new 0))) @ [7]) (InternetChecksum_new 0)) = 0"
proof -
  have "checksum_value (checksum_add ([0x45, 0] @ cksum_bytes 0xbaf8 @ [7]) (InternetChecksum_new 0)) \<noteq> 0"
    by code_simp
  then show ?thesis using checksum_verifies [of "[0x45, 0]" "[7]" 0] by simp
qed

lemma dvd_two_words:
  assumes "65535 dvd base + a" and "65535 dvd base + b" and "a \<le> 65535" and "b \<le> (65535 :: nat)"
  shows "a = b \<or> a = 0 \<and> b = 65535 \<or> a = 65535 \<and> b = 0"
proof -
  have *: "x = y \<or> x = 0 \<and> y = 65535" if "x \<le> y" "65535 dvd base + x" "65535 dvd base + y" "y \<le> 65535" for x y :: nat
  proof -
    have "65535 dvd y - x" using dvd_diff_nat [OF that(3,2)] by simp
    then obtain k where k: "y - x = 65535 * k" by blast
    then have "k \<le> 1" using that(4) by linarith
    then show ?thesis using k that(1,4) by (cases k) auto
  qed
  show ?thesis using *[of a b] *[of b a] assms by (cases "a \<le> b") auto
qed

text \<open>
  The checksum detects a damaged word: data whose checksum verifies no longer verifies after one
  16-bit word has been replaced by another one, unless the two words are the two representations
  \<open>0\<close> and \<open>0xffff\<close> of zero.
\<close>

theorem checksum_detects:
  fixes pre post :: bytes
  assumes "even (length pre)" and "length pre + 2 + length post \<le> 65535" and "unat initial < 2 ^ 19"
    and "checksum_value (checksum_add (pre @ cksum_bytes w @ post) (InternetChecksum_new initial)) = 0"
    and "w \<noteq> w'" and "{w, w'} \<noteq> {0, 0xffff}"
  shows "checksum_value (checksum_add (pre @ cksum_bytes w' @ post) (InternetChecksum_new initial)) \<noteq> 0"
proof
  let ?base = "unat initial + word_sum False pre + word_sum False post"
  assume bad: "checksum_value (checksum_add (pre @ cksum_bytes w' @ post) (InternetChecksum_new initial)) = 0"
  have "word_sum False (pre @ cksum_bytes 0 @ post) \<le> 65280 * (length pre + (2 + length post))"
    using word_sum_le [of False "pre @ cksum_bytes 0 @ post"] by (simp add: cksum_bytes_def)
  also have "\<dots> \<le> 65280 * 65535" using assms(2) by (intro mult_left_mono) simp_all
  finally have base: "?base < 2 ^ 32 - 65536"
    using assms(1,3) by (simp add: word_sum_append cksum_bytes_def)
  have dvd: "65535 dvd ?base + unat k"
    if "checksum_value (checksum_add (pre @ cksum_bytes k @ post) (InternetChecksum_new initial)) = 0" for k
  proof -
    have k: "unat k < 65536" using unsigned_less [where ?w = k and ?'a = nat] by simp
    have "ck_sum (checksum_add (pre @ cksum_bytes k @ post) (InternetChecksum_new initial)) = of_nat (?base + unat k)"
      using assms(1) word_sum_cksum_bytes [of k]
      by (simp add: checksum_add_sum InternetChecksum_new_def word_sum_append cksum_bytes_def algebra_simps)
    then have "65535 dvd unat (of_nat (?base + unat k) :: u32)"
      using that unfolding checksum_value_zero_iff by simp
    then show ?thesis using unat_of_nat_u32 [of "?base + unat k"] base k by simp
  qed
  have "unat w \<le> 65535" "unat w' \<le> 65535"
    using unsigned_less [where ?w = w and ?'a = nat] unsigned_less [where ?w = w' and ?'a = nat] by simp_all
  with dvd [OF assms(4)] dvd [OF bad]
  have "unat w = unat w' \<or> unat w = 0 \<and> unat w' = 65535 \<or> unat w = 65535 \<and> unat w' = 0"
    by (intro dvd_two_words)
  moreover have "unat k = 65535 \<longleftrightarrow> k = 0xffff" for k :: u16 by (simp add: word_unat_eq_iff)
  moreover have "unat k = 0 \<longleftrightarrow> k = 0" for k :: u16 by (simp add: unat_eq_0)
  ultimately show False using assms(5,6) by (auto simp: word_unat_eq_iff [of w w'])
qed

theorem checksum_detects_witness:
  "checksum_value (checksum_add ([0x12, 0x34] @ cksum_bytes 0xedcc @ [0, 1]) (InternetChecksum_new 0)) \<noteq> 0"
proof -
  have "checksum_value (checksum_add ([0x12, 0x34] @ cksum_bytes 0xedca @ [0, 1]) (InternetChecksum_new 0)) = 0"
    by code_simp
  from checksum_detects [OF _ _ _ this, where w' = "0xedcc"] show ?thesis by (auto simp: doubleton_eq_iff)
qed

end
