(* ===== verification/Ref.thy ===== *)
theory Ref
  imports Prelude
begin

text \<open>
  \<^verbatim>\<open>src/util/ref.hh\<close>: a reference that is either owned (the object lives in the reference) or
  borrowed (it points to an object elsewhere).  Both give read access; only an owned reference
  can be mutated.  The sources do not define \<^verbatim>\<open>DISALLOW_REF_IMPLICIT_COPY\<close>, so copies are
  allowed and are owned.
\<close>

datatype 'a cpp_ref = Owned (ref_get: 'a) | Borrowed (ref_get: 'a)

definition Ref_borrow :: "'a \<Rightarrow> 'a cpp_ref" where
  "Ref_borrow obj = Borrowed obj"

definition Ref_duplicate :: "'a cpp_ref \<Rightarrow> 'a cpp_ref" where
  "Ref_duplicate r = Borrowed (ref_get r)"

definition Ref_copy :: "'a cpp_ref \<Rightarrow> 'a cpp_ref" where
  "Ref_copy other = Owned (ref_get other)"

fun is_owned :: "'a cpp_ref \<Rightarrow> bool" where
  "is_owned (Owned _) \<longleftrightarrow> True"
| "is_owned (Borrowed _) \<longleftrightarrow> False"

fun get_mut :: "'a cpp_ref \<Rightarrow> 'a result" where
  "get_mut (Owned x) = Inr x"
| "get_mut (Borrowed _) = Inl (Runtime_Error ''attempt to mutate borrowed Ref'')"

definition Ref_release :: "'a cpp_ref \<Rightarrow> 'a" where
  "Ref_release r = ref_get r"

fun_cases get_mut_InrE: "get_mut r = Inr x"

lemma get_mut_Inr_iff [simp]: "get_mut r = Inr x \<longleftrightarrow> r = Owned x"
  by (cases r) auto

lemma is_owned_iff: "is_owned r \<longleftrightarrow> (\<exists>x. r = Owned x)"
  by (cases r) auto

end
