(* ===== verification/Parser.thy ===== *)
theory Parser
  imports Byte_Stream Ref
begin

text \<open>
  \<^verbatim>\<open>src/util/parser.hh\<close>, \<^verbatim>\<open>parser.cc\<close> and the helpers \<^verbatim>\<open>parse\<close>, \<^verbatim>\<open>serialize\<close> and \<^verbatim>\<open>concat\<close> of
  \<^verbatim>\<open>src/util/helpers.hh\<close>: reading and writing of integers in network byte order and of strings,
  from and to lists of buffers.  A parser owns its buffers (it refuses borrowed ones), so they
  are plain strings here.  The output parameters of the C++ operations are arguments with their
  old values, returned with the new ones: a parser in the error state leaves them alone.

  The buffers of a parser are a byte queue in the sense of the locale \<open>byte_queue\<close>.
\<close>

section \<open>Parser::BufferList\<close>

record buffer_list =
  bl_size :: u64
  bl_buffer :: "bytes list"
  bl_skip :: u64

fun BufferList_append :: "bytes cpp_ref list \<Rightarrow> buffer_list \<Rightarrow> buffer_list result" where
  "BufferList_append [] bl = Inr bl"
| "BufferList_append (x # buffers) bl =
     (if \<not> is_owned x then Inl (Runtime_Error ''cannot parse borrowed string'')
      else BufferList_append buffers
        (bl\<lparr>bl_buffer := bl_buffer bl @ [ref_get x], bl_size := bl_size bl + size64 (ref_get x)\<rparr>))"

definition BufferList_new :: "bytes cpp_ref list \<Rightarrow> buffer_list result" where
  "BufferList_new buffers = BufferList_append buffers \<lparr>bl_size = 0, bl_buffer = [], bl_skip = 0\<rparr>"

definition BufferList_peek :: "buffer_list \<Rightarrow> bytes result" where
  "BufferList_peek bl =
     (case bl_buffer bl of
        [] \<Rightarrow> Inl (Runtime_Error ''peek on empty BufferList'')
      | b # _ \<Rightarrow> str_substr b (unat (bl_skip bl)))"

lemma peek_to_end:
  assumes "BufferList_peek bl = Inr view"
  shows "bl_skip bl + size64 view = size64 (hd (bl_buffer bl))"
  using assms
  by (auto simp: BufferList_peek_def str_substr_def size64_def of_nat_diff split: list.splits if_splits)

function BufferList_remove_prefix :: "u64 \<Rightarrow> buffer_list \<Rightarrow> buffer_list result" where
  "BufferList_remove_prefix len bl =
     (if len \<noteq> 0 \<and> bl_buffer bl \<noteq> [] then
        case BufferList_peek bl of
          Inl e \<Rightarrow> Inl e
        | Inr view \<Rightarrow>
            let to_pop_now = min len (size64 view);
                bl = bl\<lparr>bl_skip := bl_skip bl + to_pop_now, bl_size := bl_size bl - to_pop_now\<rparr>
            in BufferList_remove_prefix (len - to_pop_now)
                 (if bl_skip bl = size64 (hd (bl_buffer bl))
                  then bl\<lparr>bl_buffer := tl (bl_buffer bl), bl_skip := 0\<rparr> else bl)
      else Inr bl)"
  by pat_completeness auto

termination
proof (relation "measures [\<lambda>(len, bl). length (bl_buffer bl), \<lambda>(len, bl). unat len]", goal_cases)
  case (2 len bl view n bl')
  show ?case
  proof (cases "bl_skip bl' = size64 (hd (bl_buffer bl'))")
    case True
    then show ?thesis using 2 by (cases "bl_buffer bl") auto
  next
    case False
    then have "n \<noteq> size64 view" using 2 peek_to_end by auto
    then have "n = len" using 2 by (auto simp: min_def)
    then show ?thesis using False 2 by (auto simp: unat_gt_0)
  qed
qed simp

declare BufferList_remove_prefix.simps [simp del]

text \<open>\<^verbatim>\<open>truncate\<close> counts whole buffers, also the part of the first one that has been skipped.\<close>

fun truncate_loop :: "nat \<Rightarrow> nat \<Rightarrow> bytes list \<Rightarrow> bytes list" where
  "truncate_loop size_so_far len [] = []"
| "truncate_loop size_so_far len (b # bs) =
     (if size_so_far + length b < len then b # truncate_loop (size_so_far + length b) len bs
      else if size_so_far + length b = len then [b]
      else [str_resize (len - size_so_far) b])"

definition BufferList_truncate :: "u64 \<Rightarrow> buffer_list \<Rightarrow> buffer_list" where
  "BufferList_truncate len bl =
     (if bl_size bl \<le> len then bl
      else if len = 0 then bl\<lparr>bl_buffer := [], bl_size := 0\<rparr>
      else bl\<lparr>bl_buffer := truncate_loop 0 (unat len) (bl_buffer bl), bl_size := len\<rparr>)"

text \<open>
  \<^verbatim>\<open>dump_all\<close> moves the remaining buffers out.  What it leaves behind in the buffer list is not
  used again.
\<close>

definition BufferList_dump_all :: "buffer_list \<Rightarrow> bytes cpp_ref list result" where
  "BufferList_dump_all bl =
     (if bl_size bl = 0 then Inr []
      else case bl_buffer bl of
             [] \<Rightarrow> Inl Undefined_Behaviour
           | b # bs \<Rightarrow>
               rbind (if bl_skip bl \<noteq> 0 then str_substr b (unat (bl_skip bl)) else Inr b)
                 (\<lambda>b. Inr (Owned b # map Owned bs)))"

definition BufferList_buffer :: "buffer_list \<Rightarrow> bytes list result" where
  "BufferList_buffer bl =
     (if bl_size bl = 0 then Inr []
      else case bl_buffer bl of
             [] \<Rightarrow> Inr []
           | b # bs \<Rightarrow> rbind (str_substr b (unat (bl_skip bl))) (\<lambda>b. Inr (b # bs)))"

section \<open>Parser\<close>

record parser =
  pr_input :: buffer_list
  pr_error :: bool

definition Parser_new :: "bytes cpp_ref list \<Rightarrow> parser result" where
  "Parser_new input = rbind (BufferList_new input) (\<lambda>bl. Inr \<lparr>pr_input = bl, pr_error = False\<rparr>)"

definition check_size :: "u64 \<Rightarrow> parser \<Rightarrow> parser" where
  "check_size n p = (if n > bl_size (pr_input p) then p\<lparr>pr_error := True\<rparr> else p)"

definition Parser_set_error :: "parser \<Rightarrow> parser" where
  "Parser_set_error p = p\<lparr>pr_error := True\<rparr>"

definition Parser_remove_prefix :: "u64 \<Rightarrow> parser \<Rightarrow> parser result" where
  "Parser_remove_prefix n p =
     rbind (BufferList_remove_prefix n (pr_input p)) (\<lambda>bl. Inr (p\<lparr>pr_input := bl\<rparr>))"

definition Parser_truncate :: "u64 \<Rightarrow> parser \<Rightarrow> parser" where
  "Parser_truncate len p = p\<lparr>pr_input := BufferList_truncate len (pr_input p)\<rparr>"

definition all_remaining :: "parser \<Rightarrow> bytes cpp_ref list result" where
  "all_remaining p = BufferList_dump_all (pr_input p)"

definition Parser_buffer :: "parser \<Rightarrow> bytes list result" where
  "Parser_buffer p = BufferList_buffer (pr_input p)"

text \<open>
  The loop of \<^verbatim>\<open>Parser::string\<close> for an output of \<open>n\<close> bytes.  An empty buffer at the front would
  make it run for ever.
\<close>

function string_loop :: "nat \<Rightarrow> buffer_list \<Rightarrow> bytes \<Rightarrow> (bytes \<times> buffer_list) result" where
  "string_loop n bl out =
     (if length out < n then
        case BufferList_peek bl of
          Inl e \<Rightarrow> Inl e
        | Inr front \<Rightarrow>
            let view = take (n - length out) front
            in if view = [] then Inl Diverges
               else case BufferList_remove_prefix (size64 view) bl of
                      Inl e \<Rightarrow> Inl e
                    | Inr bl \<Rightarrow> string_loop n bl (out @ view)
      else Inr (out, bl))"
  by pat_completeness auto
termination
  by (relation "measure (\<lambda>(n, bl, out). n - length out)") (auto simp: min_def neq_Nil_conv)

declare string_loop.simps [simp del]

definition Parser_string :: "bytes \<Rightarrow> parser \<Rightarrow> (bytes \<times> parser) result" where
  "Parser_string out p =
     (let p = check_size (size64 out) p
      in if pr_error p then Inr (out, p)
         else rbind (string_loop (length out) (pr_input p) [])
                (\<lambda>(s, bl). Inr (s, p\<lparr>pr_input := bl\<rparr>)))"

definition concatenate_all_remaining :: "parser \<Rightarrow> bytes result" where
  "concatenate_all_remaining p =
     rbind (all_remaining p) (\<lambda>refs.
       case refs of
         [] \<Rightarrow> Inr []
       | r # rs \<Rightarrow> Inr (fold (\<lambda>x out. out @ ref_get x) rs (Ref_release r)))"

text \<open>\<^verbatim>\<open>peek().front()\<close> of an empty view is undefined behaviour.\<close>

definition read_octet :: "parser \<Rightarrow> (byte \<times> parser) result" where
  "read_octet p =
     rbind (BufferList_peek (pr_input p)) (\<lambda>view.
       if view = [] then Inl Undefined_Behaviour
       else rbind (Parser_remove_prefix 1 p) (\<lambda>p. Inr (hd view, p)))"

fun integer_loop :: "nat \<Rightarrow> 'a::len word \<Rightarrow> parser \<Rightarrow> ('a word \<times> parser) result" where
  "integer_loop 0 out p = Inr (out, p)"
| "integer_loop (Suc n) out p =
     rbind (read_octet p) (\<lambda>(b, p). integer_loop n (push_bit 8 out OR ucast b) p)"

definition Parser_integer :: "'a::len word \<Rightarrow> parser \<Rightarrow> ('a word \<times> parser) result" where
  "Parser_integer out p =
     (let p = check_size (of_nat (LENGTH('a) div 8)) p
      in if pr_error p then Inr (out, p)
         else if LENGTH('a) div 8 = 1 then rbind (read_octet p) (\<lambda>(b, p). Inr (ucast b, p))
         else integer_loop (LENGTH('a) div 8) 0 p)"

text \<open>A loop \<^verbatim>\<open>for (auto& b : array) parser.integer(b)\<close>.\<close>

fun Parser_octets :: "bytes \<Rightarrow> parser \<Rightarrow> (bytes \<times> parser) result" where
  "Parser_octets [] p = Inr ([], p)"
| "Parser_octets (b # bs) p =
     rbind (Parser_integer b p) (\<lambda>(b, p). rbind (Parser_octets bs p) (\<lambda>(bs, p). Inr (b # bs, p)))"

section \<open>Serializer\<close>

record serializer =
  sr_output :: "bytes cpp_ref list"
  sr_buffer :: bytes

definition Serializer_new :: serializer where
  "Serializer_new = \<lparr>sr_output = [], sr_buffer = []\<rparr>"

definition Serializer_flush :: "serializer \<Rightarrow> serializer" where
  "Serializer_flush s =
     (if sr_buffer s \<noteq> [] then \<lparr>sr_output = sr_output s @ [Owned (sr_buffer s)], sr_buffer = []\<rparr> else s)"

definition int_bytes :: "'a::len word \<Rightarrow> bytes" where
  "int_bytes val = map (\<lambda>i. ucast (drop_bit ((LENGTH('a) div 8 - i - 1) * 8) val)) [0 ..< LENGTH('a) div 8]"

definition Serializer_integer :: "'a::len word \<Rightarrow> serializer \<Rightarrow> serializer" where
  "Serializer_integer val s = s\<lparr>sr_buffer := sr_buffer s @ int_bytes val\<rparr>"

definition Serializer_octets :: "bytes \<Rightarrow> serializer \<Rightarrow> serializer" where
  "Serializer_octets bs s = fold Serializer_integer bs s"

definition Serializer_string :: "bytes \<Rightarrow> serializer \<Rightarrow> serializer" where
  "Serializer_string buf s =
     (if buf \<noteq> [] then let s = Serializer_flush s in s\<lparr>sr_output := sr_output s @ [Owned buf]\<rparr> else s)"

definition Serializer_ref :: "bytes cpp_ref \<Rightarrow> serializer \<Rightarrow> serializer" where
  "Serializer_ref buf s =
     (if ref_get buf \<noteq> [] then let s = Serializer_flush s in s\<lparr>sr_output := sr_output s @ [buf]\<rparr> else s)"

definition Serializer_refs :: "bytes cpp_ref list \<Rightarrow> serializer \<Rightarrow> serializer" where
  "Serializer_refs bufs s = fold (\<lambda>b. Serializer_ref (Ref_duplicate b)) bufs s"

definition Serializer_finish :: "serializer \<Rightarrow> bytes cpp_ref list" where
  "Serializer_finish s = sr_output (Serializer_flush s)"

text \<open>\<^verbatim>\<open>concat\<close> and \<^verbatim>\<open>clone\<close> of \<^verbatim>\<open>helpers.hh\<close>, on the payload of a frame or datagram.\<close>

definition concat_refs :: "bytes cpp_ref list \<Rightarrow> bytes" where
  "concat_refs r = fold (\<lambda>x ret. ret @ ref_get x) r []"

definition clone_payload :: "bytes cpp_ref list \<Rightarrow> bytes cpp_ref list" where
  "clone_payload payload = map (\<lambda>i. Owned (ref_get i)) payload"

text \<open>\<^verbatim>\<open>serialize\<close> and \<^verbatim>\<open>parse\<close> of \<^verbatim>\<open>helpers.hh\<close>; the method of the object is an argument.\<close>

definition serialize :: "('a \<Rightarrow> serializer \<Rightarrow> serializer result) \<Rightarrow> 'a \<Rightarrow> bytes cpp_ref list result" where
  "serialize ser obj = rbind (ser obj Serializer_new) (\<lambda>s. Inr (Serializer_finish s))"

definition parse :: "('a \<Rightarrow> parser \<Rightarrow> ('a \<times> parser) result) \<Rightarrow> 'a \<Rightarrow> bytes cpp_ref list \<Rightarrow> ('a \<times> bool) result" where
  "parse par obj buffers =
     rbind (Parser_new buffers) (\<lambda>p. rbind (par obj p) (\<lambda>(obj, p). Inr (obj, \<not> pr_error p)))"

section \<open>Well-formed parsers\<close>

text \<open>
  The bytes still to be parsed, and the buffer lists the operations keep: an empty buffer is followed
  by empty ones only, and the skipped part lies inside the first one.
\<close>

fun no_gap :: "bytes list \<Rightarrow> bool" where
  "no_gap [] \<longleftrightarrow> True"
| "no_gap (b # bs) \<longleftrightarrow> (if b = [] then concat bs = [] else no_gap bs)"

fun skip_ok :: "bytes list \<Rightarrow> u64 \<Rightarrow> bool" where
  "skip_ok [] skip \<longleftrightarrow> skip = 0"
| "skip_ok (b # bs) skip \<longleftrightarrow> skip = 0 \<or> unat skip < length b"

definition bl_content :: "buffer_list \<Rightarrow> bytes" where
  "bl_content bl = drop (unat (bl_skip bl)) (concat (bl_buffer bl))"

definition bl_wf :: "buffer_list \<Rightarrow> bool" where
  "bl_wf bl \<longleftrightarrow> no_gap (bl_buffer bl) \<and> skip_ok (bl_buffer bl) (bl_skip bl)
     \<and> length (concat (bl_buffer bl)) < 2 ^ 64 \<and> bl_size bl = of_nat (length (bl_content bl))"

lemma no_gap_full: "[] \<notin> set bs \<Longrightarrow> no_gap bs"
  by (induction bs) auto

lemma no_gap_empty: "concat bs = [] \<Longrightarrow> no_gap bs"
  by (induction bs) auto

lemma no_gap_Cons: "no_gap (b # bs) \<Longrightarrow> no_gap bs"
  by (auto intro: no_gap_empty split: if_splits)

lemma skip_ok_0 [simp]: "skip_ok bs 0"
  by (cases bs) auto

lemma bl_content_length: "bl_wf bl \<Longrightarrow> length (bl_content bl) < 2 ^ 64"
  by (simp add: bl_wf_def bl_content_def less_imp_diff_less)

lemma unat_bl_size: "bl_wf bl \<Longrightarrow> unat (bl_size bl) = length (bl_content bl)"
  using bl_content_length unat_of_nat_u64 by (simp add: bl_wf_def)

lemma BufferList_peek_ok:
  assumes "bl_wf bl" and "bl_content bl \<noteq> []"
  shows "\<exists>view rest. BufferList_peek bl = Inr view \<and> bl_content bl = view @ rest \<and> view \<noteq> []"
  using assms by (cases "bl_buffer bl") (auto simp: BufferList_peek_def bl_content_def bl_wf_def split: if_splits)

lemma BufferList_remove_prefix_ok:
  assumes "bl_wf bl"
  shows "\<exists>bl'. BufferList_remove_prefix n bl = Inr bl' \<and> bl_wf bl' \<and> bl_content bl' = drop (unat n) (bl_content bl)"
  using assms
proof (induction n bl rule: BufferList_remove_prefix.induct)
  case (1 len bl)
  show ?case
  proof (cases "len \<noteq> 0 \<and> bl_buffer bl \<noteq> []")
    case False
    then show ?thesis
      using "1.prems" by (subst BufferList_remove_prefix.simps) (auto simp: bl_content_def)
  next
    case True
    then obtain b bs where b: "bl_buffer bl = b # bs" by (cases "bl_buffer bl") auto
    let ?skip = "unat (bl_skip bl)" and ?view = "drop (unat (bl_skip bl)) b"
    have sk: "?skip \<le> length b" and lb: "length b + length (concat bs) < 2 ^ 64"
      and sz: "bl_size bl = of_nat (length (bl_content bl))"
      and content: "bl_content bl = ?view @ concat bs"
      using "1.prems" b by (auto simp: bl_wf_def bl_content_def)
    have peek: "BufferList_peek bl = Inr ?view" using sk b by (simp add: BufferList_peek_def)
    define m where "m = min len (size64 ?view)"
    have vl: "unat (size64 ?view) = length ?view" using lb by (intro unat_size64) simp
    have um: "unat m = min (unat len) (length ?view)" using vl by (simp add: m_def min_def word_le_nat_alt)
    have add: "unat (bl_skip bl + m) = ?skip + unat m" using um lb sk by (intro unat_add_u64) simp
    have sub: "bl_size bl - m = of_nat (length (drop (unat m) (bl_content bl)))"
    proof -
      have "unat m \<le> length (bl_content bl)" using um content by simp
      then show ?thesis unfolding sz length_drop by (simp only: of_nat_diff of_nat_unat_u64)
    qed
    have rest: "unat (len - m) = unat len - unat m" using um by (intro unat_sub) (simp add: word_le_nat_alt)
    define bl1 where "bl1 = bl\<lparr>bl_skip := bl_skip bl + m, bl_size := bl_size bl - m\<rparr>"
    define bl2 where "bl2 = (if bl_skip bl1 = size64 (hd (bl_buffer bl1)) then bl1\<lparr>bl_buffer := tl (bl_buffer bl1), bl_skip := 0\<rparr> else bl1)"
    have eq: "BufferList_remove_prefix len bl = BufferList_remove_prefix (len - m) bl2"
      using True peek by (subst BufferList_remove_prefix.simps) (simp add: Let_def bl1_def bl2_def m_def)
    have full: "bl_skip bl1 = size64 (hd (bl_buffer bl1)) \<longleftrightarrow> unat m = length ?view"
      using add um sk lb unat_size64 [of b] b unfolding bl1_def by (auto simp: word_unat_eq_iff)
    have m_le: "unat m \<le> length ?view" using um by simp
    have c2: "bl_content bl2 = drop (unat m) (bl_content bl)"
    proof (cases "unat m = length ?view")
      case True
      then have "bl2 = bl1\<lparr>bl_buffer := bs, bl_skip := 0\<rparr>" using full b by (simp add: bl2_def bl1_def)
      then have "bl_content bl2 = concat bs" by (simp add: bl_content_def)
      then show ?thesis unfolding content using True by simp
    next
      case False
      then have "bl2 = bl1" using full by (simp add: bl2_def)
      then show ?thesis using add by (simp add: bl_content_def bl1_def add.commute)
    qed
    have "bl_wf bl2"
    proof (cases "unat m = length ?view")
      case True
      then have "bl2 = bl1\<lparr>bl_buffer := bs, bl_skip := 0\<rparr>" using full b by (simp add: bl2_def bl1_def)
      then show ?thesis
        using "1.prems" b lb c2 sub no_gap_Cons [of b bs] by (simp add: bl_wf_def bl1_def del: no_gap.simps)
    next
      case False
      then have "bl2 = bl1" using full by (simp add: bl2_def)
      moreover have "?skip + unat m < length b" using False m_le by simp
      ultimately show ?thesis using "1.prems" b c2 sub add by (simp add: bl_wf_def bl1_def)
    qed
    moreover have "unat (len - m) + unat m = unat len" using rest um by simp
    ultimately show ?thesis
      using "1.IH" [OF True peek m_def bl1_def, folded bl2_def] c2 eq by simp
  qed
qed

interpretation input: byte_queue bl_wf bl_content "\<lambda>_. ()" BufferList_peek BufferList_remove_prefix
proof unfold_locales
  show "\<exists>s'. BufferList_remove_prefix n s = Inr s' \<and> bl_wf s' \<and> bl_content s' = drop (unat n) (bl_content s) \<and> () = ()"
    if "bl_wf s" for s n
    using BufferList_remove_prefix_ok [OF that] by simp
qed (rule bl_content_length BufferList_peek_ok, assumption+)+

definition pr_ok :: "parser \<Rightarrow> bytes \<Rightarrow> bool" where
  "pr_ok p d \<longleftrightarrow> bl_wf (pr_input p) \<and> bl_content (pr_input p) = d \<and> \<not> pr_error p"

lemma check_size_ok:
  assumes "pr_ok p d" and "n < 2 ^ 64"
  shows "pr_error (check_size (of_nat n) p) \<longleftrightarrow> length d < n"
    and "n \<le> length d \<Longrightarrow> check_size (of_nat n) p = p"
  using assms unat_bl_size [of "pr_input p"]
  by (auto simp: check_size_def pr_ok_def word_less_nat_alt unat_of_nat_u64)

lemma read_octet_ok:
  assumes "pr_ok p (b # d)"
  shows "\<exists>p'. read_octet p = Inr (b, p') \<and> pr_ok p' d"
proof -
  let ?bl = "pr_input p"
  obtain view bl' where v: "BufferList_peek ?bl = Inr view" "view \<noteq> []"
      "BufferList_remove_prefix (size64 (take 1 view)) ?bl = Inr bl'" "bl_wf bl'"
      "bl_content ?bl = take 1 view @ bl_content bl'"
    using assms by (auto simp: pr_ok_def intro: input.peek_then_pop [of ?bl 1])
  have "take 1 view = [hd view]" using v(2) by (cases view) auto
  then show ?thesis
    using v assms by (simp add: read_octet_def Parser_remove_prefix_def pr_ok_def size64_def)
qed

text \<open>Big-endian numbers.\<close>

fun be_value :: "bytes \<Rightarrow> 'a::len word \<Rightarrow> 'a word" where
  "be_value [] acc = acc"
| "be_value (b # bs) acc = be_value bs (push_bit 8 acc OR ucast b)"

lemma integer_loop_ok:
  assumes "pr_ok p (bs @ d)"
  shows "\<exists>p'. integer_loop (length bs) acc p = Inr (be_value bs acc, p') \<and> pr_ok p' d"
  using assms
proof (induction bs arbitrary: p acc)
  case (Cons b bs)
  obtain p1 where "read_octet p = Inr (b, p1)" "pr_ok p1 (bs @ d)"
    using read_octet_ok [of p b "bs @ d"] Cons.prems by auto
  then show ?case using Cons.IH by simp
qed simp

lemma int_bytes_8 [simp]: "int_bytes (x :: u8) = [x]"
  by (simp add: int_bytes_def)

lemma int_bytes_16: "int_bytes (x :: u16) = [ucast (drop_bit 8 x), ucast x]"
  by (simp add: int_bytes_def upt_rec)

lemma int_bytes_32:
  "int_bytes (x :: u32) = [ucast (drop_bit 24 x), ucast (drop_bit 16 x), ucast (drop_bit 8 x), ucast x]"
  by (simp add: int_bytes_def upt_rec)

lemma length_int_bytes: "length (int_bytes (x :: 'a::len word)) = LENGTH('a) div 8"
  by (simp add: int_bytes_def)

lemma be_value_16: "be_value (int_bytes (x :: u16)) 0 = x"
  by (rule bit_word_eqI) (auto simp: int_bytes_16 bit_simps)

lemma be_value_32: "be_value (int_bytes (x :: u32)) 0 = x"
  apply (rule bit_word_eqI)
  apply (auto simp: int_bytes_32 bit_simps)
  subgoal for n by (cases "16 \<le> n") auto
  subgoal for n by (cases "16 \<le> n") auto
  done

lemma Parser_integer_eq:
  fixes x old :: "'a::len word"
  assumes "pr_ok p (int_bytes x @ d)" and "be_value (int_bytes x) 0 = x" and "1 < LENGTH('a) div 8" "LENGTH('a) div 8 < 2 ^ 64"
  shows "\<exists>p'. Parser_integer old p = Inr (x, p') \<and> pr_ok p' d"
proof -
  have "check_size (of_nat (LENGTH('a) div 8)) p = p"
    using check_size_ok(2) [OF assms(1,4)] by (simp add: length_int_bytes)
  moreover have "\<not> pr_error p" using assms(1) by (simp add: pr_ok_def)
  ultimately have "Parser_integer old p = integer_loop (length (int_bytes x)) 0 p"
    using assms(3) by (simp add: Parser_integer_def length_int_bytes)
  then show ?thesis using integer_loop_ok [OF assms(1), of "0 :: 'a word"] assms(2) by simp
qed

lemma Parser_integer_8:
  assumes "pr_ok p (x # d)"
  shows "\<exists>p'. Parser_integer (old :: u8) p = Inr (x, p') \<and> pr_ok p' d"
proof -
  have "check_size (of_nat 1) p = p" using check_size_ok(2) [OF assms, of 1] by simp
  then show ?thesis
    using read_octet_ok [OF assms] assms by (auto simp: Parser_integer_def pr_ok_def)
qed

lemma Parser_integer_16:
  "pr_ok p (int_bytes (x :: u16) @ d) \<Longrightarrow> \<exists>p'. Parser_integer old p = Inr (x, p') \<and> pr_ok p' d"
  by (rule Parser_integer_eq [OF _ be_value_16]) simp_all

lemma Parser_integer_32:
  "pr_ok p (int_bytes (x :: u32) @ d) \<Longrightarrow> \<exists>p'. Parser_integer old p = Inr (x, p') \<and> pr_ok p' d"
  by (rule Parser_integer_eq [OF _ be_value_32]) simp_all

lemma Parser_octets_ok:
  assumes "pr_ok p (xs @ d)" and "length old = length xs"
  shows "\<exists>p'. Parser_octets old p = Inr (xs, p') \<and> pr_ok p' d"
  using assms
proof (induction xs arbitrary: old p)
  case (Cons x xs)
  obtain o1 os where o: "old = o1 # os" "length os = length xs" using Cons.prems(2) by (cases old) auto
  obtain p1 where p1: "Parser_integer o1 p = Inr (x, p1)" "pr_ok p1 (xs @ d)"
    using Parser_integer_8 [of p x "xs @ d" o1] Cons.prems(1) by auto
  then show ?case using Cons.IH [OF p1(2) o(2)] o(1) by auto
qed auto

text \<open>A parser in the error state stays there and leaves the output parameters alone.\<close>

lemma Parser_integer_error: "pr_error p \<Longrightarrow> Parser_integer old p = Inr (old, p)"
  by (auto simp: Parser_integer_def check_size_def)

lemma Parser_octets_error: "pr_error p \<Longrightarrow> Parser_octets old p = Inr (old, p)"
  by (induction old) (auto simp: Parser_integer_error)

section \<open>Lists of buffers\<close>

text \<open>The bytes that a serializer has taken, and the buffers it produces.\<close>

definition sr_bytes :: "serializer \<Rightarrow> bytes" where
  "sr_bytes s = concat (map ref_get (sr_output s)) @ sr_buffer s"

definition sr_wf :: "serializer \<Rightarrow> bool" where
  "sr_wf s \<longleftrightarrow> (\<forall>b \<in> set (sr_output s). ref_get b \<noteq> [])"

lemma Serializer_new_ok [simp]: "sr_bytes Serializer_new = []" "sr_wf Serializer_new"
  by (simp_all add: sr_bytes_def sr_wf_def Serializer_new_def)

lemma Serializer_flush_ok [simp]: "sr_bytes (Serializer_flush s) = sr_bytes s" "sr_wf s \<Longrightarrow> sr_wf (Serializer_flush s)"
  "sr_buffer (Serializer_flush s) = []"
  by (auto simp: sr_bytes_def sr_wf_def Serializer_flush_def)

lemma Serializer_integer_ok [simp]:
  "sr_bytes (Serializer_integer x s) = sr_bytes s @ int_bytes x" "sr_wf (Serializer_integer x s) = sr_wf s"
  by (simp_all add: sr_bytes_def sr_wf_def Serializer_integer_def)

lemma Serializer_octets_ok [simp]:
  "sr_bytes (Serializer_octets xs s) = sr_bytes s @ xs" "sr_wf (Serializer_octets xs s) = sr_wf s"
  unfolding Serializer_octets_def by (induction xs arbitrary: s) auto

lemma Serializer_string_ok [simp]:
  "sr_bytes (Serializer_string x s) = sr_bytes s @ x" "sr_wf s \<Longrightarrow> sr_wf (Serializer_string x s)"
  using Serializer_flush_ok [of s] by (auto simp: sr_bytes_def sr_wf_def Serializer_string_def Let_def)

lemma Serializer_ref_ok [simp]:
  "sr_bytes (Serializer_ref x s) = sr_bytes s @ ref_get x" "sr_wf s \<Longrightarrow> sr_wf (Serializer_ref x s)"
  using Serializer_flush_ok [of s] by (auto simp: sr_bytes_def sr_wf_def Serializer_ref_def Let_def)

lemma concat_refs_eq: "concat_refs r = concat (map ref_get r)"
proof -
  have "fold (\<lambda>x ret. ret @ ref_get x) r acc = acc @ concat (map ref_get r)" for acc
    by (induction r arbitrary: acc) auto
  then show ?thesis by (simp add: concat_refs_def)
qed

lemma Serializer_refs_ok [simp]:
  "sr_bytes (Serializer_refs xs s) = sr_bytes s @ concat_refs xs" "sr_wf s \<Longrightarrow> sr_wf (Serializer_refs xs s)"
proof -
  show "sr_bytes (Serializer_refs xs s) = sr_bytes s @ concat_refs xs"
    unfolding Serializer_refs_def concat_refs_eq by (induction xs arbitrary: s) (auto simp: Ref_duplicate_def)
  show "sr_wf s \<Longrightarrow> sr_wf (Serializer_refs xs s)"
    unfolding Serializer_refs_def by (induction xs arbitrary: s) auto
qed

lemma Serializer_finish_ok:
  "concat_refs (Serializer_finish s) = sr_bytes s" "sr_wf s \<Longrightarrow> b \<in> set (Serializer_finish s) \<Longrightarrow> ref_get b \<noteq> []"
  using Serializer_flush_ok [of s]
  by (auto simp: Serializer_finish_def concat_refs_eq sr_bytes_def sr_wf_def)

text \<open>A parser over owned buffers of which none is empty is ready to read their bytes.\<close>

lemma BufferList_append_ok:
  "list_all is_owned refs \<Longrightarrow> BufferList_append refs bl =
     Inr (bl\<lparr>bl_buffer := bl_buffer bl @ map ref_get refs, bl_size := bl_size bl + size64 (concat (map ref_get refs))\<rparr>)"
  by (induction refs arbitrary: bl) (auto simp: size64_def algebra_simps)

lemma Parser_new_ok:
  assumes "list_all is_owned refs" and "no_gap (map ref_get refs)" and "length (concat_refs refs) < 2 ^ 64"
  shows "\<exists>p. Parser_new refs = Inr p \<and> pr_ok p (concat_refs refs)"
  using assms
  by (auto simp: Parser_new_def BufferList_new_def BufferList_append_ok pr_ok_def bl_wf_def bl_content_def
      concat_refs_eq size64_def)

lemma Parser_new_borrowed:
  "\<not> list_all is_owned refs \<Longrightarrow> Parser_new refs = Inl (Runtime_Error ''cannot parse borrowed string'')"
proof -
  have "\<not> list_all is_owned refs \<Longrightarrow> BufferList_append refs bl = Inl (Runtime_Error ''cannot parse borrowed string'')" for bl
    by (induction refs arbitrary: bl) auto
  then show "\<not> list_all is_owned refs \<Longrightarrow> Parser_new refs = Inl (Runtime_Error ''cannot parse borrowed string'')"
    by (simp add: Parser_new_def BufferList_new_def)
qed

lemma all_remaining_ok:
  assumes "pr_ok p d"
  shows "\<exists>refs. all_remaining p = Inr refs \<and> concat_refs refs = d \<and> list_all is_owned refs \<and> no_gap (map ref_get refs)"
proof -
  let ?bl = "pr_input p"
  have wf: "bl_wf ?bl" "bl_content ?bl = d" using assms by (auto simp: pr_ok_def)
  show ?thesis
  proof (cases "d = []")
    case True
    then show ?thesis using wf by (simp add: all_remaining_def BufferList_dump_all_def bl_wf_def concat_refs_def)
  next
    case False
    then obtain b bs where b: "bl_buffer ?bl = b # bs" using wf by (cases "bl_buffer ?bl") (auto simp: bl_content_def)
    have "bl_size ?bl \<noteq> 0" using unat_bl_size [OF wf(1)] wf(2) False by (auto simp: unat_eq_0 [symmetric])
    moreover have "b \<noteq> []" using wf b False by (auto simp: bl_wf_def bl_content_def)
    then have "unat (bl_skip ?bl) < length b" "no_gap bs" using wf(1) b by (auto simp: bl_wf_def)
    ultimately show ?thesis using wf(2) b \<open>b \<noteq> []\<close>
      by (auto simp: all_remaining_def BufferList_dump_all_def concat_refs_eq bl_content_def list_all_iff comp_def)
  qed
qed

lemma concatenate_all_remaining_ok:
  assumes "pr_ok p d"
  shows "concatenate_all_remaining p = Inr d"
proof -
  obtain refs where r: "all_remaining p = Inr refs" "concat_refs refs = d"
    using all_remaining_ok [OF assms] by blast
  have "fold (\<lambda>x out. out @ ref_get x) rs a = a @ concat (map ref_get rs)" for rs and a :: bytes
    by (induction rs arbitrary: a) auto
  then show ?thesis using r
    by (cases refs) (auto simp: concatenate_all_remaining_def concat_refs_eq Ref_release_def)
qed

lemma Parser_buffer_ok:
  assumes "pr_ok p d"
  shows "\<exists>views. Parser_buffer p = Inr views \<and> concat views = d"
proof -
  let ?bl = "pr_input p"
  have wf: "bl_wf ?bl" "bl_content ?bl = d" using assms by (auto simp: pr_ok_def)
  show ?thesis
  proof (cases "d = []")
    case True
    then show ?thesis using wf by (simp add: Parser_buffer_def BufferList_buffer_def bl_wf_def)
  next
    case False
    then obtain b bs where b: "bl_buffer ?bl = b # bs" using wf by (cases "bl_buffer ?bl") (auto simp: bl_content_def)
    have "bl_size ?bl \<noteq> 0" using unat_bl_size [OF wf(1)] wf(2) False by (auto simp: unat_eq_0 [symmetric])
    then show ?thesis using wf b
      by (auto simp: Parser_buffer_def BufferList_buffer_def bl_content_def bl_wf_def)
  qed
qed

lemma clone_payload_ok [simp]:
  "concat_refs (clone_payload r) = concat_refs r" "list_all is_owned (clone_payload r)"
  "map ref_get (clone_payload r) = map ref_get r"
  by (simp_all add: clone_payload_def concat_refs_eq comp_def list_all_iff)

lemma parse_serialized:
  assumes "sr_wf s" and "length (sr_bytes s) < 2 ^ 64"
  shows "\<exists>p. Parser_new (clone_payload (Serializer_finish s)) = Inr p \<and> pr_ok p (sr_bytes s)"
proof -
  have "[] \<notin> set (map ref_get (Serializer_finish s))" using Serializer_finish_ok(2) [OF assms(1)] by fastforce
  then show ?thesis
    using Parser_new_ok [of "clone_payload (Serializer_finish s)"] assms(2)
    by (simp add: Serializer_finish_ok(1) no_gap_full)
qed

section \<open>The contract of a header\<close>

text \<open>
  What the code that wraps payloads relies on: a header that is \<open>valid\<close> is written as the bytes
  \<open>enc h\<close>, and reading them into any header of the right \<open>shape\<close> gives \<open>h\<close> back and stops right
  after them.
\<close>

locale codec =
  fixes valid :: "'h \<Rightarrow> bool"
    and shape :: "'h \<Rightarrow> bool"
    and enc :: "'h \<Rightarrow> bytes"
    and ser :: "'h \<Rightarrow> serializer \<Rightarrow> serializer result"
    and par :: "'h \<Rightarrow> parser \<Rightarrow> ('h \<times> parser) result"
  assumes ser: "valid h \<Longrightarrow> sr_wf s \<Longrightarrow>
      \<exists>s'. ser h s = Inr s' \<and> sr_bytes s' = sr_bytes s @ enc h \<and> sr_wf s'"
    and par: "valid h \<Longrightarrow> shape old \<Longrightarrow> pr_ok p (enc h @ d) \<Longrightarrow> \<exists>p'. par old p = Inr (h, p') \<and> pr_ok p' d"
begin

text \<open>A header and the payload after it, written and read back.\<close>

lemma payload_roundtrip:
  assumes "valid h" and "shape old" and "length (enc h) + length (concat_refs payload) < 2 ^ 64"
  shows "\<exists>s p p' refs. ser h Serializer_new = Inr s \<and>
    Parser_new (clone_payload (Serializer_finish (Serializer_refs payload s))) = Inr p \<and>
    par old p = Inr (h, p') \<and> pr_ok p' (concat_refs payload) \<and> \<not> pr_error p' \<and>
    all_remaining p' = Inr refs \<and> concat_refs refs = concat_refs payload \<and> list_all is_owned refs"
proof -
  obtain s where s: "ser h Serializer_new = Inr s" "sr_bytes s = enc h" "sr_wf s"
    using ser [OF assms(1), of Serializer_new] by auto
  let ?s = "Serializer_refs payload s"
  have "length (sr_bytes ?s) < 2 ^ 64" using s(2) assms(3) by simp
  then obtain p where p: "Parser_new (clone_payload (Serializer_finish ?s)) = Inr p" "pr_ok p (enc h @ concat_refs payload)"
    using parse_serialized [of ?s] s by auto
  obtain p' where p': "par old p = Inr (h, p')" "pr_ok p' (concat_refs payload)"
    using par [OF assms(1,2) p(2)] by blast
  then show ?thesis using s(1) p(1) all_remaining_ok [OF p'(2)] by (auto simp: pr_ok_def)
qed

end

section \<open>Correctness\<close>

lemma string_loop_ok:
  assumes "bl_wf bl" and "n \<le> length out + length (bl_content bl)" and "length out \<le> n"
  shows "\<exists>bl'. string_loop n bl out = Inr (out @ take (n - length out) (bl_content bl), bl') \<and> bl_wf bl'
    \<and> bl_content bl' = drop (n - length out) (bl_content bl)"
  using assms
proof (induction "n - length out" arbitrary: bl out rule: less_induct)
  case less
  show ?case
  proof (cases "length out < n")
    case False
    then show ?thesis using less.prems by (subst string_loop.simps) auto
  next
    case True
    let ?k = "n - length out"
    have "bl_content bl \<noteq> []" using True less.prems(2) by auto
    with less.prems(1) True obtain view bl1 where v: "BufferList_peek bl = Inr view" "view \<noteq> []"
        "BufferList_remove_prefix (size64 (take ?k view)) bl = Inr bl1" "bl_wf bl1"
        "bl_content bl = take ?k view @ bl_content bl1"
      by (auto intro: input.peek_then_pop [of bl ?k])
    have eq: "string_loop n bl out = string_loop n bl1 (out @ take ?k view)"
      using True v by (subst string_loop.simps) simp
    have lt: "n - length (out @ take ?k view) < ?k" using True v(2) by (cases view) auto
    show ?thesis
      using less.hyps [OF lt v(4)] less.prems(2,3) True v(5) unfolding eq by (auto simp: min_def)
  qed
qed

text \<open>
  Reading a string: from a parser that holds the bytes \<open>d\<close>, \<^verbatim>\<open>Parser::string\<close> reads exactly as
  many bytes as the output has room for, across buffer boundaries, and leaves the rest; if \<open>d\<close> is
  too short, it only sets the error flag.
\<close>

theorem parser_string_reads:
  assumes "pr_ok p d" and "length out < 2 ^ 64"
  shows "if length out \<le> length d
    then \<exists>p'. Parser_string out p = Inr (take (length out) d, p') \<and> pr_ok p' (drop (length out) d)
    else Parser_string out p = Inr (out, Parser_set_error p)"
proof -
  note cs = check_size_ok [OF assms, folded size64_def]
  show ?thesis
  proof (cases "length out \<le> length d")
    case True
    then show ?thesis
      using string_loop_ok [of "pr_input p" "length out" "[]"] cs(2) assms(1)
      by (auto simp: Parser_string_def pr_ok_def)
  next
    case False
    then show ?thesis
      using cs(1) by (auto simp: Parser_string_def check_size_def Parser_set_error_def split: if_splits)
  qed
qed

theorem parser_string_reads_witness:
  "\<exists>p p' bad. Parser_new [Owned [1, 2], Owned [3]] = Inr p \<and>
    Parser_string [0, 0, 0] p = Inr ([1, 2, 3], p') \<and> Parser_string [0, 0, 0, 0] p = Inr ([0, 0, 0, 0], bad) \<and> pr_error bad"
proof -
  obtain p where p: "Parser_new [Owned [1, 2], Owned [3]] = Inr p" "pr_ok p [1, 2, 3]"
    using Parser_new_ok [of "[Owned [1, 2], Owned [3]]"] by (auto simp: concat_refs_eq)
  show ?thesis
    using p(1) parser_string_reads [OF p(2), of "[0, 0, 0]"] parser_string_reads [OF p(2), of "[0, 0, 0, 0]"]
    by (auto simp: Parser_set_error_def)
qed

text \<open>
  What the serializer writes, the parser reads back: integers of all three widths and a string,
  written one after the other and handed over as owned buffers, are recovered exactly.
\<close>

theorem serializer_parser_roundtrip:
  fixes a :: u8 and b :: u16 and c :: u32
  assumes "length str < 2 ^ 64 - 7"
  shows "rbind (Parser_new (clone_payload (Serializer_finish
       (Serializer_string str (Serializer_integer c (Serializer_integer b (Serializer_integer a Serializer_new)))))))
     (\<lambda>p. rbind (Parser_integer a' p) (\<lambda>(x, p). rbind (Parser_integer b' p) (\<lambda>(y, p).
       rbind (Parser_integer c' p) (\<lambda>(z, p). rbind (concatenate_all_remaining p) (\<lambda>s. Inr (x, y, z, s))))))
   = Inr (a, b, c, str)"
proof -
  let ?s = "Serializer_string str (Serializer_integer c (Serializer_integer b (Serializer_integer a Serializer_new)))"
  let ?refs = "clone_payload (Serializer_finish ?s)"
  have "sr_bytes ?s = a # int_bytes b @ int_bytes c @ str" by simp
  moreover from this have "length (sr_bytes ?s) < 2 ^ 64" using assms by (simp add: length_int_bytes)
  ultimately obtain p where p: "Parser_new ?refs = Inr p" "pr_ok p (a # int_bytes b @ int_bytes c @ str)"
    using parse_serialized [of ?s] by auto
  obtain p1 where p1: "Parser_integer a' p = Inr (a, p1)" "pr_ok p1 (int_bytes b @ int_bytes c @ str)"
    using Parser_integer_8 [OF p(2)] by blast
  obtain p2 where p2: "Parser_integer b' p1 = Inr (b, p2)" "pr_ok p2 (int_bytes c @ str)"
    using Parser_integer_16 [OF p1(2)] by blast
  obtain p3 where p3: "Parser_integer c' p2 = Inr (c, p3)" "pr_ok p3 str"
    using Parser_integer_32 [OF p2(2)] by blast
  show ?thesis using p(1) p1(1) p2(1) p3(1) concatenate_all_remaining_ok [OF p3(2)] by simp
qed

theorem serializer_parser_roundtrip_witness:
  "rbind (Parser_new (clone_payload (Serializer_finish
       (Serializer_string [9, 8] (Serializer_integer (0x01020304 :: u32) (Serializer_integer (0x0506 :: u16)
         (Serializer_integer (7 :: u8) Serializer_new)))))))
     (\<lambda>p. rbind (Parser_integer 0 p) (\<lambda>(x, p). rbind (Parser_integer 0 p) (\<lambda>(y, p).
       rbind (Parser_integer 0 p) (\<lambda>(z, p). rbind (concatenate_all_remaining p) (\<lambda>s. Inr (x, y, z, s))))))
   = Inr (7 :: u8, 0x0506 :: u16, 0x01020304 :: u32, [9, 8])"
  by (rule serializer_parser_roundtrip) simp

end
