(* ===== verification/TCP_Segment.thy ===== *)
theory TCP_Segment
  imports TCP_Messages Checksum Parser
begin

text \<open>
  \<^verbatim>\<open>src/util/tcp_segment.hh\<close>, \<^verbatim>\<open>tcp_segment.cc\<close> and \<^verbatim>\<open>udinfo.hh\<close>: the messages exchanged by TCP
  peers and their form on the wire.  Assignments through an owned-or-borrowed reference throw when
  it is borrowed.
\<close>

record tcp_message =
  msg_sender :: "sender_message cpp_ref"
  msg_receiver :: "receiver_message cpp_ref"

definition SenderMessage_new :: sender_message where
  "SenderMessage_new = \<lparr>sm_seqno = Wrap32 0, sm_SYN = False, sm_payload = [], sm_FIN = False, sm_RST = False\<rparr>"

definition ReceiverMessage_new :: receiver_message where
  "ReceiverMessage_new = \<lparr>rm_ackno = None, rm_window_size = 0, rm_RST = False\<rparr>"

definition TCPMessage_new :: tcp_message where
  "TCPMessage_new = \<lparr>msg_sender = Owned SenderMessage_new, msg_receiver = Owned ReceiverMessage_new\<rparr>"

record udinfo =
  ud_src_port :: u16
  ud_dst_port :: u16
  ud_cksum :: u16

record tcp_segment =
  seg_message :: tcp_message
  seg_udinfo :: udinfo

definition TCPSegment_new :: tcp_segment where
  "TCPSegment_new = \<lparr>seg_message = TCPMessage_new, seg_udinfo = \<lparr>ud_src_port = 0, ud_dst_port = 0, ud_cksum = 0\<rparr>\<rparr>"

definition TCP_HEADER_LENGTH :: u8 where
  "TCP_HEADER_LENGTH = 20"

definition TCPSegment_parse :: "u32 \<Rightarrow> tcp_segment \<Rightarrow> parser \<Rightarrow> (tcp_segment \<times> parser) result" where
  "TCPSegment_parse datagram_layer_pseudo_checksum seg p =
     rbind (Parser_buffer p) (\<lambda>views.
     let check = checksum_add_all views (InternetChecksum_new datagram_layer_pseudo_checksum) in
     if checksum_value check \<noteq> 0 then Inr (seg, Parser_set_error p)
     else
       rbind (Parser_integer (ud_src_port (seg_udinfo seg)) p) (\<lambda>(src_port, p).
       rbind (Parser_integer (ud_dst_port (seg_udinfo seg)) p) (\<lambda>(dst_port, p).
       rbind (Parser_integer (0 :: u32) p) (\<lambda>(raw32, p).
       rbind (get_mut (msg_sender (seg_message seg))) (\<lambda>sender.
       let sender = sender\<lparr>sm_seqno := Wrap32 raw32\<rparr> in
       rbind (Parser_integer raw32 p) (\<lambda>(raw32, p).
       rbind (get_mut (msg_receiver (seg_message seg))) (\<lambda>receiver.
       let receiver = receiver\<lparr>rm_ackno := Some (Wrap32 raw32)\<rparr> in
       rbind (Parser_integer (0 :: u8) p) (\<lambda>(octet, p).
       let data_offset = drop_bit 4 octet in
       rbind (Parser_integer octet p) (\<lambda>(octet, p).
       let receiver = (if octet AND 0x10 = 0 then receiver\<lparr>rm_ackno := None\<rparr> else receiver);
           receiver = receiver\<lparr>rm_RST := (octet AND 0x04 \<noteq> 0)\<rparr>;
           sender = sender\<lparr>sm_RST := (octet AND 0x04 \<noteq> 0), sm_SYN := (octet AND 0x02 \<noteq> 0),
                           sm_FIN := (octet AND 0x01 \<noteq> 0)\<rparr> in
       rbind (Parser_integer (rm_window_size receiver) p) (\<lambda>(window_size, p).
       let receiver = receiver\<lparr>rm_window_size := window_size\<rparr> in
       rbind (Parser_integer (ud_cksum (seg_udinfo seg)) p) (\<lambda>(cksum, p).
       rbind (Parser_integer (0 :: u16) p) (\<lambda>(urgent, p).
       let udinfo = \<lparr>ud_src_port = src_port, ud_dst_port = dst_port, ud_cksum = cksum\<rparr>;
           seg = \<lparr>seg_message = \<lparr>msg_sender = Owned sender, msg_receiver = Owned receiver\<rparr>, seg_udinfo = udinfo\<rparr> in
       if data_offset < drop_bit 2 TCP_HEADER_LENGTH then Inr (seg, Parser_set_error p)
       else
         rbind (Parser_remove_prefix (ucast data_offset * 4 - ucast TCP_HEADER_LENGTH) p) (\<lambda>p.
         rbind (concatenate_all_remaining p) (\<lambda>payload.
           Inr (seg\<lparr>seg_message := \<lparr>msg_sender = Owned (sender\<lparr>sm_payload := payload\<rparr>),
                                    msg_receiver = Owned receiver\<rparr>\<rparr>, p)))))))))))))))"

definition tcp_flags :: "tcp_message \<Rightarrow> u8" where
  "tcp_flags m =
     (let reset = sm_RST (ref_get (msg_sender m)) \<or> rm_RST (ref_get (msg_receiver m))
      in (if rm_ackno (ref_get (msg_receiver m)) \<noteq> None then 0x10 else 0) OR (if reset then 0x04 else 0)
         OR (if sm_SYN (ref_get (msg_sender m)) then 0x02 else 0)
         OR (if sm_FIN (ref_get (msg_sender m)) then 0x01 else 0))"

definition TCPSegment_serialize :: "tcp_segment \<Rightarrow> serializer \<Rightarrow> serializer" where
  "TCPSegment_serialize seg s =
     (let sender = ref_get (msg_sender (seg_message seg));
          receiver = ref_get (msg_receiver (seg_message seg));
          s = Serializer_integer (ud_src_port (seg_udinfo seg)) s;
          s = Serializer_integer (ud_dst_port (seg_udinfo seg)) s;
          s = Serializer_integer (raw_value (sm_seqno sender)) s;
          s = Serializer_integer (raw_value (case rm_ackno receiver of None \<Rightarrow> Wrap32 0 | Some a \<Rightarrow> a)) s;
          s = Serializer_integer (push_bit 4 (drop_bit 2 TCP_HEADER_LENGTH)) s;
          s = Serializer_integer (tcp_flags (seg_message seg)) s;
          s = Serializer_integer (rm_window_size receiver) s;
          s = Serializer_integer (ud_cksum (seg_udinfo seg)) s;
          s = Serializer_integer (0 :: u16) s
      in Serializer_string (sm_payload sender) s)"

definition TCPSegment_compute_checksum :: "u32 \<Rightarrow> tcp_segment \<Rightarrow> tcp_segment" where
  "TCPSegment_compute_checksum datagram_layer_pseudo_checksum seg =
     (let seg = seg\<lparr>seg_udinfo := (seg_udinfo seg)\<lparr>ud_cksum := 0\<rparr>\<rparr>;
          s = TCPSegment_serialize seg Serializer_new;
          check = checksum_add_all (map ref_get (Serializer_finish s))
                    (InternetChecksum_new datagram_layer_pseudo_checksum)
      in seg\<lparr>seg_udinfo := (seg_udinfo seg)\<lparr>ud_cksum := checksum_value check\<rparr>\<rparr>)"

section \<open>The form on the wire\<close>

definition ack_value :: "receiver_message \<Rightarrow> u32" where
  "ack_value r = raw_value (case rm_ackno r of None \<Rightarrow> Wrap32 0 | Some a \<Rightarrow> a)"

definition seg_bytes :: "tcp_segment \<Rightarrow> bytes" where
  "seg_bytes seg = (let sender = ref_get (msg_sender (seg_message seg)); receiver = ref_get (msg_receiver (seg_message seg))
     in int_bytes (ud_src_port (seg_udinfo seg)) @ int_bytes (ud_dst_port (seg_udinfo seg))
       @ int_bytes (raw_value (sm_seqno sender)) @ int_bytes (ack_value receiver)
       @ 0x50 # tcp_flags (seg_message seg) # int_bytes (rm_window_size receiver)
       @ int_bytes (ud_cksum (seg_udinfo seg)) @ int_bytes (0 :: u16) @ sm_payload sender)"

text \<open>A message after the trip: owned, and with one RST flag for both halves.\<close>

definition on_wire :: "tcp_message \<Rightarrow> tcp_message" where
  "on_wire m = (let reset = sm_RST (ref_get (msg_sender m)) \<or> rm_RST (ref_get (msg_receiver m))
     in \<lparr>msg_sender = Owned ((ref_get (msg_sender m))\<lparr>sm_RST := reset\<rparr>),
         msg_receiver = Owned ((ref_get (msg_receiver m))\<lparr>rm_RST := reset\<rparr>)\<rparr>)"

lemma TCPSegment_serialize_ok:
  assumes "sr_wf s"
  shows "sr_bytes (TCPSegment_serialize seg s) = sr_bytes s @ seg_bytes seg" "sr_wf (TCPSegment_serialize seg s)"
  using assms
  by (simp_all add: TCPSegment_serialize_def seg_bytes_def ack_value_def TCP_HEADER_LENGTH_def Let_def)

lemma tcp_flags_bits:
  "tcp_flags m AND 0x10 = 0 \<longleftrightarrow> rm_ackno (ref_get (msg_receiver m)) = None"
  "tcp_flags m AND 0x04 \<noteq> 0 \<longleftrightarrow> sm_RST (ref_get (msg_sender m)) \<or> rm_RST (ref_get (msg_receiver m))"
  "tcp_flags m AND 0x02 \<noteq> 0 \<longleftrightarrow> sm_SYN (ref_get (msg_sender m))"
  "tcp_flags m AND 0x01 \<noteq> 0 \<longleftrightarrow> sm_FIN (ref_get (msg_sender m))"
  by (simp_all add: tcp_flags_def Let_def)

lemma TCPSegment_parse_ok:
  assumes sum: "checksum_value (checksum_add (seg_bytes seg) (InternetChecksum_new ps)) = 0"
    and old: "msg_sender (seg_message old) = Owned os" "msg_receiver (seg_message old) = Owned orc"
    and p: "pr_ok p (seg_bytes seg)"
  shows "\<exists>p'. \<not> pr_error p' \<and>
    TCPSegment_parse ps old p = Inr (\<lparr>seg_message = on_wire (seg_message seg), seg_udinfo = seg_udinfo seg\<rparr>, p')"
proof -
  let ?m = "seg_message seg" and ?u = "seg_udinfo seg"
  let ?sm = "ref_get (msg_sender ?m)" and ?rm = "ref_get (msg_receiver ?m)"
  obtain views where views: "Parser_buffer p = Inr views" "concat views = seg_bytes seg"
    using Parser_buffer_ok [OF p] by blast
  obtain p1 where p1: "Parser_integer (ud_src_port (seg_udinfo old)) p = Inr (ud_src_port ?u, p1)"
      "pr_ok p1 (int_bytes (ud_dst_port ?u) @ int_bytes (raw_value (sm_seqno ?sm)) @ int_bytes (ack_value ?rm)
       @ 0x50 # tcp_flags ?m # int_bytes (rm_window_size ?rm)
       @ int_bytes (ud_cksum ?u) @ int_bytes (0 :: u16) @ sm_payload ?sm)"
    using Parser_integer_16 [of p "ud_src_port ?u"] p by (fastforce simp: seg_bytes_def Let_def)
  obtain p2 where p2: "Parser_integer (ud_dst_port (seg_udinfo old)) p1 = Inr (ud_dst_port ?u, p2)"
      "pr_ok p2 (int_bytes (raw_value (sm_seqno ?sm)) @ int_bytes (ack_value ?rm)
       @ 0x50 # tcp_flags ?m # int_bytes (rm_window_size ?rm)
       @ int_bytes (ud_cksum ?u) @ int_bytes (0 :: u16) @ sm_payload ?sm)"
    using Parser_integer_16 [OF p1(2)] by blast
  obtain p3 where p3: "Parser_integer (0 :: u32) p2 = Inr (raw_value (sm_seqno ?sm), p3)"
      "pr_ok p3 (int_bytes (ack_value ?rm) @ 0x50 # tcp_flags ?m # int_bytes (rm_window_size ?rm)
       @ int_bytes (ud_cksum ?u) @ int_bytes (0 :: u16) @ sm_payload ?sm)"
    using Parser_integer_32 [OF p2(2)] by blast
  obtain p4 where p4: "Parser_integer (raw_value (sm_seqno ?sm)) p3 = Inr (ack_value ?rm, p4)"
      "pr_ok p4 (0x50 # tcp_flags ?m # int_bytes (rm_window_size ?rm)
       @ int_bytes (ud_cksum ?u) @ int_bytes (0 :: u16) @ sm_payload ?sm)"
    using Parser_integer_32 [OF p3(2)] by blast
  obtain p5 where p5: "Parser_integer (0 :: u8) p4 = Inr (0x50, p5)" "pr_ok p5 (tcp_flags ?m # int_bytes (rm_window_size ?rm)
       @ int_bytes (ud_cksum ?u) @ int_bytes (0 :: u16) @ sm_payload ?sm)"
    using Parser_integer_8 [OF p4(2)] by blast
  obtain p6 where p6: "Parser_integer (0x50 :: u8) p5 = Inr (tcp_flags ?m, p6)" "pr_ok p6 (int_bytes (rm_window_size ?rm)
       @ int_bytes (ud_cksum ?u) @ int_bytes (0 :: u16) @ sm_payload ?sm)"
    using Parser_integer_8 [OF p5(2)] by blast
  obtain p7 where p7: "Parser_integer (rm_window_size orc) p6 = Inr (rm_window_size ?rm, p7)"
      "pr_ok p7 (int_bytes (ud_cksum ?u) @ int_bytes (0 :: u16) @ sm_payload ?sm)"
    using Parser_integer_16 [OF p6(2)] by blast
  obtain p8 where p8: "Parser_integer (ud_cksum (seg_udinfo old)) p7 = Inr (ud_cksum ?u, p8)"
      "pr_ok p8 (int_bytes (0 :: u16) @ sm_payload ?sm)"
    using Parser_integer_16 [OF p7(2)] by blast
  obtain p9 where p9: "Parser_integer (0 :: u16) p8 = Inr (0, p9)" "pr_ok p9 (sm_payload ?sm)"
    using Parser_integer_16 [OF p8(2)] by blast
  have rp: "Parser_remove_prefix 0 p9 = Inr p9"
    by (simp add: Parser_remove_prefix_def BufferList_remove_prefix.simps)
  have "TCPSegment_parse ps old p = Inr (\<lparr>seg_message = on_wire ?m, seg_udinfo = ?u\<rparr>, p9)"
  proof (cases "rm_ackno ?rm")
    case None
    then show ?thesis
      using sum rp p9(1) concatenate_all_remaining_ok [OF p9(2)]
      by (simp add: TCPSegment_parse_def views checksum_add_all_eq p1(1) p2(1) p3(1) p4(1) p5(1) p6(1) p7(1) p8(1)
          old Let_def tcp_flags_bits on_wire_def TCP_HEADER_LENGTH_def)
  next
    case (Some a)
    then show ?thesis
      using sum rp p9(1) concatenate_all_remaining_ok [OF p9(2)]
      by (simp add: TCPSegment_parse_def views checksum_add_all_eq p1(1) p2(1) p3(1) p4(1) p5(1) p6(1) p7(1) p8(1)
          old Let_def tcp_flags_bits on_wire_def TCP_HEADER_LENGTH_def ack_value_def)
  qed
  then show ?thesis using p9(2) by (auto simp: pr_ok_def)
qed

section \<open>Correctness\<close>

lemma TCPSegment_compute_checksum_eq:
  "TCPSegment_compute_checksum ps seg = (let seg0 = seg\<lparr>seg_udinfo := (seg_udinfo seg)\<lparr>ud_cksum := 0\<rparr>\<rparr>
     in seg\<lparr>seg_udinfo := (seg_udinfo seg)\<lparr>ud_cksum :=
          checksum_value (checksum_add (seg_bytes seg0) (InternetChecksum_new ps))\<rparr>\<rparr>)"
  using Serializer_finish_ok(1) TCPSegment_serialize_ok(1) [of Serializer_new]
  by (simp add: TCPSegment_compute_checksum_def Let_def checksum_add_all_eq concat_refs_eq)

lemma compute_checksum_sums_to_zero:
  assumes "unat ps < 2 ^ 19" and "length (sm_payload (ref_get (msg_sender (seg_message seg)))) \<le> 65515"
  shows "checksum_value (checksum_add (seg_bytes (TCPSegment_compute_checksum ps seg)) (InternetChecksum_new ps)) = 0"
proof -
  let ?m = "seg_message seg" and ?u = "seg_udinfo seg"
  let ?sm = "ref_get (msg_sender ?m)" and ?rm = "ref_get (msg_receiver ?m)"
  let ?pre = "int_bytes (ud_src_port ?u) @ int_bytes (ud_dst_port ?u) @ int_bytes (raw_value (sm_seqno ?sm))
    @ int_bytes (ack_value ?rm) @ 0x50 # tcp_flags ?m # int_bytes (rm_window_size ?rm)"
  let ?post = "int_bytes (0 :: u16) @ sm_payload ?sm"
  have split: "seg_bytes (seg\<lparr>seg_udinfo := ?u\<lparr>ud_cksum := c\<rparr>\<rparr>) = ?pre @ cksum_bytes c @ ?post" for c
    by (simp add: seg_bytes_def cksum_bytes_def int_bytes_16 Let_def)
  have even: "even (length ?pre)" by (simp add: length_int_bytes)
  have "word_sum False (?pre @ cksum_bytes 0 @ ?post) \<le> 65280 * length (?pre @ cksum_bytes 0 @ ?post)"
    by (rule word_sum_le)
  also have "\<dots> \<le> 65280 * 65535"
    using assms(2) by (intro mult_left_mono) (simp_all add: length_int_bytes cksum_bytes_def)
  finally have "unat ps + word_sum False (?pre @ cksum_bytes 0 @ ?post) < 2 ^ 32 - 65536" using assms(1) by simp
  from checksum_insert [OF even this refl] show ?thesis
    unfolding TCPSegment_compute_checksum_eq Let_def split .
qed

lemma TCPSegment_compute_checksum_sel [simp]:
  "seg_message (TCPSegment_compute_checksum ps seg) = seg_message seg"
  by (simp add: TCPSegment_compute_checksum_eq Let_def)

text \<open>
  C38. TCP segments survive the wire: a segment of at most 65515 bytes of payload whose checksum was computed for a pseudo-header
  (with a sum below \<open>2 ^ 19\<close>, as those of IPv4 have) is
  accepted by the receiving side with the same pseudo-header, and ports, checksum, sequence number,
  flags, acknowledgment, window and payload are recovered; the two reset flags arrive as one.
\<close>

theorem tcp_segment_roundtrip:
  assumes "unat ps < 2 ^ 19" and "length (sm_payload (ref_get (msg_sender (seg_message seg)))) \<le> 65515"
  shows "\<exists>p p'. Parser_new (clone_payload (Serializer_finish
      (TCPSegment_serialize (TCPSegment_compute_checksum ps seg) Serializer_new))) = Inr p \<and>
    TCPSegment_parse ps TCPSegment_new p =
      Inr (\<lparr>seg_message = on_wire (seg_message seg), seg_udinfo = seg_udinfo (TCPSegment_compute_checksum ps seg)\<rparr>, p') \<and>
    \<not> pr_error p'"
proof -
  let ?seg = "TCPSegment_compute_checksum ps seg"
  let ?s = "TCPSegment_serialize ?seg Serializer_new"
  have s: "sr_bytes ?s = seg_bytes ?seg" "sr_wf ?s" using TCPSegment_serialize_ok [of Serializer_new ?seg] by simp_all
  have "length (seg_bytes ?seg) \<le> 65535" using assms(2) by (simp add: seg_bytes_def Let_def length_int_bytes)
  then have "length (sr_bytes ?s) < 2 ^ 64" using s(1) by simp
  then obtain p where p: "Parser_new (clone_payload (Serializer_finish ?s)) = Inr p" "pr_ok p (seg_bytes ?seg)"
    using parse_serialized [OF s(2)] s(1) by auto
  have old: "msg_sender (seg_message TCPSegment_new) = Owned SenderMessage_new"
      "msg_receiver (seg_message TCPSegment_new) = Owned ReceiverMessage_new"
    by (simp_all add: TCPSegment_new_def TCPMessage_new_def)
  from TCPSegment_parse_ok [OF compute_checksum_sums_to_zero [OF assms] old p(2)] p(1) show ?thesis by auto
qed

theorem tcp_segment_roundtrip_witness:
  "let seg = TCPSegment_new\<lparr>seg_message := \<lparr>msg_sender = Borrowed \<lparr>sm_seqno = Wrap32 7, sm_SYN = True, sm_payload = [1, 2],
        sm_FIN = False, sm_RST = False\<rparr>, msg_receiver = Owned \<lparr>rm_ackno = None, rm_window_size = 9, rm_RST = True\<rparr>\<rparr>\<rparr>
   in \<exists>p s' p'. Parser_new (clone_payload (Serializer_finish
        (TCPSegment_serialize (TCPSegment_compute_checksum 77 seg) Serializer_new))) = Inr p \<and>
      TCPSegment_parse 77 TCPSegment_new p = Inr (s', p') \<and> \<not> pr_error p' \<and>
      ref_get (msg_sender (seg_message s')) = \<lparr>sm_seqno = Wrap32 7, sm_SYN = True, sm_payload = [1, 2],
        sm_FIN = False, sm_RST = True\<rparr>"
  using tcp_segment_roundtrip [of 77 "TCPSegment_new\<lparr>seg_message := \<lparr>msg_sender = Borrowed \<lparr>sm_seqno = Wrap32 7,
      sm_SYN = True, sm_payload = [1, 2], sm_FIN = False, sm_RST = False\<rparr>,
      msg_receiver = Owned \<lparr>rm_ackno = None, rm_window_size = 9, rm_RST = True\<rparr>\<rparr>\<rparr>"]
  by (auto simp: on_wire_def Let_def)

end
