(* ===== verification/TCP_Peer.thy ===== *)
theory TCP_Peer
  imports TCP_Sender TCP_Segment
begin

text \<open>
  \<^verbatim>\<open>src/util/tcp_peer.hh\<close>: one end of a TCP connection, a sender and a receiver with the rules
  that tie them together: every transmitted segment carries the receiver's acknowledgment,
  received segments that occupy sequence numbers are answered, and a peer lingers after its
  streams have finished.  The \<^verbatim>\<open>transmit\<close> callback is modelled by the list of messages handed
  to it.
\<close>

record tcp_peer =
  tp_cfg :: tcp_config
  tp_sender :: tcp_sender
  tp_receiver :: tcp_receiver
  tp_need_send :: bool
  tp_linger_after_streams_finish :: bool
  tp_cumulative_time :: u64
  tp_time_of_last_receipt :: u64

definition TCPPeer_new :: "tcp_config \<Rightarrow> tcp_peer" where
  "TCPPeer_new cfg =
     \<lparr>tp_cfg = cfg,
      tp_sender = TCPSender_new (ByteStream_new (cfg_send_capacity cfg)) (cfg_isn cfg) (ucast (cfg_rt_timeout cfg)),
      tp_receiver = TCPReceiver_new (Reassembler_new (ByteStream_new (cfg_recv_capacity cfg))),
      tp_need_send = False, tp_linger_after_streams_finish = True,
      tp_cumulative_time = 0, tp_time_of_last_receipt = 0\<rparr>"

definition Peer_send :: "sender_message \<Rightarrow> tcp_peer \<Rightarrow> tcp_message \<times> tcp_peer" where
  "Peer_send sender_message p =
     (\<lparr>msg_sender = Ref_borrow sender_message, msg_receiver = Owned (Receiver_send (tp_receiver p))\<rparr>,
      p\<lparr>tp_need_send := False\<rparr>)"

text \<open>The callback that \<^verbatim>\<open>make_send\<close> builds, applied to each segment the sender transmits.\<close>

fun Peer_send_each :: "sender_message list \<Rightarrow> tcp_peer \<Rightarrow> tcp_message list \<times> tcp_peer" where
  "Peer_send_each [] p = ([], p)"
| "Peer_send_each (x # xs) p =
     (let (msg, p) = Peer_send x p; (msgs, p) = Peer_send_each xs p in (msg # msgs, p))"

definition Peer_push :: "tcp_peer \<Rightarrow> (tcp_message list \<times> tcp_peer) result" where
  "Peer_push p =
     rbind (Sender_push (tp_sender p)) (\<lambda>(xs, sender). Inr (Peer_send_each xs (p\<lparr>tp_sender := sender\<rparr>)))"

definition Peer_tick :: "u64 \<Rightarrow> tcp_peer \<Rightarrow> tcp_message list \<times> tcp_peer" where
  "Peer_tick t p =
     (let p = p\<lparr>tp_cumulative_time := tp_cumulative_time p + t\<rparr>;
          (xs, sender) = Sender_tick t (tp_sender p)
      in Peer_send_each xs (p\<lparr>tp_sender := sender\<rparr>))"

definition has_ackno :: "tcp_peer \<Rightarrow> bool" where
  "has_ackno p \<longleftrightarrow> rm_ackno (Receiver_send (tp_receiver p)) \<noteq> None"

definition Peer_active :: "tcp_peer \<Rightarrow> bool" where
  "Peer_active p =
     (let inbound = ra_output (tr_reassembler (tp_receiver p));
          outbound = ts_input (tp_sender p);
          any_errors = has_error inbound \<or> has_error outbound;
          sender_active = (sequence_numbers_in_flight (tp_sender p) \<noteq> 0 \<or> \<not> is_finished outbound);
          receiver_active = (\<not> is_closed inbound);
          lingering = (tp_linger_after_streams_finish p
            \<and> tp_cumulative_time p < tp_time_of_last_receipt p + 10 * ucast (cfg_rt_timeout (tp_cfg p)))
      in \<not> any_errors \<and> (sender_active \<or> receiver_active \<or> lingering))"

definition Peer_receive :: "tcp_message \<Rightarrow> tcp_peer \<Rightarrow> (tcp_message list \<times> tcp_peer) result" where
  "Peer_receive msg p =
     (if \<not> Peer_active p then Inr ([], p)
      else
        let p = p\<lparr>tp_time_of_last_receipt := tp_cumulative_time p\<rparr>
        in rbind (get_mut (msg_sender msg)) (\<lambda>seg.
             let our_ackno = rm_ackno (Receiver_send (tp_receiver p));
                 p = p\<lparr>tp_need_send := tp_need_send p \<or> sequence_length seg > 0\<rparr>;
                 p = p\<lparr>tp_need_send := tp_need_send p \<or>
                         (case our_ackno of None \<Rightarrow> False
                          | Some a \<Rightarrow> wrap32_eq (wrap32_plus (sm_seqno seg) 1) a)\<rparr>
             in rbind (Receiver_receive seg (tp_receiver p)) (\<lambda>receiver.
                rbind (get_mut (msg_receiver msg)) (\<lambda>ack.
                let p = p\<lparr>tp_receiver := receiver, tp_sender := Sender_receive ack (tp_sender p)\<rparr>
                in rbind (Peer_push p) (\<lambda>(msgs, p).
                   let (reply, p) =
                         (if tp_need_send p
                          then let (m, p) = Peer_send (make_empty_message (tp_sender p)) p in ([m], p)
                          else ([], p));
                       p = (if is_closed (ra_output (tr_reassembler (tp_receiver p)))
                               \<and> \<not> is_finished (ts_input (tp_sender p))
                            then p\<lparr>tp_linger_after_streams_finish := False\<rparr> else p)
                   in Inr (msgs @ reply, p))))))"

section \<open>Library\<close>

lemma Peer_send_each_eq:
  "Peer_send_each xs p =
     (map (\<lambda>x. \<lparr>msg_sender = Borrowed x, msg_receiver = Owned (Receiver_send (tp_receiver p))\<rparr>) xs,
      if xs = [] then p else p\<lparr>tp_need_send := False\<rparr>)"
  by (induction xs arbitrary: p) (auto simp: Peer_send_def Ref_borrow_def Let_def)

section \<open>Segments of an outbound stream\<close>

text \<open>
  A segment without SYN, payload and FIN changes nothing at the receiver, whatever its sequence
  number.  \<open>peer_seg inp isn n m\<close>: \<open>m\<close> is such a segment, or the part of the stream \<open>inp\<close> at some
  absolute sequence number below \<open>n\<close>.
\<close>

definition blank :: "sender_message \<Rightarrow> bool" where
  "blank m \<longleftrightarrow> \<not> sm_SYN m \<and> sm_payload m = [] \<and> \<not> sm_FIN m"

definition peer_seg :: "bytes \<Rightarrow> wrap32 \<Rightarrow> nat \<Rightarrow> sender_message \<Rightarrow> bool" where
  "peer_seg inp isn n m \<longleftrightarrow> blank m \<or> (\<exists>a. seg_at inp isn a m \<and> a + seq_len m \<le> n)"

lemma seg_at_carries:
  assumes "seg_at inp isn a m" and "\<not> sm_RST m"
  shows "carries inp isn (a - 1) m"
proof -
  have "wrap 0 isn = isn" by (cases isn) (simp add: wrap_def wrap32_plus_def)
  moreover have "of_nat (1 + (a - 1)) = (of_nat a :: u64)" if "a \<noteq> 0" using that by simp
  ultimately show ?thesis using assms by (auto simp: seg_at_def carries_def simp del: of_nat_Suc of_nat_add)
qed

lemma tr_inv_RST:
  assumes "tr_inv s isn r"
  shows "tr_inv s isn (r\<lparr>tr_reassembler := Reassembler_close (Reassembler_set_error (tr_reassembler r))\<rparr>)"
  using assms
  by (auto simp: tr_inv_def ra_inv_def Let_def Reassembler_close_def Reassembler_set_error_def
      Writer_close_def set_error_def assembled_def window_end_def bytes_pushed_def bytes_popped_def
      is_closed_def has_error_def)

lemma tr_inv_grow:
  assumes "tr_inv s isn r" and "\<not> ra_eof_seen (tr_reassembler r)"
    and "length (s @ t) + unat (bs_capacity (ra_output (tr_reassembler r))) < 2 ^ 64"
  shows "tr_inv (s @ t) isn r"
proof -
  have "substr_at (s @ t) k d" if "substr_at s k d" for k d
  proof (cases "d = []")
    case False
    then have "length d \<le> length s - k" using substr_at_bound [OF that] by simp
    then show ?thesis using that by (simp add: substr_at_def)
  qed simp
  then show ?thesis using assms unfolding tr_inv_def ra_inv_def Let_def by auto
qed

lemma Receiver_receive_seg:
  assumes inv: "tr_inv s isn r" and m: "peer_seg s isn n m" and len: "length s < 2 ^ 31 - 1"
  shows "\<exists>r'. Receiver_receive m r = Inr r' \<and> tr_inv s isn r'
    \<and> bytes_popped (ra_output (tr_reassembler r')) = bytes_popped (ra_output (tr_reassembler r))
    \<and> bs_capacity (ra_output (tr_reassembler r')) = bs_capacity (ra_output (tr_reassembler r))
    \<and> (ra_eof_seen (tr_reassembler r') \<longrightarrow> ra_eof_seen (tr_reassembler r) \<or> sm_FIN m)"
proof -
  consider (RST) "sm_RST m" | (early) "\<not> sm_RST m" "tr_isn r = None" "\<not> sm_SYN m"
    | (blank) "\<not> sm_RST m" "tr_isn r = Some isn" "blank m"
    | (seg) a where "\<not> sm_RST m" "tr_isn r \<noteq> None \<or> sm_SYN m" "seg_at s isn a m"
    using m inv by (auto simp: peer_seg_def tr_inv_def blank_def)
  then show ?thesis
  proof cases
    case RST
    then show ?thesis using tr_inv_RST [OF inv]
      by (simp add: Receiver_receive_def Reassembler_close_def Reassembler_set_error_def Writer_close_def
          set_error_def bytes_popped_def)
  next
    case early
    then show ?thesis using inv by (simp add: Receiver_receive_def)
  next
    case blank
    let ?i = "unwrap (sm_seqno m) isn (bytes_pushed (ra_output (tr_reassembler r))) - 1"
    obtain ra where "insert ?i [] False (tr_reassembler r) = Inr ra" "ra_inv s ra"
        "bytes_popped (ra_output ra) = bytes_popped (ra_output (tr_reassembler r))"
        "bs_capacity (ra_output ra) = bs_capacity (ra_output (tr_reassembler r))"
        "ra_eof_seen ra = ra_eof_seen (tr_reassembler r)"
      using insert_ok [of s "tr_reassembler r" ?i "[]" False] inv unat_u64_less [of ?i]
      by (auto simp: tr_inv_def)
    then show ?thesis using blank inv
      by (simp add: Receiver_receive_def blank_def Let_def tr_inv_def)
  next
    case (seg a)
    have c: "carries s isn (a - 1) m" using seg by (intro seg_at_carries)
    have "assembled (tr_reassembler r) \<le> length s" "a - 1 \<le> length s"
      using inv c ra_invD(2) by (auto simp: tr_inv_def carries_def)
    then have "if sm_SYN m then assembled (tr_reassembler r) < 2 ^ 31
        else absdiff (assembled (tr_reassembler r)) (1 + (a - 1)) < 2 ^ 31"
      using len by (auto simp: absdiff_def)
    from Receiver_receive_ok [OF inv c _ seg(2) this] len show ?thesis by (auto simp: window_end_def word_unat_eq_iff)
  qed
qed

section \<open>The two halves of a peer\<close>

text \<open>
  The outbound half: \<open>inp\<close> is what the application has written, \<open>sent\<close> the messages transmitted so
  far.  The inbound half: \<open>s\<close> is the stream of the other peer, whose initial sequence number is
  \<open>isn\<close>, and \<open>rd\<close> what the application has read.
\<close>

definition tp_out :: "bytes \<Rightarrow> tcp_message list \<Rightarrow> tcp_peer \<Rightarrow> bool" where
  "tp_out inp sent p \<longleftrightarrow> ts_inv inp (tp_sender p)
     \<and> (ts_window_size (tp_sender p) = 0 \<longrightarrow> ts_zero_window (tp_sender p))
     \<and> (\<forall>x \<in> set sent. peer_seg inp (ts_isn (tp_sender p)) (unat (ts_next_seqno (tp_sender p))) (ref_get (msg_sender x))
          \<and> (sm_FIN (ref_get (msg_sender x)) \<longrightarrow> ts_fin_sent (tp_sender p)))"

definition tp_in :: "bytes \<Rightarrow> wrap32 \<Rightarrow> bytes \<Rightarrow> tcp_peer \<Rightarrow> bool" where
  "tp_in s isn rd p \<longleftrightarrow> tr_inv s isn (tp_receiver p)
     \<and> rd = take (unat (bytes_popped (ra_output (tr_reassembler (tp_receiver p))))) s"

text \<open>A step of the sender that keeps the transmitted segments valid.\<close>

definition out_step :: "tcp_sender \<Rightarrow> tcp_sender \<Rightarrow> bool" where
  "out_step s s' \<longleftrightarrow> ts_isn s' = ts_isn s \<and> unat (ts_next_seqno s) \<le> unat (ts_next_seqno s')
     \<and> (ts_fin_sent s \<longrightarrow> ts_fin_sent s')"

lemma peer_seg_mono: "peer_seg inp isn n m \<Longrightarrow> n \<le> n' \<Longrightarrow> peer_seg inp isn n' m"
  unfolding peer_seg_def by (meson order.trans)

lemma tp_out_step:
  assumes "tp_out inp sent p" and "out_step (tp_sender p) (tp_sender p')" and "ts_inv inp (tp_sender p')"
    and "ts_window_size (tp_sender p') = 0 \<longrightarrow> ts_zero_window (tp_sender p')"
    and "\<And>x. x \<in> set ms \<Longrightarrow>
      peer_seg inp (ts_isn (tp_sender p')) (unat (ts_next_seqno (tp_sender p'))) (ref_get (msg_sender x))
        \<and> (sm_FIN (ref_get (msg_sender x)) \<longrightarrow> ts_fin_sent (tp_sender p'))"
  shows "tp_out inp (sent @ ms) p'"
  using assms peer_seg_mono unfolding tp_out_def out_step_def by (simp add: Ball_def) metis

lemma pushes_out_step: "pushes inp s ms s' \<Longrightarrow> out_step s s'"
  using chain_sum by (fastforce simp: pushes_def out_step_def)

lemma pushes_peer_seg:
  "pushes inp s ms s' \<Longrightarrow> m \<in> set ms \<Longrightarrow>
   peer_seg inp (ts_isn s') (unat (ts_next_seqno s')) m \<and> (sm_FIN m \<longrightarrow> ts_fin_sent s')"
  unfolding pushes_def peer_seg_def using chain_seg_at by metis

lemma Peer_push_ok:
  assumes "tp_out inp sent p"
  shows "\<exists>ms p'. Peer_push p = Inr (ms, p') \<and> tp_out inp (sent @ ms) p' \<and> tp_receiver p' = tp_receiver p
    \<and> out_step (tp_sender p) (tp_sender p')"
proof -
  obtain xs s' where s': "Sender_push (tp_sender p) = Inr (xs, s')" "pushes inp (tp_sender p) xs s'"
    using Sender_push_ok [of inp "tp_sender p"] assms by (auto simp: tp_out_def)
  let ?p = "if xs = [] then p\<lparr>tp_sender := s'\<rparr> else p\<lparr>tp_sender := s', tp_need_send := False\<rparr>"
  let ?ms = "map (\<lambda>x. \<lparr>msg_sender = Borrowed x, msg_receiver = Owned (Receiver_send (tp_receiver p))\<rparr>) xs"
  have "Peer_push p = Inr (?ms, ?p)" using s'(1) by (simp add: Peer_push_def Peer_send_each_eq)
  moreover have "tp_out inp (sent @ ?ms) ?p"
    using s'(2) assms pushes_peer_seg [OF s'(2)] pushes_out_step [OF s'(2)]
    by (intro tp_out_step [OF assms]) (auto simp: pushes_def tp_out_def)
  ultimately show ?thesis using pushes_out_step [OF s'(2)] by auto
qed

lemma Peer_tick_ok:
  assumes "tp_out inp sent p" and tick: "Peer_tick t p = (ms, p')"
  shows "tp_out inp (sent @ ms) p'" and "tp_receiver p' = tp_receiver p" and "out_step (tp_sender p) (tp_sender p')"
proof -
  obtain xs s' where s': "Sender_tick t (tp_sender p) = (xs, s')" by fastforce
  have inv: "ts_inv inp (tp_sender p)" using assms(1) by (simp add: tp_out_def)
  note ok = Sender_tick_ok [OF inv s']
  have p': "ms = map (\<lambda>x. \<lparr>msg_sender = Borrowed x, msg_receiver = Owned (Receiver_send (tp_receiver p))\<rparr>) xs"
      "tp_sender p' = s'" "tp_receiver p' = tp_receiver p"
    using tick s' by (auto simp: Peer_tick_def Peer_send_each_eq Let_def)
  show "tp_receiver p' = tp_receiver p" by (rule p'(3))
  show st: "out_step (tp_sender p) (tp_sender p')" using ok p'(2) by (simp add: out_step_def)
  have "peer_seg inp (ts_isn s') (unat (ts_next_seqno s')) m \<and> (sm_FIN m \<longrightarrow> ts_fin_sent s')" if "m \<in> set xs" for m
  proof -
    have m: "m \<in> set (ts_outstanding (tp_sender p))" using that ok(2) by blast
    then show ?thesis
      using chain_seg_at [OF ts_invD(5) [OF inv] m] ts_invD(6) [OF inv m] ok(3,4,6)
      by (auto simp: peer_seg_def)
  qed
  moreover have "ts_window_size s' = 0 \<longrightarrow> ts_zero_window s'"
    using assms(1) s' by (auto simp: Sender_tick_def Let_def tp_out_def split: if_splits)
  ultimately show "tp_out inp (sent @ ms) p'"
    using ok(1) p' by (intro tp_out_step [OF assms(1) st]) auto
qed

lemma Sender_receive_out_step:
  "out_step s (Sender_receive msg s)"
  "(ts_window_size s = 0 \<longrightarrow> ts_zero_window s) \<Longrightarrow>
   ts_window_size (Sender_receive msg s) = 0 \<longrightarrow> ts_zero_window (Sender_receive msg s)"
proof -
  have "out_step s (Sender_receive msg s) \<and> (rm_RST msg \<and> ts_window_size (Sender_receive msg s) = ts_window_size s
      \<and> ts_zero_window (Sender_receive msg s) = ts_zero_window s
    \<or> ts_window_size (Sender_receive msg s) = rm_window_size msg
      \<and> ts_zero_window (Sender_receive msg s) = (rm_window_size msg = 0))"
  proof (cases rule: Sender_receive_cases [where msg = msg and s = s])
    case RST
    then show ?thesis by (simp add: out_step_def Sender_receive_def)
  next
    case window
    show ?thesis unfolding window(2) by (simp add: out_step_def)
  next
    case (ack ackno outs fl acked)
    show ?thesis unfolding ack(5) by (simp add: out_step_def)
  qed
  then show "out_step s (Sender_receive msg s)"
    and "(ts_window_size s = 0 \<longrightarrow> ts_zero_window s) \<Longrightarrow>
      ts_window_size (Sender_receive msg s) = 0 \<longrightarrow> ts_zero_window (Sender_receive msg s)"
    by auto
qed

lemma out_step_trans: "out_step s s1 \<Longrightarrow> out_step s1 s2 \<Longrightarrow> out_step s s2"
  by (auto simp: out_step_def)

text \<open>Whether a received segment must be answered.\<close>

definition needs_reply :: "sender_message \<Rightarrow> tcp_peer \<Rightarrow> bool" where
  "needs_reply seg p \<longleftrightarrow> tp_need_send p \<or> 0 < sequence_length seg
     \<or> rm_ackno (Receiver_send (tp_receiver p)) = Some (wrap32_plus (sm_seqno seg) 1)"

lemma Peer_receive_eq:
  assumes "Peer_active p" and "Receiver_receive seg (tp_receiver p) = Inr r'"
    and "Sender_push (Sender_receive ack (tp_sender p)) = Inr (xs, s')"
  shows "\<exists>p'. Peer_receive \<lparr>msg_sender = Owned seg, msg_receiver = Owned ack\<rparr> p =
      Inr (map (\<lambda>x. \<lparr>msg_sender = Borrowed x, msg_receiver = Owned (Receiver_send r')\<rparr>)
             (xs @ (if needs_reply seg p \<and> xs = [] then [make_empty_message s'] else [])), p')
    \<and> tp_sender p' = s' \<and> tp_receiver p' = r' \<and> \<not> tp_need_send p'
    \<and> tp_time_of_last_receipt p' = tp_cumulative_time p \<and> tp_cumulative_time p' = tp_cumulative_time p
    \<and> tp_linger_after_streams_finish p' = (tp_linger_after_streams_finish p
        \<and> \<not> (is_closed (ra_output (tr_reassembler r')) \<and> \<not> is_finished (ts_input s')))"
proof -
  have need: "(tp_need_send p \<or> 0 < sequence_length seg \<or>
      (case rm_ackno (Receiver_send (tp_receiver p)) of None \<Rightarrow> False
       | Some a \<Rightarrow> wrap32_eq (wrap32_plus (sm_seqno seg) 1) a)) = needs_reply seg p"
    by (auto simp: needs_reply_def split: option.splits)
  show ?thesis
    using assms
    by (cases "needs_reply seg p"; cases "xs = []")
      (simp_all add: Peer_receive_def Let_def Peer_push_def Peer_send_each_eq Peer_send_def Ref_borrow_def
        need disj_assoc)
qed

lemma Peer_receive_ok:
  assumes out: "tp_out inp sent p" and inn: "tp_in s isn rd p" and seg: "peer_seg s isn n seg"
    and len: "length s < 2 ^ 31 - 1"
  shows "\<exists>ms p'. Peer_receive \<lparr>msg_sender = Owned seg, msg_receiver = Owned ack\<rparr> p = Inr (ms, p')
    \<and> tp_out inp (sent @ ms) p' \<and> tp_in s isn rd p' \<and> out_step (tp_sender p) (tp_sender p')
    \<and> bs_capacity (ra_output (tr_reassembler (tp_receiver p')))
        = bs_capacity (ra_output (tr_reassembler (tp_receiver p)))
    \<and> (ra_eof_seen (tr_reassembler (tp_receiver p')) \<longrightarrow>
         ra_eof_seen (tr_reassembler (tp_receiver p)) \<or> sm_FIN seg)"
proof (cases "Peer_active p")
  case False
  then show ?thesis using out inn by (simp add: Peer_receive_def out_step_def)
next
  case True
  let ?s1 = "Sender_receive ack (tp_sender p)"
  have inv1: "ts_inv inp ?s1" using out by (intro Sender_receive_ok) (simp add: tp_out_def)
  obtain r' where r': "Receiver_receive seg (tp_receiver p) = Inr r'" "tr_inv s isn r'"
      "bytes_popped (ra_output (tr_reassembler r')) = bytes_popped (ra_output (tr_reassembler (tp_receiver p)))"
      "bs_capacity (ra_output (tr_reassembler r')) = bs_capacity (ra_output (tr_reassembler (tp_receiver p)))"
      "ra_eof_seen (tr_reassembler r') \<longrightarrow> ra_eof_seen (tr_reassembler (tp_receiver p)) \<or> sm_FIN seg"
    using Receiver_receive_seg [OF _ seg len, of "tp_receiver p"] inn by (auto simp: tp_in_def)
  obtain xs s' where s': "Sender_push ?s1 = Inr (xs, s')" "pushes inp ?s1 xs s'"
    using Sender_push_ok [OF inv1] by auto
  let ?xs = "xs @ (if needs_reply seg p \<and> xs = [] then [make_empty_message s'] else [])"
  let ?ms = "map (\<lambda>x. \<lparr>msg_sender = Borrowed x, msg_receiver = Owned (Receiver_send r')\<rparr>) ?xs"
  obtain p' where p': "Peer_receive \<lparr>msg_sender = Owned seg, msg_receiver = Owned ack\<rparr> p = Inr (?ms, p')"
      "tp_sender p' = s'" "tp_receiver p' = r'"
    using Peer_receive_eq [OF True r'(1) s'(1)] by blast
  have st: "out_step (tp_sender p) (tp_sender p')"
    using out_step_trans [OF Sender_receive_out_step(1) pushes_out_step [OF s'(2)]] p'(2) by simp
  have "blank (make_empty_message s')" by (simp add: blank_def make_empty_message_def)
  then have "peer_seg inp (ts_isn s') (unat (ts_next_seqno s')) x \<and> (sm_FIN x \<longrightarrow> ts_fin_sent s')" if "x \<in> set ?xs" for x
    using that pushes_peer_seg [OF s'(2), of x] by (auto simp: peer_seg_def blank_def split: if_splits)
  moreover have "ts_window_size s' = 0 \<longrightarrow> ts_zero_window s'"
    using s'(2) out Sender_receive_out_step(2) [of "tp_sender p" ack] by (simp add: pushes_def tp_out_def)
  ultimately have "tp_out inp (sent @ ?ms) p'"
    using s'(2) p'(2) by (intro tp_out_step [OF out st]) (auto simp: pushes_def)
  moreover have "tp_in s isn rd p'" using inn r' p'(3) by (simp add: tp_in_def)
  ultimately show ?thesis using p'(1,3) st r'(4,5) by blast
qed

section \<open>Correctness\<close>

text \<open>
  C23. Every segment that needs an answer gets one: when an active peer receives a segment of the
  other peer's stream that occupies sequence numbers, or a keep-alive, it processes it without
  an exception and transmits at least one message, every message it transmits carries the
  acknowledgment and the window of the receiver that has processed the segment, and no answer
  remains due.
\<close>

theorem peer_answers:
  assumes "tp_out inp sent p" and "tp_in s isn rd p" and "peer_seg s isn n seg" and "length s < 2 ^ 31 - 1"
    and "Peer_active p" and "needs_reply seg p"
  shows "\<exists>ms p'. Peer_receive \<lparr>msg_sender = Owned seg, msg_receiver = Owned ack\<rparr> p = Inr (ms, p') \<and>
    Receiver_receive seg (tp_receiver p) = Inr (tp_receiver p') \<and> ms \<noteq> [] \<and>
    (\<forall>x \<in> set ms. ref_get (msg_receiver x) = Receiver_send (tp_receiver p')) \<and> \<not> tp_need_send p'"
proof -
  obtain r' where r': "Receiver_receive seg (tp_receiver p) = Inr r'"
    using Receiver_receive_seg [OF _ assms(3,4), of "tp_receiver p"] assms(2) by (auto simp: tp_in_def)
  obtain xs s' where s': "Sender_push (Sender_receive ack (tp_sender p)) = Inr (xs, s')"
    using Sender_push_ok [OF Sender_receive_ok, of inp "tp_sender p" ack] assms(1) by (auto simp: tp_out_def)
  show ?thesis using Peer_receive_eq [OF assms(5) r' s'] r' assms(6) by auto
qed

lemma tp_new: "tp_out [] [] (TCPPeer_new cfg)"
  "length s + unat (cfg_recv_capacity cfg) < 2 ^ 64 \<Longrightarrow> tp_in s isn [] (TCPPeer_new cfg)"
proof -
  show "tp_out [] [] (TCPPeer_new cfg)"
    using ts_inv_new [OF bs_wf_new(1), of "cfg_send_capacity cfg"] bs_wf_new(2)
    by (simp add: tp_out_def TCPPeer_new_def) (simp add: TCPSender_new_def)
  show "length s + unat (cfg_recv_capacity cfg) < 2 ^ 64 \<Longrightarrow> tp_in s isn [] (TCPPeer_new cfg)"
    using tr_inv_new [of s "cfg_recv_capacity cfg" isn]
    by (simp add: tp_in_def TCPPeer_new_def TCPReceiver_new_def Reassembler_new_def ByteStream_new_def bytes_popped_def)
qed

theorem peer_answers_witness:
  "\<exists>ms p'. Peer_receive
      \<lparr>msg_sender = Owned \<lparr>sm_seqno = Wrap32 7, sm_SYN = True, sm_payload = [5], sm_FIN = False, sm_RST = False\<rparr>,
       msg_receiver = Owned \<lparr>rm_ackno = None, rm_window_size = 3, rm_RST = False\<rparr>\<rparr>
      (TCPPeer_new TCPConfig_default) = Inr (ms, p') \<and> ms \<noteq> [] \<and>
    (\<forall>x \<in> set ms. ref_get (msg_receiver x) = Receiver_send (tp_receiver p'))"
proof -
  let ?seg = "\<lparr>sm_seqno = Wrap32 7, sm_SYN = True, sm_payload = [5], sm_FIN = False, sm_RST = False\<rparr>"
  let ?p = "TCPPeer_new TCPConfig_default"
  have "tp_in [5] (Wrap32 7) [] ?p"
    by (rule tp_new) (simp add: TCPConfig_default_def DEFAULT_CAPACITY_def)
  moreover have "peer_seg [5] (Wrap32 7) 2 ?seg"
    by (auto simp: peer_seg_def seg_at_def wrap_def wrap32_plus_def substr_at_def seq_len_def unat_MAX_PAYLOAD_SIZE
        intro!: exI [of _ 0])
  moreover have "Peer_active ?p" "needs_reply ?seg ?p" by (code_simp, simp add: needs_reply_def sequence_length_def size64_def)
  ultimately show ?thesis
    using peer_answers [OF tp_new(1), of "[5]" "Wrap32 7" "[]" TCPConfig_default 2 ?seg
      "\<lparr>rm_ackno = None, rm_window_size = 3, rm_RST = False\<rparr>"] by auto
qed

section \<open>Closing\<close>

text \<open>What the owner of a peer does: it lets time pass and it pushes, in any order.\<close>

datatype owner_op = Let_Pass u64 | Do_Push

fun owner_act :: "owner_op \<Rightarrow> tcp_peer \<Rightarrow> (tcp_message list \<times> tcp_peer) result" where
  "owner_act (Let_Pass t) p = Inr (Peer_tick t p)"
| "owner_act Do_Push p = Peer_push p"

fun owner_acts :: "owner_op list \<Rightarrow> tcp_peer \<Rightarrow> (tcp_message list \<times> tcp_peer) result" where
  "owner_acts [] p = Inr ([], p)"
| "owner_acts (a # acts) p =
     rbind (owner_act a p) (\<lambda>(ms, p). rbind (owner_acts acts p) (\<lambda>(ms', p). Inr (ms @ ms', p)))"

fun act_time :: "owner_op \<Rightarrow> u64" where
  "act_time (Let_Pass t) = t"
| "act_time Do_Push = 0"

text \<open>
  A peer whose streams are both done: no error, the outbound stream finished, everything up to its FIN sent and
  acknowledged, the inbound stream closed.
\<close>

definition both_done :: "tcp_peer \<Rightarrow> bool" where
  "both_done p \<longleftrightarrow> \<not> has_error (ra_output (tr_reassembler (tp_receiver p))) \<and> \<not> has_error (ts_input (tp_sender p))
     \<and> is_finished (ts_input (tp_sender p)) \<and> ts_fin_sent (tp_sender p) \<and> ts_bytes_in_flight (tp_sender p) = 0
     \<and> ts_outstanding (tp_sender p) = [] \<and> is_closed (ra_output (tr_reassembler (tp_receiver p)))"

lemma Sender_push_done: "ts_fin_sent s \<Longrightarrow> Sender_push s = Inr ([], s)"
  by (simp add: Sender_push_def push_loop.simps Let_def)

lemma owner_act_done:
  assumes "both_done p"
  shows "\<exists>p'. owner_act a p = Inr ([], p') \<and> both_done p' \<and> tp_cfg p' = tp_cfg p
    \<and> tp_linger_after_streams_finish p' = tp_linger_after_streams_finish p
    \<and> tp_time_of_last_receipt p' = tp_time_of_last_receipt p
    \<and> tp_cumulative_time p' = tp_cumulative_time p + act_time a"
  using assms by (cases a) (simp_all add: Peer_tick_def Peer_push_def Sender_tick_def Sender_push_done both_done_def Let_def)

lemma owner_acts_done:
  assumes "both_done p"
  shows "\<exists>p'. owner_acts acts p = Inr ([], p') \<and> both_done p' \<and> tp_cfg p' = tp_cfg p
    \<and> tp_linger_after_streams_finish p' = tp_linger_after_streams_finish p
    \<and> tp_time_of_last_receipt p' = tp_time_of_last_receipt p
    \<and> tp_cumulative_time p' = tp_cumulative_time p + sum_list (map act_time acts)"
  using assms
proof (induction acts arbitrary: p)
  case (Cons a acts)
  obtain p1 where p1: "owner_act a p = Inr ([], p1)" "both_done p1" "tp_cfg p1 = tp_cfg p"
      "tp_linger_after_streams_finish p1 = tp_linger_after_streams_finish p"
      "tp_time_of_last_receipt p1 = tp_time_of_last_receipt p" "tp_cumulative_time p1 = tp_cumulative_time p + act_time a"
    using owner_act_done [OF Cons.prems] by blast
  then show ?case using Cons.IH [OF p1(2)] by (auto simp: add.assoc)
qed simp

text \<open>A segment that arrives is answered as long as the peer lingers, and makes it linger anew.\<close>

lemma Receiver_receive_flags:
  assumes "Receiver_receive seg r = Inr r'" and "\<not> sm_RST seg"
  shows "has_error (ra_output (tr_reassembler r')) = has_error (ra_output (tr_reassembler r))"
    and "is_closed (ra_output (tr_reassembler r)) \<Longrightarrow> is_closed (ra_output (tr_reassembler r'))"
  using assms by (auto simp: Receiver_receive_def Let_def rbind_Inr_iff dest: insert_flags split: if_splits option.splits)

lemma Sender_receive_done:
  assumes "ts_outstanding s = []" and "\<not> rm_RST ack"
  shows "ts_outstanding (Sender_receive ack s) = []" "ts_bytes_in_flight (Sender_receive ack s) = ts_bytes_in_flight s"
    "ts_fin_sent (Sender_receive ack s) = ts_fin_sent s" "ts_input (Sender_receive ack s) = ts_input s"
  using assms by (simp_all add: Sender_receive_def Let_def split: option.split)

lemma Peer_receive_done:
  assumes fin: "both_done p" and "Peer_active p" and "\<not> sm_RST seg" and "\<not> rm_RST ack"
    and "Receiver_receive seg (tp_receiver p) = Inr r'"
  shows "\<exists>p'. Peer_receive \<lparr>msg_sender = Owned seg, msg_receiver = Owned ack\<rparr> p =
      Inr (if needs_reply seg p
           then [\<lparr>msg_sender = Borrowed (make_empty_message (tp_sender p')), msg_receiver = Owned (Receiver_send r')\<rparr>] else [], p')
    \<and> both_done p' \<and> tp_time_of_last_receipt p' = tp_cumulative_time p"
proof -
  let ?s = "Sender_receive ack (tp_sender p)"
  have s: "ts_outstanding ?s = []" "ts_bytes_in_flight ?s = 0" "ts_fin_sent ?s" "ts_input ?s = ts_input (tp_sender p)"
    using Sender_receive_done [OF _ assms(4), of "tp_sender p"] fin by (simp_all add: both_done_def)
  obtain p' where p': "Peer_receive \<lparr>msg_sender = Owned seg, msg_receiver = Owned ack\<rparr> p =
      Inr (map (\<lambda>x. \<lparr>msg_sender = Borrowed x, msg_receiver = Owned (Receiver_send r')\<rparr>)
             (if needs_reply seg p then [make_empty_message ?s] else []), p')"
      "tp_sender p' = ?s" "tp_receiver p' = r'" "tp_time_of_last_receipt p' = tp_cumulative_time p"
    using Peer_receive_eq [OF assms(2,5) Sender_push_done [OF s(3)]] by auto
  moreover have "both_done p'"
    using fin s Receiver_receive_flags [OF assms(5,3)] p'(2,3) by (simp add: both_done_def)
  ultimately show ?thesis by (intro exI [of _ p']) simp
qed

lemma unat_sum_list_u64:
  "unat (x :: u64) + sum_list (map unat ts) < 2 ^ 64 \<Longrightarrow> unat (x + sum_list ts) = unat x + sum_list (map unat ts)"
proof (induction ts arbitrary: x)
  case (Cons t ts)
  have "unat (x + t) = unat x + unat t" using Cons.prems by (intro unat_add_u64) simp
  then show ?case using Cons.IH [of "x + t"] Cons.prems by (simp add: add.assoc)
qed simp


text \<open>
  A connection from beginning to end: the peer's application has closed its stream; the SYN goes out and is
  acknowledged with the other side's SYN, the FIN goes out and is acknowledged with the other side's FIN.
\<close>

definition ex_closed_peer :: "(tcp_message list \<times> tcp_peer) result" where
  "ex_closed_peer =
     (let p = TCPPeer_new (TCPConfig_default\<lparr>cfg_recv_capacity := 4, cfg_send_capacity := 4\<rparr>);
          p = p\<lparr>tp_sender := (tp_sender p)\<lparr>ts_input := Writer_close (ts_input (tp_sender p))\<rparr>\<rparr>;
          isn = cfg_isn TCPConfig_default;
          ack = (\<lambda>n. \<lparr>rm_ackno = Some (wrap32_plus isn n), rm_window_size = 4, rm_RST = False\<rparr>)
      in rbind (Peer_push p) (\<lambda>(_, p).
         rbind (Peer_receive \<lparr>msg_sender = Owned \<lparr>sm_seqno = Wrap32 7, sm_SYN = True, sm_payload = [], sm_FIN = False, sm_RST = False\<rparr>,
                              msg_receiver = Owned (ack 1)\<rparr> p) (\<lambda>(_, p).
         Peer_receive \<lparr>msg_sender = Owned \<lparr>sm_seqno = Wrap32 8, sm_SYN = False, sm_payload = [5], sm_FIN = True, sm_RST = False\<rparr>,
                       msg_receiver = Owned (ack 2)\<rparr> p)))"


end
