(* ===== verification/Connection.thy ===== *)
theory Connection
  imports TCP_Peer
begin

text \<open>
  Two peers of \<open>TCP_Peer\<close> and the network between them.  The network may lose, duplicate, delay
  and reorder messages: any message that one peer has ever transmitted can be delivered to the
  other at any time, any number of times, or never, in the form the wire gives it (\<open>on_wire\<close>: owned,
  with one reset flag for both halves).  The applications write, close, read and
  set the error flags as they like; time passes in arbitrary steps.
\<close>

record endpoint =
  ep_peer :: tcp_peer
  ep_written :: bytes
  ep_read :: bytes
  ep_sent :: "tcp_message list"

text \<open>The two ends of the connection are numbered by a \<open>bool\<close>.\<close>

type_synonym connection = "bool \<Rightarrow> endpoint"

definition endpoint_new :: "tcp_config \<Rightarrow> endpoint" where
  "endpoint_new cfg = \<lparr>ep_peer = TCPPeer_new cfg, ep_written = [], ep_read = [], ep_sent = []\<rparr>"

definition outbound :: "endpoint \<Rightarrow> byte_stream" where
  "outbound e = ts_input (tp_sender (ep_peer e))"

definition inbound :: "endpoint \<Rightarrow> byte_stream" where
  "inbound e = ra_output (tr_reassembler (tp_receiver (ep_peer e)))"

definition set_outbound :: "byte_stream \<Rightarrow> endpoint \<Rightarrow> endpoint" where
  "set_outbound bs e = e\<lparr>ep_peer := (ep_peer e)\<lparr>tp_sender := (tp_sender (ep_peer e))\<lparr>ts_input := bs\<rparr>\<rparr>\<rparr>"

definition set_inbound :: "byte_stream \<Rightarrow> endpoint \<Rightarrow> endpoint" where
  "set_inbound bs e = e\<lparr>ep_peer := (ep_peer e)\<lparr>tp_receiver := (tp_receiver (ep_peer e))
     \<lparr>tr_reassembler := (tr_reassembler (tp_receiver (ep_peer e)))\<lparr>ra_output := bs\<rparr>\<rparr>\<rparr>\<rparr>"

inductive conn_run :: "(bool \<Rightarrow> tcp_config) \<Rightarrow> connection \<Rightarrow> bool" for cfg where
  start: "conn_run cfg (\<lambda>x. endpoint_new (cfg x))"
| app_write: "conn_run cfg c \<Longrightarrow> \<not> is_closed (outbound (c x)) \<Longrightarrow>
    conn_run cfg (c(x := (set_outbound (Writer_push d (outbound (c x))) (c x))
      \<lparr>ep_written := ep_written (c x) @ take (unat (available_capacity (outbound (c x)))) d\<rparr>))"
| app_close: "conn_run cfg c \<Longrightarrow> conn_run cfg (c(x := set_outbound (Writer_close (outbound (c x))) (c x)))"
| app_error: "conn_run cfg c \<Longrightarrow> conn_run cfg (c(x := set_outbound (set_error (outbound (c x))) (c x)))"
| app_abort: "conn_run cfg c \<Longrightarrow> conn_run cfg (c(x := set_inbound (set_error (inbound (c x))) (c x)))"
| app_read: "conn_run cfg c \<Longrightarrow> Reader_pop n (inbound (c x)) = Inr bs \<Longrightarrow>
    conn_run cfg (c(x := (set_inbound bs (c x))
      \<lparr>ep_read := ep_read (c x) @ take (unat n) (bs_content (inbound (c x)))\<rparr>))"
| push: "conn_run cfg c \<Longrightarrow> Peer_push (ep_peer (c x)) = Inr (ms, p) \<Longrightarrow>
    conn_run cfg (c(x := (c x)\<lparr>ep_peer := p, ep_sent := ep_sent (c x) @ ms\<rparr>))"
| tick: "conn_run cfg c \<Longrightarrow> Peer_tick t (ep_peer (c x)) = (ms, p) \<Longrightarrow>
    conn_run cfg (c(x := (c x)\<lparr>ep_peer := p, ep_sent := ep_sent (c x) @ ms\<rparr>))"
| deliver: "conn_run cfg c \<Longrightarrow> m \<in> set (ep_sent (c (\<not> x))) \<Longrightarrow>
    Peer_receive (on_wire m) (ep_peer (c x)) = Inr (ms, p) \<Longrightarrow>
    conn_run cfg (c(x := (c x)\<lparr>ep_peer := p, ep_sent := ep_sent (c x) @ ms\<rparr>))"

section \<open>The invariant of a direction\<close>

text \<open>
  \<open>flow isn a b\<close>: the direction from the endpoint \<open>a\<close>, whose initial sequence number is \<open>isn\<close>, to the
  endpoint \<open>b\<close>.
\<close>

definition flow :: "wrap32 \<Rightarrow> endpoint \<Rightarrow> endpoint \<Rightarrow> bool" where
  "flow isn a b \<longleftrightarrow> tp_out (ep_written a) (ep_sent a) (ep_peer a) \<and> ts_isn (tp_sender (ep_peer a)) = isn
     \<and> tp_in (ep_written a) isn (ep_read b) (ep_peer b) \<and> unat (bs_capacity (inbound b)) < 2 ^ 63
     \<and> (ra_eof_seen (tr_reassembler (tp_receiver (ep_peer b))) \<longrightarrow> ts_fin_sent (tp_sender (ep_peer a)))"

lemma flow_step_out:
  assumes "flow isn a b" and "tp_out (ep_written a) (ep_sent a') (ep_peer a')" and "ep_written a' = ep_written a"
    and "out_step (tp_sender (ep_peer a)) (tp_sender (ep_peer a'))"
  shows "flow isn a' b"
  using assms by (auto simp: flow_def out_step_def)

lemma flow_step_in:
  assumes "flow isn a b" and "tp_in (ep_written a) isn (ep_read b') (ep_peer b')"
    and "bs_capacity (inbound b') = bs_capacity (inbound b)"
    and "ra_eof_seen (tr_reassembler (tp_receiver (ep_peer b'))) \<longrightarrow>
      ra_eof_seen (tr_reassembler (tp_receiver (ep_peer b))) \<or> ts_fin_sent (tp_sender (ep_peer a))"
  shows "flow isn a b'"
  using assms by (auto simp: flow_def)

definition conn_inv :: "(bool \<Rightarrow> tcp_config) \<Rightarrow> connection \<Rightarrow> bool" where
  "conn_inv cfg c \<longleftrightarrow> (\<forall>x. flow (cfg_isn (cfg x)) (c x) (c (\<not> x)))"

lemma conn_inv_upd:
  assumes "conn_inv cfg c"
    and "flow (cfg_isn (cfg x)) (c x) (c (\<not> x)) \<Longrightarrow> flow (cfg_isn (cfg x)) e (c (\<not> x))"
    and "flow (cfg_isn (cfg (\<not> x))) (c (\<not> x)) (c x) \<Longrightarrow> flow (cfg_isn (cfg (\<not> x))) (c (\<not> x)) e"
  shows "conn_inv cfg (c(x := e))"
  unfolding conn_inv_def
proof
  fix y
  have "flow (cfg_isn (cfg x)) (c x) (c (\<not> x))" "flow (cfg_isn (cfg (\<not> x))) (c (\<not> x)) (c x)"
    using assms(1) [unfolded conn_inv_def, rule_format, of x] assms(1) [unfolded conn_inv_def, rule_format, of "\<not> x"]
    by simp_all
  then show "flow (cfg_isn (cfg y)) ((c(x := e)) y) ((c(x := e)) (\<not> y))"
    using assms(2,3) by (cases "y = x") auto
qed

text \<open>Writing: the stream grows, which is possible only as long as no FIN has been sent.\<close>

lemma flow_write:
  assumes f: "flow isn a b" and open': "\<not> is_closed (outbound a)"
    and a': "a' = (set_outbound (Writer_push d (outbound a)) a)
      \<lparr>ep_written := ep_written a @ take (unat (available_capacity (outbound a))) d\<rparr>"
    and len: "length (ep_written a') < 2 ^ 31 - 1"
  shows "flow isn a' b"
proof -
  let ?d = "take (unat (available_capacity (outbound a))) d"
  let ?s = "tp_sender (ep_peer a)" and ?rb = "tr_reassembler (tp_receiver (ep_peer b))"
  let ?tr = "map (ref_get \<circ> msg_sender) (ep_sent a)"
  have inv: "ts_inv (ep_written a) ?s" using f by (simp add: flow_def tp_out_def)
  have nf: "\<not> ts_fin_sent ?s" using ts_invD(2) [OF inv] open' by (auto simp: outbound_def)
  note push = Writer_push_ok [OF ts_invD(1) [OF inv], of d]
  have "chain (ep_written a @ ?d) (ts_isn ?s) (unat (ts_next_seqno ?s) - unat (ts_bytes_in_flight ?s))
      (ts_outstanding ?s) (unat (ts_next_seqno ?s))"
    using ts_invD(6) [OF inv] nf by (intro chain_grow ts_invD(5) [OF inv]) blast
  then have ts: "ts_inv (ep_written a @ ?d) (?s\<lparr>ts_input := Writer_push d (outbound a)\<rparr>)"
    using inv nf push(1,2) by (simp add: ts_inv_def outbound_def)
  have seg: "peer_seg (ep_written a @ ?d) i n m" if "peer_seg (ep_written a) i n m" "\<not> sm_FIN m" for i n m
    using that seg_at_grow by (fastforce simp: peer_seg_def)
  have "tp_out (ep_written a @ ?d) (ep_sent a) (ep_peer a')"
    using f ts seg nf by (auto simp: flow_def tp_out_def a' set_outbound_def)
  moreover have "tp_in (ep_written a @ ?d) isn (ep_read b) (ep_peer b)"
  proof -
    have tr: "tr_inv (ep_written a) isn (tp_receiver (ep_peer b))" using f by (simp add: flow_def tp_in_def)
    have "tr_inv (ep_written a @ ?d) isn (tp_receiver (ep_peer b))"
      using f nf len by (intro tr_inv_grow [OF tr]) (auto simp: flow_def a' inbound_def)
    moreover have "unat (bytes_popped (ra_output ?rb)) \<le> length (ep_written a)"
      using tr by (simp add: tr_inv_def ra_inv_def Let_def)
    ultimately show ?thesis using f by (simp add: flow_def tp_in_def)
  qed
  ultimately show ?thesis using f nf by (simp add: flow_def a' set_outbound_def)
qed

text \<open>Flags of the outbound stream.\<close>

lemma flow_outbound:
  assumes f: "flow isn a b" and "bs_wf bs" and "bs_content bs = bs_content (outbound a)"
    and "is_closed (outbound a) \<Longrightarrow> is_closed bs"
  shows "flow isn (set_outbound bs a) b"
  using f ts_inv_input [of "ep_written a" "tp_sender (ep_peer a)" bs] assms(2-4)
  by (auto simp: flow_def tp_out_def set_outbound_def outbound_def)

lemma flow_other_out: "flow isn a b \<Longrightarrow> tp_receiver (ep_peer b') = tp_receiver (ep_peer b) \<Longrightarrow>
  ep_read b' = ep_read b \<Longrightarrow> flow isn a b'"
  by (simp add: flow_def tp_in_def inbound_def)

lemma flow_other_in: "flow isn a b \<Longrightarrow> tp_sender (ep_peer a') = tp_sender (ep_peer a) \<Longrightarrow>
  ep_written a' = ep_written a \<Longrightarrow> ep_sent a' = ep_sent a \<Longrightarrow> flow isn a' b"
  by (auto simp: flow_def tp_out_def)

text \<open>Reading moves bytes from the inbound stream to the application.\<close>

lemma flow_abort:
  assumes "flow isn a b"
  shows "flow isn a (set_inbound (set_error (inbound b)) b)"
  using assms
  by (intro flow_step_in [OF assms])
    (auto simp: flow_def tp_in_def set_inbound_def inbound_def tr_inv_def ra_inv_def Let_def set_error_def
      assembled_def window_end_def bytes_pushed_def bytes_popped_def is_closed_def has_error_def)

lemma flow_read:
  assumes f: "flow isn a b" and pop: "Reader_pop n (inbound b) = Inr bs"
  shows "flow isn a ((set_inbound bs b)\<lparr>ep_read := ep_read b @ take (unat n) (bs_content (inbound b))\<rparr>)"
proof -
  let ?r = "tr_reassembler (tp_receiver (ep_peer b))" and ?s = "ep_written a"
  let ?k = "unat (bytes_popped (inbound b))" and ?k' = "unat (bytes_popped bs)"
  have inv: "ra_inv ?s ?r" using f by (simp add: flow_def tp_in_def tr_inv_def)
  have inv': "ra_inv ?s (?r\<lparr>ra_output := bs\<rparr>)"
    using ra_inv_pop [OF inv, of n] pop by (auto simp: inbound_def)
  obtain bs' where bs: "bs' = bs" "bs_content bs = drop (unat n) (bs_content (inbound b))" "bs_frame bs = bs_frame (inbound b)"
    using Reader_pop_ok [OF ra_invD(1) [OF inv], of n] pop by (auto simp: inbound_def)
  have asm: "assembled (?r\<lparr>ra_output := bs\<rparr>) = assembled ?r"
    using bs(3) by (simp add: assembled_def bytes_pushed_def bs_frame_def inbound_def)
  have len: "assembled ?r = ?k + length (bs_content (inbound b))"
      "assembled ?r = ?k' + (length (bs_content (inbound b)) - unat n)"
    using inv inv' asm bs(2) by (simp_all add: ra_inv_def Let_def inbound_def)
  have content: "bs_content (inbound b) = drop ?k (take (assembled ?r) ?s)"
    using ra_inv_content [OF inv] by (simp add: inbound_def)
  have "take ?k ?s @ take (unat n) (bs_content (inbound b)) = take ?k' ?s"
  proof -
    have "?k' = ?k + min (unat n) (assembled ?r - ?k)" using len by (auto simp: min_def)
    then show ?thesis by (simp only: content take_add drop_take take_take)
  qed
  moreover have "ep_read b = take ?k ?s" using f by (simp add: flow_def tp_in_def inbound_def)
  ultimately show ?thesis
    using f inv' asm bs(3)
    by (intro flow_step_in [OF f])
      (auto simp: flow_def tp_in_def set_inbound_def tr_inv_def inbound_def bs_frame_def)
qed

section \<open>Correctness\<close>

definition in_bounds :: "connection \<Rightarrow> bool" where
  "in_bounds c \<longleftrightarrow> (\<forall>x. length (ep_written (c x)) < 2 ^ 31 - 1)"

lemma in_bounds_upd: "in_bounds (c(x := e)) \<Longrightarrow> length (ep_written (c x)) \<le> length (ep_written e) \<Longrightarrow> in_bounds c"
  unfolding in_bounds_def by (metis fun_upd_apply le_less_trans)

text \<open>One lemma for the three steps that transmit messages.\<close>

lemma conn_inv_send:
  assumes "conn_inv cfg c" and "tp_out (ep_written (c x)) (ep_sent (c x) @ ms) p"
    and "out_step (tp_sender (ep_peer (c x))) (tp_sender p)"
    and "tp_in (ep_written (c (\<not> x))) (cfg_isn (cfg (\<not> x))) (ep_read (c x)) p"
    and "bs_capacity (ra_output (tr_reassembler (tp_receiver p))) = bs_capacity (inbound (c x))"
    and "ra_eof_seen (tr_reassembler (tp_receiver p)) \<longrightarrow>
      ra_eof_seen (tr_reassembler (tp_receiver (ep_peer (c x)))) \<or> ts_fin_sent (tp_sender (ep_peer (c (\<not> x))))"
  shows "conn_inv cfg (c(x := (c x)\<lparr>ep_peer := p, ep_sent := ep_sent (c x) @ ms\<rparr>))"
proof (rule conn_inv_upd [OF assms(1)])
  show "flow (cfg_isn (cfg x)) ((c x)\<lparr>ep_peer := p, ep_sent := ep_sent (c x) @ ms\<rparr>) (c (\<not> x))"
    if "flow (cfg_isn (cfg x)) (c x) (c (\<not> x))"
    using assms by (intro flow_step_out [OF that]) simp_all
  show "flow (cfg_isn (cfg (\<not> x))) (c (\<not> x)) ((c x)\<lparr>ep_peer := p, ep_sent := ep_sent (c x) @ ms\<rparr>)"
    if "flow (cfg_isn (cfg (\<not> x))) (c (\<not> x)) (c x)"
    using assms by (intro flow_step_in [OF that]) (simp_all add: inbound_def)
qed

lemma tp_in_cong: "tp_receiver p' = tp_receiver p \<Longrightarrow> tp_in s isn rd p' = tp_in s isn rd p"
  by (simp add: tp_in_def)

lemma conn_inv_halves:
  assumes "conn_inv cfg c"
  shows "tp_out (ep_written (c x)) (ep_sent (c x)) (ep_peer (c x))"
    and "tp_in (ep_written (c (\<not> x))) (cfg_isn (cfg (\<not> x))) (ep_read (c x)) (ep_peer (c x))"
    and "ts_isn (tp_sender (ep_peer (c x))) = cfg_isn (cfg x)"
  using assms [unfolded conn_inv_def, rule_format, of x] assms [unfolded conn_inv_def, rule_format, of "\<not> x"]
  by (simp_all add: flow_def)

lemma peer_seg_RST: "peer_seg s isn n (m\<lparr>sm_RST := b\<rparr>) = peer_seg s isn n m"
  by (simp add: peer_seg_def blank_def seg_at_def seq_len_def)

lemma deliver_ok:
  assumes inv: "conn_inv cfg c" and b: "in_bounds c" and m: "m \<in> set (ep_sent (c (\<not> x)))"
  shows "\<exists>ms p. Peer_receive (on_wire m) (ep_peer (c x)) = Inr (ms, p)
    \<and> conn_inv cfg (c(x := (c x)\<lparr>ep_peer := p, ep_sent := ep_sent (c x) @ ms\<rparr>))"
proof -
  let ?seg = "ref_get (msg_sender (on_wire m))" and ?y = "\<not> x"
  have seg: "peer_seg (ep_written (c ?y)) (cfg_isn (cfg ?y)) (unat (ts_next_seqno (tp_sender (ep_peer (c ?y))))) ?seg"
    and fin: "sm_FIN ?seg \<longrightarrow> ts_fin_sent (tp_sender (ep_peer (c ?y)))"
    using conn_inv_halves(1,3) [OF inv, of ?y] m by (auto simp: tp_out_def on_wire_def Let_def peer_seg_RST)
  have len: "length (ep_written (c ?y)) < 2 ^ 31 - 1" using b by (auto simp: in_bounds_def)
  have "on_wire m = \<lparr>msg_sender = Owned ?seg, msg_receiver = Owned (ref_get (msg_receiver (on_wire m)))\<rparr>"
    by (simp add: on_wire_def Let_def)
  then show ?thesis using fin Peer_receive_ok [OF conn_inv_halves(1,2) [OF inv] seg len, of "ref_get (msg_receiver (on_wire m))"]
    by (auto simp: inbound_def intro!: conn_inv_send [OF inv])
qed

lemma set_bound_sel [simp]:
  "tp_sender (ep_peer (set_inbound bs e)) = tp_sender (ep_peer e)" "ep_written (set_inbound bs e) = ep_written e"
  "ep_sent (set_inbound bs e) = ep_sent e" "ep_read (set_inbound bs e) = ep_read e"
  "tp_receiver (ep_peer (set_outbound bs e)) = tp_receiver (ep_peer e)" "ep_written (set_outbound bs e) = ep_written e"
  "ep_sent (set_outbound bs e) = ep_sent e" "ep_read (set_outbound bs e) = ep_read e"
  by (simp_all add: set_inbound_def set_outbound_def)

lemma flow_new:
  assumes "unat (cfg_recv_capacity b) < 2 ^ 63"
  shows "flow (cfg_isn a) (endpoint_new a) (endpoint_new b)"
proof -
  have new: "ts_isn (tp_sender (TCPPeer_new a)) = cfg_isn a" "\<not> ra_eof_seen (tr_reassembler (tp_receiver (TCPPeer_new b)))"
      "bs_capacity (ra_output (tr_reassembler (tp_receiver (TCPPeer_new b)))) = cfg_recv_capacity b"
    by (simp_all add: TCPPeer_new_def TCPSender_new_def TCPReceiver_new_def Reassembler_new_def ByteStream_new_def)
  have "tp_in [] (cfg_isn a) [] (TCPPeer_new b)" using assms by (intro tp_new) simp
  then show ?thesis using new assms tp_new(1) by (simp add: flow_def endpoint_new_def inbound_def)
qed

lemma flow_wf: "flow isn a b \<Longrightarrow> bs_wf (outbound a)"
  unfolding flow_def tp_out_def outbound_def using ts_invD(1) by blast

lemma conn_inv_outbound:
  assumes "conn_inv cfg c" and "\<And>c. bs_wf (f c) = bs_wf c" and "\<And>c. bs_content (f c) = bs_content c"
    and "\<And>c. is_closed c \<Longrightarrow> is_closed (f c)"
  shows "conn_inv cfg (c(x := set_outbound (f (outbound (c x))) (c x)))"
proof (rule conn_inv_upd [OF assms(1)])
  show "flow (cfg_isn (cfg x)) (set_outbound (f (outbound (c x))) (c x)) (c (\<not> x))"
    if "flow (cfg_isn (cfg x)) (c x) (c (\<not> x))"
    using flow_wf [OF that] assms(2-4) by (intro flow_outbound [OF that]) simp_all
  show "flow (cfg_isn (cfg (\<not> x))) (c (\<not> x)) (set_outbound (f (outbound (c x))) (c x))"
    if "flow (cfg_isn (cfg (\<not> x))) (c (\<not> x)) (c x)"
    by (rule flow_other_out [OF that]) (simp_all add: set_outbound_def)
qed

lemma conn_run_inv:
  assumes "conn_run cfg c" and "\<And>x. unat (cfg_recv_capacity (cfg x)) < 2 ^ 63"
  shows "in_bounds c \<Longrightarrow> conn_inv cfg c"
  using assms(1)
proof (induction rule: conn_run.induct)
  case start
  then show ?case using assms(2) by (simp add: conn_inv_def flow_new)
next
  case (app_write c x d)
  let ?e = "(set_outbound (Writer_push d (outbound (c x))) (c x))
      \<lparr>ep_written := ep_written (c x) @ take (unat (available_capacity (outbound (c x)))) d\<rparr>"
  have len: "length (ep_written ?e) < 2 ^ 31 - 1"
    using app_write.prems [unfolded in_bounds_def, rule_format, of x] by (simp only: fun_upd_same)
  have "in_bounds c" using app_write.prems by (rule in_bounds_upd) simp
  then show ?case
    using flow_write [OF _ app_write.hyps(2) refl len]
    by (intro conn_inv_upd [OF app_write.IH]) (auto intro: flow_other_out)
next
  case (app_close c x)
  have "in_bounds c" using app_close.prems by (rule in_bounds_upd) (simp add: set_outbound_def)
  then show ?case
    by (rule conn_inv_outbound [OF app_close.IH]) (simp_all add: Writer_close_def is_closed_def)
next
  case (app_error c x)
  have "in_bounds c" using app_error.prems by (rule in_bounds_upd) (simp add: set_outbound_def)
  then show ?case
    by (rule conn_inv_outbound [OF app_error.IH]) (simp_all add: set_error_def is_closed_def)
next
  case (app_abort c x)
  have "in_bounds c" using app_abort.prems by (rule in_bounds_upd) (simp add: set_inbound_def)
  then show ?case
    by (intro conn_inv_upd [OF app_abort.IH]) (auto intro: flow_abort flow_other_in)
next
  case (app_read c n x bs)
  have "in_bounds c" using app_read.prems by (rule in_bounds_upd) (simp add: set_inbound_def)
  then show ?case
    using app_read.hyps(2)
    by (intro conn_inv_upd [OF app_read.IH]) (auto intro: flow_read flow_other_in)
next
  case (push c x ms p)
  have "in_bounds c" using push.prems by (rule in_bounds_upd) simp
  note inv = push.IH [OF this]
  have p: "tp_out (ep_written (c x)) (ep_sent (c x) @ ms) p" "tp_receiver p = tp_receiver (ep_peer (c x))"
      "out_step (tp_sender (ep_peer (c x))) (tp_sender p)"
    using Peer_push_ok [OF conn_inv_halves(1) [OF inv, of x]] push.hyps(2) by auto
  show ?case
    by (rule conn_inv_send [OF inv p(1,3)])
      (simp_all add: p(2) inbound_def tp_in_cong [OF p(2)] conn_inv_halves(2) [OF inv])
next
  case (tick c t x ms p)
  have "in_bounds c" using tick.prems by (rule in_bounds_upd) simp
  note inv = tick.IH [OF this]
  note p = Peer_tick_ok [OF conn_inv_halves(1) [OF inv, of x] tick.hyps(2)]
  show ?case
    by (rule conn_inv_send [OF inv p(1,3)])
      (simp_all add: p(2) inbound_def tp_in_cong [OF p(2)] conn_inv_halves(2) [OF inv])
next
  case (deliver c m x ms p)
  have b: "in_bounds c" using deliver.prems by (rule in_bounds_upd) simp
  from deliver_ok [OF deliver.IH [OF b] b deliver.hyps(2)] deliver.hyps(3) show ?case
    by (elim exE conjE) (simp only: sum.inject prod.inject)
qed

lemma connection_prefix:
  assumes "conn_run cfg c" and "\<forall>x. unat (cfg_recv_capacity (cfg x)) < 2 ^ 63"
    and "\<forall>x. length (ep_written (c x)) < 2 ^ 31 - 1"
  shows "\<forall>x. (\<exists>rest. ep_written (c x) = ep_read (c (\<not> x)) @ bs_content (inbound (c (\<not> x))) @ rest) \<and>
    (is_closed (inbound (c (\<not> x))) \<and> \<not> has_error (inbound (c (\<not> x))) \<longrightarrow>
       ep_written (c x) = ep_read (c (\<not> x)) @ bs_content (inbound (c (\<not> x))) \<and> is_closed (outbound (c x)))"
proof
  fix x
  let ?r = "tr_reassembler (tp_receiver (ep_peer (c (\<not> x))))" and ?w = "ep_written (c x)"
  let ?k = "unat (bytes_popped (inbound (c (\<not> x))))"
  have "conn_inv cfg c" using conn_run_inv [OF assms(1)] assms(2,3) by (simp add: in_bounds_def)
  then have f: "flow (cfg_isn (cfg x)) (c x) (c (\<not> x))" by (simp add: conn_inv_def)
  then have inv: "ra_inv ?w ?r" and rd: "ep_read (c (\<not> x)) = take ?k ?w"
    by (auto simp: flow_def tp_in_def tr_inv_def inbound_def)
  have k: "?k \<le> assembled ?r" using inv by (simp add: ra_inv_def Let_def inbound_def)
  have pre: "ep_read (c (\<not> x)) @ bs_content (inbound (c (\<not> x))) = take (assembled ?r) ?w"
    using rd ra_inv_content [OF inv] k take_add [of ?k "assembled ?r - ?k" ?w]
    by (simp add: inbound_def drop_take)
  have "?w = take (assembled ?r) ?w @ drop (assembled ?r) ?w" by simp
  then have "\<exists>rest. ?w = ep_read (c (\<not> x)) @ bs_content (inbound (c (\<not> x))) @ rest"
    unfolding append_assoc [symmetric] pre by blast
  moreover have "?w = ep_read (c (\<not> x)) @ bs_content (inbound (c (\<not> x))) \<and> is_closed (outbound (c x))"
    if "is_closed (inbound (c (\<not> x)))" "\<not> has_error (inbound (c (\<not> x)))"
  proof -
    have "ra_eof_seen ?r" "assembled ?r = length ?w"
      using inv that by (auto simp: ra_inv_def Let_def inbound_def)
    moreover from this(1) have "ts_fin_sent (tp_sender (ep_peer (c x)))" using f by (simp add: flow_def)
    moreover have "ts_inv ?w (tp_sender (ep_peer (c x)))" using f by (simp add: flow_def tp_out_def)
    ultimately show ?thesis using pre ts_invD(2) by (auto simp: outbound_def)
  qed
  ultimately show "(\<exists>rest. ?w = ep_read (c (\<not> x)) @ bs_content (inbound (c (\<not> x))) @ rest) \<and>
    (is_closed (inbound (c (\<not> x))) \<and> \<not> has_error (inbound (c (\<not> x))) \<longrightarrow>
       ?w = ep_read (c (\<not> x)) @ bs_content (inbound (c (\<not> x))) \<and> is_closed (outbound (c x)))"
    by blast
qed

text \<open>
  C3. End-to-end safety of a TCP connection: over a network that may lose, duplicate, delay and
  reorder messages, and whatever the two applications and their clocks do, the bytes an
  application has read and those waiting for it are a prefix of the bytes the other application
  has written, in order and unaltered; and when an inbound stream is closed without error, it has
  received every byte and the other application has closed its stream.  The streams are bounded
  by \<open>2 ^ 31 - 1\<close> bytes, so that an old duplicate cannot be taken for new data after the 32-bit
  sequence numbers have wrapped around.
\<close>

theorem connection_safe:
  assumes "conn_run cfg c" and "\<forall>x. unat (cfg_recv_capacity (cfg x)) < 2 ^ 63"
    and "\<forall>x. length (ep_written (c x)) < 2 ^ 31 - 1"
  shows "\<forall>x. (\<exists>rest. ep_written (c x) = ep_read (c (\<not> x)) @ bs_content (inbound (c (\<not> x))) @ rest) \<and>
    (is_closed (inbound (c (\<not> x))) \<and> \<not> has_error (inbound (c (\<not> x))) \<longrightarrow>
       ep_written (c x) = ep_read (c (\<not> x)) @ bs_content (inbound (c (\<not> x))) \<and> is_closed (outbound (c x)))"
  using connection_prefix [OF assms] .

text \<open>
  C4. Operations never fail in a connection: in every state that two connected peers can reach,
  pushing returns, and every message that was ever transmitted can be delivered, at once or late,
  once or again, without an exception, undefined behaviour or an endless loop.
\<close>

theorem connection_never_fails:
  assumes "conn_run cfg c" and "\<forall>x. unat (cfg_recv_capacity (cfg x)) < 2 ^ 63"
    and "\<forall>x. length (ep_written (c x)) < 2 ^ 31 - 1"
  shows "(\<exists>ms p. Peer_push (ep_peer (c x)) = Inr (ms, p)) \<and>
    (\<forall>m \<in> set (ep_sent (c (\<not> x))). \<exists>ms p. Peer_receive (on_wire m) (ep_peer (c x)) = Inr (ms, p)) \<and>
    (\<exists>bs. Reader_pop n (inbound (c x)) = Inr bs)"
proof -
  have b: "in_bounds c" using assms(3) by (simp add: in_bounds_def)
  then have inv: "conn_inv cfg c" using conn_run_inv [OF assms(1)] assms(2) by simp
  have "bs_wf (inbound (c x))"
    using conn_inv_halves(2) [OF inv, of x] ra_invD(1) by (auto simp: tp_in_def tr_inv_def inbound_def)
  then show ?thesis
    using Peer_push_ok [OF conn_inv_halves(1) [OF inv, of x]] deliver_ok [OF inv b, of _ x] Reader_pop_ok by blast
qed

definition small_config :: tcp_config where
  "small_config = TCPConfig_default\<lparr>cfg_recv_capacity := 4, cfg_send_capacity := 4\<rparr>"

text \<open>
  A run for the examples: one application writes a byte; SYN, SYN with acknowledgment, and data
  are exchanged.
\<close>

lemma first_messageE:
  assumes "case r of Inr (m # l, p) \<Rightarrow> P m p | _ \<Rightarrow> False"
  obtains m l p where "r = Inr (m # l, p)" and "P m p"
  using assms by (auto split: sum.splits prod.splits list.splits)

lemma example_run:
  "\<exists>c. conn_run (\<lambda>x. small_config) c \<and> ep_written (c True) = [5] \<and> ep_written (c False) = []
    \<and> bs_content (inbound (c False)) = [5] \<and> ep_sent (c True) \<noteq> []"
proof -
  let ?cfg = "\<lambda>x :: bool. small_config"
  define n where "n = endpoint_new small_config"
  define a where "a = (set_outbound (Writer_push [5] (outbound n)) n)
      \<lparr>ep_written := ep_written n @ take (unat (available_capacity (outbound n))) [5]\<rparr>"
  let ?c0 = "(\<lambda>x. n)(True := a)"
  have "case Peer_push (ep_peer a) of Inr (m1 # _, a1) \<Rightarrow>
    (case Peer_receive (on_wire m1) (ep_peer n) of Inr (m2 # _, b1) \<Rightarrow>
    (case Peer_receive (on_wire m2) a1 of Inr (m3 # _, a2) \<Rightarrow>
    (case Peer_receive (on_wire m3) b1 of Inr (m4 # _, b2) \<Rightarrow>
      bs_content (ra_output (tr_reassembler (tp_receiver b2))) = [5] | _ \<Rightarrow> False) | _ \<Rightarrow> False) | _ \<Rightarrow> False) | _ \<Rightarrow> False"
    unfolding a_def n_def by code_simp
  then obtain m1 l1 a1 m2 l2 b1 m3 l3 a2 m4 l4 b2 where r:
      "Peer_push (ep_peer a) = Inr (m1 # l1, a1)" "Peer_receive (on_wire m1) (ep_peer n) = Inr (m2 # l2, b1)"
      "Peer_receive (on_wire m2) a1 = Inr (m3 # l3, a2)" "Peer_receive (on_wire m3) b1 = Inr (m4 # l4, b2)"
      "bs_content (ra_output (tr_reassembler (tp_receiver b2))) = [5]"
    by (elim first_messageE)
  have "conn_run ?cfg ?c0"
    using conn_run.app_write [OF conn_run.start, of ?cfg True "[5]"]
    by (simp add: a_def n_def outbound_def is_closed_def endpoint_new_def TCPPeer_new_def TCPSender_new_def ByteStream_new_def)
  from conn_run.push [OF this, of True] r(1)
  have "conn_run ?cfg (?c0(True := a\<lparr>ep_peer := a1, ep_sent := m1 # l1\<rparr>))" (is "conn_run _ ?c1")
    by (simp add: a_def n_def endpoint_new_def set_outbound_def)
  from conn_run.deliver [OF this, of m1 False] r(2)
  have "conn_run ?cfg (?c1(False := n\<lparr>ep_peer := b1, ep_sent := m2 # l2\<rparr>))" (is "conn_run _ ?c2")
    by (simp add: n_def endpoint_new_def)
  from conn_run.deliver [OF this, of m2 True] r(3)
  have "conn_run ?cfg (?c2(True := (?c1 True)\<lparr>ep_peer := a2, ep_sent := (m1 # l1) @ m3 # l3\<rparr>))" (is "conn_run _ ?c3")
    by simp
  from conn_run.deliver [OF this, of m3 False] r(4)
  have "conn_run ?cfg (?c3(False := (?c2 False)\<lparr>ep_peer := b2, ep_sent := (m2 # l2) @ m4 # l4\<rparr>))" (is "conn_run _ ?c4")
    by simp
  moreover have "unat (available_capacity (outbound n)) = 4"
    by (simp add: n_def outbound_def endpoint_new_def TCPPeer_new_def TCPSender_new_def ByteStream_new_def
        available_capacity_def small_config_def)
  ultimately show ?thesis using r(5)
    by (intro exI [of _ ?c4]) (simp add: inbound_def a_def n_def endpoint_new_def)
qed

theorem connection_safe_witness:
  "\<exists>c rest. conn_run (\<lambda>x. small_config) c \<and> bs_content (inbound (c False)) = [5] \<and>
    ep_written (c True) = ep_read (c False) @ bs_content (inbound (c False)) @ rest"
proof -
  obtain c where c: "conn_run (\<lambda>x. small_config) c" "ep_written (c True) = [5]" "ep_written (c False) = []"
      "bs_content (inbound (c False)) = [5]"
    using example_run by blast
  have "length (ep_written (c x)) < 2 ^ 31 - 1" for x using c(2,3) by (cases x) simp_all
  then have "\<exists>rest. ep_written (c True) = ep_read (c (\<not> True)) @ bs_content (inbound (c (\<not> True))) @ rest"
    using connection_safe [OF c(1), THEN spec, of True] by (simp add: small_config_def)
  then show ?thesis using c(1,4) by auto
qed

theorem connection_never_fails_witness:
  "\<exists>c m ms p. conn_run (\<lambda>x. small_config) c \<and> m \<in> set (ep_sent (c True)) \<and>
    Peer_receive (on_wire m) (ep_peer (c False)) = Inr (ms, p)"
proof -
  obtain c where c: "conn_run (\<lambda>x. small_config) c" "ep_written (c True) = [5]" "ep_written (c False) = []"
      "ep_sent (c True) \<noteq> []"
    using example_run by blast
  have "length (ep_written (c x)) < 2 ^ 31 - 1" for x using c(2,3) by (cases x) simp_all
  then have "\<forall>m \<in> set (ep_sent (c (\<not> False))). \<exists>ms p. Peer_receive (on_wire m) (ep_peer (c False)) = Inr (ms, p)"
    using connection_never_fails [OF c(1), of False] by (simp add: small_config_def)
  then show ?thesis using c(1,4) by (metis hd_in_set not_False_eq_True)
qed

end
