(* ===== verification/File_Descriptor.thy ===== *)
theory File_Descriptor
  imports Ref
begin

text \<open>
  \<^verbatim>\<open>src/util/file_descriptor.hh\<close> and \<^verbatim>\<open>file_descriptor.cc\<close>: the wrapper around a kernel file
  descriptor.  The kernel is a parameter: an operation takes the outcome of the system call it
  makes, a return value with the bytes that were transferred, or the error code.  \<^verbatim>\<open>int\<close>,
  \<^verbatim>\<open>ssize_t\<close> and \<^verbatim>\<open>off_t\<close> values are integers, the service counters 32-bit.  The copies that
  \<^verbatim>\<open>duplicate\<close> makes share one \<open>fd_wrapper\<close>.
\<close>

record fd_wrapper =
  fw_fd :: int
  fw_eof :: bool
  fw_closed :: bool
  fw_non_blocking :: bool
  fw_read_count :: u32
  fw_write_count :: u32

text \<open>What a system call returns: a value, or \<open>-1\<close> and the error code.\<close>

datatype 'a syscall = Returned 'a | Failed int

definition EAGAIN :: int where
  "EAGAIN = 11"

definition EINPROGRESS :: int where
  "EINPROGRESS = 115"

definition EINTR :: int where
  "EINTR = 4"

definition O_NONBLOCK :: int where
  "O_NONBLOCK = 2048"

definition kReadBufferSize :: nat where
  "kReadBufferSize = 16384"

definition would_block :: "fd_wrapper \<Rightarrow> int \<Rightarrow> bool" where
  "would_block w errno \<longleftrightarrow> fw_non_blocking w \<and> (errno = EAGAIN \<or> errno = EINPROGRESS)"

fun FD_CheckSystemCall :: "string \<Rightarrow> int syscall \<Rightarrow> fd_wrapper \<Rightarrow> int result" where
  "FD_CheckSystemCall attempt (Returned v) w = Inr v"
| "FD_CheckSystemCall attempt (Failed errno) w =
     (if would_block w errno then Inr 0 else Inl (Unix_Error attempt errno))"

text \<open>\<^verbatim>\<open>CheckSystemCall\<close> of \<^verbatim>\<open>exception.hh\<close>, for calls without a descriptor.\<close>

fun CheckSystemCall :: "string \<Rightarrow> int syscall \<Rightarrow> int result" where
  "CheckSystemCall attempt (Returned v) = Inr v"
| "CheckSystemCall attempt (Failed errno) = Inl (Unix_Error attempt errno)"

definition FDWrapper_new :: "int \<Rightarrow> int syscall \<Rightarrow> fd_wrapper result" where
  "FDWrapper_new fd getfl =
     (let w = \<lparr>fw_fd = fd, fw_eof = False, fw_closed = False, fw_non_blocking = False,
               fw_read_count = 0, fw_write_count = 0\<rparr>
      in if fd < 0 then Inl (Runtime_Error (''invalid fd number:'' @ int_string fd))
         else rbind (FD_CheckSystemCall ''fcntl'' getfl w) (\<lambda>flags.
              Inr (w\<lparr>fw_non_blocking := (flags AND O_NONBLOCK \<noteq> 0)\<rparr>)))"

definition FD_close :: "int syscall \<Rightarrow> fd_wrapper \<Rightarrow> fd_wrapper result" where
  "FD_close ret w =
     rbind (FD_CheckSystemCall ''close'' ret w) (\<lambda>_. Inr (w\<lparr>fw_eof := True, fw_closed := True\<rparr>))"

text \<open>The destructor makes the call only when the descriptor is still open, and never throws.\<close>

definition FDWrapper_destroy :: "int syscall \<Rightarrow> fd_wrapper \<Rightarrow> fd_wrapper" where
  "FDWrapper_destroy ret w =
     (if fw_closed w then w else case FD_close ret w of Inl _ \<Rightarrow> w | Inr w \<Rightarrow> w)"

definition set_eof :: "fd_wrapper \<Rightarrow> fd_wrapper" where
  "set_eof w = w\<lparr>fw_eof := True\<rparr>"

definition register_read :: "fd_wrapper \<Rightarrow> fd_wrapper" where
  "register_read w = w\<lparr>fw_read_count := fw_read_count w + 1\<rparr>"

definition register_write :: "fd_wrapper \<Rightarrow> fd_wrapper" where
  "register_write w = w\<lparr>fw_write_count := fw_write_count w + 1\<rparr>"

text \<open>
  \<^verbatim>\<open>read\<close> into a string: the call asks for as many bytes as the buffer has (16384 when it is empty)
  and brings \<open>data\<close>.
\<close>

definition FD_read_size :: "bytes \<Rightarrow> nat" where
  "FD_read_size buffer = (if buffer = [] then kReadBufferSize else length buffer)"

fun FD_read :: "bytes \<Rightarrow> bytes syscall \<Rightarrow> fd_wrapper \<Rightarrow> (bytes \<times> fd_wrapper) result" where
  "FD_read buffer (Failed errno) w =
     (if would_block w errno then Inr ([], w) else Inl (Unix_Error ''read'' errno))"
| "FD_read buffer (Returned data) w =
     (let w = register_read w;
          w = (if data = [] then set_eof w else w)
      in if length data > FD_read_size buffer then Inl (Runtime_Error ''read() read more than requested'')
         else Inr (data, w))"

text \<open>
  \<^verbatim>\<open>read\<close> into several strings: the sizes the kernel may fill, and the loop that cuts the buffers
  after the call (the kernel has copied \<open>data\<close> into them in order).
\<close>

definition FD_read_sizes :: "bytes list \<Rightarrow> nat list" where
  "FD_read_sizes buffers = map length (butlast buffers) @ [kReadBufferSize]"

fun scatter :: "nat list \<Rightarrow> bytes \<Rightarrow> bytes list" where
  "scatter [] data = []"
| "scatter (n # ns) data =
     (if length data \<ge> n then take n data # scatter ns (drop n data) else data # scatter ns [])"

fun FD_readv :: "bytes list \<Rightarrow> bytes syscall \<Rightarrow> fd_wrapper \<Rightarrow> (bytes list \<times> fd_wrapper) result" where
  "FD_readv [] outcome w = Inr ([], w)"
| "FD_readv (b # bs) (Failed errno) w =
     (if would_block w errno then Inr ([], w) else Inl (Unix_Error ''read'' errno))"
| "FD_readv (b # bs) (Returned data) w =
     (if length data > sum_list (FD_read_sizes (b # bs)) then Inl (Runtime_Error ''read() read more than requested'')
      else Inr (scatter (FD_read_sizes (b # bs)) data, register_read w))"

text \<open>\<^verbatim>\<open>write\<close>, with the return value of \<^verbatim>\<open>writev\<close>; the kernel takes a prefix of that length.\<close>

definition FD_writev :: "bytes list \<Rightarrow> int syscall \<Rightarrow> fd_wrapper \<Rightarrow> (int \<times> fd_wrapper) result" where
  "FD_writev buffers ret w =
     (let total_size = sum_list (map length buffers) in
      rbind (FD_CheckSystemCall ''writev'' ret w) (\<lambda>bytes_written.
      let w = register_write w in
      if bytes_written = 0 \<and> total_size \<noteq> 0
      then Inl (Runtime_Error ''write returned 0 given non-empty input buffer'')
      else if bytes_written > int total_size
      then Inl (Runtime_Error ''write wrote more than length of input buffer'')
      else Inr (bytes_written, w)))"

definition FD_write :: "bytes \<Rightarrow> int syscall \<Rightarrow> fd_wrapper \<Rightarrow> (int \<times> fd_wrapper) result" where
  "FD_write buffer = FD_writev [buffer]"

definition FD_write_refs :: "bytes cpp_ref list \<Rightarrow> int syscall \<Rightarrow> fd_wrapper \<Rightarrow> (int \<times> fd_wrapper) result" where
  "FD_write_refs buffers = FD_writev (map ref_get buffers)"

text \<open>\<^verbatim>\<open>set_blocking\<close> makes two calls; the second gets the flags to set as its argument.\<close>

definition FD_set_blocking :: "bool \<Rightarrow> int syscall \<Rightarrow> (int \<Rightarrow> int syscall) \<Rightarrow> fd_wrapper \<Rightarrow> fd_wrapper result" where
  "FD_set_blocking blocking getfl setfl w =
     rbind (FD_CheckSystemCall ''fcntl'' getfl w) (\<lambda>flags.
     let flags = (if blocking then flags XOR (flags AND O_NONBLOCK) else flags OR O_NONBLOCK) in
     rbind (FD_CheckSystemCall ''fcntl'' (setfl flags) w) (\<lambda>_.
     Inr (w\<lparr>fw_non_blocking := \<not> blocking\<rparr>)))"

section \<open>Correctness\<close>

lemma concat_scatter: "length data \<le> sum_list ns \<Longrightarrow> concat (scatter ns data) = data"
  by (induction ns data rule: scatter.induct) auto

lemma length_scatter: "length (scatter ns data) = length ns"
  by (induction ns data rule: scatter.induct) auto

lemma scatter_sizes: "list_all2 (\<lambda>n b. length b \<le> n) ns (scatter ns data)"
  by (induction ns data rule: scatter.induct) auto

text \<open>Buffers are filled in order: when one is not full, all later ones are empty.\<close>

lemma scatter_in_order:
  "i < j \<Longrightarrow> j < length ns \<Longrightarrow> scatter ns data ! j \<noteq> [] \<Longrightarrow> length (scatter ns data ! i) = ns ! i"
proof (induction ns data arbitrary: i j rule: scatter.induct)
  case (2 n ns data)
  have "concat (scatter ms []) = []" for ms by (induction ms "[] :: bytes" rule: scatter.induct) auto
  then have z: "scatter ns [] ! k = []" if "k < length ns" for k
    using that length_scatter [of ns "[]"] by (metis concat_eq_Nil_conv nth_mem)
  show ?case using 2 z by (cases i; cases j) (auto split: if_splits)
qed simp

end
