(* ===== verification/Event_Loop.thy ===== *)
theory Event_Loop
  imports File_Descriptor "HOL-Library.Sublist"
begin

text \<open>
  \<^verbatim>\<open>src/util/eventloop.hh\<close> and \<^verbatim>\<open>eventloop.cc\<close>: the loop that waits for file descriptors with
  \<^verbatim>\<open>poll\<close> and calls back.  Rules are numbered; what their functions do is a parameter \<open>behaviour\<close>
  over the state, which has the program's own state \<open>el_world\<close>, the shared file descriptors and the
  cancellation requests.  Interest functions only look at the state.  Callbacks may do anything,
  add rules included; the functions called on cancellation and on errors do not add rules (the loop
  over the results of \<^verbatim>\<open>poll\<close> has no entry for one they would add).  The system calls are parameters too.
  An operation also returns which functions it has called, in order.
\<close>

datatype direction = In | Out

record basic_rule =
  br_id :: nat
  br_category_id :: u64

record fd_rule = basic_rule +
  fr_fd :: nat
  fr_direction :: direction

text \<open>What functions without access to the rules can change.\<close>

record 'w el_context =
  el_fds :: "nat \<Rightarrow> fd_wrapper"
  el_cancel_requested :: "nat \<Rightarrow> bool"
  el_world :: 'w

record 'w event_loop =
  el_context :: "'w el_context"
  el_rule_categories :: "string list"
  el_fd_rules :: "fd_rule list"
  el_non_fd_rules :: "basic_rule list"
  el_next_id :: nat

record ('w, 'l) behaviour =
  bh_interest :: "nat \<Rightarrow> 'w el_context \<Rightarrow> bool"
  bh_callback :: "nat \<Rightarrow> 'l \<Rightarrow> 'l result"
  bh_cancel :: "nat \<Rightarrow> 'w el_context \<Rightarrow> 'w el_context result"
  bh_error :: "nat \<Rightarrow> 'w el_context \<Rightarrow> 'w el_context result"

datatype el_result = Success | Timeout | Exit

datatype el_action = Called nat | Cancelled nat | Errored nat

type_synonym ('w, 'z) el_behaviour = "('w, ('w, 'z) event_loop_scheme) behaviour"

type_synonym 'w el_outcome = "(el_result \<times> el_action list \<times> 'w event_loop) result"

definition EventLoop_new :: "'w el_context \<Rightarrow> 'w event_loop" where
  "EventLoop_new ctx = \<lparr>el_context = ctx, el_rule_categories = [], el_fd_rules = [], el_non_fd_rules = [], el_next_id = 0\<rparr>"

definition service_count :: "fd_rule \<Rightarrow> 'w el_context \<Rightarrow> u32" where
  "service_count r c =
     (if fr_direction r = In then fw_read_count (el_fds c (fr_fd r)) else fw_write_count (el_fds c (fr_fd r)))"

text \<open>The constructor reserves room for 64 categories, which is the capacity the check is about.\<close>

definition add_category :: "string \<Rightarrow> ('w, 'z) event_loop_scheme \<Rightarrow> (u64 \<times> ('w, 'z) event_loop_scheme) result" where
  "add_category name l =
     (if length (el_rule_categories l) \<ge> 64 then Inl (Runtime_Error ''maximum categories reached'')
      else let l = l\<lparr>el_rule_categories := el_rule_categories l @ [name]\<rparr>
           in Inr (size64 (el_rule_categories l) - 1, l))"

text \<open>A rule handle is the number of the rule; a new rule has not been asked to cancel.\<close>

definition new_rule :: "('w, 'z) event_loop_scheme \<Rightarrow> ('w, 'z) event_loop_scheme" where
  "new_rule l = l\<lparr>el_next_id := el_next_id l + 1,
     el_context := (el_context l)\<lparr>el_cancel_requested := (el_cancel_requested (el_context l))(el_next_id l := False)\<rparr>\<rparr>"

definition add_fd_rule :: "u64 \<Rightarrow> nat \<Rightarrow> direction \<Rightarrow> ('w, 'z) event_loop_scheme \<Rightarrow> (nat \<times> ('w, 'z) event_loop_scheme) result" where
  "add_fd_rule category_id fd direction l =
     (if unat category_id \<ge> length (el_rule_categories l) then Inl Out_Of_Range
      else Inr (el_next_id l,
        (new_rule l)\<lparr>el_fd_rules := el_fd_rules l @
           [\<lparr>br_id = el_next_id l, br_category_id = category_id, fr_fd = fd, fr_direction = direction\<rparr>]\<rparr>))"

definition add_non_fd_rule :: "u64 \<Rightarrow> ('w, 'z) event_loop_scheme \<Rightarrow> (nat \<times> ('w, 'z) event_loop_scheme) result" where
  "add_non_fd_rule category_id l =
     (if unat category_id \<ge> length (el_rule_categories l) then Inl Out_Of_Range
      else Inr (el_next_id l,
        (new_rule l)\<lparr>el_non_fd_rules := el_non_fd_rules l @ [\<lparr>br_id = el_next_id l, br_category_id = category_id\<rparr>]\<rparr>))"

definition add_poll_rule :: "string \<Rightarrow> nat \<Rightarrow> direction \<Rightarrow> ('w, 'z) event_loop_scheme \<Rightarrow> ('w, 'z) event_loop_scheme result" where
  "add_poll_rule name fd d l =
     rbind (add_category name l) (\<lambda>(category_id, l). rbind (add_fd_rule category_id fd d l) (\<lambda>(h, l). Inr l))"

definition RuleHandle_cancel :: "nat \<Rightarrow> 'w el_context \<Rightarrow> 'w el_context" where
  "RuleHandle_cancel handle c = c\<lparr>el_cancel_requested := (el_cancel_requested c)(handle := True)\<rparr>"

definition busy_error :: "string \<Rightarrow> u64 \<Rightarrow> string \<Rightarrow> ('w, 'z) event_loop_scheme \<Rightarrow> cpp_error" where
  "busy_error pre category_id post l =
     (if unat category_id < length (el_rule_categories l)
      then Runtime_Error (pre @ ''EventLoop: busy wait detected: rule '' @ [CHR 0x22] @ (el_rule_categories l ! unat category_id)
             @ [CHR 0x22] @ post)
      else Out_Of_Range)"

text \<open>The inner loop of the rules without a descriptor: call back while the rule is interested, 128 times at most.\<close>

function serve_rule :: "string \<Rightarrow> ('w, 'z) el_behaviour \<Rightarrow> basic_rule \<Rightarrow> nat \<Rightarrow> ('w, 'z) event_loop_scheme \<Rightarrow> (nat \<times> ('w, 'z) event_loop_scheme) result" where
  "serve_rule pre bh r iterations l =
     (if \<not> bh_interest bh (br_id r) (el_context l) then Inr (iterations, l)
      else if iterations \<ge> 128
      then Inl (busy_error pre (br_category_id r) ('' is still interested after '' @ dec_string (iterations + 1) @ '' iterations'') l)
      else case bh_callback bh (br_id r) l of
             Inl e \<Rightarrow> Inl e
           | Inr l' \<Rightarrow> serve_rule pre bh r (iterations + 1) l')"
  by pat_completeness auto
termination by (relation "measure (\<lambda>(_, _, _, iterations, _). 129 - iterations)") auto

declare serve_rule.simps [simp del]

text \<open>
  The loop over the rules without a descriptor.  It drops those that were asked to cancel; the first
  one that fires ends it.  The result is whether one fired.
\<close>

fun non_fd_loop :: "string \<Rightarrow> ('w, 'z) el_behaviour \<Rightarrow> basic_rule list \<Rightarrow> basic_rule list \<Rightarrow> ('w, 'z) event_loop_scheme
    \<Rightarrow> (bool \<times> el_action list \<times> ('w, 'z) event_loop_scheme) result" where
  "non_fd_loop pre bh before [] l = Inr (False, [], l)"
| "non_fd_loop pre bh before (r # rest) l =
     (if el_cancel_requested (el_context l) (br_id r)
      then non_fd_loop pre bh before rest (l\<lparr>el_non_fd_rules := before @ rest\<rparr>)
      else rbind (serve_rule pre bh r 0 l) (\<lambda>(n, l).
           if n > 0 then Inr (True, replicate n (Called (br_id r)), l)
           else non_fd_loop pre bh (before @ [r]) rest l))"

section \<open>The rules with a descriptor\<close>

definition POLLIN :: u16 where
  "POLLIN = 1"

definition POLLOUT :: u16 where
  "POLLOUT = 4"

definition POLLERR :: u16 where
  "POLLERR = 8"

definition POLLHUP :: u16 where
  "POLLHUP = 16"

definition POLLNVAL :: u16 where
  "POLLNVAL = 32"

definition direction_event :: "direction \<Rightarrow> u16" where
  "direction_event d = (case d of In \<Rightarrow> POLLIN | Out \<Rightarrow> POLLOUT)"

text \<open>The loop that drops dead rules and sets up the entries for \<^verbatim>\<open>poll\<close>: descriptor and events.\<close>

fun setup_loop :: "('w, 'l) behaviour \<Rightarrow> fd_rule list \<Rightarrow> 'w el_context
    \<Rightarrow> (fd_rule list \<times> (int \<times> u16) list \<times> bool \<times> el_action list \<times> 'w el_context) result" where
  "setup_loop bh [] c = Inr ([], [], False, [], c)"
| "setup_loop bh (r # rest) c =
     (let w = el_fds c (fr_fd r) in
      if el_cancel_requested c (br_id r) then setup_loop bh rest c
      else if fr_direction r = In \<and> fw_eof w \<or> fw_closed w
      then rbind (bh_cancel bh (br_id r) c) (\<lambda>c.
           rbind (setup_loop bh rest c) (\<lambda>(rules, pollfds, something, acts, c).
           Inr (rules, pollfds, something, Cancelled (br_id r) # acts, c)))
      else
        let interested = bh_interest bh (br_id r) c;
            events = (if interested then direction_event (fr_direction r) else 0)
        in rbind (setup_loop bh rest c) (\<lambda>(rules, pollfds, something, acts, c).
           Inr (r # rules, (fw_fd w, events) # pollfds, interested \<or> something, acts, c)))"

definition ENOTSOCK :: int where
  "ENOTSOCK = 88"

text \<open>What an error on a descriptor does: \<^verbatim>\<open>getsockopt\<close> gives the socket's error and a length; messages go to \<^verbatim>\<open>cerr\<close>.\<close>

fun poll_error_check :: "(int \<times> nat) syscall \<Rightarrow> unit result" where
  "poll_error_check (Failed errno) = (if errno = ENOTSOCK then Inr () else Inl (Unix_Error ''getsockopt'' errno))"
| "poll_error_check (Returned (socket_error, optlen)) =
     (if optlen \<noteq> 4 then Inl (Runtime_Error (''unexpected length from getsockopt: '' @ dec_string optlen)) else Inr ())"

text \<open>
  The loop over the results of \<^verbatim>\<open>poll\<close>: rules already passed, rules to come with their entries (events
  asked for and returned).
\<close>

fun dispatch_loop :: "('w, unit) el_behaviour \<Rightarrow> (int \<Rightarrow> (int \<times> nat) syscall) \<Rightarrow> fd_rule list \<Rightarrow> (fd_rule \<times> u16 \<times> u16) list
    \<Rightarrow> 'w event_loop \<Rightarrow> (el_action list \<times> 'w event_loop) result" where
  "dispatch_loop bh sockopt before [] l = Inr ([], l\<lparr>el_fd_rules := before\<rparr>)"
| "dispatch_loop bh sockopt before ((r, events, revents) # rest) l =
     (let c = el_context l;
          poll_error = (revents AND (POLLERR OR POLLNVAL) \<noteq> 0);
          poll_ready = (revents AND events \<noteq> 0);
          poll_hup = (revents AND POLLHUP \<noteq> 0)
      in if poll_error then
           rbind (poll_error_check (sockopt (fw_fd (el_fds c (fr_fd r))))) (\<lambda>_.
           rbind (bh_error bh (br_id r) c) (\<lambda>c.
           rbind (bh_cancel bh (br_id r) c) (\<lambda>c.
           rbind (dispatch_loop bh sockopt before rest (l\<lparr>el_context := c\<rparr>)) (\<lambda>(acts, l).
           Inr (Errored (br_id r) # Cancelled (br_id r) # acts, l)))))
         else if poll_hup \<and> (events \<noteq> 0 \<and> \<not> poll_ready \<or> fr_direction r = Out) then
           rbind (bh_cancel bh (br_id r) c) (\<lambda>c.
           rbind (dispatch_loop bh sockopt before rest (l\<lparr>el_context := c\<rparr>)) (\<lambda>(acts, l).
           Inr (Cancelled (br_id r) # acts, l)))
         else if poll_ready then
           let l = l\<lparr>el_fd_rules := before @ r # map fst rest\<rparr>;
               count_before = service_count r (el_context l)
           in rbind (bh_callback bh (br_id r) l) (\<lambda>l.
              let c = el_context l
              in if count_before = service_count r c \<and> \<not> fw_closed (el_fds c (fr_fd r)) \<and> bh_interest bh (br_id r) c
                 then Inl (busy_error [] (br_category_id r) '' did not read/write fd and is still interested'' l)
                 else Inr ([Called (br_id r)], l))
         else dispatch_loop bh sockopt (before @ [r]) rest l)"

text \<open>
  \<^verbatim>\<open>poll\<close> gets the entries and the timeout and returns the number of ready entries and the returned
  events of each.
\<close>

definition wait_next_event :: "('w, unit) el_behaviour \<Rightarrow> ((int \<times> u16) list \<Rightarrow> int \<Rightarrow> (int \<times> u16 list) syscall)
    \<Rightarrow> (int \<Rightarrow> (int \<times> nat) syscall) \<Rightarrow> int \<Rightarrow> 'w event_loop \<Rightarrow> 'w el_outcome" where
  "wait_next_event bh poll sockopt timeout_ms l =
     rbind (non_fd_loop [] bh [] (el_non_fd_rules l) l) (\<lambda>(fired, acts, l).
     if fired then Inr (Success, acts, l)
     else
       rbind (setup_loop bh (el_fd_rules l) (el_context l)) (\<lambda>(rules, pollfds, something_to_poll, acts, c).
       let l = l\<lparr>el_fd_rules := rules, el_context := c\<rparr>
       in if \<not> something_to_poll then Inr (Exit, acts, l)
          else case poll pollfds timeout_ms of
                 Failed errno \<Rightarrow> Inl (Unix_Error ''poll'' errno)
               | Returned (n, revents) \<Rightarrow>
                   if n = 0 then Inr (Timeout, acts, l)
                   else rbind (dispatch_loop bh sockopt [] (zip rules (zip (map snd pollfds) revents)) l) (\<lambda>(acts', l).
                        Inr (Success, acts @ acts', l))))"

section \<open>What a round keeps\<close>

text \<open>
  Rules have different numbers and a category that exists; there are 64 categories at most.
\<close>

definition el_ids :: "('w, 'z) event_loop_scheme \<Rightarrow> nat list" where
  "el_ids l = map br_id (el_fd_rules l) @ map br_id (el_non_fd_rules l)"

definition category_ok :: "('w, 'z) event_loop_scheme \<Rightarrow> 'r basic_rule_scheme \<Rightarrow> bool" where
  "category_ok l r \<longleftrightarrow> unat (br_category_id r) < length (el_rule_categories l)"

definition el_wf :: "('w, 'z) event_loop_scheme \<Rightarrow> bool" where
  "el_wf l \<longleftrightarrow> distinct (el_ids l) \<and> (\<forall>i\<in>set (el_ids l). i < el_next_id l)
     \<and> list_all (category_ok l) (el_fd_rules l) \<and> list_all (category_ok l) (el_non_fd_rules l)
     \<and> length (el_rule_categories l) \<le> 64"

text \<open>
  What code that holds the loop can do to it: rules stay well-formed and a request to cancel a rule
  that exists is not taken back (\<^verbatim>\<open>cancel_requested\<close> is private, and only \<^verbatim>\<open>RuleHandle::cancel\<close> sets it).
\<close>

definition extends :: "('w, 'z) event_loop_scheme \<Rightarrow> ('w, 'z) event_loop_scheme \<Rightarrow> bool" where
  "extends l l' \<longleftrightarrow> (el_wf l \<longrightarrow> el_wf l') \<and> el_next_id l \<le> el_next_id l'
     \<and> (\<forall>i<el_next_id l. el_cancel_requested (el_context l) i \<longrightarrow> el_cancel_requested (el_context l') i)"

definition requests_kept :: "'w el_context \<Rightarrow> 'w el_context \<Rightarrow> bool" where
  "requests_kept c c' \<longleftrightarrow> (\<forall>i. el_cancel_requested c i \<longrightarrow> el_cancel_requested c' i)"

definition behaviour_ok :: "('w, 'z) el_behaviour \<Rightarrow> bool" where
  "behaviour_ok bh \<longleftrightarrow>
     (\<forall>i l l'. bh_callback bh i l = Inr l' \<longrightarrow> extends l l')
     \<and> (\<forall>i c c'. bh_cancel bh i c = Inr c' \<longrightarrow> requests_kept c c')
     \<and> (\<forall>i c c'. bh_error bh i c = Inr c' \<longrightarrow> requests_kept c c')"

lemma behaviour_okD:
  assumes "behaviour_ok bh"
  shows "bh_callback bh i l = Inr l' \<Longrightarrow> extends l l'"
    and "bh_cancel bh i c = Inr c' \<Longrightarrow> requests_kept c c'"
    and "bh_error bh i c = Inr c' \<Longrightarrow> requests_kept c c'"
  using assms by (auto simp: behaviour_ok_def)

lemma extends_refl [simp, intro]: "extends l l"
  by (simp add: extends_def)

lemma extends_trans [trans]: "extends l l' \<Longrightarrow> extends l' l'' \<Longrightarrow> extends l l''"
  by (auto simp: extends_def intro: le_trans less_le_trans)

lemma requests_kept_refl [simp, intro]: "requests_kept c c"
  by (simp add: requests_kept_def)

lemma requests_kept_trans [trans]: "requests_kept c c' \<Longrightarrow> requests_kept c' c'' \<Longrightarrow> requests_kept c c''"
  by (simp add: requests_kept_def)

lemma extends_wf: "extends l l' \<Longrightarrow> el_wf l \<Longrightarrow> el_wf l'"
  by (simp add: extends_def)

lemma el_wf_id: "el_wf l \<Longrightarrow> i \<in> set (el_ids l) \<Longrightarrow> i < el_next_id l"
  by (auto simp: el_wf_def)

lemma el_ids_rules:
  "r \<in> set (el_fd_rules l) \<Longrightarrow> br_id r \<in> set (el_ids l)"
  "n \<in> set (el_non_fd_rules l) \<Longrightarrow> br_id n \<in> set (el_ids l)"
  by (auto simp: el_ids_def)

lemma list_all_subseq: "subseq xs ys \<Longrightarrow> list_all P ys \<Longrightarrow> list_all P xs"
  by (auto simp: list_all_iff dest: list_emb_set)

lemma distinct_subseq: "subseq xs ys \<Longrightarrow> distinct ys \<Longrightarrow> distinct xs"
  by (induction rule: list_emb.induct) (auto dest: list_emb_set)

text \<open>Dropping rules and changing the context.\<close>

lemma extends_drop:
  assumes "subseq fds (el_fd_rules l)" and "subseq nfs (el_non_fd_rules l)" and "requests_kept (el_context l) c"
  shows "extends l (l\<lparr>el_fd_rules := fds, el_non_fd_rules := nfs, el_context := c\<rparr>)"
proof -
  have ids: "subseq (map br_id fds @ map br_id nfs) (el_ids l)"
    unfolding el_ids_def using assms by (intro list_emb_append_mono subseq_map)
  have cat: "list_all (category_ok l) (el_fd_rules l) \<Longrightarrow> list_all (category_ok l) fds"
    "list_all (category_ok l) (el_non_fd_rules l) \<Longrightarrow> list_all (category_ok l) nfs"
    using assms by (auto intro: list_all_subseq)
  have "el_wf (l\<lparr>el_fd_rules := fds, el_non_fd_rules := nfs, el_context := c\<rparr>)" if "el_wf l"
    using that distinct_subseq[OF ids] cat list_all_subseq[OF ids, of "\<lambda>i. i < el_next_id l"]
    by (simp add: el_wf_def el_ids_def category_ok_def[abs_def] list_all_iff)
  with assms(3) show ?thesis by (auto simp: extends_def requests_kept_def)
qed

lemma extends_rules: "subseq fds (el_fd_rules l) \<Longrightarrow> extends l (l\<lparr>el_fd_rules := fds\<rparr>)"
  using extends_drop[of fds l "el_non_fd_rules l" "el_context l"] by simp

lemma extends_non_fd_rules: "subseq nfs (el_non_fd_rules l) \<Longrightarrow> extends l (l\<lparr>el_non_fd_rules := nfs\<rparr>)"
  using extends_drop[of "el_fd_rules l" l nfs "el_context l"] by simp

lemma extends_context: "requests_kept (el_context l) c \<Longrightarrow> extends l (l\<lparr>el_context := c\<rparr>)"
  using extends_drop[of "el_fd_rules l" l "el_non_fd_rules l" c] by simp

text \<open>The public operations.\<close>

lemma add_category_extends:
  assumes "add_category name l = Inr (k, l')"
  shows "extends l l'"
proof -
  have l': "l' = l\<lparr>el_rule_categories := el_rule_categories l @ [name]\<rparr>" and n: "length (el_rule_categories l) < 64"
    using assms by (auto simp: add_category_def Let_def split: if_splits)
  have "el_ids l' = el_ids l" by (simp add: l' el_ids_def)
  then show ?thesis using n by (auto simp: extends_def el_wf_def l' category_ok_def list_all_iff less_SucI)
qed

lemma el_wf_add_rule:
  fixes fds :: "fd_rule list" and nfs :: "basic_rule list"
  assumes "el_wf l" and "el_ids l' = xs @ el_next_id l # ys" and "el_ids l = xs @ ys"
    and "el_next_id l' = Suc (el_next_id l)" and "el_rule_categories l' = el_rule_categories l"
    and "el_fd_rules l' = el_fd_rules l @ fds" and "el_non_fd_rules l' = el_non_fd_rules l @ nfs"
    and "list_all (category_ok l) fds" and "list_all (category_ok l) nfs"
  shows "el_wf l'"
proof -
  have "\<forall>i\<in>set (xs @ ys). i < el_next_id l" and "distinct (xs @ ys)"
    using assms(1,3) by (auto simp: el_wf_def)
  then have "distinct (xs @ el_next_id l # ys)" and "\<forall>i\<in>set (xs @ el_next_id l # ys). i < Suc (el_next_id l)"
    by (auto intro: less_SucI)
  then show ?thesis using assms by (simp add: el_wf_def category_ok_def[abs_def])
qed

lemma add_fd_rule_extends:
  assumes "add_fd_rule k fd d l = Inr (h, l')"
  shows "extends l l'"
proof -
  let ?r = "\<lparr>br_id = el_next_id l, br_category_id = k, fr_fd = fd, fr_direction = d\<rparr> :: fd_rule"
  have l': "l' = (new_rule l)\<lparr>el_fd_rules := el_fd_rules l @ [?r]\<rparr>" and k: "category_ok l ?r"
    using assms by (auto simp: add_fd_rule_def category_ok_def split: if_splits)
  have "el_wf l'" if "el_wf l"
    by (rule el_wf_add_rule[OF that, where xs = "map br_id (el_fd_rules l)" and ys = "map br_id (el_non_fd_rules l)"
          and fds = "[?r]" and nfs = "[]"]) (simp_all add: l' k new_rule_def el_ids_def)
  then show ?thesis by (simp add: extends_def l' new_rule_def)
qed

lemma add_non_fd_rule_extends:
  assumes "add_non_fd_rule k l = Inr (h, l')"
  shows "extends l l'"
proof -
  let ?r = "\<lparr>br_id = el_next_id l, br_category_id = k\<rparr> :: basic_rule"
  have l': "l' = (new_rule l)\<lparr>el_non_fd_rules := el_non_fd_rules l @ [?r]\<rparr>" and k: "category_ok l ?r"
    using assms by (auto simp: add_non_fd_rule_def category_ok_def split: if_splits)
  have "el_wf l'" if "el_wf l"
    by (rule el_wf_add_rule[OF that, where xs = "el_ids l" and ys = "[]"
          and fds = "[]" and nfs = "[?r]"]) (simp_all add: l' k new_rule_def el_ids_def)
  then show ?thesis by (simp add: extends_def l' new_rule_def)
qed

lemma cancel_requests_kept: "requests_kept c (RuleHandle_cancel h c)"
  by (simp add: requests_kept_def RuleHandle_cancel_def)

lemma EventLoop_new_wf: "el_wf (EventLoop_new c)"
  by (simp add: el_wf_def el_ids_def EventLoop_new_def)

text \<open>The parts of a round.\<close>

lemma subseq_skip: "subseq (xs @ ys) (xs @ x # ys)"
  by (intro list_emb_append_mono) auto

lemma serve_rule_ok:
  assumes "serve_rule pre bh r k l = Inr (n, l')" and "behaviour_ok bh" and "k \<le> 128"
  shows "k \<le> n \<and> n \<le> 128 \<and> extends l l' \<and> \<not> bh_interest bh (br_id r) (el_context l') \<and> (n = k \<longrightarrow> l' = l)"
  using assms
proof (induction pre bh r k l rule: serve_rule.induct)
  case (1 pre bh r k l)
  show ?case
  proof (cases "bh_interest bh (br_id r) (el_context l)")
    case False
    with "1.prems" show ?thesis by (simp add: serve_rule.simps)
  next
    case True
    then obtain l1 where k: "k < 128" and cb: "bh_callback bh (br_id r) l = Inr l1"
      and rec: "serve_rule pre bh r (k + 1) l1 = Inr (n, l')"
      using "1.prems"(1) by (subst (asm) serve_rule.simps) (auto split: if_splits sum.splits)
    have "k + 1 \<le> n \<and> n \<le> 128 \<and> extends l1 l' \<and> \<not> bh_interest bh (br_id r) (el_context l')"
      using "1.IH"[of l1] True k cb rec "1.prems"(2) by simp
    with behaviour_okD(1)[OF "1.prems"(2) cb] show ?thesis by (auto intro: extends_trans)
  qed
qed

text \<open>A rule that goes on being interested is found out: its 129th call does not happen.\<close>

lemma serve_rule_busy:
  assumes "\<And>c. bh_interest bh (br_id r) c"
  shows "\<exists>e. serve_rule pre bh r k l = Inl e"
  using assms
proof (induction pre bh r k l rule: serve_rule.induct)
  case (1 pre bh r k l)
  show ?case
    by (subst serve_rule.simps) (use 1 in \<open>auto split: sum.split\<close>)
qed

lemma non_fd_loop_ok:
  assumes "non_fd_loop pre bh before rest l = Inr (fired, acts, l')" and "behaviour_ok bh"
    and "el_non_fd_rules l = before @ rest"
  shows "extends l l'
    \<and> (if fired then \<exists>r\<in>set rest. \<exists>n. 0 < n \<and> n \<le> 128 \<and> acts = replicate n (Called (br_id r))
          \<and> \<not> el_cancel_requested (el_context l) (br_id r) \<and> bh_interest bh (br_id r) (el_context l)
          \<and> \<not> bh_interest bh (br_id r) (el_context l')
       else acts = [] \<and> l' = l\<lparr>el_non_fd_rules := before @ filter (\<lambda>r. \<not> el_cancel_requested (el_context l) (br_id r)) rest\<rparr>
          \<and> (\<forall>r\<in>set rest. el_cancel_requested (el_context l) (br_id r) \<or> \<not> bh_interest bh (br_id r) (el_context l)))"
  using assms
proof (induction pre bh before rest l rule: non_fd_loop.induct)
  case (1 pre bh before l)
  then show ?case by auto
next
  case (2 pre bh before r rest l)
  let ?l = "l\<lparr>el_non_fd_rules := before @ rest\<rparr>"
  show ?case
  proof (cases "el_cancel_requested (el_context l) (br_id r)")
    case True
    have "extends l ?l" using "2.prems"(3) by (intro extends_non_fd_rules) (simp add: subseq_skip)
    with True "2.IH"(1) "2.prems" show ?thesis by (auto split: if_splits intro: extends_trans)
  next
    case False
    with "2.prems"(1) obtain n l1 where s: "serve_rule pre bh r 0 l = Inr (n, l1)"
      and k: "(if n > 0 then Inr (True, replicate n (Called (br_id r)), l1)
               else non_fd_loop pre bh (before @ [r]) rest l1) = Inr (fired, acts, l')"
      by (auto simp: rbind_Inr_iff)
    note ok = serve_rule_ok[OF s "2.prems"(2)]
    show ?thesis
    proof (cases "n > 0")
      case True
      then have "bh_interest bh (br_id r) (el_context l)"
        using s by (subst (asm) serve_rule.simps) (auto split: if_splits)
      with True k ok False show ?thesis by auto
    next
      case n: False
      with ok have "l1 = l" by simp
      with "2.IH"(2)[OF False n, of l] s k n ok False "2.prems" show ?thesis by (auto split: if_splits)
    qed
  qed
qed

definition not_called :: "el_action list \<Rightarrow> bool" where
  "not_called acts \<longleftrightarrow> (\<forall>i. Called i \<notin> set acts)"

lemma not_called_simps [simp]:
  "not_called []" "\<not> not_called (Called i # acts)" "not_called (Cancelled i # acts) = not_called acts"
  "not_called (Errored i # acts) = not_called acts" "not_called (acts @ acts') = (not_called acts \<and> not_called acts')"
  by (auto simp: not_called_def)

text \<open>
  The set-up keeps, in order, rules that were not asked to cancel; an entry asks for events when its
  rule was interested.
\<close>

definition fd_dead :: "'w el_context \<Rightarrow> fd_rule \<Rightarrow> bool" where
  "fd_dead c r \<longleftrightarrow> fr_direction r = In \<and> fw_eof (el_fds c (fr_fd r)) \<or> fw_closed (el_fds c (fr_fd r))"

abbreviation poll_entry :: "('w, 'l) behaviour \<Rightarrow> 'w el_context \<Rightarrow> fd_rule \<Rightarrow> int \<times> u16" where
  "poll_entry bh c r \<equiv> (fw_fd (el_fds c (fr_fd r)),
     if bh_interest bh (br_id r) c then direction_event (fr_direction r) else 0)"

lemma poll_entry_asks: "snd (poll_entry bh c r) \<noteq> 0 \<longleftrightarrow> bh_interest bh (br_id r) c"
  by (cases "fr_direction r") (simp_all add: direction_event_def POLLIN_def POLLOUT_def)

lemma setup_loop_Cons:
  "setup_loop bh (r # rest) c =
     (if el_cancel_requested c (br_id r) then setup_loop bh rest c
      else if fd_dead c r
      then rbind (bh_cancel bh (br_id r) c) (\<lambda>c.
           rbind (setup_loop bh rest c) (\<lambda>(rules, pollfds, something, acts, c).
           Inr (rules, pollfds, something, Cancelled (br_id r) # acts, c)))
      else rbind (setup_loop bh rest c) (\<lambda>(rules, pollfds, something, acts, c').
           Inr (r # rules, poll_entry bh c r # pollfds, bh_interest bh (br_id r) c \<or> something, acts, c')))"
  by (simp add: Let_def fd_dead_def)

declare setup_loop.simps(2) [simp del]

lemma setup_loop_ok:
  assumes "setup_loop bh rs c = Inr (rules, pollfds, something, acts, c')" and "behaviour_ok bh"
  shows "subseq rules rs \<and> requests_kept c c' \<and> not_called acts
    \<and> (\<forall>r\<in>set rules. \<not> el_cancel_requested c (br_id r)) \<and> length pollfds = length rules
    \<and> something = (\<exists>p\<in>set pollfds. snd p \<noteq> 0)"
  using assms(1)
proof (induction rs arbitrary: c rules pollfds something acts)
  case Nil
  then show ?case by auto
next
  case (Cons r rest)
  show ?case
  proof (cases "el_cancel_requested c (br_id r)")
    case True
    with Cons.prems Cons.IH[of c] show ?thesis by (simp add: setup_loop_Cons list_emb_Cons)
  next
    case nr: False
    show ?thesis
    proof (cases "fd_dead c r")
      case True
      with nr Cons.prems obtain c1 acts1 where k: "bh_cancel bh (br_id r) c = Inr c1"
        and s: "setup_loop bh rest c1 = Inr (rules, pollfds, something, acts1, c')" and a: "acts = Cancelled (br_id r) # acts1"
        by (auto simp: setup_loop_Cons rbind_Inr_iff)
      have "requests_kept c c1" using behaviour_okD(2)[OF assms(2) k] .
      with Cons.IH[OF s] a show ?thesis by (auto simp: requests_kept_def)
    next
      case False
      with nr Cons.prems obtain rules1 pollfds1 something1 where
        s: "setup_loop bh rest c = Inr (rules1, pollfds1, something1, acts, c')" and
        e: "rules = r # rules1" "pollfds = poll_entry bh c r # pollfds1"
          "something = (bh_interest bh (br_id r) c \<or> something1)"
        by (auto simp del: not_called_simps simp: setup_loop_Cons rbind_Inr_iff)
      from Cons.IH[OF s] nr show ?thesis
        unfolding e by (simp only: list.set bex_simps ball_simps poll_entry_asks) simp
    qed
  qed
qed

text \<open>When no cancel function was called the state is as it was.\<close>

lemma setup_loop_clean:
  assumes "setup_loop bh rs c = Inr (rules, pollfds, something, [], c')"
  shows "c' = c \<and> rules = filter (\<lambda>r. \<not> el_cancel_requested c (br_id r)) rs \<and> pollfds = map (poll_entry bh c) rules"
  using assms
  by (induction rs arbitrary: rules pollfds something)
    (auto simp: setup_loop_Cons rbind_Inr_iff split: if_splits)

text \<open>
  The loop over the results calls at most one rule, the last thing it does: one with an entry that
  came back with an event it asked for, and no error.
\<close>

definition poll_serves :: "fd_rule \<times> u16 \<times> u16 \<Rightarrow> bool" where
  "poll_serves e \<longleftrightarrow> (case e of (r, events, revents) \<Rightarrow>
     revents AND events \<noteq> 0 \<and> revents AND (POLLERR OR POLLNVAL) = 0 \<and> (revents AND POLLHUP \<noteq> 0 \<longrightarrow> fr_direction r = In))"

definition one_call :: "(nat \<Rightarrow> bool) \<Rightarrow> el_action list \<Rightarrow> bool" where
  "one_call P acts \<longleftrightarrow> not_called acts \<or> (\<exists>i acts'. P i \<and> acts = acts' @ [Called i] \<and> not_called acts')"

lemma one_call_simps [simp]:
  "one_call P []" "one_call P [Called i] = P i"
  "one_call P (Cancelled i # acts) = one_call P acts" "one_call P (Errored i # acts) = one_call P acts"
  by (auto simp: one_call_def Cons_eq_append_conv)

lemma one_call_mono: "one_call P acts \<Longrightarrow> (\<And>i. P i \<Longrightarrow> Q i) \<Longrightarrow> one_call Q acts"
  by (auto simp: one_call_def)

lemma one_call_Called: "one_call P acts \<Longrightarrow> Called i \<in> set acts \<Longrightarrow> P i"
  by (auto simp: one_call_def not_called_def)

lemma one_call_append: "not_called acts \<Longrightarrow> one_call P acts' \<Longrightarrow> one_call P (acts @ acts')"
  unfolding one_call_def by (metis append.assoc not_called_simps(5))

lemma dispatch_loop_ok:
  assumes "dispatch_loop bh sockopt before ents l = Inr (acts, l')" and "behaviour_ok bh"
    and "subseq (before @ map fst ents) (el_fd_rules l)"
  shows "extends l l' \<and> one_call (\<lambda>i. \<exists>e\<in>set ents. br_id (fst e) = i \<and> poll_serves e) acts"
  using assms(1,3)
proof (induction ents arbitrary: before l acts)
  case Nil
  then show ?case by (auto intro: extends_rules)
next
  case (Cons e rest)
  obtain r events revents where e: "e = (r, events, revents)" by (cases e)
  let ?c = "el_context l" and ?err = "revents AND (POLLERR OR POLLNVAL) \<noteq> 0"
    and ?ready = "revents AND events \<noteq> 0" and ?hup = "revents AND POLLHUP \<noteq> 0"
  let ?P = "\<lambda>i. \<exists>e\<in>set (e # rest). br_id (fst e) = i \<and> poll_serves e"
  have sub: "subseq (before @ map fst rest) (el_fd_rules l)"
    using Cons.prems(2) subseq_skip[of before "map fst rest" r] unfolding e by simp
  have drop: "extends l l' \<and> one_call ?P acts1"
    if "requests_kept ?c c1" "dispatch_loop bh sockopt before rest (l\<lparr>el_context := c1\<rparr>) = Inr (acts1, l')"
      "extends (l\<lparr>el_context := c1\<rparr>) l' \<and> one_call (\<lambda>i. \<exists>e\<in>set rest. br_id (fst e) = i \<and> poll_serves e) acts1" for c1 acts1
    using that extends_context[OF that(1)] by (auto intro: extends_trans elim!: one_call_mono)
  consider (err) ?err | (hup) "\<not> ?err" "?hup \<and> (events \<noteq> 0 \<and> \<not> ?ready \<or> fr_direction r = Out)"
    | (ready) "\<not> ?err" "\<not> (?hup \<and> (events \<noteq> 0 \<and> \<not> ?ready \<or> fr_direction r = Out))" ?ready
    | (skip) "\<not> ?err" "\<not> (?hup \<and> (events \<noteq> 0 \<and> \<not> ?ready \<or> fr_direction r = Out))" "\<not> ?ready"
    by blast
  then show ?case
  proof cases
    case err
    with Cons.prems(1)[unfolded e] obtain c1 c2 acts1 where
      k: "poll_error_check (sockopt (fw_fd (el_fds ?c (fr_fd r)))) = Inr ()" "bh_error bh (br_id r) ?c = Inr c1" "bh_cancel bh (br_id r) c1 = Inr c2"
      and d: "dispatch_loop bh sockopt before rest (l\<lparr>el_context := c2\<rparr>) = Inr (acts1, l')"
      and a: "acts = Errored (br_id r) # Cancelled (br_id r) # acts1"
      by (simp add: rbind_Inr_iff Let_def split: prod.splits) blast
    have "requests_kept ?c c2"
      using behaviour_okD(2,3)[OF assms(2)] k by (blast intro: requests_kept_trans)
    from drop[OF this d] Cons.IH[OF d] sub a show ?thesis by simp
  next
    case hup
    with Cons.prems(1)[unfolded e] obtain c1 acts1 where k: "bh_cancel bh (br_id r) ?c = Inr c1"
      and d: "dispatch_loop bh sockopt before rest (l\<lparr>el_context := c1\<rparr>) = Inr (acts1, l')"
      and a: "acts = Cancelled (br_id r) # acts1"
      by (simp add: rbind_Inr_iff Let_def split: prod.splits) blast
    from drop[OF behaviour_okD(2)[OF assms(2) k] d] Cons.IH[OF d] sub a
    show ?thesis by simp
  next
    case ready
    let ?l = "l\<lparr>el_fd_rules := before @ r # map fst rest\<rparr>"
    from ready Cons.prems(1)[unfolded e] obtain l1 where k: "bh_callback bh (br_id r) ?l = Inr l1" and "l' = l1" "acts = [Called (br_id r)]"
      by (auto simp: rbind_Inr_iff Let_def split: if_splits)
    moreover have "extends l ?l" using Cons.prems(2) by (intro extends_rules) (simp add: e)
    moreover have "poll_serves (r, events, revents)"
      using ready by (cases "fr_direction r") (auto simp: poll_serves_def)
    ultimately show ?thesis using behaviour_okD(1)[OF assms(2) k] by (auto simp: e intro: extends_trans)
  next
    case skip
    with Cons.prems(1)[unfolded e] have "dispatch_loop bh sockopt (before @ [r]) rest l = Inr (acts, l')"
      by (auto simp: Let_def)
    from Cons.IH[OF this] Cons.prems(2) show ?thesis
      by (auto simp: e elim!: one_call_mono)
  qed
qed

section \<open>Rounds\<close>

text \<open>
  The two ways a round goes: a rule without a descriptor is served, or none fires and the
  descriptors are polled.
\<close>

lemma wait_next_event_cases:
  assumes "wait_next_event bh poll sockopt t l = Inr (res, acts, l')" and "behaviour_ok bh"
  obtains (fired) r n where "r \<in> set (el_non_fd_rules l)" "acts = replicate n (Called (br_id r))" "0 < n" "n \<le> 128"
      "\<not> el_cancel_requested (el_context l) (br_id r)" "res = Success" "extends l l'"
  | (polled) l1 rules pollfds something acts1 c where
      "l1 = l\<lparr>el_non_fd_rules := filter (\<lambda>r. \<not> el_cancel_requested (el_context l) (br_id r)) (el_non_fd_rules l)\<rparr>"
      "extends l l1" "\<forall>r\<in>set (el_non_fd_rules l1). \<not> bh_interest bh (br_id r) (el_context l)"
      "setup_loop bh (el_fd_rules l) (el_context l) = Inr (rules, pollfds, something, acts1, c)"
      "(\<not> something \<and> res = Exit \<or> something \<and> res = Timeout) \<and> acts = acts1 \<and> l' = l1\<lparr>el_fd_rules := rules, el_context := c\<rparr>
       \<or> something \<and> res = Success \<and> (\<exists>revents acts2. acts = acts1 @ acts2 \<and>
           dispatch_loop bh sockopt [] (zip rules (zip (map snd pollfds) revents)) (l1\<lparr>el_fd_rules := rules, el_context := c\<rparr>) = Inr (acts2, l'))"
proof -
  obtain f a1 l1 where n: "non_fd_loop [] bh [] (el_non_fd_rules l) l = Inr (f, a1, l1)"
    using assms(1) by (auto simp: wait_next_event_def rbind_Inr_iff)
  note ok = non_fd_loop_ok[OF n assms(2)]
  show thesis
  proof (cases f)
    case True
    with n assms(1) ok that(1) show thesis by (auto simp: wait_next_event_def)
  next
    case False
    with ok have l1: "l1 = l\<lparr>el_non_fd_rules := filter (\<lambda>r. \<not> el_cancel_requested (el_context l) (br_id r)) (el_non_fd_rules l)\<rparr>"
      "extends l l1" "\<forall>r\<in>set (el_non_fd_rules l1). \<not> bh_interest bh (br_id r) (el_context l)"
      by auto
    have e: "el_fd_rules l1 = el_fd_rules l" "el_context l1 = el_context l" by (simp_all add: l1(1))
    from False n assms(1) obtain rules pollfds something acts1 c where
      s: "setup_loop bh (el_fd_rules l) (el_context l) = Inr (rules, pollfds, something, acts1, c)"
      by (auto simp: wait_next_event_def rbind_Inr_iff e)
    from False n assms(1) s have "(\<not> something \<and> res = Exit \<or> something \<and> res = Timeout) \<and> acts = acts1 \<and> l' = l1\<lparr>el_fd_rules := rules, el_context := c\<rparr>
       \<or> something \<and> res = Success \<and> (\<exists>revents acts2. acts = acts1 @ acts2 \<and>
           dispatch_loop bh sockopt [] (zip rules (zip (map snd pollfds) revents)) (l1\<lparr>el_fd_rules := rules, el_context := c\<rparr>) = Inr (acts2, l'))"
      by (auto simp: wait_next_event_def rbind_Inr_iff e Let_def split: if_splits syscall.splits prod.splits)
    from that(2)[OF l1 s this] show thesis .
  qed
qed

lemma map_fst_zip_subseq: "subseq (map fst (zip xs ys)) xs"
  by (metis map_fst_zip_take prefix_imp_subseq take_is_prefix)

text \<open>Every round extends the loop and calls rules that were there and not asked to cancel, one rule at most.\<close>

definition callable :: "('w, 'z) event_loop_scheme \<Rightarrow> nat \<Rightarrow> bool" where
  "callable l i \<longleftrightarrow> i \<in> set (el_ids l) \<and> \<not> el_cancel_requested (el_context l) i"

lemma polled_round:
  assumes "l1 = l\<lparr>el_non_fd_rules := nf\<rparr>" and l1: "extends l l1" and ok: "behaviour_ok bh"
    and s: "setup_loop bh (el_fd_rules l) (el_context l) = Inr (rules, pollfds, something, acts1, c)"
  shows "extends l (l1\<lparr>el_fd_rules := rules, el_context := c\<rparr>)"
    and "dispatch_loop bh sockopt [] (zip rules es) (l1\<lparr>el_fd_rules := rules, el_context := c\<rparr>) = Inr (acts2, l') \<Longrightarrow>
      extends l l' \<and> one_call (callable l) acts2"
proof -
  note su = setup_loop_ok[OF s ok]
  let ?l = "l1\<lparr>el_fd_rules := rules, el_context := c\<rparr>"
  have "?l = l1\<lparr>el_fd_rules := rules, el_non_fd_rules := el_non_fd_rules l1, el_context := c\<rparr>" by simp
  moreover have "subseq rules (el_fd_rules l1)" "requests_kept (el_context l1) c" using su by (simp_all add: assms(1))
  ultimately have "extends l1 ?l" using extends_drop[of rules l1 "el_non_fd_rules l1" c] by (metis subseq_order.refl)
  with l1 show l: "extends l ?l" by (rule extends_trans)
  assume d: "dispatch_loop bh sockopt [] (zip rules es) ?l = Inr (acts2, l')"
  have "extends ?l l'" and one: "one_call (\<lambda>i. \<exists>e\<in>set (zip rules es). br_id (fst e) = i \<and> poll_serves e) acts2"
    using dispatch_loop_ok[OF d ok] map_fst_zip_subseq[of rules] by auto
  moreover have "callable l (br_id r)" if "r \<in> set rules" for r
    using that su by (auto simp: callable_def el_ids_def dest: list_emb_set)
  ultimately show "extends l l' \<and> one_call (callable l) acts2"
    using l by (auto intro: extends_trans elim!: one_call_mono dest: set_zip_leftD)
qed

lemma wait_next_event_calls:
  assumes w: "wait_next_event bh poll sockopt t l = Inr (res, acts, l')" and ok: "behaviour_ok bh"
  shows "extends l l' \<and> (one_call (callable l) acts \<or> (\<exists>i n. callable l i \<and> n \<le> 128 \<and> acts = replicate n (Called i)))"
  using w ok
proof (cases rule: wait_next_event_cases)
  case fired
  then show ?thesis by (auto simp: callable_def el_ids_def)
next
  case (polled l1 rules pollfds something acts1 c)
  note a = polled_round[OF polled(1,2) ok polled(4)]
  have "not_called acts1" using setup_loop_ok[OF polled(4) ok] by simp
  with polled(5) a show ?thesis by (auto simp: one_call_append) (auto simp: one_call_def)
qed

section \<open>The contract of an event loop\<close>

text \<open>
  What the users of an event loop rely on, whatever system call it waits with: in a well-formed
  state a step does not call a rule that was asked to cancel, and the request stands.  A rule asked
  to cancel is then never called again.
\<close>

inductive steps :: "('s \<Rightarrow> el_action list \<Rightarrow> 's \<Rightarrow> bool) \<Rightarrow> 's \<Rightarrow> el_action list \<Rightarrow> 's \<Rightarrow> bool" for step where
  steps_refl: "steps step s [] s"
| steps_step: "step s acts s' \<Longrightarrow> steps step s' acts' s'' \<Longrightarrow> steps step s (acts @ acts') s''"

locale dispatcher =
  fixes ok :: "'s \<Rightarrow> bool" and asked :: "'s \<Rightarrow> nat \<Rightarrow> bool" and exists_rule :: "'s \<Rightarrow> nat \<Rightarrow> bool"
    and step :: "'s \<Rightarrow> el_action list \<Rightarrow> 's \<Rightarrow> bool"
  assumes step_ok: "ok s \<Longrightarrow> step s acts s' \<Longrightarrow> ok s'"
    and asked_kept: "ok s \<Longrightarrow> step s acts s' \<Longrightarrow> exists_rule s i \<Longrightarrow> asked s i \<Longrightarrow> exists_rule s' i \<and> asked s' i"
    and not_called_when_asked: "ok s \<Longrightarrow> step s acts s' \<Longrightarrow> asked s i \<Longrightarrow> Called i \<notin> set acts"
begin

lemma asked_never_called:
  "steps step s acts s' \<Longrightarrow> ok s \<Longrightarrow> exists_rule s i \<Longrightarrow> asked s i \<Longrightarrow> Called i \<notin> set acts"
  by (induction rule: steps.induct) (auto dest: step_ok asked_kept not_called_when_asked)

end

text \<open>
  A step of a program that uses the loop of \<^verbatim>\<open>eventloop.cc\<close>: a round, with whatever the system calls
  return, or anything between rounds that only uses the public operations.
\<close>

inductive poll_step :: "('w, unit) el_behaviour \<Rightarrow> 'w event_loop \<Rightarrow> el_action list \<Rightarrow> 'w event_loop \<Rightarrow> bool" for bh where
  poll_round: "wait_next_event bh poll sockopt t l = Inr (res, acts, l') \<Longrightarrow> poll_step bh l acts l'"
| poll_use: "extends l l' \<Longrightarrow> poll_step bh l [] l'"

lemma poll_step_calls:
  assumes "poll_step bh l acts l'" and "behaviour_ok bh"
  shows "extends l l'" and "Called i \<in> set acts \<Longrightarrow> callable l i"
  using assms
  by (induction rule: poll_step.induct) (use wait_next_event_calls one_call_Called in fastforce)+

interpretation poll_loop: dispatcher "\<lambda>l. behaviour_ok bh \<and> el_wf l" "\<lambda>l. el_cancel_requested (el_context l)"
  "\<lambda>l i. i < el_next_id l" "poll_step bh" for bh :: "('w, unit) el_behaviour"
proof (unfold_locales, goal_cases)
  case (1 s acts s')
  then show ?case using poll_step_calls(1)[of bh s acts s'] by (simp add: extends_def)
next
  case (2 s acts s' i)
  then show ?case using poll_step_calls(1)[of bh s acts s'] by (auto simp: extends_def)
next
  case (3 s acts s' i)
  then show ?case using poll_step_calls(2)[of bh s acts s' i] by (auto simp: callable_def)
qed

text \<open>
  A rule that was asked to cancel is never called again by the loop that polls, however many
  rounds follow, whatever \<^verbatim>\<open>poll\<close> and \<^verbatim>\<open>getsockopt\<close> return and whatever the callbacks do with the public
  operations of the loop.
\<close>

theorem poll_cancelled_never_called:
  assumes "behaviour_ok bh" and "el_wf l" and "i < el_next_id l" and "el_cancel_requested (el_context l) i"
    and "steps (poll_step bh) l acts l'"
  shows "Called i \<notin> set acts"
  using poll_loop.asked_never_called[OF assms(5)] assms by blast

text \<open>
  Two rules on the same open socket, which read and do nothing but count; the first one is asked to cancel.
\<close>

definition quiet_fd :: fd_wrapper where
  "quiet_fd = \<lparr>fw_fd = 7, fw_eof = False, fw_closed = False, fw_non_blocking = True, fw_read_count = 0, fw_write_count = 0\<rparr>"

definition reading :: "(nat, unit) el_behaviour" where
  "reading = \<lparr>bh_interest = (\<lambda>i c. True),
     bh_callback = (\<lambda>i l. Inr (l\<lparr>el_context := (el_context l)\<lparr>el_world := el_world (el_context l) + 1,
        el_fds := (\<lambda>n. quiet_fd\<lparr>fw_read_count := fw_read_count (el_fds (el_context l) n) + 1\<rparr>)\<rparr>\<rparr>)),
     bh_cancel = (\<lambda>i c. Inr c), bh_error = (\<lambda>i c. Inr c)\<rparr>"

definition two_readers :: "nat event_loop" where
  "two_readers = \<lparr>el_context = \<lparr>el_fds = (\<lambda>n. quiet_fd), el_cancel_requested = (\<lambda>i. i = 0), el_world = 0\<rparr>,
     el_rule_categories = [''read''],
     el_fd_rules = [\<lparr>br_id = 0, br_category_id = 0, fr_fd = 0, fr_direction = In\<rparr>,
                    \<lparr>br_id = 1, br_category_id = 0, fr_fd = 0, fr_direction = In\<rparr>],
     el_non_fd_rules = [], el_next_id = 2\<rparr>"

lemma reading_ok: "behaviour_ok reading"
  by (auto simp: behaviour_ok_def reading_def intro!: extends_context simp: requests_kept_def)

lemma two_readers_wf: "el_wf two_readers"
  by (simp add: el_wf_def el_ids_def category_ok_def two_readers_def)

lemma two_readers_round:
  "wait_next_event reading (\<lambda>p t. Returned (1, [1])) (\<lambda>fd. Failed 88) 0 two_readers = Inr (Success, [Called 1],
     two_readers\<lparr>el_fd_rules := tl (el_fd_rules two_readers), el_context := (el_context two_readers)\<lparr>el_world := 1,
        el_fds := (\<lambda>n. quiet_fd\<lparr>fw_read_count := 1\<rparr>)\<rparr>\<rparr>)"
  by (simp add: wait_next_event_def two_readers_def reading_def quiet_fd_def setup_loop_Cons fd_dead_def direction_event_def
      POLLIN_def POLLERR_def POLLNVAL_def POLLHUP_def Let_def service_count_def)

lemma two_readers_step:
  "poll_step reading two_readers [Called 1]
     (two_readers\<lparr>el_fd_rules := tl (el_fd_rules two_readers), el_context := (el_context two_readers)\<lparr>el_world := 1,
        el_fds := (\<lambda>n. quiet_fd\<lparr>fw_read_count := 1\<rparr>)\<rparr>\<rparr>)"
  using poll_step.poll_round[OF two_readers_round] .

theorem poll_cancelled_never_called_witness:
  "behaviour_ok reading \<and> el_wf two_readers \<and> el_cancel_requested (el_context two_readers) 0 \<and> Called 0 \<notin> set ([Called 1] @ [])"
proof -
  have "steps (poll_step reading) two_readers ([Called 1] @ [])
     (two_readers\<lparr>el_fd_rules := tl (el_fd_rules two_readers), el_context := (el_context two_readers)\<lparr>el_world := 1,
        el_fds := (\<lambda>n. quiet_fd\<lparr>fw_read_count := 1\<rparr>)\<rparr>\<rparr>)"
    by (intro steps_step[where step = "poll_step reading", OF two_readers_step] steps_refl)
  from poll_cancelled_never_called[OF reading_ok two_readers_wf _ _ this, of 0] reading_ok two_readers_wf show ?thesis
    by (simp add: two_readers_def)
qed

text \<open>How a round ends: no call without \<^verbatim>\<open>Success\<close>, and \<^verbatim>\<open>Exit\<close> when nothing is left that is interested.\<close>

lemma wait_next_event_results:
  assumes w: "wait_next_event bh poll sockopt t l = Inr (res, acts, l')" and ok: "behaviour_ok bh" and res: "res \<noteq> Success"
  shows "not_called acts
    \<and> (res = Exit \<and> acts = [] \<longrightarrow>
         (\<forall>r\<in>set (el_fd_rules l'). \<not> bh_interest bh (br_id r) (el_context l')) \<and>
         (\<forall>r\<in>set (el_non_fd_rules l'). \<not> bh_interest bh (br_id r) (el_context l')))"
  using w ok
proof (cases rule: wait_next_event_cases)
  case (fired r n)
  then show ?thesis using res by simp
next
  case (polled l1 rules pollfds something acts1 c)
  note su = setup_loop_ok[OF polled(4) ok]
  have l': "acts = acts1" "l' = l1\<lparr>el_fd_rules := rules, el_context := c\<rparr>" "res = Exit \<longleftrightarrow> \<not> something"
    using polled(5) res by auto
  have "(\<forall>r\<in>set rules. \<not> bh_interest bh (br_id r) c) \<and> c = el_context l" if "\<not> something" "acts1 = []"
  proof -
    have "c = el_context l" and p: "pollfds = map (poll_entry bh (el_context l)) rules"
      using setup_loop_clean polled(4) that(2) by blast+
    moreover have "\<not> (\<exists>p\<in>set pollfds. snd p \<noteq> 0)" using su that(1) by simp
    ultimately show ?thesis unfolding p set_map bex_simps poll_entry_asks by simp
  qed
  with su l' polled(3) show ?thesis by auto
qed

fun is_call :: "el_action \<Rightarrow> bool" where
  "is_call (Called i) = True"
| "is_call _ = False"

lemma filter_not_called: "not_called acts \<Longrightarrow> filter is_call acts = []"
  unfolding not_called_def filter_empty_conv by (metis is_call.elims(2))

lemma filter_one_call: "one_call P acts \<Longrightarrow> \<exists>i n. filter is_call acts = replicate n (Called i) \<and> n \<le> 1 \<and> (n = 0 \<or> P i)"
proof -
  assume "one_call P acts"
  then consider "not_called acts" | i acts' where "P i" "acts = acts' @ [Called i]" "not_called acts'"
    by (auto simp: one_call_def)
  then show ?thesis
  proof cases
    case 1
    then show ?thesis by (simp add: filter_not_called)
  next
    case (2 i acts')
    then have "filter is_call acts = replicate 1 (Called i) \<and> 1 \<le> (1::nat) \<and> (1 = (0::nat) \<or> P i)"
      by (simp add: filter_not_called)
    then show ?thesis by blast
  qed
qed



text \<open>A program in which an error on one descriptor cancels the rule on another.\<close>

definition cancelling :: "(bool, unit) el_behaviour" where
  "cancelling = \<lparr>bh_interest = (\<lambda>i c. True),
     bh_callback = (\<lambda>i l. Inr (l\<lparr>el_context := (el_context l)\<lparr>el_world := el_cancel_requested (el_context l) i,
        el_fds := (\<lambda>n. quiet_fd\<lparr>fw_read_count := 1\<rparr>)\<rparr>\<rparr>)),
     bh_cancel = (\<lambda>i c. Inr c), bh_error = (\<lambda>i c. Inr (RuleHandle_cancel 1 c))\<rparr>"

definition two_rules :: "bool event_loop" where
  "two_rules = \<lparr>el_context = \<lparr>el_fds = (\<lambda>n. quiet_fd), el_cancel_requested = (\<lambda>i. False), el_world = False\<rparr>,
     el_rule_categories = [''read''],
     el_fd_rules = [\<lparr>br_id = 0, br_category_id = 0, fr_fd = 0, fr_direction = In\<rparr>,
                    \<lparr>br_id = 1, br_category_id = 0, fr_fd = 1, fr_direction = In\<rparr>],
     el_non_fd_rules = [], el_next_id = 2\<rparr>"

text \<open>
  The first rule's error function cancels the second rule, as the last one left on a connection
  might be; both descriptors come back from \<^verbatim>\<open>poll\<close>, one with an error and one ready.  The second rule's
  callback runs in the same round, after the request: \<open>el_world\<close> records whether it saw its own
  request.  A program that frees what the callback captured when it cancels, as a comment in the
  loop suggests, is called on freed objects.
\<close>

theorem poll_calls_cancelled_rule:
  "case wait_next_event cancelling (\<lambda>p t. Returned (2, [POLLERR, POLLIN])) (\<lambda>fd. Returned (111, 4)) 0 two_rules of
     Inl e \<Rightarrow> False
   | Inr (res, acts, l) \<Rightarrow> res = Success \<and> acts = [Errored 0, Cancelled 0, Called 1] \<and> el_world (el_context l)"
  by (simp add: wait_next_event_def two_rules_def cancelling_def quiet_fd_def setup_loop_Cons fd_dead_def direction_event_def
      POLLIN_def POLLERR_def POLLNVAL_def POLLHUP_def Let_def service_count_def RuleHandle_cancel_def)

section \<open>Invariants of the program\<close>

text \<open>
  Between the moment when a rule was found interested and its callback, cancel and error functions of
  other rules may have run: \<open>told\<close>.  A property of the context that all functions keep, callbacks under
  that condition, holds after a round if it held before.
\<close>

inductive told :: "('w, 'l) behaviour \<Rightarrow> 'w el_context \<Rightarrow> 'w el_context \<Rightarrow> bool" for bh where
  told_refl: "told bh c c"
| told_cancel: "told bh c c' \<Longrightarrow> bh_cancel bh i c' = Inr c'' \<Longrightarrow> told bh c c''"
| told_error: "told bh c c' \<Longrightarrow> bh_error bh i c' = Inr c'' \<Longrightarrow> told bh c c''"

lemma told_trans: "told bh c' c'' \<Longrightarrow> told bh c c' \<Longrightarrow> told bh c c''"
  by (induction rule: told.induct) (auto intro: told.intros)

definition wanted :: "('w, 'l) behaviour \<Rightarrow> ('w el_context \<Rightarrow> bool) \<Rightarrow> nat \<Rightarrow> 'w el_context \<Rightarrow> bool" where
  "wanted bh P i c \<longleftrightarrow> (\<exists>c0. P c0 \<and> bh_interest bh i c0 \<and> told bh c0 c)"

lemma wanted_told: "wanted bh P i c \<Longrightarrow> told bh c c' \<Longrightarrow> wanted bh P i c'"
  unfolding wanted_def using told_trans by blast

definition poll_keeps :: "('w, 'z) el_behaviour \<Rightarrow> ('w el_context \<Rightarrow> bool) \<Rightarrow> bool" where
  "poll_keeps bh P \<longleftrightarrow>
     (\<forall>i l l'. P (el_context l) \<and> wanted bh P i (el_context l) \<and> bh_callback bh i l = Inr l' \<longrightarrow> P (el_context l'))
     \<and> (\<forall>i c c'. P c \<and> bh_cancel bh i c = Inr c' \<longrightarrow> P c') \<and> (\<forall>i c c'. P c \<and> bh_error bh i c = Inr c' \<longrightarrow> P c')"

lemma poll_keepsD:
  assumes "poll_keeps bh P"
  shows "P (el_context l) \<Longrightarrow> wanted bh P i (el_context l) \<Longrightarrow> bh_callback bh i l = Inr l' \<Longrightarrow> P (el_context l')"
    and "P c \<Longrightarrow> bh_cancel bh i c = Inr c' \<Longrightarrow> P c'" and "P c \<Longrightarrow> bh_error bh i c = Inr c' \<Longrightarrow> P c'"
  using assms unfolding poll_keeps_def by blast+

lemma told_keeps: "told bh c c' \<Longrightarrow> poll_keeps bh P \<Longrightarrow> P c \<Longrightarrow> P c'"
  by (induction rule: told.induct) (auto dest: poll_keepsD)

lemma serve_rule_poll_keeps:
  "poll_keeps bh P \<Longrightarrow> serve_rule pre bh r k l = Inr (n, l') \<Longrightarrow> P (el_context l) \<Longrightarrow> P (el_context l')"
proof (induction pre bh r k l rule: serve_rule.induct)
  case (1 pre bh r k l)
  show ?case
  proof (cases "bh_interest bh (br_id r) (el_context l)")
    case False
    with 1 show ?thesis by (simp add: serve_rule.simps)
  next
    case True
    then obtain l1 where k: "k < 128" and cb: "bh_callback bh (br_id r) l = Inr l1" and rec: "serve_rule pre bh r (k + 1) l1 = Inr (n, l')"
      using "1.prems"(2) by (subst (asm) serve_rule.simps) (auto split: if_splits sum.splits)
    have "wanted bh P (br_id r) (el_context l)" using True told_refl "1.prems"(3) unfolding wanted_def by blast
    with k cb rec show ?thesis using "1.IH"[of l1] True "1.prems" poll_keepsD(1)[OF "1.prems"(1), of l _ l1] by simp
  qed
qed

lemma non_fd_loop_poll_keeps:
  "poll_keeps bh P \<Longrightarrow> non_fd_loop pre bh before rest l = Inr (f, acts, l') \<Longrightarrow> P (el_context l) \<Longrightarrow> P (el_context l')"
  by (induction pre bh before rest l arbitrary: acts rule: non_fd_loop.induct)
    (auto simp: rbind_Inr_iff split: if_splits dest: serve_rule_poll_keeps)

lemma setup_loop_told: "setup_loop bh rs c = Inr (rules, pollfds, sth, acts, c') \<Longrightarrow> told bh c c'"
proof (induction rs arbitrary: c rules pollfds sth acts)
  case Nil
  then show ?case by (auto intro: told_refl)
next
  case (Cons r rs)
  then show ?case
    by (force simp: setup_loop_Cons rbind_Inr_iff split: if_splits intro: told_trans[OF _ told_cancel[OF told_refl]])
qed

lemma setup_loop_wanted:
  "setup_loop bh rs c = Inr (rules, pollfds, sth, acts, c') \<Longrightarrow> poll_keeps bh P \<Longrightarrow> P c \<Longrightarrow>
    told bh c c' \<and> list_all2 (\<lambda>r e. snd e \<noteq> 0 \<longrightarrow> wanted bh P (br_id r) c') rules pollfds"
proof (induction rs arbitrary: c rules pollfds sth acts)
  case Nil
  then show ?case by (auto intro: told_refl)
next
  case (Cons r rs)
  let ?w = "el_fds c (fr_fd r)"
  consider (asked) "el_cancel_requested c (br_id r)"
    | (dead) "\<not> el_cancel_requested c (br_id r)" "fr_direction r = In \<and> fw_eof ?w \<or> fw_closed ?w"
    | (live) "\<not> el_cancel_requested c (br_id r)" "\<not> (fr_direction r = In \<and> fw_eof ?w \<or> fw_closed ?w)"
    by blast
  then show ?case
  proof cases
    case asked
    with Cons show ?thesis by (simp add: setup_loop_Cons)
  next
    case dead
    then have "rbind (bh_cancel bh (br_id r) c) (\<lambda>c. rbind (setup_loop bh rs c) (\<lambda>(rules, pollfds, something, acts, c).
        Inr (rules, pollfds, something, Cancelled (br_id r) # acts, c))) = Inr (rules, pollfds, sth, acts, c')"
      using Cons.prems by (simp only: setup_loop.simps Let_def if_True if_False)
    then obtain c1 acts1 where c1: "bh_cancel bh (br_id r) c = Inr c1" "setup_loop bh rs c1 = Inr (rules, pollfds, sth, acts1, c')"
      by (auto simp: rbind_Inr_iff)
    from Cons.IH[OF c1(2) Cons.prems(2) poll_keepsD(2)[OF Cons.prems(2,3) c1(1)]] told_cancel[OF told_refl c1(1)] show ?thesis using told_trans by blast
  next
    case live
    then obtain rules1 pollfds1 sth1 where s: "setup_loop bh rs c = Inr (rules1, pollfds1, sth1, acts, c')"
      and r: "rules = r # rules1"
        "pollfds = (fw_fd ?w, if bh_interest bh (br_id r) c then direction_event (fr_direction r) else 0) # pollfds1"
      using Cons.prems by (auto simp: setup_loop_Cons fd_dead_def rbind_Inr_iff split: if_splits)
    from Cons.IH[OF s Cons.prems(2,3)] Cons.prems(3) show ?thesis using r by (auto simp: wanted_def)
  qed
qed

lemma dispatch_loop_keeps:
  assumes k: "poll_keeps bh P"
  shows "dispatch_loop bh sockopt before es l = Inr (acts, l') \<Longrightarrow> P (el_context l) \<Longrightarrow>
    \<forall>(r, events, revents)\<in>set es. events \<noteq> 0 \<longrightarrow> wanted bh P (br_id r) (el_context l) \<Longrightarrow> P (el_context l')"
proof (induction es arbitrary: before l acts)
  case Nil
  then show ?case by auto
next
  case (Cons e rest)
  obtain r events revents where e: "e = (r, events, revents)" by (cases e)
  have go_on: "P (el_context l')" if "dispatch_loop bh sockopt b rest l1 = Inr (a, l')" "told bh (el_context l) (el_context l1)" for b l1 a
    using Cons.IH[OF that(1)] told_keeps[OF that(2) k Cons.prems(2)] Cons.prems(3) wanted_told[OF _ that(2)] by fastforce
  let ?err = "revents AND (POLLERR OR POLLNVAL) \<noteq> 0" and ?rdy = "revents AND events \<noteq> 0"
  let ?hup = "revents AND POLLHUP \<noteq> 0 \<and> (events \<noteq> 0 \<and> \<not> ?rdy \<or> fr_direction r = Out)"
  consider (err) ?err | (hup) "\<not> ?err" ?hup | (rdy) "\<not> ?err" "\<not> ?hup" ?rdy | (skip) "\<not> ?err" "\<not> ?hup" "\<not> ?rdy" by blast
  then show ?case
  proof cases
    case err
    with Cons.prems(1) e obtain c1 c2 a where c: "bh_error bh (br_id r) (el_context l) = Inr c1" "bh_cancel bh (br_id r) c1 = Inr c2"
      "dispatch_loop bh sockopt before rest (l\<lparr>el_context := c2\<rparr>) = Inr (a, l')" by (auto simp: Let_def rbind_Inr_iff)
    from told_cancel[OF told_error[OF told_refl c(1)] c(2)] show ?thesis by (intro go_on[OF c(3)]) simp
  next
    case hup
    with Cons.prems(1) e obtain c1 a where c: "bh_cancel bh (br_id r) (el_context l) = Inr c1"
      "dispatch_loop bh sockopt before rest (l\<lparr>el_context := c1\<rparr>) = Inr (a, l')" by (auto simp: Let_def rbind_Inr_iff)
    from told_cancel[OF told_refl c(1)] show ?thesis by (intro go_on[OF c(2)]) simp
  next
    case rdy
    with Cons.prems(1) e have cb: "bh_callback bh (br_id r) (l\<lparr>el_fd_rules := before @ r # map fst rest\<rparr>) = Inr l'"
      by (auto simp: Let_def rbind_Inr_iff split: if_splits)
    have "events \<noteq> 0" using rdy by auto
    then have "wanted bh P (br_id r) (el_context l)" using Cons.prems(3) e by simp
    then show ?thesis using poll_keepsD(1)[OF k _ _ cb] Cons.prems(2) by simp
  next
    case skip
    with Cons.prems(1) e have "dispatch_loop bh sockopt (before @ [r]) rest l = Inr (acts, l')" by (auto simp: Let_def)
    then show ?thesis by (rule go_on) (rule told_refl)
  qed
qed

lemma poll_round_keeps:
  assumes k: "poll_keeps bh P" and w: "wait_next_event bh poll sockopt t l = Inr (res, acts, l')" and "P (el_context l)"
  shows "P (el_context l')"
proof -
  obtain f a1 l1 where n: "non_fd_loop [] bh [] (el_non_fd_rules l) l = Inr (f, a1, l1)"
    and rest: "(if f then Inr (Success, a1, l1) else
       rbind (setup_loop bh (el_fd_rules l1) (el_context l1)) (\<lambda>(rules, pollfds, something_to_poll, acts, c).
       let l = l1\<lparr>el_fd_rules := rules, el_context := c\<rparr>
       in if \<not> something_to_poll then Inr (Exit, acts, l)
          else case poll pollfds t of
                 Failed errno \<Rightarrow> Inl (Unix_Error ''poll'' errno)
               | Returned (n, revents) \<Rightarrow>
                   if n = 0 then Inr (Timeout, acts, l)
                   else rbind (dispatch_loop bh sockopt [] (zip rules (zip (map snd pollfds) revents)) l) (\<lambda>(acts', l).
                        Inr (Success, acts @ acts', l)))) = Inr (res, acts, l')"
    using w unfolding wait_next_event_def rbind_Inr_iff by auto
  have P1: "P (el_context l1)" using non_fd_loop_poll_keeps[OF k n assms(3)] .
  show ?thesis
  proof (cases f)
    case True
    then show ?thesis using rest P1 by simp
  next
    case False
    with rest obtain rules pollfds sth a2 c where s: "setup_loop bh (el_fd_rules l1) (el_context l1) = Inr (rules, pollfds, sth, a2, c)"
      by (auto simp: rbind_Inr_iff)
    note ws = setup_loop_wanted[OF s k P1]
    have Pc: "P c" using told_keeps[OF conjunct1[OF ws] k P1] .
    from False rest s consider "el_context l' = c"
      | revents a where "dispatch_loop bh sockopt [] (zip rules (zip (map snd pollfds) revents)) (l1\<lparr>el_fd_rules := rules, el_context := c\<rparr>) = Inr (a, l')"
      by (auto simp: Let_def rbind_Inr_iff split: if_splits syscall.splits prod.splits)
    then show ?thesis
    proof cases
      case 1
      then show ?thesis using Pc by simp
    next
      case (2 revents a)
      have "wanted bh P (br_id r) c" if "(r, ev, rev) \<in> set (zip rules (zip (map snd pollfds) revents))" "ev \<noteq> 0" for r ev rev
      proof -
        from that(1) obtain i where "i < length rules" "i < length pollfds" "rules ! i = r" "snd (pollfds ! i) = ev"
          by (auto simp: set_zip)
        with that(2) ws show ?thesis by (auto simp: list_all2_conv_all_nth)
      qed
      then show ?thesis using dispatch_loop_keeps[OF k 2] Pc by auto
    qed
  qed
qed

text \<open>When a round finds nothing to wait for, each rule that is left said so at some point of it.\<close>

lemma setup_loop_idle:
  "setup_loop bh rs c = Inr (rules, pollfds, False, acts, c') \<Longrightarrow>
    \<forall>r\<in>set rules. \<exists>c1. \<not> bh_interest bh (br_id r) c1 \<and> told bh c1 c'"
proof (induction rs arbitrary: c rules pollfds acts)
  case Nil
  then show ?case by simp
next
  case (Cons r rs)
  consider (asked) "el_cancel_requested c (br_id r)"
    | (dead) "\<not> el_cancel_requested c (br_id r)" "fd_dead c r"
    | (live) "\<not> el_cancel_requested c (br_id r)" "\<not> fd_dead c r"
    by blast
  then show ?case
  proof cases
    case asked
    with Cons show ?thesis by (simp add: setup_loop_Cons)
  next
    case dead
    with Cons show ?thesis by (auto simp: setup_loop_Cons rbind_Inr_iff)
  next
    case live
    with Cons.prems obtain rules1 pollfds1 where s: "setup_loop bh rs c = Inr (rules1, pollfds1, False, acts, c')"
      and r: "rules = r # rules1" "\<not> bh_interest bh (br_id r) c"
      by (auto simp: setup_loop_Cons rbind_Inr_iff)
    from Cons.IH[OF s] setup_loop_told[OF s] r show ?thesis by auto
  qed
qed

lemma exit_idle:
  assumes "wait_next_event bh poll sockopt t l = Inr (Exit, acts, l')"
  shows "\<forall>r\<in>set (el_fd_rules l'). \<exists>c1. \<not> bh_interest bh (br_id r) c1 \<and> told bh c1 (el_context l')"
proof -
  obtain f a1 l1 where n: "non_fd_loop [] bh [] (el_non_fd_rules l) l = Inr (f, a1, l1)"
    using assms unfolding wait_next_event_def rbind_Inr_iff by auto
  with assms obtain rules pollfds sth a c where s: "setup_loop bh (el_fd_rules l1) (el_context l1) = Inr (rules, pollfds, sth, a, c)"
    by (auto simp: wait_next_event_def rbind_Inr_iff split: if_splits)
  have "\<not> sth" using assms n s
    by (auto simp: wait_next_event_def rbind_Inr_iff Let_def split: if_splits syscall.splits prod.splits)
  moreover from this have "l' = l1\<lparr>el_fd_rules := rules, el_context := c\<rparr>"
    using assms n s by (auto simp: wait_next_event_def split: if_splits)
  ultimately show ?thesis using setup_loop_idle[of bh "el_fd_rules l1" "el_context l1" rules pollfds a c] s by simp
qed

end
