(* ===== verification/Epoll_Event_Loop.thy ===== *)
theory Epoll_Event_Loop
  imports Event_Loop
begin

text \<open>
  \<^verbatim>\<open>src/util/epoll_eventloop.hh\<close> and \<^verbatim>\<open>epoll_eventloop.cc\<close>: the event loop that waits with \<^verbatim>\<open>epoll\<close>.  Rules,
  categories, handles and the loop over the rules without a descriptor are those of the loop that
  polls (the two classes have them twice, word for word); its state has in addition what is
  registered with the kernel for each descriptor number.  The kernel's set of watched descriptors
  is part of \<open>el_world\<close>; \<^verbatim>\<open>epoll_ctl\<close> and \<^verbatim>\<open>epoll_wait\<close> are parameters.  The map \<^verbatim>\<open>_fd_states\<close> is an association
  list, in the order a traversal visits it.
\<close>

record fd_state =
  fs_registered_events :: u32
  fs_in_epoll :: bool

record 'w epoll_loop = "'w event_loop" +
  ep_fd :: int
  ep_fd_states :: "(int \<times> fd_state) list"

type_synonym 'w epoll_behaviour = "('w, 'w epoll_loop) behaviour"

datatype ctl_op = EPOLL_CTL_ADD | EPOLL_CTL_MOD | EPOLL_CTL_DEL

text \<open>Operation, descriptor, events (none when deleting); the kernel's state is passed.\<close>

type_synonym 'w epoll_ctl = "ctl_op \<Rightarrow> int \<Rightarrow> u32 \<Rightarrow> 'w \<Rightarrow> unit syscall \<times> 'w"

definition EPOLLIN :: u32 where
  "EPOLLIN = 1"

definition EPOLLOUT :: u32 where
  "EPOLLOUT = 4"

definition EPOLLERR :: u32 where
  "EPOLLERR = 8"

definition EPOLLHUP :: u32 where
  "EPOLLHUP = 16"

definition create_epoll_fd :: "int syscall \<Rightarrow> int result" where
  "create_epoll_fd r = (case r of Failed errno \<Rightarrow> Inl (Unix_Error ''epoll_create1'' errno) | Returned fd \<Rightarrow> Inr fd)"

definition EpollEventLoop_new :: "int syscall \<Rightarrow> 'w el_context \<Rightarrow> 'w epoll_loop result" where
  "EpollEventLoop_new r ctx =
     rbind (create_epoll_fd r) (\<lambda>fd. Inr (event_loop.extend (EventLoop_new ctx) \<lparr>ep_fd = fd, ep_fd_states = []\<rparr>))"

definition try_emplace :: "'k \<Rightarrow> 'v \<Rightarrow> ('k \<times> 'v) list \<Rightarrow> ('k \<times> 'v) list" where
  "try_emplace k v m = (case map_of m k of None \<Rightarrow> m @ [(k, v)] | Some _ \<Rightarrow> m)"

definition rule_fd_num :: "'w el_context \<Rightarrow> fd_rule \<Rightarrow> int" where
  "rule_fd_num c r = fw_fd (el_fds c (fr_fd r))"

definition epoll_add_fd_rule :: "u64 \<Rightarrow> nat \<Rightarrow> direction \<Rightarrow> 'w epoll_loop \<Rightarrow> (nat \<times> 'w epoll_loop) result" where
  "epoll_add_fd_rule category_id fd direction l =
     rbind (add_fd_rule category_id fd direction l) (\<lambda>(handle, l).
     Inr (handle, l\<lparr>ep_fd_states :=
       try_emplace (fw_fd (el_fds (el_context l) fd)) \<lparr>fs_registered_events = 0, fs_in_epoll = False\<rparr> (ep_fd_states l)\<rparr>))"

text \<open>The convenience function that adds a category for the rule.\<close>

definition add_rule_named :: "string \<Rightarrow> nat \<Rightarrow> direction \<Rightarrow> 'w epoll_loop \<Rightarrow> 'w epoll_loop result" where
  "add_rule_named name fd direction l =
     rbind (add_category name l) (\<lambda>(category_id, l).
     rbind (epoll_add_fd_rule category_id fd direction l) (\<lambda>(_, l). Inr l))"

section \<open>Registration\<close>

fun desired_events_for_fd :: "('w, 'l) behaviour \<Rightarrow> fd_rule list \<Rightarrow> 'w el_context \<Rightarrow> int \<Rightarrow> u32 \<Rightarrow> u32" where
  "desired_events_for_fd bh [] c fd_num events_mask = events_mask"
| "desired_events_for_fd bh (r # rest) c fd_num events_mask =
     (if el_cancel_requested c (br_id r) \<or> rule_fd_num c r \<noteq> fd_num then desired_events_for_fd bh rest c fd_num events_mask
      else if \<not> bh_interest bh (br_id r) c then desired_events_for_fd bh rest c fd_num events_mask
      else desired_events_for_fd bh rest c fd_num (events_mask OR (if fr_direction r = In then EPOLLIN else EPOLLOUT)))"

text \<open>
  The state found for the descriptor is updated in place; a descriptor with no state does not occur,
  since the caller is traversing the states.
\<close>

definition sync_fd_registration :: "'w epoll_ctl \<Rightarrow> int \<Rightarrow> u32 \<Rightarrow> fd_state \<Rightarrow> 'w \<Rightarrow> (fd_state \<times> 'w) result" where
  "sync_fd_registration ctl fd_num desired st w =
     (if \<not> fs_in_epoll st then
        (case ctl EPOLL_CTL_ADD fd_num desired w of
           (Failed errno, w) \<Rightarrow> Inl (Unix_Error ''epoll_ctl(ADD)'' errno)
         | (Returned _, w) \<Rightarrow> Inr (st\<lparr>fs_in_epoll := True, fs_registered_events := desired\<rparr>, w))
      else if fs_registered_events st = desired then Inr (st, w)
      else
        (case ctl EPOLL_CTL_MOD fd_num desired w of
           (Failed errno, w) \<Rightarrow> Inl (Unix_Error ''epoll_ctl(MOD)'' errno)
         | (Returned _, w) \<Rightarrow> Inr (st\<lparr>fs_registered_events := desired\<rparr>, w)))"

text \<open>Errors of a deletion are ignored.\<close>

definition epoll_delete :: "'w epoll_ctl \<Rightarrow> int \<Rightarrow> fd_state \<Rightarrow> 'w el_context \<Rightarrow> 'w el_context" where
  "epoll_delete ctl fd_num st c = (if fs_in_epoll st then c\<lparr>el_world := snd (ctl EPOLL_CTL_DEL fd_num 0 (el_world c))\<rparr> else c)"

fun sync_loop :: "('w, 'l) behaviour \<Rightarrow> 'w epoll_ctl \<Rightarrow> fd_rule list \<Rightarrow> (int \<times> fd_state) list \<Rightarrow> 'w el_context
    \<Rightarrow> ((int \<times> fd_state) list \<times> 'w el_context) result" where
  "sync_loop bh ctl rules [] c = Inr ([], c)"
| "sync_loop bh ctl rules ((fd_num, st) # rest) c =
     (if \<not> list_ex (\<lambda>r. rule_fd_num c r = fd_num) rules
      then sync_loop bh ctl rules rest (epoll_delete ctl fd_num st c)
      else rbind (sync_fd_registration ctl fd_num (desired_events_for_fd bh rules c fd_num 0) st (el_world c)) (\<lambda>(st, w).
           rbind (sync_loop bh ctl rules rest (c\<lparr>el_world := w\<rparr>)) (\<lambda>(states, c). Inr ((fd_num, st) # states, c))))"

section \<open>A round\<close>

text \<open>The walk over the rules that drops dead ones.\<close>

fun drop_loop :: "('w, 'l) behaviour \<Rightarrow> fd_rule list \<Rightarrow> 'w el_context \<Rightarrow> (fd_rule list \<times> el_action list \<times> 'w el_context) result" where
  "drop_loop bh [] c = Inr ([], [], c)"
| "drop_loop bh (r # rest) c =
     (if el_cancel_requested c (br_id r) then drop_loop bh rest c
      else if fr_direction r = In \<and> fw_eof (el_fds c (fr_fd r)) \<or> fw_closed (el_fds c (fr_fd r))
      then rbind (bh_cancel bh (br_id r) c) (\<lambda>c.
           rbind (drop_loop bh rest c) (\<lambda>(rules, acts, c). Inr (rules, Cancelled (br_id r) # acts, c)))
      else rbind (drop_loop bh rest c) (\<lambda>(rules, acts, c). Inr (r # rules, acts, c)))"

text \<open>An error on a descriptor: every rule on it is told, cancelled and dropped.\<close>

fun fail_rules :: "('w, 'l) behaviour \<Rightarrow> int \<Rightarrow> fd_rule list \<Rightarrow> 'w el_context \<Rightarrow> (fd_rule list \<times> el_action list \<times> 'w el_context) result" where
  "fail_rules bh fd_num [] c = Inr ([], [], c)"
| "fail_rules bh fd_num (r # rest) c =
     (if rule_fd_num c r = fd_num
      then rbind (bh_error bh (br_id r) c) (\<lambda>c.
           rbind (bh_cancel bh (br_id r) c) (\<lambda>c.
           rbind (fail_rules bh fd_num rest c) (\<lambda>(rules, acts, c).
           Inr (rules, Errored (br_id r) # Cancelled (br_id r) # acts, c))))
      else rbind (fail_rules bh fd_num rest c) (\<lambda>(rules, acts, c). Inr (r # rules, acts, c)))"

text \<open>
  The first pass over the events: errors are dealt with; the first event without an error is the one
  to serve (\<open>None\<close> for \<^verbatim>\<open>callback_fd == -1\<close>, which is no descriptor's number).
\<close>

fun error_pass :: "'w epoll_behaviour \<Rightarrow> 'w epoll_ctl \<Rightarrow> (int \<Rightarrow> (int \<times> nat) syscall) \<Rightarrow> (int \<times> u32) option
    \<Rightarrow> (int \<times> u32) list \<Rightarrow> 'w epoll_loop \<Rightarrow> ((int \<times> u32) option \<times> el_action list \<times> 'w epoll_loop) result" where
  "error_pass bh ctl sockopt callback [] l = Inr (callback, [], l)"
| "error_pass bh ctl sockopt callback ((fd_num, revents) # rest) l =
     (if revents AND EPOLLERR \<noteq> 0 then
        rbind (poll_error_check (sockopt fd_num)) (\<lambda>_.
        rbind (fail_rules bh fd_num (el_fd_rules l) (el_context l)) (\<lambda>(rules, acts, c).
        let (states, c) = (case map_of (ep_fd_states l) fd_num of
                             None \<Rightarrow> (ep_fd_states l, c)
                           | Some st \<Rightarrow> (AList.delete fd_num (ep_fd_states l), epoll_delete ctl fd_num st c))
        in rbind (error_pass bh ctl sockopt callback rest (l\<lparr>el_fd_rules := rules, el_context := c, ep_fd_states := states\<rparr>))
             (\<lambda>(callback, acts', l). Inr (callback, acts @ acts', l))))
      else error_pass bh ctl sockopt (case callback of None \<Rightarrow> Some (fd_num, revents) | Some _ \<Rightarrow> callback) rest l)"

text \<open>The second pass, over the rules on the descriptor to serve.\<close>

fun serve_fd :: "'w epoll_behaviour \<Rightarrow> int \<Rightarrow> u32 \<Rightarrow> fd_rule list \<Rightarrow> fd_rule list \<Rightarrow> 'w epoll_loop
    \<Rightarrow> (el_action list \<times> 'w epoll_loop) result" where
  "serve_fd bh callback_fd revents before [] l = Inr ([], l\<lparr>el_fd_rules := before\<rparr>)"
| "serve_fd bh callback_fd revents before (r # rest) l =
     (let c = el_context l;
          dir_in = (fr_direction r = In);
          ready = (dir_in \<and> revents AND EPOLLIN \<noteq> 0 \<or> \<not> dir_in \<and> revents AND EPOLLOUT \<noteq> 0);
          hup = (revents AND EPOLLHUP \<noteq> 0)
      in if rule_fd_num c r \<noteq> callback_fd then serve_fd bh callback_fd revents (before @ [r]) rest l
         else if hup \<and> (\<not> ready \<and> dir_in \<or> \<not> dir_in) then
           rbind (bh_cancel bh (br_id r) c) (\<lambda>c.
           rbind (serve_fd bh callback_fd revents before rest (l\<lparr>el_context := c\<rparr>)) (\<lambda>(acts, l).
           Inr (Cancelled (br_id r) # acts, l)))
         else if ready \<and> bh_interest bh (br_id r) c then
           let l = l\<lparr>el_fd_rules := before @ r # rest\<rparr>;
               count_before = service_count r (el_context l)
           in rbind (bh_callback bh (br_id r) l) (\<lambda>l.
              let c = el_context l
              in if count_before = service_count r c \<and> \<not> fw_closed (el_fds c (fr_fd r)) \<and> bh_interest bh (br_id r) c
                 then Inl (busy_error ''Epoll'' (br_category_id r) '' did not read/write fd and is still interested'' l)
                 else Inr ([Called (br_id r)], l))
         else serve_fd bh callback_fd revents (before @ [r]) rest l)"

text \<open>\<^verbatim>\<open>epoll_wait\<close> gets the timeout and the kernel's state and returns up to 32 descriptors with their events.\<close>

definition epoll_dispatch :: "'w epoll_behaviour \<Rightarrow> 'w epoll_ctl \<Rightarrow> (int \<Rightarrow> (int \<times> nat) syscall) \<Rightarrow> (int \<times> u32) list
    \<Rightarrow> 'w epoll_loop \<Rightarrow> (el_action list \<times> 'w epoll_loop) result" where
  "epoll_dispatch bh ctl sockopt events l =
     rbind (error_pass bh ctl sockopt None events l) (\<lambda>(callback, acts, l).
     case callback of
       None \<Rightarrow> Inr (acts, l)
     | Some (callback_fd, revents) \<Rightarrow>
         rbind (serve_fd bh callback_fd revents [] (el_fd_rules l) l) (\<lambda>(acts', l). Inr (acts @ acts', l)))"

definition epoll_wait_next_event :: "'w epoll_behaviour \<Rightarrow> 'w epoll_ctl \<Rightarrow> (int \<Rightarrow> 'w \<Rightarrow> (int \<times> u32) list syscall)
    \<Rightarrow> (int \<Rightarrow> (int \<times> nat) syscall) \<Rightarrow> int \<Rightarrow> 'w epoll_loop \<Rightarrow> (el_result \<times> el_action list \<times> 'w epoll_loop) result" where
  "epoll_wait_next_event bh ctl wait sockopt timeout_ms l =
     rbind (non_fd_loop ''Epoll'' bh [] (el_non_fd_rules l) l) (\<lambda>(fired, acts, l).
     if fired then Inr (Success, acts, l)
     else
       rbind (drop_loop bh (el_fd_rules l) (el_context l)) (\<lambda>(rules, acts, c).
       rbind (sync_loop bh ctl rules (ep_fd_states l) c) (\<lambda>(states, c).
       let l = l\<lparr>el_fd_rules := rules, el_context := c, ep_fd_states := states\<rparr>
       in if rules = [] then Inr (Exit, acts, l)
          else if \<not> list_ex (\<lambda>(fd_num, st). fs_registered_events st \<noteq> 0) states then Inr (Exit, acts, l)
          else case wait timeout_ms (el_world c) of
                 Failed errno \<Rightarrow> if errno = EINTR then Inr (Success, acts, l) else Inl (Unix_Error ''epoll_wait'' errno)
               | Returned events \<Rightarrow>
                   if events = [] then Inr (Timeout, acts, l)
                   else rbind (epoll_dispatch bh ctl sockopt events l) (\<lambda>(acts', l). Inr (Success, acts @ acts', l)))))"

section \<open>What a round keeps\<close>

text \<open>The walk that drops dead rules is the set-up of the polling loop without the entries for \<^verbatim>\<open>poll\<close>.\<close>

lemma drop_loop_setup:
  "drop_loop bh rs c = rbind (setup_loop bh rs c) (\<lambda>(rules, pollfds, something, acts, c). Inr (rules, acts, c))"
  by (induction rs arbitrary: c)
    (auto simp: setup_loop_Cons fd_dead_def rbind_assoc case_prod_beta intro!: arg_cong[where f = "rbind _"])

lemma drop_loop_ok:
  assumes "drop_loop bh rs c = Inr (rules, acts, c')" and "behaviour_ok bh"
  shows "subseq rules rs \<and> requests_kept c c' \<and> not_called acts \<and> (\<forall>r\<in>set rules. \<not> el_cancel_requested c (br_id r))"
  using assms setup_loop_ok by (fastforce simp: drop_loop_setup rbind_Inr_iff)

text \<open>Registration only changes the kernel's state.\<close>

lemma sync_loop_context:
  "sync_loop bh ctl rules states c = Inr (states', c') \<Longrightarrow> \<exists>w. c' = c\<lparr>el_world := w\<rparr>"
proof (induction states arbitrary: c states')
  case Nil
  then show ?case by (auto intro: exI[of _ "el_world c"])
next
  case (Cons s states)
  then show ?case
    by (cases s) (fastforce simp: epoll_delete_def rbind_Inr_iff split: if_splits)
qed

lemma requests_kept_world [simp]: "requests_kept c (c'\<lparr>el_world := w\<rparr>) = requests_kept c c'"
  by (simp add: requests_kept_def)

lemma requests_kept_delete [simp]: "requests_kept c (epoll_delete ctl fd st c') = requests_kept c c'"
  by (simp add: epoll_delete_def)

lemma fail_rules_ok:
  assumes "fail_rules bh fd_num rs c = Inr (rules, acts, c')" and "behaviour_ok bh"
  shows "subseq rules rs \<and> requests_kept c c' \<and> not_called acts"
  using assms(1)
proof (induction rs arbitrary: c rules acts)
  case Nil
  then show ?case by simp
next
  case (Cons r rs)
  show ?case
  proof (cases "rule_fd_num c r = fd_num")
    case True
    with Cons.prems obtain c1 c2 acts1 where k: "bh_error bh (br_id r) c = Inr c1" "bh_cancel bh (br_id r) c1 = Inr c2"
      and f: "fail_rules bh fd_num rs c2 = Inr (rules, acts1, c')" and a: "acts = Errored (br_id r) # Cancelled (br_id r) # acts1"
      by (auto simp: rbind_Inr_iff)
    have "requests_kept c c2" using behaviour_okD(2,3)[OF assms(2)] k by (blast intro: requests_kept_trans)
    with Cons.IH[OF f] a show ?thesis by (auto intro: requests_kept_trans)
  next
    case False
    with Cons show ?thesis by (auto simp: rbind_Inr_iff)
  qed
qed

lemma extends_states [simp]:
  "extends l (l'\<lparr>ep_fd_states := s\<rparr>) = extends l l'"
  "extends (l\<lparr>ep_fd_states := s\<rparr>) l' = extends l l'"
  by (simp_all add: extends_def el_wf_def el_ids_def category_ok_def[abs_def])

lemma extends_drop_states:
  assumes "subseq fds (el_fd_rules l)" and "requests_kept (el_context l) c"
  shows "extends l (l\<lparr>el_fd_rules := fds, el_context := c, ep_fd_states := s\<rparr>)"
  using extends_drop[OF assms(1) subseq_order.refl assms(2)] by simp

lemma error_pass_ok:
  assumes "error_pass bh ctl sockopt cb events l = Inr (cb', acts, l')" and "behaviour_ok bh"
  shows "extends l l' \<and> subseq (el_fd_rules l') (el_fd_rules l) \<and> not_called acts"
  using assms(1)
proof (induction events arbitrary: cb l acts)
  case Nil
  then show ?case by auto
next
  case (Cons e events)
  obtain fd revents where e: "e = (fd, revents)" by (cases e)
  show ?case
  proof (cases "revents AND EPOLLERR \<noteq> 0")
    case True
    with Cons.prems[unfolded e] obtain rules acts1 c where
      f: "fail_rules bh fd (el_fd_rules l) (el_context l) = Inr (rules, acts1, c)"
      by (auto simp: rbind_Inr_iff)
    define sc where "sc = (case map_of (ep_fd_states l) fd of None \<Rightarrow> (ep_fd_states l, c)
      | Some st \<Rightarrow> (AList.delete fd (ep_fd_states l), epoll_delete ctl fd st c))"
    obtain states c1 where sc: "sc = (states, c1)" by (cases sc)
    have c1: "c1 = c \<or> (\<exists>st. c1 = epoll_delete ctl fd st c)" using sc by (auto simp: sc_def split: option.splits)
    from True Cons.prems[unfolded e] f obtain acts2 where
      p: "error_pass bh ctl sockopt cb events (l\<lparr>el_fd_rules := rules, el_context := c1, ep_fd_states := states\<rparr>) = Inr (cb', acts2, l')" and
      a: "acts = acts1 @ acts2"
      by (auto simp: rbind_Inr_iff sc sc_def[symmetric])
    note ok = fail_rules_ok[OF f assms(2)]
    from c1 ok have "requests_kept (el_context l) c1" by auto
    with ok have "extends l (l\<lparr>el_fd_rules := rules, el_context := c1, ep_fd_states := states\<rparr>)"
      by (intro extends_drop_states) simp_all
    with Cons.IH[OF p] ok a show ?thesis by (auto intro: extends_trans subseq_order.trans)
  next
    case False
    with Cons e show ?thesis by auto
  qed
qed

lemma serve_fd_ok:
  assumes "serve_fd bh fd revents before rest l = Inr (acts, l')" and "behaviour_ok bh"
    and "subseq (before @ rest) (el_fd_rules l)"
  shows "extends l l' \<and> one_call (\<lambda>i. \<exists>r\<in>set rest. br_id r = i) acts"
  using assms(1,3)
proof (induction rest arbitrary: before l acts)
  case Nil
  then show ?case by (auto intro: extends_rules)
next
  case (Cons r rest)
  let ?c = "el_context l"
  let ?ready = "fr_direction r = In \<and> revents AND EPOLLIN \<noteq> 0 \<or> fr_direction r \<noteq> In \<and> revents AND EPOLLOUT \<noteq> 0"
  let ?hup = "revents AND EPOLLHUP \<noteq> 0 \<and> (\<not> ?ready \<and> fr_direction r = In \<or> fr_direction r \<noteq> In)"
  have sub: "subseq (before @ rest) (el_fd_rules l)"
    using Cons.prems(2) subseq_skip[of before rest r] by simp
  consider (skip) "serve_fd bh fd revents (before @ [r]) rest l = Inr (acts, l')"
    | (hup) c1 acts1 where "bh_cancel bh (br_id r) ?c = Inr c1"
        "serve_fd bh fd revents before rest (l\<lparr>el_context := c1\<rparr>) = Inr (acts1, l')" "acts = Cancelled (br_id r) # acts1"
    | (ready) "bh_callback bh (br_id r) (l\<lparr>el_fd_rules := before @ r # rest\<rparr>) = Inr l'" "acts = [Called (br_id r)]"
  proof (cases "rule_fd_num ?c r \<noteq> fd")
    case True
    with Cons.prems(1) that(1) show thesis by (simp add: Let_def)
  next
    case same: False
    show thesis
    proof (cases ?hup)
      case True
      with same Cons.prems(1) that(2) show thesis by (auto simp: Let_def rbind_Inr_iff)
    next
      case nohup: False
      show thesis
      proof (cases "?ready \<and> bh_interest bh (br_id r) ?c")
        case True
        with same nohup Cons.prems(1) that(3) show thesis by (auto simp: Let_def rbind_Inr_iff split: if_splits)
      next
        case False
        with same nohup Cons.prems(1) that(1) show thesis by (auto simp: Let_def split: if_splits)
      qed
    qed
  qed
  then show ?case
  proof cases
    case skip
    from Cons.IH[OF this] Cons.prems(2) show ?thesis by (auto elim!: one_call_mono)
  next
    case hup
    with extends_context[OF behaviour_okD(2)[OF assms(2) hup(1)]] Cons.IH[OF hup(2)] sub show ?thesis
      by (auto intro: extends_trans elim!: one_call_mono)
  next
    case ready
    have "extends l (l\<lparr>el_fd_rules := before @ r # rest\<rparr>)" using Cons.prems(2) by (intro extends_rules)
    with behaviour_okD(1)[OF assms(2) ready(1)] ready(2) show ?thesis by (auto intro: extends_trans)
  qed
qed

lemma epoll_dispatch_ok:
  assumes "epoll_dispatch bh ctl sockopt events l = Inr (acts, l')" and "behaviour_ok bh"
  shows "extends l l' \<and> one_call (\<lambda>i. \<exists>r\<in>set (el_fd_rules l). br_id r = i) acts"
proof -
  obtain cb acts1 l1 where p: "error_pass bh ctl sockopt None events l = Inr (cb, acts1, l1)"
    using assms(1) by (auto simp: epoll_dispatch_def rbind_Inr_iff)
  note ok = error_pass_ok[OF p assms(2)]
  show ?thesis
  proof (cases cb)
    case None
    with p assms(1) ok show ?thesis by (auto simp: epoll_dispatch_def one_call_def)
  next
    case (Some e)
    with p assms(1) obtain fd revents acts2 where
      s: "serve_fd bh fd revents [] (el_fd_rules l1) l1 = Inr (acts2, l')" and a: "acts = acts1 @ acts2"
      by (cases e) (auto simp: epoll_dispatch_def rbind_Inr_iff)
    from serve_fd_ok[OF s assms(2)] have "extends l1 l'" and "one_call (\<lambda>i. \<exists>r\<in>set (el_fd_rules l1). br_id r = i) acts2"
      by simp_all
    moreover have "set (el_fd_rules l1) \<subseteq> set (el_fd_rules l)" using ok by (auto dest: list_emb_set)
    ultimately show ?thesis using ok a by (auto intro!: one_call_append intro: extends_trans elim!: one_call_mono)
  qed
qed

lemma epoll_round_calls:
  assumes w: "epoll_wait_next_event bh ctl wait sockopt t l = Inr (res, acts, l')" and ok: "behaviour_ok bh"
  shows "extends l l' \<and> (one_call (callable l) acts \<or> (\<exists>i n. callable l i \<and> n \<le> 128 \<and> acts = replicate n (Called i)))
    \<and> (res \<noteq> Success \<longrightarrow> not_called acts)"
proof -
  obtain f a1 l1 where n: "non_fd_loop ''Epoll'' bh [] (el_non_fd_rules l) l = Inr (f, a1, l1)"
    using w by (auto simp: epoll_wait_next_event_def rbind_Inr_iff)
  note nf = non_fd_loop_ok[OF n ok]
  show ?thesis
  proof (cases f)
    case True
    with n w nf show ?thesis by (auto simp: epoll_wait_next_event_def callable_def el_ids_def)
  next
    case False
    with nf have l1: "l1 = l\<lparr>el_non_fd_rules := filter (\<lambda>r. \<not> el_cancel_requested (el_context l) (br_id r)) (el_non_fd_rules l)\<rparr>"
      "extends l l1" by auto
    from False n w obtain rules acts1 c states c1 where
      d: "drop_loop bh (el_fd_rules l) (el_context l) = Inr (rules, acts1, c)"
      and s: "sync_loop bh ctl rules (ep_fd_states l1) c = Inr (states, c1)"
      by (auto simp: epoll_wait_next_event_def rbind_Inr_iff l1(1))
    define l2 where "l2 = l1\<lparr>el_fd_rules := rules, el_context := c1, ep_fd_states := states\<rparr>"
    note dl = drop_loop_ok[OF d ok]
    have "requests_kept (el_context l1) c1" "subseq rules (el_fd_rules l1)"
      using dl sync_loop_context[OF s] by (auto simp: l1(1))
    then have "extends l1 l2" unfolding l2_def by (intro extends_drop_states)
    with l1(2) have l2: "extends l l2" by (rule extends_trans)
    have call: "callable l (br_id r)" if "r \<in> set (el_fd_rules l2)" for r
      using that dl by (auto simp: l2_def callable_def el_ids_def dest: list_emb_set)
    from False n w d s consider "acts = acts1" "l' = l2"
      | events acts2 where "res = Success" "acts = acts1 @ acts2" "epoll_dispatch bh ctl sockopt events l2 = Inr (acts2, l')"
      by (auto simp: epoll_wait_next_event_def rbind_Inr_iff l1(1) l2_def Let_def split: if_splits syscall.splits)
    then show ?thesis
    proof cases
      case 1
      with l2 dl show ?thesis by (auto simp: one_call_def)
    next
      case (2 events acts2)
      have "one_call (callable l) acts2" and "extends l2 l'"
        using epoll_dispatch_ok[OF 2(3) ok] call by (auto elim!: one_call_mono)
      with l2 dl 2 show ?thesis by (auto intro: one_call_append extends_trans)
    qed
  qed
qed

inductive epoll_step :: "'w epoll_behaviour \<Rightarrow> 'w epoll_loop \<Rightarrow> el_action list \<Rightarrow> 'w epoll_loop \<Rightarrow> bool" for bh where
  epoll_round: "epoll_wait_next_event bh ctl wait sockopt t l = Inr (res, acts, l') \<Longrightarrow> epoll_step bh l acts l'"
| epoll_use: "extends l l' \<Longrightarrow> epoll_step bh l [] l'"

lemma epoll_step_calls:
  assumes "epoll_step bh l acts l'" and "behaviour_ok bh"
  shows "extends l l'" and "Called i \<in> set acts \<Longrightarrow> callable l i"
  using assms
  by (induction rule: epoll_step.induct) (use epoll_round_calls one_call_Called in fastforce)+

interpretation epoll: dispatcher "\<lambda>l. behaviour_ok bh \<and> el_wf l" "\<lambda>l. el_cancel_requested (el_context l)"
  "\<lambda>l i. i < el_next_id l" "epoll_step bh" for bh :: "'w epoll_behaviour"
proof (unfold_locales, goal_cases)
  case (1 s acts s')
  then show ?case using epoll_step_calls(1)[of bh s acts s'] by (simp add: extends_def)
next
  case (2 s acts s' i)
  then show ?case using epoll_step_calls(1)[of bh s acts s'] by (auto simp: extends_def)
next
  case (3 s acts s' i)
  then show ?case using epoll_step_calls(2)[of bh s acts s' i] by (auto simp: callable_def)
qed

text \<open>Adding a rule to this loop extends it too.\<close>

lemma epoll_add_fd_rule_extends: "epoll_add_fd_rule k fd d l = Inr (h, l') \<Longrightarrow> extends l l'"
  by (auto simp: epoll_add_fd_rule_def rbind_Inr_iff intro: add_fd_rule_extends)

section \<open>What the kernel watches\<close>

text \<open>
  What \<^verbatim>\<open>epoll_ctl\<close> is documented to do with the set of watched descriptors, read by \<open>watched\<close>: adding
  and modifying set the events of a descriptor when they succeed, and after a deletion (which fails
  for a descriptor that is not in the set) it is not watched.  \<open>interest_blind\<close>: what the program's interest functions
  read of the world is not changed by \<^verbatim>\<open>epoll_ctl\<close>, since no program looks into the kernel's set; \<open>minnow_rules_blind\<close>
  in \<open>Minnow_System\<close> and \<open>server_rules_blind\<close> in \<open>Epoll_Server\<close> show it of the two programs that use this loop.
\<close>

definition epoll_ctl_ok :: "'w epoll_ctl \<Rightarrow> ('w \<Rightarrow> int \<Rightarrow> u32 option) \<Rightarrow> bool" where
  "epoll_ctl_ok ctl watched \<longleftrightarrow> (\<forall>fd ev w.
     (fst (ctl EPOLL_CTL_ADD fd ev w) = Returned () \<longrightarrow> watched (snd (ctl EPOLL_CTL_ADD fd ev w)) = (watched w)(fd \<mapsto> ev)) \<and>
     (fst (ctl EPOLL_CTL_MOD fd ev w) = Returned () \<longrightarrow> watched (snd (ctl EPOLL_CTL_MOD fd ev w)) = (watched w)(fd \<mapsto> ev)) \<and>
     watched (snd (ctl EPOLL_CTL_DEL fd ev w)) = (watched w)(fd := None))"

definition interest_blind :: "('w, 'l) behaviour \<Rightarrow> 'w epoll_ctl \<Rightarrow> bool" where
  "interest_blind bh ctl \<longleftrightarrow>
     (\<forall>i c op fd ev. bh_interest bh i (c\<lparr>el_world := snd (ctl op fd ev (el_world c))\<rparr>) = bh_interest bh i c)"

text \<open>The kernel agrees with the states kept, and what it should watch.\<close>

definition agrees :: "(int \<times> fd_state) list \<Rightarrow> (int \<Rightarrow> u32 option) \<Rightarrow> bool" where
  "agrees states m \<longleftrightarrow> distinct (map fst states) \<and>
     (\<forall>(fd, st)\<in>set states. m fd = (if fs_in_epoll st then Some (fs_registered_events st) else None))"

definition wants :: "('w, 'l) behaviour \<Rightarrow> fd_rule list \<Rightarrow> 'w el_context \<Rightarrow> int \<Rightarrow> direction \<Rightarrow> bool" where
  "wants bh rules c fd d \<longleftrightarrow>
     (\<exists>r\<in>set rules. rule_fd_num c r = fd \<and> fr_direction r = d \<and> \<not> el_cancel_requested c (br_id r) \<and> bh_interest bh (br_id r) c)"

definition wanted_events :: "('w, 'l) behaviour \<Rightarrow> fd_rule list \<Rightarrow> 'w el_context \<Rightarrow> int \<Rightarrow> u32" where
  "wanted_events bh rules c fd =
     (if wants bh rules c fd In then EPOLLIN else 0) OR (if wants bh rules c fd Out then EPOLLOUT else 0)"

definition has_rule :: "fd_rule list \<Rightarrow> 'w el_context \<Rightarrow> int \<Rightarrow> bool" where
  "has_rule rules c fd \<longleftrightarrow> list_ex (\<lambda>r. rule_fd_num c r = fd) rules"

lemma wants_Cons:
  "wants bh (r # rules) c fd d \<longleftrightarrow>
     rule_fd_num c r = fd \<and> fr_direction r = d \<and> \<not> el_cancel_requested c (br_id r) \<and> bh_interest bh (br_id r) c \<or> wants bh rules c fd d"
  by (auto simp: wants_def)

lemma desired_events_wanted: "desired_events_for_fd bh rules c fd m = m OR wanted_events bh rules c fd"
proof (induction rules arbitrary: m)
  case Nil
  then show ?case by (simp add: wanted_events_def wants_def)
next
  case (Cons r rules)
  show ?case
    by (cases "fr_direction r") (auto simp: Cons.IH wanted_events_def wants_Cons or.assoc or.left_commute or.commute)
qed

lemma world_blind:
  assumes "\<And>i. bh_interest bh i (c\<lparr>el_world := w\<rparr>) = bh_interest bh i c"
  shows "wanted_events bh rules (c\<lparr>el_world := w\<rparr>) = wanted_events bh rules c"
    and "has_rule rules (c\<lparr>el_world := w\<rparr>) = has_rule rules c"
  using assms by (auto simp: wanted_events_def wants_def has_rule_def rule_fd_num_def)

lemma registration_blind:
  assumes "interest_blind bh ctl" and "sync_fd_registration ctl fd ev st (el_world c) = Inr (st', w')"
  shows "bh_interest bh i (c\<lparr>el_world := w'\<rparr>) = bh_interest bh i c"
proof -
  have "w' = el_world c \<or> (\<exists>op. w' = snd (ctl op fd ev (el_world c)))"
    using assms(2) by (auto simp: sync_fd_registration_def split: if_splits prod.splits syscall.splits) (metis snd_conv)+
  then show ?thesis using assms(1) by (auto simp: interest_blind_def)
qed

lemma delete_blind:
  assumes "interest_blind bh ctl"
  shows "has_rule rules (epoll_delete ctl fd st c) = has_rule rules c"
    and "wanted_events bh rules (epoll_delete ctl fd st c) = wanted_events bh rules c"
  using world_blind[of bh "snd (ctl EPOLL_CTL_DEL fd 0 (el_world c))" c] assms by (auto simp: epoll_delete_def interest_blind_def)

lemma sync_fd_registration_ok:
  assumes "sync_fd_registration ctl fd ev st w = Inr (st', w')" and "epoll_ctl_ok ctl watched"
    and "watched w fd = (if fs_in_epoll st then Some (fs_registered_events st) else None)"
  shows "fs_in_epoll st' \<and> fs_registered_events st' = ev \<and> watched w' = (watched w)(fd \<mapsto> ev)"
proof -
  have add: "fst (ctl EPOLL_CTL_ADD fd ev w) = Returned () \<Longrightarrow> watched (snd (ctl EPOLL_CTL_ADD fd ev w)) = (watched w)(fd \<mapsto> ev)"
    and mod: "fst (ctl EPOLL_CTL_MOD fd ev w) = Returned () \<Longrightarrow> watched (snd (ctl EPOLL_CTL_MOD fd ev w)) = (watched w)(fd \<mapsto> ev)"
    using assms(2) by (auto simp: epoll_ctl_ok_def)
  show ?thesis
    using assms(1,3) add mod
    by (cases "ctl EPOLL_CTL_ADD fd ev w"; cases "ctl EPOLL_CTL_MOD fd ev w")
      (auto simp: sync_fd_registration_def split: if_splits syscall.splits)
qed

lemma epoll_delete_ok:
  assumes "epoll_ctl_ok ctl watched" and "watched (el_world c) fd = (if fs_in_epoll st then Some (fs_registered_events st) else None)"
  shows "watched (el_world (epoll_delete ctl fd st c)) = (watched (el_world c))(fd := None)"
  using assms by (auto simp: epoll_delete_def epoll_ctl_ok_def)

lemma sync_loop_ok:
  assumes "sync_loop bh ctl rules states c = Inr (states', c')" and ctl: "epoll_ctl_ok ctl watched" and blind: "interest_blind bh ctl"
    and "agrees states (watched (el_world c))"
  shows "agrees states' (watched (el_world c')) \<and> map fst states' = filter (has_rule rules c) (map fst states)
    \<and> watched (el_world c') = (\<lambda>fd. if fd \<notin> fst ` set states then watched (el_world c) fd
         else if has_rule rules c fd then Some (wanted_events bh rules c fd) else None)"
  using assms(1,4)
proof (induction states arbitrary: c states')
  case Nil
  then show ?case by simp
next
  case (Cons s states)
  obtain fd st where s: "s = (fd, st)" by (cases s)
  have w: "watched (el_world c) fd = (if fs_in_epoll st then Some (fs_registered_events st) else None)"
    and new: "fd \<notin> fst ` set states" and rest: "agrees states (watched (el_world c))"
    using Cons.prems(2) by (auto simp: agrees_def s)
  have upd: "agrees states ((watched (el_world c))(fd := x))" for x
    using rest new unfolding agrees_def by (auto simp: rev_image_eqI split: if_splits prod.splits)
  show ?case
  proof (cases "has_rule rules c fd")
    case False
    let ?c = "epoll_delete ctl fd st c"
    note del = epoll_delete_ok[OF ctl w]
    note same = delete_blind[OF blind, of rules fd st c]
    from False Cons.prems(1) have "sync_loop bh ctl rules states ?c = Inr (states', c')" by (simp add: s has_rule_def)
    from Cons.IH[OF this, unfolded del same, OF upd] False new show ?thesis by (auto simp: s)
  next
    case True
    let ?ev = "wanted_events bh rules c fd"
    from True Cons.prems(1) obtain st1 w1 states1 where
      r: "sync_fd_registration ctl fd ?ev st (el_world c) = Inr (st1, w1)"
      and l: "sync_loop bh ctl rules states (c\<lparr>el_world := w1\<rparr>) = Inr (states1, c')" and e: "states' = (fd, st1) # states1"
      by (auto simp: s has_rule_def desired_events_wanted rbind_Inr_iff)
    note same = world_blind[of bh w1 c, OF registration_blind[OF blind r]]
    note r = sync_fd_registration_ok[OF r ctl w]
    have w1: "watched (el_world (c\<lparr>el_world := w1\<rparr>)) = (watched (el_world c))(fd \<mapsto> ?ev)" using r by simp
    from Cons.IH[OF l, unfolded same w1, OF upd]
    have a: "agrees states1 (watched (el_world c'))" and f: "map fst states1 = filter (has_rule rules c) (map fst states)"
      and k: "watched (el_world c') = (\<lambda>x. if x \<notin> fst ` set states then ((watched (el_world c))(fd \<mapsto> ?ev)) x
         else if has_rule rules c x then Some (wanted_events bh rules c x) else None)"
      by auto
    have "fd \<notin> set (map fst states1)" using f new by auto
    then have "agrees states' (watched (el_world c'))" using a r new by (auto simp: agrees_def e k)
    then show ?thesis using f k new True by (auto simp: e s fun_eq_iff)
  qed
qed

text \<open>A kernel that is only its set of watched descriptors, and a program of two rules on two sockets.\<close>

fun set_ctl :: "(int \<Rightarrow> u32 option) epoll_ctl" where
  "set_ctl EPOLL_CTL_ADD fd ev w = (if w fd = None then (Returned (), w(fd \<mapsto> ev)) else (Failed 17, w))"
| "set_ctl EPOLL_CTL_MOD fd ev w = (if w fd = None then (Failed 2, w) else (Returned (), w(fd \<mapsto> ev)))"
| "set_ctl EPOLL_CTL_DEL fd ev w = (if w fd = None then (Failed 2, w) else (Returned (), w(fd := None)))"

lemma set_ctl_ok: "epoll_ctl_ok set_ctl (\<lambda>w. w)"
  by (auto simp: epoll_ctl_ok_def fun_eq_iff)

definition in_rule :: "nat \<Rightarrow> nat \<Rightarrow> fd_rule" where
  "in_rule i fd = \<lparr>br_id = i, br_category_id = 0, fr_fd = fd, fr_direction = In\<rparr>"

definition sockets :: "nat \<Rightarrow> fd_wrapper" where
  "sockets n = quiet_fd\<lparr>fw_fd := (if n = 0 then 7 else 9)\<rparr>"

definition two_sockets :: "(int \<Rightarrow> u32 option) epoll_loop" where
  "two_sockets = \<lparr>el_context = \<lparr>el_fds = sockets, el_cancel_requested = (\<lambda>i. False), el_world = Map.empty\<rparr>,
     el_rule_categories = [''read''], el_fd_rules = [in_rule 0 0, in_rule 1 1], el_non_fd_rules = [], el_next_id = 2,
     ep_fd = 3, ep_fd_states = [(7, \<lparr>fs_registered_events = 0, fs_in_epoll = False\<rparr>), (9, \<lparr>fs_registered_events = 0, fs_in_epoll = False\<rparr>)]\<rparr>"

text \<open>The second rule is the only one interested; callbacks read.\<close>

definition second_reads :: "('w, ('w, 'z) event_loop_scheme) behaviour" where
  "second_reads = \<lparr>bh_interest = (\<lambda>i c. i = 1),
     bh_callback = (\<lambda>i l. Inr (l\<lparr>el_context := (el_context l)\<lparr>el_fds := (\<lambda>n. (sockets n)\<lparr>fw_read_count := 1\<rparr>)\<rparr>\<rparr>)),
     bh_cancel = (\<lambda>i c. Inr c), bh_error = (\<lambda>i c. Inr c)\<rparr>"

lemma second_reads_ok: "behaviour_ok second_reads" "interest_blind second_reads ctl"
  by (auto simp: behaviour_ok_def interest_blind_def second_reads_def intro!: extends_context simp: requests_kept_def)

lemma two_sockets_wf: "el_wf two_sockets"
  by (simp add: el_wf_def el_ids_def category_ok_def two_sockets_def in_rule_def)

lemmas two_sockets_simps =
  two_sockets_def in_rule_def sockets_def second_reads_def quiet_fd_def rule_fd_num_def epoll_delete_def sync_fd_registration_def
  EPOLLIN_def EPOLLOUT_def EPOLLERR_def EPOLLHUP_def

text \<open>
  C29. When the states kept agree with the kernel, the registration pass of a round makes the kernel
  watch every descriptor with a live rule for exactly the events its interested rules want (\<^verbatim>\<open>EPOLLIN\<close>
  for readers, \<^verbatim>\<open>EPOLLOUT\<close> for writers, none when no rule is interested), stop watching those with no rule
  left, and leave the others; the states kept then agree with the kernel again.  The interest functions may read
  anything in the program's state that \<^verbatim>\<open>epoll_ctl\<close> does not change.
\<close>

theorem epoll_registration:
  assumes "sync_loop bh ctl rules states c = Inr (states', c')" and "epoll_ctl_ok ctl watched" and "interest_blind bh ctl"
    and "agrees states (watched (el_world c))"
  shows "agrees states' (watched (el_world c'))
    \<and> (\<forall>fd. watched (el_world c') fd =
         (if fd \<notin> fst ` set states then watched (el_world c) fd
          else if \<exists>r\<in>set rules. fw_fd (el_fds c (fr_fd r)) = fd
          then Some ((if wants bh rules c fd In then EPOLLIN else 0) OR (if wants bh rules c fd Out then EPOLLOUT else 0))
          else None))"
proof
  note ok = sync_loop_ok[OF assms]
  show "agrees states' (watched (el_world c'))" using ok by blast
  have "watched (el_world c') = (\<lambda>fd. if fd \<notin> fst ` set states then watched (el_world c) fd
         else if has_rule rules c fd then Some (wanted_events bh rules c fd) else None)" using ok by blast
  then show "\<forall>fd. watched (el_world c') fd =
         (if fd \<notin> fst ` set states then watched (el_world c) fd
          else if \<exists>r\<in>set rules. fw_fd (el_fds c (fr_fd r)) = fd
          then Some ((if wants bh rules c fd In then EPOLLIN else 0) OR (if wants bh rules c fd Out then EPOLLOUT else 0))
          else None)"
    by (simp add: has_rule_def rule_fd_num_def list_ex_iff wanted_events_def)
qed

text \<open>A program whose second rule is interested as long as the program has something to read, kept beside the kernel's set.\<close>

fun program_ctl :: "(bool \<times> (int \<Rightarrow> u32 option)) epoll_ctl" where
  "program_ctl op fd ev (pending, w) = (case set_ctl op fd ev w of (r, w) \<Rightarrow> (r, (pending, w)))"

definition pending_reads :: "(bool \<times> 'k, 'l) behaviour" where
  "pending_reads = \<lparr>bh_interest = (\<lambda>i c. i = 1 \<and> fst (el_world c)), bh_callback = (\<lambda>i l. Inr l), bh_cancel = (\<lambda>i c. Inr c), bh_error = (\<lambda>i c. Inr c)\<rparr>"

lemma program_ctl_ok: "epoll_ctl_ok program_ctl snd" "interest_blind (pending_reads :: (_, unit) behaviour) program_ctl"
proof -
  have c: "program_ctl op fd ev w = (fst (set_ctl op fd ev (snd w)), (fst w, snd (set_ctl op fd ev (snd w))))" for op fd ev w
    by (cases w) (simp split: prod.split)
  show "epoll_ctl_ok program_ctl snd" "interest_blind (pending_reads :: (_, unit) behaviour) program_ctl"
    unfolding epoll_ctl_ok_def interest_blind_def c using set_ctl_ok[unfolded epoll_ctl_ok_def] by (simp_all add: pending_reads_def)
qed

theorem epoll_registration_witness:
  "\<exists>states' c'. sync_loop (pending_reads :: (_, unit) behaviour) program_ctl [in_rule 0 0, in_rule 1 1] (ep_fd_states two_sockets)
       \<lparr>el_fds = sockets, el_cancel_requested = (\<lambda>i. False), el_world = (True, Map.empty)\<rparr> = Inr (states', c')
     \<and> snd (el_world c') 7 = Some 0 \<and> snd (el_world c') 9 = Some EPOLLIN"
proof -
  let ?c = "\<lparr>el_fds = sockets, el_cancel_requested = (\<lambda>i. False), el_world = (True, Map.empty)\<rparr> :: (bool \<times> (int \<Rightarrow> u32 option)) el_context"
  obtain states' c' where s: "sync_loop (pending_reads :: (_, unit) behaviour) program_ctl [in_rule 0 0, in_rule 1 1] (ep_fd_states two_sockets) ?c = Inr (states', c')"
    by (simp add: two_sockets_simps pending_reads_def)
  have "agrees (ep_fd_states two_sockets) (snd (el_world ?c))" by (simp add: agrees_def two_sockets_def)
  note reg = epoll_registration[OF s program_ctl_ok this, THEN conjunct2]
  have "snd (el_world c') 7 = Some 0"
    using reg[THEN spec, of 7] by (simp add: two_sockets_def in_rule_def sockets_def wants_def pending_reads_def rule_fd_num_def quiet_fd_def)
  moreover have "snd (el_world c') 9 = Some EPOLLIN"
    using reg[THEN spec, of 9] by (simp add: two_sockets_def in_rule_def sockets_def wants_def pending_reads_def rule_fd_num_def quiet_fd_def)
  ultimately show ?thesis using s by blast
qed

text \<open>
  C30. A rule that was asked to cancel before a round is never called again by the loop that waits with \<^verbatim>\<open>epoll\<close>, however
  many rounds follow, whatever the system calls return and whatever the callbacks do with the
  public operations of the loop: the contract the polling loop has.
\<close>

theorem epoll_cancelled_never_called:
  assumes "behaviour_ok bh" and "el_wf l" and "i < el_next_id l" and "el_cancel_requested (el_context l) i"
    and "steps (epoll_step bh) l acts l'"
  shows "Called i \<notin> set acts"
  using epoll.asked_never_called[OF assms(5)] assms by blast

text \<open>The first rule of the two is asked to cancel; a round calls the second.\<close>

definition after_cancel :: "(int \<Rightarrow> u32 option) epoll_loop" where
  "after_cancel = two_sockets\<lparr>el_context := RuleHandle_cancel 0 (el_context two_sockets)\<rparr>"

lemma after_cancel_step:
  "\<exists>l'. epoll_step (second_reads :: (int \<Rightarrow> u32 option) epoll_behaviour) after_cancel [Called 1] l'"
proof -
  have "\<exists>l'. epoll_wait_next_event second_reads set_ctl (\<lambda>t w. Returned [(9, 1)]) (\<lambda>fd. Failed 88) 0 after_cancel = Inr (Success, [Called 1], l')"
    by (simp add: epoll_wait_next_event_def epoll_dispatch_def after_cancel_def RuleHandle_cancel_def two_sockets_simps Let_def service_count_def)
  then show ?thesis by (blast intro: epoll_round)
qed

theorem epoll_cancelled_never_called_witness:
  "el_wf after_cancel \<and> el_cancel_requested (el_context after_cancel) 0
     \<and> behaviour_ok (second_reads :: (int \<Rightarrow> u32 option) epoll_behaviour) \<and> Called 0 \<notin> set ([Called 1] @ [])"
proof -
  have wf: "el_wf after_cancel"
    using extends_wf[OF extends_context[OF cancel_requests_kept] two_sockets_wf] by (simp add: after_cancel_def)
  obtain l' where l: "epoll_step (second_reads :: (int \<Rightarrow> u32 option) epoll_behaviour) after_cancel [Called 1] l'"
    using after_cancel_step by blast
  have "steps (epoll_step (second_reads :: (int \<Rightarrow> u32 option) epoll_behaviour)) after_cancel ([Called 1] @ []) l'"
    by (intro steps_step[where step = "epoll_step second_reads", OF l] steps_refl)
  from epoll_cancelled_never_called[OF second_reads_ok(1) wf _ _ this, of 0] wf second_reads_ok(1) show ?thesis
    by (simp add: after_cancel_def RuleHandle_cancel_def two_sockets_def)
qed

section \<open>Where it differs from the polling loop\<close>

definition poll_twin :: "nat event_loop" where
  "poll_twin = \<lparr>el_context = \<lparr>el_fds = sockets, el_cancel_requested = (\<lambda>i. False), el_world = 0\<rparr>,
     el_rule_categories = [''read''], el_fd_rules = [in_rule 0 0, in_rule 1 1], el_non_fd_rules = [], el_next_id = 2\<rparr>"

text \<open>
  Two readers, of which the first is not interested at the moment (its buffer is full, say); the
  peer of its socket hangs up, so that the kernel reports the hangup alone, as input was not asked
  for.  The polling loop keeps the rule, which reads what is left when it is interested again; the
  loop that waits with \<^verbatim>\<open>epoll\<close>, meant to mirror it, cancels and drops the rule.
\<close>

theorem epoll_hangup_differs:
  "(case wait_next_event second_reads (\<lambda>p t. Returned (1, [POLLHUP, 0])) (\<lambda>fd. Failed 88) 0 poll_twin of
      Inl e \<Rightarrow> False
    | Inr (res, acts, l) \<Rightarrow> res = Success \<and> acts = [] \<and> el_fd_rules l = [in_rule 0 0, in_rule 1 1])
   \<and> (case epoll_wait_next_event second_reads set_ctl (\<lambda>t w. Returned [(7, EPOLLHUP)]) (\<lambda>fd. Failed 88) 0 two_sockets of
      Inl e \<Rightarrow> False
    | Inr (res, acts, l) \<Rightarrow> res = Success \<and> acts = [Cancelled 0] \<and> el_fd_rules l = [in_rule 1 1])"
proof
  show "case wait_next_event second_reads (\<lambda>p t. Returned (1, [POLLHUP, 0])) (\<lambda>fd. Failed 88) 0 poll_twin of
      Inl e \<Rightarrow> False
    | Inr (res, acts, l) \<Rightarrow> res = Success \<and> acts = [] \<and> el_fd_rules l = [in_rule 0 0, in_rule 1 1]"
    by (simp add: wait_next_event_def poll_twin_def two_sockets_simps setup_loop_Cons fd_dead_def direction_event_def
        POLLIN_def POLLERR_def POLLNVAL_def POLLHUP_def Let_def)
  show "case epoll_wait_next_event second_reads set_ctl (\<lambda>t w. Returned [(7, EPOLLHUP)]) (\<lambda>fd. Failed 88) 0 two_sockets of
      Inl e \<Rightarrow> False
    | Inr (res, acts, l) \<Rightarrow> res = Success \<and> acts = [Cancelled 0] \<and> el_fd_rules l = [in_rule 1 1]"
    by (simp add: epoll_wait_next_event_def epoll_dispatch_def two_sockets_simps Let_def)
qed

text \<open>
  A server whose first callback closes its socket, so that the kernel forgets descriptor 7, opens
  another, which gets the number 7 again, and adds a rule for it.
\<close>

definition reopening :: "(int \<Rightarrow> u32 option) epoll_behaviour" where
  "reopening = \<lparr>bh_interest = (\<lambda>i c. True),
     bh_callback = (\<lambda>i l. rbind (epoll_add_fd_rule 0 1 In (l\<lparr>el_context := (el_context l)\<lparr>
        el_fds := (\<lambda>n. quiet_fd\<lparr>fw_closed := (n = 0)\<rparr>), el_world := Map.empty\<rparr>\<rparr>)) (\<lambda>(h, l). Inr l)),
     bh_cancel = (\<lambda>i c. Inr c), bh_error = (\<lambda>i c. Inr c)\<rparr>"

definition one_socket :: "(int \<Rightarrow> u32 option) epoll_loop" where
  "one_socket = \<lparr>el_context = \<lparr>el_fds = (\<lambda>n. quiet_fd), el_cancel_requested = (\<lambda>i. False), el_world = [7 \<mapsto> EPOLLIN]\<rparr>,
     el_rule_categories = [''read''], el_fd_rules = [in_rule 0 0], el_non_fd_rules = [], el_next_id = 1,
     ep_fd = 3, ep_fd_states = [(7, \<lparr>fs_registered_events = EPOLLIN, fs_in_epoll = True\<rparr>)]\<rparr>"

text \<open>
  After the number of a closed descriptor is used again in the same callback, the next round
  takes the new descriptor for the registered one, makes no call to \<^verbatim>\<open>epoll_ctl\<close> and waits while the
  kernel does not watch it, although the new rule is interested: its events are never seen.
\<close>

theorem epoll_stale_registration:
  "case epoll_wait_next_event reopening set_ctl (\<lambda>t w. Returned [(7, EPOLLIN)]) (\<lambda>fd. Failed 88) 0 one_socket of
     Inl e \<Rightarrow> False
   | Inr (res, acts, l) \<Rightarrow> acts = [Called 0] \<and>
      (case epoll_wait_next_event reopening set_ctl (\<lambda>t w. if w 7 = None then Returned [] else Returned [(7, EPOLLIN)])
              (\<lambda>fd. Failed 88) 0 l of
         Inl e \<Rightarrow> False
       | Inr (res', acts', l') \<Rightarrow> res' = Timeout \<and> el_fd_rules l' = [in_rule 1 1]
           \<and> bh_interest reopening 1 (el_context l') \<and> el_world (el_context l') 7 = None)"
  by (simp add: epoll_wait_next_event_def epoll_dispatch_def one_socket_def reopening_def two_sockets_simps Let_def
      service_count_def epoll_add_fd_rule_def add_fd_rule_def new_rule_def try_emplace_def)

section \<open>Invariants of the program\<close>

text \<open>
  A property of the context that the functions of the rules keep (callbacks when their rule is
  interested) and that does not look at what \<^verbatim>\<open>epoll_ctl\<close> changes holds after a round if it held before.
\<close>

definition round_keeps :: "'w epoll_behaviour \<Rightarrow> 'w epoll_ctl \<Rightarrow> ('w el_context \<Rightarrow> bool) \<Rightarrow> bool" where
  "round_keeps bh ctl P \<longleftrightarrow>
     (\<forall>i l l'. P (el_context l) \<and> bh_interest bh i (el_context l) \<and> bh_callback bh i l = Inr l' \<longrightarrow> P (el_context l'))
     \<and> (\<forall>i c c'. P c \<and> bh_cancel bh i c = Inr c' \<longrightarrow> P c') \<and> (\<forall>i c c'. P c \<and> bh_error bh i c = Inr c' \<longrightarrow> P c')
     \<and> (\<forall>op fd ev c. P c \<longrightarrow> P (c\<lparr>el_world := snd (ctl op fd ev (el_world c))\<rparr>))"

lemma round_keepsD:
  assumes "round_keeps bh ctl P"
  shows "P (el_context l) \<Longrightarrow> bh_interest bh i (el_context l) \<Longrightarrow> bh_callback bh i l = Inr l' \<Longrightarrow> P (el_context l')"
    and "P c \<Longrightarrow> bh_cancel bh i c = Inr c' \<Longrightarrow> P c'" and "P c \<Longrightarrow> bh_error bh i c = Inr c' \<Longrightarrow> P c'"
    and "P c \<Longrightarrow> P (c\<lparr>el_world := snd (ctl op fd ev (el_world c))\<rparr>)"
  using assms unfolding round_keeps_def by blast+

lemma serve_rule_keeps:
  "round_keeps bh ctl P \<Longrightarrow> serve_rule pre bh r k l = Inr (n, l') \<Longrightarrow> P (el_context l) \<Longrightarrow> P (el_context l')"
proof (induction pre bh r k l rule: serve_rule.induct)
  case (1 pre bh r k l)
  show ?case
  proof (cases "bh_interest bh (br_id r) (el_context l)")
    case False
    with 1 show ?thesis by (simp add: serve_rule.simps)
  next
    case True
    then obtain l1 where k: "k < 128" and cb: "bh_callback bh (br_id r) l = Inr l1" and rec: "serve_rule pre bh r (k + 1) l1 = Inr (n, l')"
      using "1.prems"(2) by (subst (asm) serve_rule.simps) (auto split: if_splits sum.splits)
    then show ?thesis using "1.IH"[of l1] True "1.prems" round_keepsD(1)[OF "1.prems"(1), of l _ l1] by simp
  qed
qed

lemma non_fd_loop_keeps:
  "round_keeps bh ctl P \<Longrightarrow> non_fd_loop pre bh before rest l = Inr (f, acts, l') \<Longrightarrow> P (el_context l) \<Longrightarrow> P (el_context l')"
  by (induction pre bh before rest l arbitrary: acts rule: non_fd_loop.induct)
    (auto simp: rbind_Inr_iff split: if_splits dest: serve_rule_keeps)

lemma drop_loop_keeps:
  "round_keeps bh ctl P \<Longrightarrow> drop_loop bh rs c = Inr (rules, acts, c') \<Longrightarrow> P c \<Longrightarrow> P c'"
  by (induction rs arbitrary: c rules acts) (auto simp: rbind_Inr_iff split: if_splits dest: round_keepsD(2))

lemma fail_rules_keeps:
  "round_keeps bh ctl P \<Longrightarrow> fail_rules bh fd rs c = Inr (rules, acts, c') \<Longrightarrow> P c \<Longrightarrow> P c'"
proof (induction rs arbitrary: c rules acts)
  case (Cons r rs)
  note keeps = round_keepsD(2,3)[OF Cons.prems(1)]
  show ?case
  proof (cases "rule_fd_num c r = fd")
    case True
    with Cons.prems obtain c1 c2 acts1 where "bh_error bh (br_id r) c = Inr c1" "bh_cancel bh (br_id r) c1 = Inr c2"
      "fail_rules bh fd rs c2 = Inr (rules, acts1, c')" by (auto simp: rbind_Inr_iff)
    with Cons.IH[OF Cons.prems(1)] Cons.prems(3) keeps show ?thesis by blast
  next
    case False
    with Cons show ?thesis by (auto simp: rbind_Inr_iff)
  qed
qed simp

lemma epoll_delete_keeps: "round_keeps bh ctl P \<Longrightarrow> P c \<Longrightarrow> P (epoll_delete ctl fd st c)"
  by (auto simp: epoll_delete_def dest: round_keepsD(4))

lemma sync_fd_registration_world:
  "sync_fd_registration ctl fd ev st w = Inr (st', w') \<Longrightarrow> w' = w \<or> (\<exists>op. w' = snd (ctl op fd ev w))"
  by (auto simp: sync_fd_registration_def split: if_splits prod.splits syscall.splits) (metis snd_conv)+

lemma sync_loop_keeps:
  assumes "round_keeps bh ctl P"
  shows "sync_loop bh ctl rules states c = Inr (states', c') \<Longrightarrow> P c \<Longrightarrow> P c'"
proof (induction states arbitrary: c states')
  case Nil
  then show ?case by simp
next
  case (Cons s states)
  obtain fd st where s: "s = (fd, st)" by (cases s)
  show ?case
  proof (cases "list_ex (\<lambda>r. rule_fd_num c r = fd) rules")
    case False
    with Cons s epoll_delete_keeps[OF assms] show ?thesis by auto
  next
    case True
    with Cons.prems s obtain st1 w1 states1 where
      "sync_fd_registration ctl fd (desired_events_for_fd bh rules c fd 0) st (el_world c) = Inr (st1, w1)"
      and l: "sync_loop bh ctl rules states (c\<lparr>el_world := w1\<rparr>) = Inr (states1, c')"
      by (auto simp: rbind_Inr_iff)
    then have "P (c\<lparr>el_world := w1\<rparr>)"
      using sync_fd_registration_world Cons.prems(2) round_keepsD(4)[OF assms] by fastforce
    then show ?thesis using Cons.IH[OF l] by simp
  qed
qed

lemma error_pass_keeps:
  assumes "round_keeps bh ctl P"
  shows "error_pass bh ctl sockopt cb events l = Inr (cb', acts, l') \<Longrightarrow> P (el_context l) \<Longrightarrow> P (el_context l')"
proof (induction events arbitrary: cb l acts)
  case Nil
  then show ?case by simp
next
  case (Cons e events)
  obtain fd revents where e: "e = (fd, revents)" by (cases e)
  show ?case
  proof (cases "revents AND EPOLLERR \<noteq> 0")
    case True
    with Cons.prems[unfolded e] obtain rules acts1 c where
      f: "fail_rules bh fd (el_fd_rules l) (el_context l) = Inr (rules, acts1, c)" by (auto simp: rbind_Inr_iff)
    have c: "P c" using fail_rules_keeps[OF assms f Cons.prems(2)] .
    define sc where "sc = (case map_of (ep_fd_states l) fd of None \<Rightarrow> (ep_fd_states l, c)
      | Some st \<Rightarrow> (AList.delete fd (ep_fd_states l), epoll_delete ctl fd st c))"
    obtain states c1 where sc: "sc = (states, c1)" by (cases sc)
    have "P c1" using sc c epoll_delete_keeps[OF assms c] by (auto simp: sc_def split: option.splits)
    moreover from True Cons.prems(1)[unfolded e] f obtain acts2 where
      "error_pass bh ctl sockopt cb events (l\<lparr>el_fd_rules := rules, el_context := c1, ep_fd_states := states\<rparr>) = Inr (cb', acts2, l')"
      by (auto simp: rbind_Inr_iff sc sc_def[symmetric])
    ultimately show ?thesis using Cons.IH by simp
  next
    case False
    with Cons e show ?thesis by auto
  qed
qed

lemma serve_fd_keeps:
  assumes "round_keeps bh ctl P"
  shows "serve_fd bh fd revents before rest l = Inr (acts, l') \<Longrightarrow> P (el_context l) \<Longrightarrow> P (el_context l')"
proof (induction rest arbitrary: before l acts)
  case Nil
  then show ?case by auto
next
  case (Cons r rest)
  let ?c = "el_context l"
  from Cons.prems(1) consider (skip) "serve_fd bh fd revents (before @ [r]) rest l = Inr (acts, l')"
    | (hup) c1 acts1 where "bh_cancel bh (br_id r) ?c = Inr c1" "serve_fd bh fd revents before rest (l\<lparr>el_context := c1\<rparr>) = Inr (acts1, l')"
    | (ready) "bh_interest bh (br_id r) ?c" "bh_callback bh (br_id r) (l\<lparr>el_fd_rules := before @ r # rest\<rparr>) = Inr l'"
    by (simp add: Let_def rbind_Inr_iff split: if_splits prod.splits) blast+
  then show ?case
  proof cases
    case skip
    then show ?thesis using Cons by blast
  next
    case hup
    with Cons.IH[OF hup(2)] round_keepsD(2)[OF assms] Cons.prems(2) show ?thesis by simp
  next
    case ready
    with round_keepsD(1)[OF assms, of "l\<lparr>el_fd_rules := before @ r # rest\<rparr>"] Cons.prems(2) show ?thesis by simp
  qed
qed

lemma epoll_round_keeps:
  assumes k: "round_keeps bh ctl P" and w: "epoll_wait_next_event bh ctl wait sockopt t l = Inr (res, acts, l')" and P: "P (el_context l)"
  shows "P (el_context l')"
proof -
  obtain f a1 l1 where n: "non_fd_loop ''Epoll'' bh [] (el_non_fd_rules l) l = Inr (f, a1, l1)"
    using w by (auto simp: epoll_wait_next_event_def rbind_Inr_iff)
  have P1: "P (el_context l1)" using non_fd_loop_keeps[OF k n P] .
  show ?thesis
  proof (cases f)
    case True
    with n w P1 show ?thesis by (simp add: epoll_wait_next_event_def)
  next
    case False
    with n w obtain rules acts1 c states c1 where d: "drop_loop bh (el_fd_rules l1) (el_context l1) = Inr (rules, acts1, c)"
      and s: "sync_loop bh ctl rules (ep_fd_states l1) c = Inr (states, c1)"
      by (auto simp: epoll_wait_next_event_def rbind_Inr_iff)
    let ?l2 = "l1\<lparr>el_fd_rules := rules, el_context := c1, ep_fd_states := states\<rparr>"
    have P2: "P (el_context ?l2)" using sync_loop_keeps[OF k s] drop_loop_keeps[OF k d P1] by simp
    from False n w d s consider "l' = ?l2" | events acts2 where "epoll_dispatch bh ctl sockopt events ?l2 = Inr (acts2, l')"
      by (auto simp: epoll_wait_next_event_def rbind_Inr_iff Let_def split: if_splits syscall.splits)
    then show ?thesis
    proof cases
      case 1
      then show ?thesis using P2 by simp
    next
      case (2 events acts2)
      then show ?thesis
        using P2 by (auto simp: epoll_dispatch_def rbind_Inr_iff split: option.splits
            dest!: error_pass_keeps[OF k] serve_fd_keeps[OF k])
    qed
  qed
qed

end
