(* ===== verification/Address.thy ===== *)
theory Address
  imports Prelude
begin

text \<open>
  \<^verbatim>\<open>src/util/address.hh\<close> and \<^verbatim>\<open>address.cc\<close>: socket addresses.  Of the wrapped \<^verbatim>\<open>sockaddr_storage\<close>
  the model has the part that a \<^verbatim>\<open>sockaddr_in\<close> uses: family, port and IPv4 address, the last two as
  numbers in host byte order (the C++ code converts on every access).  Name resolution
  (\<^verbatim>\<open>getaddrinfo\<close>) and the textual forms (\<^verbatim>\<open>getnameinfo\<close>) are not modelled.
\<close>

record address =
  ad_size :: u32
  ad_family :: u16
  ad_port :: u16
  ad_ipv4 :: u32

definition AF_INET :: u16 where
  "AF_INET = 2"

definition AF_INET6 :: u16 where
  "AF_INET6 = 10"

definition sizeof_sockaddr_in :: u32 where
  "sizeof_sockaddr_in = 16"

definition ipv4_numeric :: "address \<Rightarrow> u32 result" where
  "ipv4_numeric a =
     (if ad_family a \<noteq> AF_INET \<or> ad_size a \<noteq> sizeof_sockaddr_in
      then Inl (Runtime_Error ''ipv4_numeric called on non-IPV4 address'')
      else Inr (ad_ipv4 a))"

definition from_ipv4_numeric :: "u32 \<Rightarrow> address" where
  "from_ipv4_numeric ip_address =
     \<lparr>ad_size = sizeof_sockaddr_in, ad_family = AF_INET, ad_port = 0, ad_ipv4 = ip_address\<rparr>"

definition address_port :: "address \<Rightarrow> u16 result" where
  "address_port a =
     (if ad_family a \<noteq> AF_INET \<and> ad_family a \<noteq> AF_INET6
      then Inl (Runtime_Error ''Address::ip_port() called on non-Internet address'')
      else Inr (ad_port a))"

definition is_ipv4 :: "address \<Rightarrow> bool" where
  "is_ipv4 a \<longleftrightarrow> ad_family a = AF_INET \<and> ad_size a = sizeof_sockaddr_in"

lemma ipv4_numeric_ok [simp]: "is_ipv4 a \<Longrightarrow> ipv4_numeric a = Inr (ad_ipv4 a)"
  by (simp add: ipv4_numeric_def is_ipv4_def)

lemma ipv4_numeric_Inr_iff: "ipv4_numeric a = Inr n \<longleftrightarrow> is_ipv4 a \<and> n = ad_ipv4 a"
  by (auto simp: ipv4_numeric_def is_ipv4_def)

lemma ipv4_numeric_from [simp]: "ipv4_numeric (from_ipv4_numeric n) = Inr n" "is_ipv4 (from_ipv4_numeric n)"
  "ad_ipv4 (from_ipv4_numeric n) = n"
  by (simp_all add: ipv4_numeric_def from_ipv4_numeric_def is_ipv4_def)

lemma address_port_ipv4 [simp]: "is_ipv4 a \<Longrightarrow> address_port a = Inr (ad_port a)"
  by (simp add: address_port_def is_ipv4_def)

end
