(* ===== verification/Socket.thy ===== *)
theory Socket
  imports File_Descriptor Address
begin

text \<open>
  \<^verbatim>\<open>src/util/socket.hh\<close> and \<^verbatim>\<open>socket.cc\<close>: the wrappers around the socket calls.  The kernel is a
  parameter, as for file descriptors: an operation takes the outcomes of its system calls.  A socket
  is the \<open>fd_wrapper\<close> it inherits.  The outcome of \<^verbatim>\<open>getsockopt\<close> is the value of the option and its length.
\<close>

type_synonym sockopt = "(int \<times> nat) syscall"

definition sizeof_int :: nat where
  "sizeof_int = 4"

definition SOCK_STREAM :: int where
  "SOCK_STREAM = 1"

definition SOCK_DGRAM :: int where
  "SOCK_DGRAM = 2"

definition PF_UNIX :: int where
  "PF_UNIX = 1"

definition PF_INET :: int where
  "PF_INET = 2"

definition IPPROTO_TCP :: int where
  "IPPROTO_TCP = 6"

definition SHUT_RD :: int where
  "SHUT_RD = 0"

definition SHUT_WR :: int where
  "SHUT_WR = 1"

definition SHUT_RDWR :: int where
  "SHUT_RDWR = 2"

text \<open>\<^verbatim>\<open>Socket(domain, type, protocol)\<close>, with the outcomes of \<^verbatim>\<open>socket\<close> and \<^verbatim>\<open>fcntl\<close>.\<close>

definition Socket_new :: "int syscall \<Rightarrow> int syscall \<Rightarrow> fd_wrapper result" where
  "Socket_new ret getfl = rbind (CheckSystemCall ''socket'' ret) (\<lambda>fd. FDWrapper_new fd getfl)"

text \<open>
  The wrapper of \<^verbatim>\<open>getsockopt\<close>: a call that would block leaves the value and the length as they were.
\<close>

fun Socket_getsockopt :: "sockopt \<Rightarrow> int \<Rightarrow> fd_wrapper \<Rightarrow> (int \<times> nat) result" where
  "Socket_getsockopt (Returned (value, len)) old w = Inr (value, len)"
| "Socket_getsockopt (Failed errno) old w =
     rbind (FD_CheckSystemCall ''getsockopt'' (Failed errno) w) (\<lambda>_. Inr (old, sizeof_int))"

definition Socket_setsockopt :: "int syscall \<Rightarrow> fd_wrapper \<Rightarrow> unit result" where
  "Socket_setsockopt ret w = rbind (FD_CheckSystemCall ''setsockopt'' ret w) (\<lambda>_. Inr ())"

definition Socket_from_fd :: "int \<Rightarrow> int \<Rightarrow> int \<Rightarrow> sockopt \<Rightarrow> sockopt \<Rightarrow> sockopt \<Rightarrow> fd_wrapper \<Rightarrow> fd_wrapper result" where
  "Socket_from_fd domain type protocol so_domain so_type so_protocol w =
     rbind (Socket_getsockopt so_domain 0 w) (\<lambda>(actual_value, len).
     if len \<noteq> sizeof_int \<or> actual_value \<noteq> domain then Inl (Runtime_Error ''socket domain mismatch'')
     else rbind (Socket_getsockopt so_type actual_value w) (\<lambda>(actual_value, len).
     if len \<noteq> sizeof_int \<or> actual_value \<noteq> type then Inl (Runtime_Error ''socket type mismatch'')
     else rbind (Socket_getsockopt so_protocol actual_value w) (\<lambda>(actual_value, len).
     if len \<noteq> sizeof_int \<or> actual_value \<noteq> protocol then Inl (Runtime_Error ''socket protocol mismatch'')
     else Inr w)))"

text \<open>
  \<^verbatim>\<open>get_address\<close> and what uses it: the call fills in an address, none when it would block (the storage
  is then all zeros, with the size of the storage).
\<close>

definition sizeof_storage :: u32 where
  "sizeof_storage = 128"

definition Address_raw :: "address \<Rightarrow> address result" where
  "Address_raw a = (if ad_size a > sizeof_storage then Inl (Runtime_Error ''invalid sockaddr size'') else Inr a)"

definition blank_address :: address where
  "blank_address = \<lparr>ad_size = sizeof_storage, ad_family = 0, ad_port = 0, ad_ipv4 = 0\<rparr>"

fun get_address :: "string \<Rightarrow> address syscall \<Rightarrow> fd_wrapper \<Rightarrow> address result" where
  "get_address name (Returned a) w = Address_raw a"
| "get_address name (Failed errno) w = rbind (FD_CheckSystemCall name (Failed errno) w) (\<lambda>_. Address_raw blank_address)"

definition local_address :: "address syscall \<Rightarrow> fd_wrapper \<Rightarrow> address result" where
  "local_address = get_address ''getsockname''"

definition peer_address :: "address syscall \<Rightarrow> fd_wrapper \<Rightarrow> address result" where
  "peer_address = get_address ''getpeername''"

definition Socket_bind :: "int syscall \<Rightarrow> fd_wrapper \<Rightarrow> unit result" where
  "Socket_bind ret w = rbind (FD_CheckSystemCall ''bind'' ret w) (\<lambda>_. Inr ())"

definition bind_to_device :: "int syscall \<Rightarrow> fd_wrapper \<Rightarrow> unit result" where
  "bind_to_device = Socket_setsockopt"

definition Socket_connect :: "int syscall \<Rightarrow> fd_wrapper \<Rightarrow> unit result" where
  "Socket_connect ret w = rbind (FD_CheckSystemCall ''connect'' ret w) (\<lambda>_. Inr ())"

definition Socket_shutdown :: "int \<Rightarrow> int syscall \<Rightarrow> fd_wrapper \<Rightarrow> fd_wrapper result" where
  "Socket_shutdown how ret w =
     rbind (FD_CheckSystemCall ''shutdown'' ret w) (\<lambda>_.
     if how = SHUT_RD then Inr (register_read w)
     else if how = SHUT_WR then Inr (register_write w)
     else if how = SHUT_RDWR then Inr (register_write (register_read w))
     else Inl (Runtime_Error ''Socket::shutdown() called with invalid `how`''))"

text \<open>
  \<^verbatim>\<open>recvfrom\<close> with \<^verbatim>\<open>MSG_TRUNC\<close> returns the length of the datagram, which may be more than what it copied.
\<close>

fun Datagram_recv :: "(int \<times> bytes \<times> address) syscall \<Rightarrow> fd_wrapper \<Rightarrow> (address \<times> bytes \<times> fd_wrapper) result" where
  "Datagram_recv (Returned (recv_len, data, source)) w =
     (if recv_len > int kReadBufferSize then Inl (Runtime_Error ''recvfrom (oversized datagram)'')
      else rbind (Address_raw source) (\<lambda>source_address.
           Inr (source_address, str_resize (nat recv_len) (data @ replicate (kReadBufferSize - length data) 0), register_read w)))"
| "Datagram_recv (Failed errno) w =
     rbind (FD_CheckSystemCall ''recvfrom'' (Failed errno) w) (\<lambda>_.
     rbind (Address_raw blank_address) (\<lambda>source_address. Inr (source_address, [], register_read w)))"

definition Datagram_sendto :: "int syscall \<Rightarrow> fd_wrapper \<Rightarrow> fd_wrapper result" where
  "Datagram_sendto ret w = rbind (FD_CheckSystemCall ''sendto'' ret w) (\<lambda>_. Inr (register_write w))"

definition Datagram_send :: "int syscall \<Rightarrow> fd_wrapper \<Rightarrow> fd_wrapper result" where
  "Datagram_send ret w = rbind (FD_CheckSystemCall ''send'' ret w) (\<lambda>_. Inr (register_write w))"

definition TCPSocket_listen :: "int syscall \<Rightarrow> fd_wrapper \<Rightarrow> unit result" where
  "TCPSocket_listen ret w = rbind (FD_CheckSystemCall ''listen'' ret w) (\<lambda>_. Inr ())"

text \<open>
  \<^verbatim>\<open>accept\<close>: the number it returns is made a descriptor and that a socket, with the outcomes of the
  calls the two constructors make for it.
\<close>

definition TCPSocket_accept :: "int syscall \<Rightarrow> int syscall \<Rightarrow> sockopt \<Rightarrow> sockopt \<Rightarrow> sockopt \<Rightarrow> fd_wrapper
    \<Rightarrow> (fd_wrapper \<times> fd_wrapper) result" where
  "TCPSocket_accept ret getfl so_domain so_type so_protocol w =
     (let w = register_read w in
      rbind (FD_CheckSystemCall ''accept'' ret w) (\<lambda>fd.
      rbind (FDWrapper_new fd getfl) (\<lambda>client.
      rbind (Socket_from_fd PF_INET SOCK_STREAM IPPROTO_TCP so_domain so_type so_protocol client) (\<lambda>client.
      Inr (client, w)))))"

definition LocalStreamSocket_new :: "sockopt \<Rightarrow> sockopt \<Rightarrow> sockopt \<Rightarrow> fd_wrapper \<Rightarrow> fd_wrapper result" where
  "LocalStreamSocket_new = Socket_from_fd PF_UNIX SOCK_STREAM 0"

definition set_reuseaddr :: "int syscall \<Rightarrow> fd_wrapper \<Rightarrow> unit result" where
  "set_reuseaddr = Socket_setsockopt"

definition throw_if_error :: "sockopt \<Rightarrow> fd_wrapper \<Rightarrow> unit result" where
  "throw_if_error r w =
     rbind (Socket_getsockopt r 0 w) (\<lambda>(socket_error, len).
     if len \<noteq> sizeof_int then Inl (Runtime_Error (''unexpected length from getsockopt: '' @ dec_string len))
     else if socket_error \<noteq> 0 then Inl (Unix_Error ''socket error'' socket_error)
     else Inr ())"

section \<open>Accepting\<close>

text \<open>
  Accepting on a blocking listener gives the connection's socket, or throws; the new socket has been
  checked to be a TCP socket.
\<close>

lemma FDWrapper_new_fd: "FDWrapper_new fd getfl = Inr w \<Longrightarrow> fw_fd w = fd \<and> \<not> fw_closed w \<and> \<not> fw_eof w"
  by (auto simp: FDWrapper_new_def Let_def rbind_Inr_iff split: if_splits)

lemma accept_blocking:
  assumes "TCPSocket_accept ret getfl d t p w = Inr (client, w')" and "\<not> fw_non_blocking w"
  shows "ret = Returned (fw_fd client) \<and> fw_read_count w' = fw_read_count w + 1"
  using assms
  by (cases ret)
    (auto simp: TCPSocket_accept_def Socket_from_fd_def Let_def rbind_Inr_iff register_read_def would_block_def
      dest: FDWrapper_new_fd split: if_splits)

text \<open>
  On a non-blocking listener with no connection pending, \<^verbatim>\<open>accept\<close> fails with \<^verbatim>\<open>EAGAIN\<close>, which the wrapper turns
  into 0, and the number 0 is taken for the new descriptor: the standard input gets wrapped, and is
  closed when the check of its domain throws and the descriptor is destroyed.
\<close>

lemma accept_nonblocking_wraps_stdin:
  assumes "fw_non_blocking w"
  shows "TCPSocket_accept (Failed EAGAIN) getfl so_domain so_type so_protocol w =
     rbind (FDWrapper_new 0 getfl) (\<lambda>stdin.
     rbind (Socket_from_fd PF_INET SOCK_STREAM IPPROTO_TCP so_domain so_type so_protocol stdin) (\<lambda>client.
     Inr (client, register_read w)))"
  using assms by (simp add: TCPSocket_accept_def Let_def would_block_def register_read_def)

end
