(* ===== verification/IPv4.thy ===== *)
theory IPv4
  imports Checksum Parser
begin

text \<open>
  \<^verbatim>\<open>src/util/ipv4_header.hh\<close>, \<^verbatim>\<open>ipv4_header.cc\<close> and \<^verbatim>\<open>ipv4_datagram.hh\<close>: IPv4 headers and datagrams.
  \<^verbatim>\<open>serialize\<close> throws when the version is not 4; options are skipped by the parser and never
  written.
\<close>

definition IPv4Header_LENGTH :: u8 where
  "IPv4Header_LENGTH = 20"

definition DEFAULT_TTL :: u8 where
  "DEFAULT_TTL = 128"

definition PROTO_TCP :: u8 where
  "PROTO_TCP = 6"

record ipv4_header =
  ip_ver :: u8
  ip_hlen :: u8
  ip_tos :: u8
  ip_len :: u16
  ip_id :: u16
  ip_df :: bool
  ip_mf :: bool
  ip_offset :: u16
  ip_ttl :: u8
  ip_proto :: u8
  ip_cksum :: u16
  ip_src :: u32
  ip_dst :: u32

definition IPv4Header_new :: ipv4_header where
  "IPv4Header_new =
     \<lparr>ip_ver = 4, ip_hlen = IPv4Header_LENGTH div 4, ip_tos = 0, ip_len = 0, ip_id = 0, ip_df = True,
      ip_mf = False, ip_offset = 0, ip_ttl = DEFAULT_TTL, ip_proto = PROTO_TCP, ip_cksum = 0,
      ip_src = 0, ip_dst = 0\<rparr>"

definition IPv4Header_serialize :: "ipv4_header \<Rightarrow> serializer \<Rightarrow> serializer result" where
  "IPv4Header_serialize h s =
     (if ip_ver h \<noteq> 4 then Inl (Runtime_Error ''wrong IP version'')
      else
        let first_byte = ucast ((push_bit 4 (ucast (ip_ver h)) :: u32) OR (ucast (ip_hlen h) AND 0xf)) :: u8;
            s = Serializer_integer first_byte s;
            s = Serializer_integer (ip_tos h) s;
            s = Serializer_integer (ip_len h) s;
            s = Serializer_integer (ip_id h) s;
            fo_val = (if ip_df h then 0x4000 else 0) OR (if ip_mf h then 0x2000 else 0)
                       OR (ip_offset h AND 0x1fff) :: u16;
            s = Serializer_integer fo_val s;
            s = Serializer_integer (ip_ttl h) s;
            s = Serializer_integer (ip_proto h) s;
            s = Serializer_integer (ip_cksum h) s;
            s = Serializer_integer (ip_src h) s;
            s = Serializer_integer (ip_dst h) s
        in Inr s)"

definition payload_length :: "ipv4_header \<Rightarrow> u16" where
  "payload_length h = ip_len h - 4 * ucast (ip_hlen h)"

definition pseudo_checksum :: "ipv4_header \<Rightarrow> u32" where
  "pseudo_checksum h =
     (let pcksum = drop_bit 16 (ip_src h) + ucast (ucast (ip_src h) :: u16);
          pcksum = pcksum + (drop_bit 16 (ip_dst h) + ucast (ucast (ip_dst h) :: u16));
          pcksum = pcksum + ucast (ip_proto h)
      in pcksum + ucast (payload_length h))"

definition IPv4Header_compute_checksum :: "ipv4_header \<Rightarrow> ipv4_header result" where
  "IPv4Header_compute_checksum h =
     (let h = h\<lparr>ip_cksum := 0\<rparr>
      in rbind (IPv4Header_serialize h Serializer_new) (\<lambda>s.
           let check = checksum_add_all (map ref_get (Serializer_finish s)) (InternetChecksum_new 0)
           in Inr (h\<lparr>ip_cksum := checksum_value check\<rparr>)))"

definition IPv4Header_parse :: "ipv4_header \<Rightarrow> parser \<Rightarrow> (ipv4_header \<times> parser) result" where
  "IPv4Header_parse h p =
     rbind (Parser_integer (0 :: u8) p) (\<lambda>(first_byte, p).
     let h = h\<lparr>ip_ver := drop_bit 4 first_byte, ip_hlen := first_byte AND 0x0f\<rparr> in
     rbind (Parser_integer (ip_tos h) p) (\<lambda>(tos, p).
     rbind (Parser_integer (ip_len h) p) (\<lambda>(len, p).
     rbind (Parser_integer (ip_id h) p) (\<lambda>(id, p).
     rbind (Parser_integer (0 :: u16) p) (\<lambda>(fo_val, p).
     rbind (Parser_integer (ip_ttl h) p) (\<lambda>(ttl, p).
     rbind (Parser_integer (ip_proto h) p) (\<lambda>(proto, p).
     rbind (Parser_integer (ip_cksum h) p) (\<lambda>(cksum, p).
     rbind (Parser_integer (ip_src h) p) (\<lambda>(src, p).
     rbind (Parser_integer (ip_dst h) p) (\<lambda>(dst, p).
       let h = h\<lparr>ip_tos := tos, ip_len := len, ip_id := id, ip_df := (fo_val AND 0x4000 \<noteq> 0),
                  ip_mf := (fo_val AND 0x2000 \<noteq> 0), ip_offset := fo_val AND 0x1fff, ip_ttl := ttl,
                  ip_proto := proto, ip_cksum := cksum, ip_src := src, ip_dst := dst\<rparr>;
           p = (if ip_ver h \<noteq> 4 then Parser_set_error p else p);
           p = (if ip_hlen h < 5 then Parser_set_error p else p)
       in if pr_error p then Inr (h, p)
          else
            rbind (Parser_remove_prefix (ucast (ip_hlen h) * 4 - ucast IPv4Header_LENGTH) p) (\<lambda>p.
            let given_cksum = ip_cksum h in
            rbind (IPv4Header_compute_checksum h) (\<lambda>h.
              Inr (h, if ip_cksum h \<noteq> given_cksum then Parser_set_error p else p)))))))))))))"

record ipv4_datagram =
  dg_header :: ipv4_header
  dg_payload :: "bytes cpp_ref list"

definition IPv4Datagram_new :: ipv4_datagram where
  "IPv4Datagram_new = \<lparr>dg_header = IPv4Header_new, dg_payload = []\<rparr>"

definition IPv4Datagram_parse :: "ipv4_datagram \<Rightarrow> parser \<Rightarrow> (ipv4_datagram \<times> parser) result" where
  "IPv4Datagram_parse dg p =
     rbind (IPv4Header_parse (dg_header dg) p) (\<lambda>(h, p).
     let p = Parser_truncate (ucast (payload_length h)) p in
     rbind (all_remaining p) (\<lambda>payload. Inr (\<lparr>dg_header = h, dg_payload = payload\<rparr>, p)))"

definition IPv4Datagram_serialize :: "ipv4_datagram \<Rightarrow> serializer \<Rightarrow> serializer result" where
  "IPv4Datagram_serialize dg s =
     rbind (IPv4Header_serialize (dg_header dg) s) (\<lambda>s. Inr (Serializer_refs (dg_payload dg) s))"

section \<open>Bits of the header\<close>

definition first_byte :: "ipv4_header \<Rightarrow> u8" where
  "first_byte h = ucast ((push_bit 4 (ucast (ip_ver h)) :: u32) OR (ucast (ip_hlen h) AND 0xf))"

definition fo_bits :: "ipv4_header \<Rightarrow> u16" where
  "fo_bits h = (if ip_df h then 0x4000 else 0) OR (if ip_mf h then 0x2000 else 0) OR (ip_offset h AND 0x1fff)"

lemma first_byte_eq: "ip_ver h = 4 \<Longrightarrow> ip_hlen h = 5 \<Longrightarrow> first_byte h = 0x45"
  by (simp add: first_byte_def)

lemma fo_bits_fields:
  "fo_bits h AND 0x4000 \<noteq> 0 \<longleftrightarrow> ip_df h" "fo_bits h AND 0x2000 \<noteq> 0 \<longleftrightarrow> ip_mf h"
  "fo_bits h AND 0x1fff = ip_offset h AND 0x1fff"
  by (auto simp: fo_bits_def bit.conj_disj_distrib2 and.assoc)

definition ip_bytes :: "ipv4_header \<Rightarrow> bytes" where
  "ip_bytes h = first_byte h # ip_tos h # int_bytes (ip_len h) @ int_bytes (ip_id h) @ int_bytes (fo_bits h)
     @ ip_ttl h # ip_proto h # int_bytes (ip_cksum h) @ int_bytes (ip_src h) @ int_bytes (ip_dst h)"

lemma length_ip_bytes [simp]: "length (ip_bytes h) = 20"
  by (simp add: ip_bytes_def length_int_bytes)

lemma IPv4Header_serialize_ok:
  assumes "ip_ver h = 4" and "sr_wf s"
  shows "\<exists>s'. IPv4Header_serialize h s = Inr s' \<and> sr_bytes s' = sr_bytes s @ ip_bytes h \<and> sr_wf s'"
  using assms unfolding IPv4Header_serialize_def first_byte_def [symmetric] fo_bits_def [symmetric]
  by (simp add: ip_bytes_def)

text \<open>The checksum of the header without its checksum field.\<close>

definition header_checksum :: "ipv4_header \<Rightarrow> u16" where
  "header_checksum h = checksum_value (checksum_add (ip_bytes (h\<lparr>ip_cksum := 0\<rparr>)) (InternetChecksum_new 0))"

lemma compute_checksum_ok:
  assumes "ip_ver h = 4"
  shows "IPv4Header_compute_checksum h = Inr (h\<lparr>ip_cksum := header_checksum h\<rparr>)"
proof -
  obtain s where s: "IPv4Header_serialize (h\<lparr>ip_cksum := 0\<rparr>) Serializer_new = Inr s" "sr_bytes s = ip_bytes (h\<lparr>ip_cksum := 0\<rparr>)"
    using IPv4Header_serialize_ok [of "h\<lparr>ip_cksum := 0\<rparr>" Serializer_new] assms by auto
  have "concat (map ref_get (Serializer_finish s)) = ip_bytes (h\<lparr>ip_cksum := 0\<rparr>)"
    using Serializer_finish_ok(1) [of s] s(2) by (simp add: concat_refs_eq)
  then show ?thesis
    using s(1) by (simp add: IPv4Header_compute_checksum_def Let_def checksum_add_all_eq header_checksum_def)
qed

text \<open>Reading a header without options: it is accepted exactly when its checksum is right.\<close>

lemma IPv4Header_parse_ok:
  assumes "ip_ver h = 4" and "ip_hlen h = 5" and off: "ip_offset h AND 0x1fff = ip_offset h" and p: "pr_ok p (ip_bytes h @ d)"
  shows "\<exists>p'. pr_ok p' d \<and> IPv4Header_parse old p = Inr (h\<lparr>ip_cksum := header_checksum h\<rparr>,
    if header_checksum h \<noteq> ip_cksum h then Parser_set_error p' else p')"
proof -
  have fb: "first_byte h = 0x45" using assms(1,2) by (rule first_byte_eq)
  obtain p0 where p0: "Parser_integer (0 :: u8) p = Inr (0x45, p0)" "pr_ok p0 (ip_tos h # int_bytes (ip_len h) @ int_bytes (ip_id h) @ int_bytes (fo_bits h)
     @ ip_ttl h # ip_proto h # int_bytes (ip_cksum h) @ int_bytes (ip_src h) @ int_bytes (ip_dst h) @ d)"
    using p Parser_integer_8 [of p "first_byte h"] fb by (fastforce simp: ip_bytes_def)
  let ?h = "old\<lparr>ip_ver := drop_bit 4 0x45, ip_hlen := 0x45 AND 0x0f\<rparr>"
  obtain p1 where p1: "Parser_integer (ip_tos ?h) p0 = Inr (ip_tos h, p1)" "pr_ok p1 (int_bytes (ip_len h) @ int_bytes (ip_id h) @ int_bytes (fo_bits h)
     @ ip_ttl h # ip_proto h # int_bytes (ip_cksum h) @ int_bytes (ip_src h) @ int_bytes (ip_dst h) @ d)"
    using Parser_integer_8 [OF p0(2)] by blast
  obtain p2 where p2: "Parser_integer (ip_len ?h) p1 = Inr (ip_len h, p2)" "pr_ok p2 (int_bytes (ip_id h) @ int_bytes (fo_bits h)
     @ ip_ttl h # ip_proto h # int_bytes (ip_cksum h) @ int_bytes (ip_src h) @ int_bytes (ip_dst h) @ d)"
    using Parser_integer_16 [OF p1(2)] by blast
  obtain p3 where p3: "Parser_integer (ip_id ?h) p2 = Inr (ip_id h, p3)" "pr_ok p3 (int_bytes (fo_bits h)
     @ ip_ttl h # ip_proto h # int_bytes (ip_cksum h) @ int_bytes (ip_src h) @ int_bytes (ip_dst h) @ d)"
    using Parser_integer_16 [OF p2(2)] by blast
  obtain p4 where p4: "Parser_integer (0 :: u16) p3 = Inr (fo_bits h, p4)" "pr_ok p4 (ip_ttl h # ip_proto h # int_bytes (ip_cksum h)
     @ int_bytes (ip_src h) @ int_bytes (ip_dst h) @ d)"
    using Parser_integer_16 [OF p3(2)] by blast
  obtain p5 where p5: "Parser_integer (ip_ttl ?h) p4 = Inr (ip_ttl h, p5)" "pr_ok p5 (ip_proto h # int_bytes (ip_cksum h)
     @ int_bytes (ip_src h) @ int_bytes (ip_dst h) @ d)"
    using Parser_integer_8 [OF p4(2)] by blast
  obtain p6 where p6: "Parser_integer (ip_proto ?h) p5 = Inr (ip_proto h, p6)" "pr_ok p6 (int_bytes (ip_cksum h)
     @ int_bytes (ip_src h) @ int_bytes (ip_dst h) @ d)"
    using Parser_integer_8 [OF p5(2)] by blast
  obtain p7 where p7: "Parser_integer (ip_cksum ?h) p6 = Inr (ip_cksum h, p7)" "pr_ok p7 (int_bytes (ip_src h) @ int_bytes (ip_dst h) @ d)"
    using Parser_integer_16 [OF p6(2)] by blast
  obtain p8 where p8: "Parser_integer (ip_src ?h) p7 = Inr (ip_src h, p8)" "pr_ok p8 (int_bytes (ip_dst h) @ d)"
    using Parser_integer_32 [OF p7(2)] by blast
  obtain p9 where p9: "Parser_integer (ip_dst ?h) p8 = Inr (ip_dst h, p9)" "pr_ok p9 d"
    using Parser_integer_32 [OF p8(2)] by blast
  have h: "?h\<lparr>ip_tos := ip_tos h, ip_len := ip_len h, ip_id := ip_id h, ip_df := (fo_bits h AND 0x4000 \<noteq> 0),
      ip_mf := (fo_bits h AND 0x2000 \<noteq> 0), ip_offset := fo_bits h AND 0x1fff, ip_ttl := ip_ttl h,
      ip_proto := ip_proto h, ip_cksum := ip_cksum h, ip_src := ip_src h, ip_dst := ip_dst h\<rparr> = h"
    using assms(1,2) off unfolding fo_bits_fields by simp
  have rp: "Parser_remove_prefix (ucast (ip_hlen h) * 4 - ucast IPv4Header_LENGTH) p9 = Inr p9"
    using assms(2) by (simp add: Parser_remove_prefix_def IPv4Header_LENGTH_def BufferList_remove_prefix.simps)
  have noerr: "\<not> pr_error p9" using p9(2) by (simp add: pr_ok_def)
  have "IPv4Header_parse old p = Inr (h\<lparr>ip_cksum := header_checksum h\<rparr>,
      if header_checksum h \<noteq> ip_cksum h then Parser_set_error p9 else p9)"
    unfolding IPv4Header_parse_def p0(1) rbind.simps prod.case Let_def p1(1) p2(1) p3(1) p4(1) p5(1) p6(1) p7(1) p8(1) p9(1) h
    using noerr rp compute_checksum_ok [OF assms(1)] assms(1,2) by simp
  then show ?thesis using p9(2) by blast
qed

section \<open>Correctness\<close>

definition ip_valid :: "ipv4_header \<Rightarrow> bool" where
  "ip_valid h \<longleftrightarrow> ip_ver h = 4 \<and> ip_hlen h = 5 \<and> ip_offset h AND 0x1fff = ip_offset h
     \<and> ip_cksum h = header_checksum h"

lemma header_checksum_cksum [simp]: "header_checksum (h\<lparr>ip_cksum := c\<rparr>) = header_checksum h"
  by (simp add: header_checksum_def)

interpretation ipv4: codec ip_valid "\<lambda>_. True" ip_bytes IPv4Header_serialize IPv4Header_parse
proof unfold_locales
  fix h old :: ipv4_header and p d s
  show "\<exists>s'. IPv4Header_serialize h s = Inr s' \<and> sr_bytes s' = sr_bytes s @ ip_bytes h \<and> sr_wf s'"
    if "ip_valid h" "sr_wf s"
    using that IPv4Header_serialize_ok by (simp add: ip_valid_def)
  show "\<exists>p'. IPv4Header_parse old p = Inr (h, p') \<and> pr_ok p' d" if v: "ip_valid h" and p: "pr_ok p (ip_bytes h @ d)"
  proof -
    have f: "ip_ver h = 4" "ip_hlen h = 5" "ip_offset h AND 0x1fff = ip_offset h" "header_checksum h = ip_cksum h"
      using v by (simp_all add: ip_valid_def)
    from IPv4Header_parse_ok [OF f(1-3) p, of old] obtain p' where "pr_ok p' d"
        "IPv4Header_parse old p = Inr (h\<lparr>ip_cksum := header_checksum h\<rparr>, p')"
      using f(4) by auto
    then show ?thesis using f(4) by (intro exI [of _ p']) simp
  qed
qed

text \<open>A header passes the sum over all its bytes exactly when its checksum field is right.\<close>

lemma header_sums_to_zero:
  assumes "ip_cksum h = header_checksum h"
  shows "checksum_value (checksum_add (ip_bytes h) (InternetChecksum_new 0)) = 0"
proof -
  let ?pre = "first_byte h # ip_tos h # int_bytes (ip_len h) @ int_bytes (ip_id h) @ int_bytes (fo_bits h)
     @ [ip_ttl h, ip_proto h]"
  let ?post = "int_bytes (ip_src h) @ int_bytes (ip_dst h)"
  have split: "ip_bytes (h\<lparr>ip_cksum := c\<rparr>) = ?pre @ cksum_bytes c @ ?post" for c
    by (simp add: ip_bytes_def cksum_bytes_def int_bytes_16 first_byte_def fo_bits_def)
  have "word_sum False (?pre @ cksum_bytes 0 @ ?post) \<le> 65280 * 20"
    using word_sum_le [of False "?pre @ cksum_bytes 0 @ ?post"] by (simp add: cksum_bytes_def length_int_bytes)
  then have small: "unat (0 :: u32) + word_sum False (?pre @ cksum_bytes 0 @ ?post) < 2 ^ 32 - 65536" by simp
  have "even (length ?pre)" by (simp add: length_int_bytes)
  from checksum_insert [OF this small refl]
  have "checksum_value (checksum_add (ip_bytes (h\<lparr>ip_cksum := ip_cksum h\<rparr>)) (InternetChecksum_new 0)) = 0"
    unfolding assms header_checksum_def split [symmetric] .
  then show ?thesis by simp
qed

text \<open>
  A datagram whose length field is right is parsed from whatever buffers its bytes come in: the
  parser has nothing to cut off.
\<close>

lemma IPv4Datagram_parse_ok:
  assumes "ip_valid h" and "unat (ip_len h) = 20 + length d" and "pr_ok p (ip_bytes h @ d)"
  shows "\<exists>refs p'. IPv4Datagram_parse IPv4Datagram_new p = Inr (\<lparr>dg_header = h, dg_payload = refs\<rparr>, p') \<and>
    \<not> pr_error p' \<and> concat_refs refs = d \<and> list_all is_owned refs \<and> no_gap (map ref_get refs)"
proof -
  obtain p' where p': "IPv4Header_parse IPv4Header_new p = Inr (h, p')" "pr_ok p' d"
    using ipv4.par [OF assms(1) _ assms(3)] by blast
  obtain refs where r: "all_remaining p' = Inr refs" "concat_refs refs = d" "list_all is_owned refs"
      "no_gap (map ref_get refs)"
    using all_remaining_ok [OF p'(2)] by blast
  have "unat (payload_length h) = length d"
    using assms(1,2) unat_sub [of "20 :: u16" "ip_len h"]
    by (simp add: payload_length_def ip_valid_def word_le_nat_alt)
  then have "bl_size (pr_input p') \<le> ucast (payload_length h)"
    using p'(2) unat_bl_size [of "pr_input p'"] unsigned_less [where ?w = "payload_length h" and ?'a = nat]
    by (simp add: word_le_nat_alt pr_ok_def unsigned_ucast_eq take_bit_nat_eq_self)
  then have "Parser_truncate (ucast (payload_length h)) p' = p'"
    by (simp add: Parser_truncate_def BufferList_truncate_def)
  then show ?thesis
    using p' r by (auto simp: IPv4Datagram_parse_def IPv4Datagram_new_def Let_def pr_ok_def)
qed

lemma compute_checksum_valid:
  assumes "IPv4Header_compute_checksum h0 = Inr h" and "ip_hlen h0 = 5" and "ip_offset h0 AND 0x1fff = ip_offset h0"
  shows "ip_valid h" "ip_len h = ip_len h0" "h = h0\<lparr>ip_cksum := header_checksum h0\<rparr>"
proof -
  have ver: "ip_ver h0 = 4"
    using assms(1) by (auto simp: IPv4Header_compute_checksum_def IPv4Header_serialize_def Let_def split: if_splits)
  then have "h = h0\<lparr>ip_cksum := header_checksum h0\<rparr>" using assms(1) compute_checksum_ok [OF ver] by simp
  then show "ip_valid h" "ip_len h = ip_len h0" "h = h0\<lparr>ip_cksum := header_checksum h0\<rparr>"
    using ver assms(2,3) by (simp_all add: ip_valid_def)
qed

text \<open>
  An IPv4 datagram without options whose length field and checksum are right is recovered
  from the wire: header fields, checksum and payload bytes are the same, and parsing does not
  report an error.
\<close>

theorem ipv4_datagram_roundtrip:
  assumes h: "IPv4Header_compute_checksum h0 = Inr (dg_header dg)" and "ip_hlen h0 = 5"
    and "ip_offset h0 AND 0x1fff = ip_offset h0"
    and len: "unat (ip_len h0) = 20 + length (concat_refs (dg_payload dg))"
  shows "\<exists>s p dg' p'. IPv4Datagram_serialize dg Serializer_new = Inr s \<and>
    Parser_new (clone_payload (Serializer_finish s)) = Inr p \<and>
    IPv4Datagram_parse IPv4Datagram_new p = Inr (dg', p') \<and> \<not> pr_error p' \<and>
    dg_header dg' = dg_header dg \<and> concat_refs (dg_payload dg') = concat_refs (dg_payload dg)"
proof -
  note v = compute_checksum_valid [OF assms(1-3)]
  obtain s where s: "IPv4Header_serialize (dg_header dg) Serializer_new = Inr s" "sr_bytes s = ip_bytes (dg_header dg)" "sr_wf s"
    using ipv4.ser [OF v(1), of Serializer_new] by auto
  let ?s = "Serializer_refs (dg_payload dg) s"
  have "unat (ip_len h0) < 2 ^ 16" using unsigned_less [where ?w = "ip_len h0" and ?'a = nat] by simp
  then have "length (sr_bytes ?s) < 2 ^ 64" using s(2) len by simp
  then obtain p where p: "Parser_new (clone_payload (Serializer_finish ?s)) = Inr p"
      "pr_ok p (ip_bytes (dg_header dg) @ concat_refs (dg_payload dg))"
    using parse_serialized [of ?s] s by auto
  from IPv4Datagram_parse_ok [OF v(1) _ p(2)] v(2) len s(1) p(1) show ?thesis
    by (fastforce simp: IPv4Datagram_serialize_def)
qed

theorem ipv4_datagram_roundtrip_witness:
  "\<exists>h s p dg' p'. IPv4Header_compute_checksum (IPv4Header_new\<lparr>ip_len := 23, ip_src := 0x0a000001\<rparr>) = Inr h \<and>
    IPv4Datagram_serialize \<lparr>dg_header = h, dg_payload = [Owned [1, 2, 3]]\<rparr> Serializer_new = Inr s \<and>
    Parser_new (clone_payload (Serializer_finish s)) = Inr p \<and>
    IPv4Datagram_parse IPv4Datagram_new p = Inr (dg', p') \<and> \<not> pr_error p' \<and> concat_refs (dg_payload dg') = [1, 2, 3]"
proof -
  let ?h = "IPv4Header_new\<lparr>ip_len := 23, ip_src := 0x0a000001\<rparr>"
  obtain h where h: "IPv4Header_compute_checksum ?h = Inr h"
    using compute_checksum_ok [of ?h] by (simp add: IPv4Header_new_def)
  then show ?thesis
    using ipv4_datagram_roundtrip [of ?h "\<lparr>dg_header = h, dg_payload = [Owned [1, 2, 3]]\<rparr>"]
    by (auto simp: IPv4Header_new_def IPv4Header_LENGTH_def concat_refs_eq)
qed

text \<open>
  A damaged IPv4 header is refused: a header without options is accepted by the parser exactly
  when its checksum field is the checksum of the other fields, and then the Internet checksum over
  all twenty bytes is zero.
\<close>

theorem ipv4_header_checked:
  assumes "ip_ver h = 4" and "ip_hlen h = 5" and "ip_offset h AND 0x1fff = ip_offset h" and "pr_ok p (ip_bytes h @ d)"
  shows "\<exists>h' p'. IPv4Header_parse old p = Inr (h', p') \<and>
    (\<not> pr_error p' \<longleftrightarrow> IPv4Header_compute_checksum h = Inr h) \<and>
    (\<not> pr_error p' \<longrightarrow> h' = h \<and> pr_ok p' d \<and> checksum_value (checksum_add (ip_bytes h) (InternetChecksum_new 0)) = 0)"
proof -
  have c: "IPv4Header_compute_checksum h = Inr h \<longleftrightarrow> header_checksum h = ip_cksum h"
    unfolding compute_checksum_ok [OF assms(1)] by (cases h) auto
  from IPv4Header_parse_ok [OF assms, of old] obtain p' where p': "pr_ok p' d" "IPv4Header_parse old p =
      Inr (h\<lparr>ip_cksum := header_checksum h\<rparr>, if header_checksum h \<noteq> ip_cksum h then Parser_set_error p' else p')"
    by blast
  show ?thesis
  proof (cases "header_checksum h = ip_cksum h")
    case True
    then show ?thesis using p' c header_sums_to_zero [of h]
      by (intro exI [of _ h] exI [of _ p']) (auto simp: pr_ok_def)
  next
    case False
    then show ?thesis using p' c by (auto simp: Parser_set_error_def)
  qed
qed

theorem ipv4_header_checked_witness:
  "\<exists>p h' p'. Parser_new [Owned (ip_bytes IPv4Header_new)] = Inr p \<and>
    IPv4Header_parse IPv4Header_new p = Inr (h', p') \<and> pr_error p'"
proof -
  have "ip_bytes IPv4Header_new \<noteq> []" by (simp add: ip_bytes_def)
  then obtain p where p: "Parser_new [Owned (ip_bytes IPv4Header_new)] = Inr p" "pr_ok p (ip_bytes IPv4Header_new @ [])"
    using Parser_new_ok [of "[Owned (ip_bytes IPv4Header_new)]"] by (auto simp: concat_refs_eq)
  have "\<not> IPv4Header_compute_checksum IPv4Header_new = Inr IPv4Header_new"
    unfolding compute_checksum_ok [of IPv4Header_new, simplified IPv4Header_new_def, simplified, folded IPv4Header_new_def]
    by code_simp
  with ipv4_header_checked [OF _ _ _ p(2), of IPv4Header_new] p(1) show ?thesis
    by (auto simp: IPv4Header_new_def IPv4Header_LENGTH_def)
qed

end
