(* ===== verification/TCP_Over_IP.thy ===== *)
theory TCP_Over_IP
  imports IPv4 TCP_Segment Address File_Descriptor
begin

text \<open>
  \<^verbatim>\<open>src/util/tcp_over_ip.hh\<close>, \<^verbatim>\<open>tcp_over_ip.cc\<close>, \<^verbatim>\<open>fd_adapter.hh\<close>, \<^verbatim>\<open>tuntap_adapter.hh\<close>,
  \<^verbatim>\<open>tuntap_adapter.cc\<close> and \<^verbatim>\<open>lossy_fd_adapter.hh\<close>: TCP messages in IPv4 datagrams on a TUN device.
  The device and the random engine are parameters: an operation takes the outcome of its system call
  or the number drawn.
\<close>

record fd_adapter_config =
  fc_source :: address
  fc_destination :: address
  fc_loss_rate_dn :: u16
  fc_loss_rate_up :: u16

record fd_adapter =
  fa_cfg :: fd_adapter_config
  fa_listen :: bool

text \<open>An IPv4 address and a port, as the constructor from a dotted quad makes them.\<close>

definition Address_of :: "u32 \<Rightarrow> u16 \<Rightarrow> address" where
  "Address_of ip port = \<lparr>ad_size = sizeof_sockaddr_in, ad_family = AF_INET, ad_port = port, ad_ipv4 = ip\<rparr>"

definition FdAdapterConfig_new :: fd_adapter_config where
  "FdAdapterConfig_new = \<lparr>fc_source = Address_of 0 0, fc_destination = Address_of 0 0, fc_loss_rate_dn = 0, fc_loss_rate_up = 0\<rparr>"

definition FdAdapterBase_new :: fd_adapter where
  "FdAdapterBase_new = \<lparr>fa_cfg = FdAdapterConfig_new, fa_listen = False\<rparr>"

definition set_listening :: "bool \<Rightarrow> fd_adapter \<Rightarrow> fd_adapter" where
  "set_listening l a = a\<lparr>fa_listen := l\<rparr>"

definition FdAdapter_tick :: "u64 \<Rightarrow> fd_adapter \<Rightarrow> fd_adapter" where
  "FdAdapter_tick unused a = a"

definition unwrap_tcp_in_ip :: "ipv4_datagram \<Rightarrow> fd_adapter \<Rightarrow> (tcp_message option \<times> fd_adapter) result" where
  "unwrap_tcp_in_ip ip_dgram a =
     (let h = dg_header ip_dgram in
      rbind (if fa_listen a then Inr True
             else rbind (ipv4_numeric (fc_source (fa_cfg a))) (\<lambda>ip. Inr (ip_dst h = ip))) (\<lambda>for_us.
      if \<not> for_us then Inr (None, a)
      else
      rbind (if fa_listen a then Inr True
             else rbind (ipv4_numeric (fc_destination (fa_cfg a))) (\<lambda>ip. Inr (ip_src h = ip))) (\<lambda>from_peer.
      if \<not> from_peer then Inr (None, a)
      else if ip_proto h \<noteq> PROTO_TCP then Inr (None, a)
      else
      rbind (parse (TCPSegment_parse (pseudo_checksum h)) TCPSegment_new (dg_payload ip_dgram)) (\<lambda>(tcp_seg, ok).
      if \<not> ok then Inr (None, a)
      else
      rbind (address_port (fc_source (fa_cfg a))) (\<lambda>our_port.
      if ud_dst_port (seg_udinfo tcp_seg) \<noteq> our_port then Inr (None, a)
      else
      rbind (get_mut (msg_sender (seg_message tcp_seg))) (\<lambda>sender.
      if fa_listen a \<and> \<not> (sm_SYN sender \<and> \<not> sm_RST sender) then Inr (None, a)
      else
      let a = (if fa_listen a
               then a\<lparr>fa_cfg := (fa_cfg a)\<lparr>fc_source := Address_of (ip_dst h) our_port,
                                          fc_destination := Address_of (ip_src h) (ud_src_port (seg_udinfo tcp_seg))\<rparr>,
                      fa_listen := False\<rparr>
               else a) in
      rbind (address_port (fc_destination (fa_cfg a))) (\<lambda>peer_port.
      if ud_src_port (seg_udinfo tcp_seg) \<noteq> peer_port then Inr (None, a)
      else Inr (Some (seg_message tcp_seg), a))))))))"

definition wrap_tcp_in_ip :: "tcp_message \<Rightarrow> fd_adapter \<Rightarrow> ipv4_datagram result" where
  "wrap_tcp_in_ip msg a =
     (let payload_size = size64 (sm_payload (ref_get (msg_sender msg)));
          message = \<lparr>msg_sender = Ref_duplicate (msg_sender msg), msg_receiver = Ref_duplicate (msg_receiver msg)\<rparr> in
      rbind (address_port (fc_source (fa_cfg a))) (\<lambda>src_port.
      rbind (address_port (fc_destination (fa_cfg a))) (\<lambda>dst_port.
      let seg = \<lparr>seg_message = message, seg_udinfo = \<lparr>ud_src_port = src_port, ud_dst_port = dst_port, ud_cksum = 0\<rparr>\<rparr> in
      rbind (ipv4_numeric (fc_source (fa_cfg a))) (\<lambda>src.
      rbind (ipv4_numeric (fc_destination (fa_cfg a))) (\<lambda>dst.
      let h = IPv4Header_new\<lparr>ip_src := src, ip_dst := dst\<rparr>;
          h = h\<lparr>ip_len := ucast (ucast (ip_hlen h) * 4 + 20 + payload_size)\<rparr>;
          seg = TCPSegment_compute_checksum (pseudo_checksum h) seg in
      rbind (IPv4Header_compute_checksum h) (\<lambda>h.
      rbind (serialize (\<lambda>x s. Inr (TCPSegment_serialize x s)) seg) (\<lambda>payload.
      Inr \<lparr>dg_header = h, dg_payload = payload\<rparr>)))))))"

section \<open>The TUN adapter\<close>

record tun_adapter =
  ta_base :: fd_adapter
  ta_tun :: fd_wrapper

definition Tun_read :: "bytes syscall \<Rightarrow> tun_adapter \<Rightarrow> (tcp_message option \<times> tun_adapter) result" where
  "Tun_read outcome t =
     (let strs = [replicate (unat IPv4Header_LENGTH) 0, replicate (unat TCP_HEADER_LENGTH) 0, []] in
      rbind (FD_readv strs outcome (ta_tun t)) (\<lambda>(strs, tun).
      let t = t\<lparr>ta_tun := tun\<rparr> in
      rbind (parse IPv4Datagram_parse IPv4Datagram_new (map Owned strs)) (\<lambda>(ip_dgram, ok).
      if ok then rbind (unwrap_tcp_in_ip ip_dgram (ta_base t)) (\<lambda>(msg, base). Inr (msg, t\<lparr>ta_base := base\<rparr>))
      else Inr (None, t))))"

text \<open>What \<^verbatim>\<open>write\<close> hands to the device, and the result of the call.\<close>

definition Tun_datagram :: "tcp_message \<Rightarrow> tun_adapter \<Rightarrow> bytes cpp_ref list result" where
  "Tun_datagram seg t = rbind (wrap_tcp_in_ip seg (ta_base t)) (serialize IPv4Datagram_serialize)"

definition Tun_write :: "tcp_message \<Rightarrow> int syscall \<Rightarrow> tun_adapter \<Rightarrow> tun_adapter result" where
  "Tun_write seg ret t =
     rbind (Tun_datagram seg t) (\<lambda>buffers.
     rbind (FD_write_refs buffers ret (ta_tun t)) (\<lambda>(_, tun). Inr (t\<lparr>ta_tun := tun\<rparr>)))"

section \<open>The lossy adapter\<close>

definition should_drop :: "bool \<Rightarrow> u64 \<Rightarrow> tun_adapter \<Rightarrow> bool" where
  "should_drop uplink rand t =
     (let cfg = fa_cfg (ta_base t);
          loss = (if uplink then fc_loss_rate_up cfg else fc_loss_rate_dn cfg)
      in loss \<noteq> 0 \<and> ucast rand < loss)"

definition Lossy_read :: "u64 \<Rightarrow> bytes syscall \<Rightarrow> tun_adapter \<Rightarrow> (tcp_message option \<times> tun_adapter) result" where
  "Lossy_read rand outcome t =
     rbind (Tun_read outcome t) (\<lambda>(ret, t). Inr (if should_drop False rand t then None else ret, t))"

definition Lossy_write :: "u64 \<Rightarrow> tcp_message \<Rightarrow> int syscall \<Rightarrow> tun_adapter \<Rightarrow> tun_adapter result" where
  "Lossy_write rand seg ret t = (if should_drop True rand t then Inr t else Tun_write seg ret t)"

section \<open>Correctness\<close>

lemma Address_of_ok [simp]: "is_ipv4 (Address_of ip port)" "ad_ipv4 (Address_of ip port) = ip" "ad_port (Address_of ip port) = port"
  by (simp_all add: Address_of_def is_ipv4_def)

lemma unat_add_le: "unat (a + b :: u32) \<le> unat a + unat b"
  by (simp add: unat_word_ariths)

lemma pseudo_checksum_less: "unat (pseudo_checksum h) < 2 ^ 19"
proof -
  have hi: "unat (drop_bit 16 x) \<le> 65535" for x :: u32
    using unat_u32_less [of x] by (simp add: unat_high_u32)
  have lo: "unat (ucast (ucast x :: u16) :: u32) \<le> 65535" for x :: u32
    unfolding unat_low_u32 by (simp add: less_Suc_eq_le [symmetric])
  have small: "unat (ucast (x :: u16) :: u32) \<le> 65535" "unat (ucast (y :: u8) :: u32) \<le> 255" for x y
    using unsigned_less [where ?w = x and ?'a = nat] unsigned_less [where ?w = y and ?'a = nat]
    by (simp_all add: unsigned_ucast_eq take_bit_nat_eq_self)
  let ?s = "drop_bit 16 (ip_src h) + ucast (ucast (ip_src h) :: u16)" and ?d = "drop_bit 16 (ip_dst h) + ucast (ucast (ip_dst h) :: u16)"
  have sd: "unat ?s \<le> 131070" "unat ?d \<le> 131070"
    using unat_add_le [of "drop_bit 16 (ip_src h)" "ucast (ucast (ip_src h) :: u16)"] hi [of "ip_src h"] lo [of "ip_src h"]
      unat_add_le [of "drop_bit 16 (ip_dst h)" "ucast (ucast (ip_dst h) :: u16)"] hi [of "ip_dst h"] lo [of "ip_dst h"]
    by linarith+
  have "unat (?s + ?d + ucast (ip_proto h) + ucast (payload_length h)) \<le> 131070 + 131070 + 255 + 65535"
    using unat_add_le [of "?s + ?d + ucast (ip_proto h)" "ucast (payload_length h)"] unat_add_le [of "?s + ?d" "ucast (ip_proto h)"]
      unat_add_le [of ?s ?d] small(1) [of "payload_length h"] small(2) [of "ip_proto h"] sd by linarith
  moreover have "pseudo_checksum h = ?s + ?d + ucast (ip_proto h) + ucast (payload_length h)"
    by (simp add: pseudo_checksum_def Let_def)
  ultimately have "unat (pseudo_checksum h) \<le> 327930" by simp
  then show ?thesis by simp
qed


text \<open>Wrapping: the datagram carries the serialized segment, with both checksums right.\<close>

definition wrapped_segment :: "tcp_message \<Rightarrow> fd_adapter \<Rightarrow> ipv4_header \<Rightarrow> tcp_segment" where
  "wrapped_segment msg a h = TCPSegment_compute_checksum (pseudo_checksum h)
     \<lparr>seg_message = \<lparr>msg_sender = Ref_duplicate (msg_sender msg), msg_receiver = Ref_duplicate (msg_receiver msg)\<rparr>,
      seg_udinfo = \<lparr>ud_src_port = ad_port (fc_source (fa_cfg a)), ud_dst_port = ad_port (fc_destination (fa_cfg a)), ud_cksum = 0\<rparr>\<rparr>"

lemma pseudo_checksum_cksum [simp]: "pseudo_checksum (h\<lparr>ip_cksum := c\<rparr>) = pseudo_checksum h"
  by (simp add: pseudo_checksum_def payload_length_def)

lemma on_wire_duplicate [simp]:
  "on_wire \<lparr>msg_sender = Ref_duplicate (msg_sender m), msg_receiver = Ref_duplicate (msg_receiver m)\<rparr> = on_wire m"
  by (simp add: on_wire_def Ref_duplicate_def)

lemma wrap_tcp_in_ip_ok:
  assumes "is_ipv4 (fc_source (fa_cfg a))" and "is_ipv4 (fc_destination (fa_cfg a))"
    and len: "length (sm_payload (ref_get (msg_sender msg))) \<le> 65495"
  shows "\<exists>dg. wrap_tcp_in_ip msg a = Inr dg \<and> ip_valid (dg_header dg) \<and>
    ip_src (dg_header dg) = ad_ipv4 (fc_source (fa_cfg a)) \<and> ip_dst (dg_header dg) = ad_ipv4 (fc_destination (fa_cfg a)) \<and>
    ip_proto (dg_header dg) = PROTO_TCP \<and>
    concat_refs (dg_payload dg) = seg_bytes (wrapped_segment msg a (dg_header dg)) \<and>
    unat (ip_len (dg_header dg)) = 20 + length (concat_refs (dg_payload dg))"
proof -
  let ?n = "length (sm_payload (ref_get (msg_sender msg)))"
  let ?h0 = "IPv4Header_new\<lparr>ip_src := ad_ipv4 (fc_source (fa_cfg a)), ip_dst := ad_ipv4 (fc_destination (fa_cfg a))\<rparr>"
  let ?h = "?h0\<lparr>ip_len := ucast (40 + size64 (sm_payload (ref_get (msg_sender msg))))\<rparr>"
  have h0: "ucast (ip_hlen ?h0) * 4 + (20 :: u64) = 40" by (simp add: IPv4Header_new_def IPv4Header_LENGTH_def)
  have un: "unat (40 + size64 (sm_payload (ref_get (msg_sender msg)))) = 40 + ?n"
    using len unat_add_size64 [of 40 "sm_payload (ref_get (msg_sender msg))"] by simp
  have ul: "unat (ip_len ?h) = 40 + ?n"
    using len un by (simp add: unsigned_ucast_eq unsigned_take_bit_eq take_bit_nat_eq_self)
  obtain h where h: "IPv4Header_compute_checksum ?h = Inr h"
    using compute_checksum_ok [of ?h] by (simp add: IPv4Header_new_def)
  have v: "ip_valid h" "ip_len h = ip_len ?h" "h = ?h\<lparr>ip_cksum := header_checksum ?h\<rparr>"
    using compute_checksum_valid [OF h] by (simp_all add: IPv4Header_new_def IPv4Header_LENGTH_def)
  have ps: "pseudo_checksum h = pseudo_checksum ?h" unfolding v(3) by simp
  let ?seg = "wrapped_segment msg a h" and ?s = "TCPSegment_serialize (wrapped_segment msg a h) Serializer_new"
  have s: "sr_bytes ?s = seg_bytes ?seg" "sr_wf ?s" using TCPSegment_serialize_ok [of Serializer_new ?seg] by simp_all
  have eq: "wrap_tcp_in_ip msg a = Inr \<lparr>dg_header = h, dg_payload = Serializer_finish ?s\<rparr>"
    using assms(1,2) h h0 ps by (simp add: wrap_tcp_in_ip_def Let_def serialize_def wrapped_segment_def)
  have "concat_refs (Serializer_finish ?s) = seg_bytes ?seg" using Serializer_finish_ok(1) s(1) by simp
  moreover have "length (seg_bytes ?seg) = 20 + ?n"
    by (simp add: wrapped_segment_def seg_bytes_def Let_def length_int_bytes Ref_duplicate_def)
  ultimately show ?thesis
    using eq v ul by (simp add: IPv4Header_new_def)
qed

lemma wrapped_segment_sum:
  assumes "length (sm_payload (ref_get (msg_sender msg))) \<le> 65495"
  shows "checksum_value (checksum_add (seg_bytes (wrapped_segment msg a h)) (InternetChecksum_new (pseudo_checksum h))) = 0"
  unfolding wrapped_segment_def
  using assms by (intro compute_checksum_sums_to_zero pseudo_checksum_less) (simp add: Ref_duplicate_def)

lemma parse_wrapped:
  assumes len: "length (sm_payload (ref_get (msg_sender msg))) \<le> 65495"
    and refs: "list_all is_owned refs" "no_gap (map ref_get refs)" "concat_refs refs = seg_bytes (wrapped_segment msg a h)"
  shows "\<exists>seg. parse (TCPSegment_parse (pseudo_checksum h)) TCPSegment_new refs = Inr (seg, True) \<and>
    seg_message seg = on_wire msg \<and> ud_src_port (seg_udinfo seg) = ad_port (fc_source (fa_cfg a)) \<and>
    ud_dst_port (seg_udinfo seg) = ad_port (fc_destination (fa_cfg a))"
proof -
  have "length (seg_bytes (wrapped_segment msg a h)) < 2 ^ 64"
    using len by (simp add: wrapped_segment_def seg_bytes_def Let_def length_int_bytes Ref_duplicate_def)
  then obtain p where p: "Parser_new refs = Inr p" "pr_ok p (seg_bytes (wrapped_segment msg a h))"
    using Parser_new_ok [OF refs(1,2)] refs(3) by auto
  have old: "msg_sender (seg_message TCPSegment_new) = Owned SenderMessage_new"
      "msg_receiver (seg_message TCPSegment_new) = Owned ReceiverMessage_new"
    by (simp_all add: TCPSegment_new_def TCPMessage_new_def)
  from TCPSegment_parse_ok [OF wrapped_segment_sum [OF len] old p(2)] p(1) show ?thesis
    by (auto simp: parse_def wrapped_segment_def TCPSegment_compute_checksum_eq Let_def)
qed

lemma no_gap_scatter: "0 \<notin> set ns \<Longrightarrow> length data \<le> sum_list ns \<Longrightarrow> no_gap (scatter ns data)"
proof (induction ns data rule: scatter.induct)
  case (2 n ns data)
  have z: "concat (scatter ms []) = []" for ms by (induction ms "[] :: bytes" rule: scatter.induct) auto
  then show ?case using 2 by (auto simp: no_gap_empty)
qed simp

text \<open>Reading a packet from the device, whatever adapter has written it.\<close>

lemma Tun_read_packet:
  assumes "ip_valid h" and "unat (ip_len h) = 20 + length d" and "length (ip_bytes h @ d) \<le> 16424"
  shows "\<exists>refs. list_all is_owned refs \<and> no_gap (map ref_get refs) \<and> concat_refs refs = d \<and>
    Tun_read (Returned (ip_bytes h @ d)) t =
      rbind (unwrap_tcp_in_ip \<lparr>dg_header = h, dg_payload = refs\<rparr> (ta_base t))
        (\<lambda>(msg, base). Inr (msg, \<lparr>ta_base = base, ta_tun = register_read (ta_tun t)\<rparr>))"
proof -
  let ?data = "ip_bytes h @ d" and ?ns = "[20, 20, kReadBufferSize]"
  let ?strs = "scatter ?ns ?data"
  have sizes: "FD_read_sizes [replicate (unat IPv4Header_LENGTH) 0, replicate (unat TCP_HEADER_LENGTH) 0, []] = ?ns"
    by (simp add: FD_read_sizes_def IPv4Header_LENGTH_def TCP_HEADER_LENGTH_def)
  have total: "sum_list ?ns = 16424" by (simp add: kReadBufferSize_def)
  then have rd: "FD_readv [replicate (unat IPv4Header_LENGTH) 0, replicate (unat TCP_HEADER_LENGTH) 0, []] (Returned ?data) (ta_tun t)
      = Inr (?strs, register_read (ta_tun t))"
    using assms(3) leD [OF assms(3)] unfolding FD_readv.simps sizes by (simp only: if_False)
  have cat: "concat ?strs = ?data" using assms(3) total by (intro concat_scatter) simp
  have "no_gap ?strs" using assms(3) total by (intro no_gap_scatter) (simp_all add: kReadBufferSize_def)
  then obtain p where p: "Parser_new (map Owned ?strs) = Inr p" "pr_ok p ?data"
    using Parser_new_ok [of "map Owned ?strs"] cat assms(3) by (auto simp: concat_refs_eq comp_def list_all_iff)
  from IPv4Datagram_parse_ok [OF assms(1,2) p(2)] obtain refs p' where
    r: "IPv4Datagram_parse IPv4Datagram_new p = Inr (\<lparr>dg_header = h, dg_payload = refs\<rparr>, p')" "\<not> pr_error p'"
      "concat_refs refs = d" "list_all is_owned refs" "no_gap (map ref_get refs)" by blast
  have upd: "t\<lparr>ta_tun := w, ta_base := base\<rparr> = \<lparr>ta_base = base, ta_tun = w\<rparr>" for w base by (cases t) simp
  have "Tun_read (Returned ?data) t = rbind (unwrap_tcp_in_ip \<lparr>dg_header = h, dg_payload = refs\<rparr> (ta_base t))
        (\<lambda>(msg, base). Inr (msg, \<lparr>ta_base = base, ta_tun = register_read (ta_tun t)\<rparr>))"
    unfolding Tun_read_def Let_def rd rbind.simps prod.case
    using p(1) r(1,2) by (simp add: parse_def upd)
  then show ?thesis using r(3-5) by blast
qed

lemma Tun_datagram_ok:
  assumes "is_ipv4 (fc_source (fa_cfg (ta_base t)))" and "is_ipv4 (fc_destination (fa_cfg (ta_base t)))"
    and "length (sm_payload (ref_get (msg_sender msg))) \<le> 65495"
  shows "\<exists>bufs h. Tun_datagram msg t = Inr bufs \<and> ip_valid h \<and>
    ip_src h = ad_ipv4 (fc_source (fa_cfg (ta_base t))) \<and> ip_dst h = ad_ipv4 (fc_destination (fa_cfg (ta_base t))) \<and>
    ip_proto h = PROTO_TCP \<and> unat (ip_len h) = 20 + length (seg_bytes (wrapped_segment msg (ta_base t) h)) \<and>
    concat_refs bufs = ip_bytes h @ seg_bytes (wrapped_segment msg (ta_base t) h) \<and>
    length (concat_refs bufs) = 40 + length (sm_payload (ref_get (msg_sender msg)))"
proof -
  obtain dg where dg: "wrap_tcp_in_ip msg (ta_base t) = Inr dg" "ip_valid (dg_header dg)"
      "ip_src (dg_header dg) = ad_ipv4 (fc_source (fa_cfg (ta_base t)))"
      "ip_dst (dg_header dg) = ad_ipv4 (fc_destination (fa_cfg (ta_base t)))" "ip_proto (dg_header dg) = PROTO_TCP"
      "concat_refs (dg_payload dg) = seg_bytes (wrapped_segment msg (ta_base t) (dg_header dg))"
      "unat (ip_len (dg_header dg)) = 20 + length (concat_refs (dg_payload dg))"
    using wrap_tcp_in_ip_ok [OF assms] by blast
  obtain s where s: "IPv4Header_serialize (dg_header dg) Serializer_new = Inr s" "sr_bytes s = ip_bytes (dg_header dg)" "sr_wf s"
    using ipv4.ser [OF dg(2), of Serializer_new] by auto
  have "Tun_datagram msg t = Inr (Serializer_finish (Serializer_refs (dg_payload dg) s))"
    using dg(1) s(1) by (simp add: Tun_datagram_def serialize_def IPv4Datagram_serialize_def)
  moreover have "concat_refs (Serializer_finish (Serializer_refs (dg_payload dg) s)) = ip_bytes (dg_header dg) @ concat_refs (dg_payload dg)"
    using Serializer_finish_ok(1) s by simp
  moreover have "length (seg_bytes (wrapped_segment msg (ta_base t) h)) = 20 + length (sm_payload (ref_get (msg_sender msg)))" for h
    by (simp add: wrapped_segment_def seg_bytes_def Let_def length_int_bytes Ref_duplicate_def)
  ultimately show ?thesis using dg by (intro exI conjI) auto
qed

lemma Tun_roundtrip:
  assumes "is_ipv4 src" and "is_ipv4 dst"
    and "fc_source (fa_cfg (ta_base t)) = src" and "fc_destination (fa_cfg (ta_base t)) = dst"
    and "fc_source (fa_cfg (ta_base t')) = dst" and "fc_destination (fa_cfg (ta_base t')) = src" and "\<not> fa_listen (ta_base t')"
    and "length (sm_payload (ref_get (msg_sender msg))) \<le> 16384"
  shows "\<exists>bufs. Tun_datagram msg t = Inr bufs \<and>
    Tun_read (Returned (concat_refs bufs)) t' = Inr (Some (on_wire msg), t'\<lparr>ta_tun := register_read (ta_tun t')\<rparr>)"
proof -
  let ?d = "\<lambda>h. seg_bytes (wrapped_segment msg (ta_base t) h)"
  have len: "length (sm_payload (ref_get (msg_sender msg))) \<le> 65495" using assms(8) by simp
  obtain bufs h where b: "Tun_datagram msg t = Inr bufs" "ip_valid h" "ip_src h = ad_ipv4 src" "ip_dst h = ad_ipv4 dst"
      "ip_proto h = PROTO_TCP" "unat (ip_len h) = 20 + length (?d h)" "concat_refs bufs = ip_bytes h @ ?d h"
      "length (concat_refs bufs) = 40 + length (sm_payload (ref_get (msg_sender msg)))"
    using Tun_datagram_ok [of t msg] assms(1-4) len by auto
  have "length (ip_bytes h @ ?d h) \<le> 16424" using b(7,8) assms(8) by simp
  from Tun_read_packet [OF b(2,6) this, of t'] obtain refs where
    r: "list_all is_owned refs" "no_gap (map ref_get refs)" "concat_refs refs = ?d h"
      "Tun_read (Returned (ip_bytes h @ ?d h)) t' = rbind (unwrap_tcp_in_ip \<lparr>dg_header = h, dg_payload = refs\<rparr> (ta_base t'))
        (\<lambda>(msg, base). Inr (msg, \<lparr>ta_base = base, ta_tun = register_read (ta_tun t')\<rparr>))" by blast
  from parse_wrapped [OF len r(1-3)] obtain seg where
    "parse (TCPSegment_parse (pseudo_checksum h)) TCPSegment_new refs = Inr (seg, True)" "seg_message seg = on_wire msg"
    "ud_src_port (seg_udinfo seg) = ad_port src" "ud_dst_port (seg_udinfo seg) = ad_port dst" using assms(3,4) by auto
  then have "unwrap_tcp_in_ip \<lparr>dg_header = h, dg_payload = refs\<rparr> (ta_base t') = Inr (Some (on_wire msg), ta_base t')"
    using assms(1,2,5-7) b(3-5) by (simp add: unwrap_tcp_in_ip_def on_wire_def Let_def)
  then show ?thesis using b(1,7) r(4) by simp
qed

text \<open>
  C9. TCP over IP over a TUN device: what one end of a connection writes to its device, with up to
  16384 bytes of payload, the adapter of the other end reads as the same message (with one reset flag
  for both halves), whatever the flags, sequence numbers and payload.
\<close>

theorem tcp_over_ip_roundtrip:
  assumes "is_ipv4 src" and "is_ipv4 dst"
    and "fc_source (fa_cfg (ta_base t)) = src" and "fc_destination (fa_cfg (ta_base t)) = dst"
    and "fc_source (fa_cfg (ta_base t')) = dst" and "fc_destination (fa_cfg (ta_base t')) = src" and "\<not> fa_listen (ta_base t')"
    and "length (sm_payload (ref_get (msg_sender msg))) \<le> 16384"
  shows "\<exists>bufs. Tun_datagram msg t = Inr bufs \<and>
    Tun_read (Returned (concat_refs bufs)) t' = Inr (Some (on_wire msg), t'\<lparr>ta_tun := register_read (ta_tun t')\<rparr>)"
  using Tun_roundtrip [OF assms] .

theorem tcp_over_ip_roundtrip_witness:
  "let a = Address_of 0x0a000001 1000; b = Address_of 0x0a000002 2000;
       w = \<lparr>fw_fd = 3, fw_eof = False, fw_closed = False, fw_non_blocking = True, fw_read_count = 0, fw_write_count = 0\<rparr>;
       t = \<lparr>ta_base = \<lparr>fa_cfg = FdAdapterConfig_new\<lparr>fc_source := a, fc_destination := b\<rparr>, fa_listen = False\<rparr>, ta_tun = w\<rparr>;
       t' = \<lparr>ta_base = \<lparr>fa_cfg = FdAdapterConfig_new\<lparr>fc_source := b, fc_destination := a\<rparr>, fa_listen = False\<rparr>, ta_tun = w\<rparr>
   in \<exists>bufs. Tun_datagram TCPMessage_new t = Inr bufs \<and>
     Tun_read (Returned (concat_refs bufs)) t' = Inr (Some TCPMessage_new, t'\<lparr>ta_tun := w\<lparr>fw_read_count := 1\<rparr>\<rparr>)"
proof -
  let ?a = "Address_of 0x0a000001 1000" and ?b = "Address_of 0x0a000002 2000"
  let ?w = "\<lparr>fw_fd = 3, fw_eof = False, fw_closed = False, fw_non_blocking = True, fw_read_count = 0, fw_write_count = 0\<rparr>"
  let ?t = "\<lparr>ta_base = \<lparr>fa_cfg = FdAdapterConfig_new\<lparr>fc_source := ?a, fc_destination := ?b\<rparr>, fa_listen = False\<rparr>, ta_tun = ?w\<rparr>"
  let ?t' = "\<lparr>ta_base = \<lparr>fa_cfg = FdAdapterConfig_new\<lparr>fc_source := ?b, fc_destination := ?a\<rparr>, fa_listen = False\<rparr>, ta_tun = ?w\<rparr>"
  have "on_wire TCPMessage_new = TCPMessage_new"
    by (simp add: on_wire_def TCPMessage_new_def SenderMessage_new_def ReceiverMessage_new_def)
  moreover have "length (sm_payload (ref_get (msg_sender TCPMessage_new))) \<le> 16384"
    by (simp add: TCPMessage_new_def SenderMessage_new_def)
  ultimately show ?thesis
    using tcp_over_ip_roundtrip [of ?a ?b ?t ?t' TCPMessage_new] by (simp add: Let_def register_read_def)
qed

text \<open>A listening adapter accepts a SYN for its port.\<close>

lemma unwrap_listening:
  assumes "fa_listen a" and "is_ipv4 (fc_source (fa_cfg a))" and "ip_proto h = PROTO_TCP"
    and "parse (TCPSegment_parse (pseudo_checksum h)) TCPSegment_new refs = Inr (seg, True)"
    and "seg_message seg = on_wire msg" and "ud_dst_port (seg_udinfo seg) = ad_port (fc_source (fa_cfg a))"
    and "sm_SYN (ref_get (msg_sender msg))" and "\<not> sm_RST (ref_get (msg_sender msg))" and "\<not> rm_RST (ref_get (msg_receiver msg))"
  shows "unwrap_tcp_in_ip \<lparr>dg_header = h, dg_payload = refs\<rparr> a = Inr (Some (on_wire msg),
    a\<lparr>fa_cfg := (fa_cfg a)\<lparr>fc_source := Address_of (ip_dst h) (ad_port (fc_source (fa_cfg a))),
      fc_destination := Address_of (ip_src h) (ud_src_port (seg_udinfo seg))\<rparr>, fa_listen := False\<rparr>)"
  using assms by (simp add: unwrap_tcp_in_ip_def on_wire_def Let_def)

text \<open>
  The adapter passes on only what belongs to its connection: a message is delivered only from a
  datagram with a valid TCP segment (its checksum included) between exactly the two addresses and
  ports the adapter is connected to afterwards; a listening adapter becomes connected by this, keeps
  its port, and only a SYN without RST does it.
\<close>

theorem unwrap_filters:
  assumes "unwrap_tcp_in_ip dg a = Inr (Some msg, a')"
  shows "\<not> fa_listen a' \<and> ip_proto (dg_header dg) = PROTO_TCP \<and>
    ipv4_numeric (fc_source (fa_cfg a')) = Inr (ip_dst (dg_header dg)) \<and>
    ipv4_numeric (fc_destination (fa_cfg a')) = Inr (ip_src (dg_header dg)) \<and>
    (\<exists>seg. parse (TCPSegment_parse (pseudo_checksum (dg_header dg))) TCPSegment_new (dg_payload dg) = Inr (seg, True) \<and>
      seg_message seg = msg \<and> ud_dst_port (seg_udinfo seg) = ad_port (fc_source (fa_cfg a')) \<and>
      ud_src_port (seg_udinfo seg) = ad_port (fc_destination (fa_cfg a'))) \<and>
    (if fa_listen a
     then sm_SYN (ref_get (msg_sender msg)) \<and> \<not> sm_RST (ref_get (msg_sender msg)) \<and>
       ad_port (fc_source (fa_cfg a')) = ad_port (fc_source (fa_cfg a))
     else a' = a)"
proof -
  obtain seg ok where p: "parse (TCPSegment_parse (pseudo_checksum (dg_header dg))) TCPSegment_new (dg_payload dg) = Inr (seg, ok)"
    using assms by (auto simp: unwrap_tcp_in_ip_def Let_def rbind_Inr_iff split: if_splits)
  have port: "address_port x = Inr n \<Longrightarrow> n = ad_port x" for x n by (auto simp: address_port_def split: if_splits)
  show ?thesis
  proof (cases "fa_listen a")
    case True
    then show ?thesis
      using assms p port by (auto simp: unwrap_tcp_in_ip_def Let_def rbind_Inr_iff split: if_splits)
  next
    case False
    then show ?thesis
      using assms p port by (auto simp: unwrap_tcp_in_ip_def Let_def rbind_Inr_iff split: if_splits)
  qed
qed

theorem unwrap_filters_witness:
  "\<exists>dg msg a'. unwrap_tcp_in_ip dg \<lparr>fa_cfg = FdAdapterConfig_new\<lparr>fc_source := Address_of 0 80\<rparr>, fa_listen = True\<rparr> = Inr (Some msg, a') \<and>
     \<not> fa_listen a' \<and> sm_SYN (ref_get (msg_sender msg)) \<and> ad_port (fc_source (fa_cfg a')) = 80"
proof -
  let ?m = "\<lparr>msg_sender = Owned (SenderMessage_new\<lparr>sm_SYN := True\<rparr>), msg_receiver = Owned ReceiverMessage_new\<rparr>"
  let ?c = "FdAdapterBase_new\<lparr>fa_cfg := FdAdapterConfig_new\<lparr>fc_source := Address_of 1 7000, fc_destination := Address_of 2 80\<rparr>\<rparr>"
  let ?a = "\<lparr>fa_cfg = FdAdapterConfig_new\<lparr>fc_source := Address_of 0 80\<rparr>, fa_listen = True\<rparr>"
  have len: "length (sm_payload (ref_get (msg_sender ?m))) \<le> 65495" by (simp add: SenderMessage_new_def)
  have c: "is_ipv4 (fc_source (fa_cfg ?c))" "is_ipv4 (fc_destination (fa_cfg ?c))" by simp_all
  obtain dg :: ipv4_datagram where dg: "ip_proto (dg_header dg) = PROTO_TCP" "concat_refs (dg_payload dg) = seg_bytes (wrapped_segment ?m ?c (dg_header dg))"
    using wrap_tcp_in_ip_ok [OF c len] by blast
  let ?refs = "[Owned (concat_refs (dg_payload dg))]"
  have refs: "list_all is_owned ?refs" "no_gap (map ref_get ?refs)" "concat_refs ?refs = seg_bytes (wrapped_segment ?m ?c (dg_header dg))"
    using dg(2) by (simp_all add: concat_refs_eq)
  from parse_wrapped [OF len refs] obtain seg where
    s: "parse (TCPSegment_parse (pseudo_checksum (dg_header dg))) TCPSegment_new ?refs = Inr (seg, True)" "seg_message seg = on_wire ?m"
      "ud_dst_port (seg_udinfo seg) = 80" by auto
  have "\<exists>a'. unwrap_tcp_in_ip \<lparr>dg_header = dg_header dg, dg_payload = ?refs\<rparr> ?a = Inr (Some (on_wire ?m), a')"
    using unwrap_listening [of ?a "dg_header dg" ?refs seg ?m] dg(1) s by (simp add: SenderMessage_new_def ReceiverMessage_new_def)
  then obtain a' where u: "unwrap_tcp_in_ip \<lparr>dg_header = dg_header dg, dg_payload = ?refs\<rparr> ?a = Inr (Some (on_wire ?m), a')" by blast
  then show ?thesis using unwrap_filters [OF u] by (intro exI conjI) auto
qed

end
