(* ===== verification/Minnow_Socket.thy ===== *)
theory Minnow_Socket
  imports Connection Epoll_Event_Loop Socket TCP_Over_IP
begin

text \<open>
  \<^verbatim>\<open>src/util/tcp_minnow_socket.hh\<close> and \<^verbatim>\<open>tcp_minnow_socket_impl.hh\<close>: a TCP peer run by an event loop, between
  a datagram adapter and a local stream socket whose other end the application holds.  First the
  functions of the three rules, over the outcomes of their system calls and with the messages they
  hand to the adapter; then the rules as a behaviour of the event loop of \<^verbatim>\<open>epoll_eventloop.cc\<close>, with the
  adapter, the kernel's part of the local socket and the clock as parameters; then the loop that
  runs them.  Messages to \<^verbatim>\<open>cerr\<close> are left out.
\<close>

section \<open>The state and the streams of the peer\<close>

record minnow =
  mi_tcp :: "tcp_peer option"
  mi_abort :: bool
  mi_inbound_shutdown :: bool
  mi_outbound_shutdown :: bool
  mi_fully_acked :: bool

definition minnow_new :: minnow where
  "minnow_new = \<lparr>mi_tcp = None, mi_abort = False, mi_inbound_shutdown = False, mi_outbound_shutdown = False, mi_fully_acked = False\<rparr>"

definition outbound_writer :: "tcp_peer \<Rightarrow> byte_stream" where
  "outbound_writer p = ts_input (tp_sender p)"

definition inbound_reader :: "tcp_peer \<Rightarrow> byte_stream" where
  "inbound_reader p = ra_output (tr_reassembler (tp_receiver p))"

definition set_outbound_writer :: "byte_stream \<Rightarrow> tcp_peer \<Rightarrow> tcp_peer" where
  "set_outbound_writer bs p = p\<lparr>tp_sender := (tp_sender p)\<lparr>ts_input := bs\<rparr>\<rparr>"

definition set_inbound_reader :: "byte_stream \<Rightarrow> tcp_peer \<Rightarrow> tcp_peer" where
  "set_inbound_reader bs p =
     p\<lparr>tp_receiver := (tp_receiver p)\<lparr>tr_reassembler := (tr_reassembler (tp_receiver p))\<lparr>ra_output := bs\<rparr>\<rparr>\<rparr>"

text \<open>\<^verbatim>\<open>_tcp->\<close> of an empty optional is undefined behaviour.\<close>

definition the_tcp :: "minnow \<Rightarrow> tcp_peer result" where
  "the_tcp s = (case mi_tcp s of None \<Rightarrow> Inl Undefined_Behaviour | Some p \<Rightarrow> Inr p)"

section \<open>The rules\<close>

text \<open>Rule 1: a datagram from the network; what the adapter has read of it is the argument.\<close>

definition receive_rule :: "tcp_message option \<Rightarrow> fd_wrapper \<Rightarrow> minnow \<Rightarrow> (tcp_message list \<times> minnow) result" where
  "receive_rule seg thread_data s =
     rbind (the_tcp s) (\<lambda>p.
     rbind (case seg of None \<Rightarrow> Inr ([], p) | Some seg \<Rightarrow> Peer_receive seg p) (\<lambda>(msgs, p).
     let fully_acked = (fw_eof thread_data \<and> sequence_numbers_in_flight (tp_sender p) = 0 \<and> \<not> mi_fully_acked s)
     in Inr (msgs, s\<lparr>mi_tcp := Some p, mi_fully_acked := mi_fully_acked s \<or> fully_acked\<rparr>)))"

definition receive_interest :: "minnow \<Rightarrow> bool" where
  "receive_interest s = (case mi_tcp s of None \<Rightarrow> False | Some p \<Rightarrow> Peer_active p)"

text \<open>Rule 2: bytes the application has written, read from the local socket into the outbound stream.\<close>

definition close_outbound :: "minnow \<Rightarrow> minnow result" where
  "close_outbound s =
     rbind (the_tcp s) (\<lambda>p.
     Inr (s\<lparr>mi_tcp := Some (set_outbound_writer (Writer_close (outbound_writer p)) p), mi_outbound_shutdown := True\<rparr>))"

definition outbound_rule :: "(nat \<Rightarrow> bytes syscall) \<Rightarrow> fd_wrapper \<Rightarrow> minnow \<Rightarrow> (tcp_message list \<times> fd_wrapper \<times> minnow) result" where
  "outbound_rule outcome thread_data s =
     rbind (the_tcp s) (\<lambda>p.
     let data = replicate (unat (available_capacity (outbound_writer p))) 0 in
     rbind (FD_read data (outcome (FD_read_size data)) thread_data) (\<lambda>(data, thread_data).
     let s = s\<lparr>mi_tcp := Some (set_outbound_writer (Writer_push data (outbound_writer p)) p)\<rparr> in
     rbind (if fw_eof thread_data then close_outbound s else Inr s) (\<lambda>s.
     rbind (the_tcp s) (\<lambda>p.
     rbind (Peer_push p) (\<lambda>(msgs, p).
     Inr (msgs, thread_data, s\<lparr>mi_tcp := Some p\<rparr>))))))"

definition outbound_interest :: "minnow \<Rightarrow> bool" where
  "outbound_interest s = (case mi_tcp s of None \<Rightarrow> False
     | Some p \<Rightarrow> Peer_active p \<and> \<not> mi_outbound_shutdown s \<and> available_capacity (outbound_writer p) > 0)"

definition outbound_error :: "minnow \<Rightarrow> minnow result" where
  "outbound_error s =
     rbind (the_tcp s) (\<lambda>p. Inr (s\<lparr>mi_tcp := Some (set_outbound_writer (set_error (outbound_writer p)) p)\<rparr>))"

text \<open>
  Rule 3: reassembled bytes, written to the local socket; only what was written is popped.  The
  outcomes of \<^verbatim>\<open>writev\<close> (for the bytes offered) and of \<^verbatim>\<open>shutdown\<close> are arguments.
\<close>

definition inbound_rule :: "(bytes \<Rightarrow> int syscall) \<Rightarrow> int syscall \<Rightarrow> fd_wrapper \<Rightarrow> minnow \<Rightarrow> (fd_wrapper \<times> minnow) result" where
  "inbound_rule outcome shut thread_data s =
     rbind (the_tcp s) (\<lambda>p.
     rbind (if bytes_buffered (inbound_reader p) \<noteq> 0
            then rbind (Reader_peek (inbound_reader p)) (\<lambda>buffer.
                 rbind (FD_write buffer (outcome buffer) thread_data) (\<lambda>(bytes_written, thread_data).
                 rbind (Reader_pop (of_int bytes_written) (inbound_reader p)) (\<lambda>inbound.
                 Inr (inbound, thread_data))))
            else Inr (inbound_reader p, thread_data)) (\<lambda>(inbound, thread_data).
     let s = s\<lparr>mi_tcp := Some (set_inbound_reader inbound p)\<rparr>
     in if is_finished inbound \<or> has_error inbound
        then rbind (Socket_shutdown SHUT_WR shut thread_data) (\<lambda>thread_data.
             Inr (thread_data, s\<lparr>mi_inbound_shutdown := True\<rparr>))
        else Inr (thread_data, s)))"

definition inbound_interest :: "minnow \<Rightarrow> bool" where
  "inbound_interest s = (case mi_tcp s of None \<Rightarrow> False
     | Some p \<Rightarrow> bytes_buffered (inbound_reader p) \<noteq> 0
         \<or> (is_finished (inbound_reader p) \<or> has_error (inbound_reader p)) \<and> \<not> mi_inbound_shutdown s)"

definition inbound_error :: "minnow \<Rightarrow> minnow result" where
  "inbound_error s =
     rbind (the_tcp s) (\<lambda>p. Inr (s\<lparr>mi_tcp := Some (set_inbound_reader (set_error (inbound_reader p)) p)\<rparr>))"

section \<open>The rules in the event loop\<close>

text \<open>
  The adapter is a parameter of the class; \<open>adapter\<close> are the operations it needs, over the outcomes of
  the calls on the adapter's descriptor.  The adapters of \<open>TCP_Over_IP\<close> are instances.
\<close>

record 'a adapter =
  ad_read :: "bytes syscall \<Rightarrow> 'a \<Rightarrow> (tcp_message option \<times> 'a) result"
  ad_write :: "tcp_message \<Rightarrow> int syscall \<Rightarrow> 'a \<Rightarrow> 'a result"
  ad_tick :: "u64 \<Rightarrow> 'a \<Rightarrow> 'a result"
  ad_fd :: "'a \<Rightarrow> fd_wrapper"
  ad_configure :: "fd_adapter_config \<Rightarrow> 'a \<Rightarrow> 'a"
  ad_set_listening :: "bool \<Rightarrow> 'a \<Rightarrow> 'a"

definition tun_ops :: "tun_adapter adapter" where
  "tun_ops = \<lparr>ad_read = Tun_read, ad_write = Tun_write,
     ad_tick = (\<lambda>ms t. Inr (t\<lparr>ta_base := FdAdapter_tick ms (ta_base t)\<rparr>)), ad_fd = ta_tun,
     ad_configure = (\<lambda>cfg t. t\<lparr>ta_base := (ta_base t)\<lparr>fa_cfg := cfg\<rparr>\<rparr>),
     ad_set_listening = (\<lambda>l t. t\<lparr>ta_base := set_listening l (ta_base t)\<rparr>)\<rparr>"

text \<open>The lossy adapter, with the numbers its random engine draws for a read and for a message written.\<close>

definition lossy_ops :: "(bytes syscall \<Rightarrow> tun_adapter \<Rightarrow> u64) \<Rightarrow> (tcp_message \<Rightarrow> tun_adapter \<Rightarrow> u64) \<Rightarrow> tun_adapter adapter" where
  "lossy_ops rand_dn rand_up = tun_ops\<lparr>
     ad_read := (\<lambda>outcome t. Lossy_read (rand_dn outcome t) outcome t),
     ad_write := (\<lambda>m ret t. Lossy_write (rand_up m t) m ret t)\<rparr>"

text \<open>What the system calls of one callback return.\<close>

record outcomes =
  oc_datagram :: "bytes syscall"
  oc_send :: "tcp_message \<Rightarrow> int syscall"
  oc_read :: "nat \<Rightarrow> bytes syscall"
  oc_write :: "bytes \<Rightarrow> int syscall"
  oc_shutdown :: "int syscall"

text \<open>
  \<open>mw_kernel\<close> is the rest of the machine, the set of watched descriptors among it; \<open>mw_calls\<close> counts the
  callbacks.  The last three record what has happened: the bytes got from the application, the bytes
  its end of the local socket has taken, and the messages handed to the adapter.
\<close>

record ('a, 'k) minnow_world =
  mw_socket :: minnow
  mw_adapter :: 'a
  mw_outcomes :: "nat \<Rightarrow> outcomes"
  mw_calls :: nat
  mw_kernel :: 'k
  mw_from_app :: bytes
  mw_to_app :: bytes
  mw_sent :: "tcp_message list"

type_synonym ('a, 'k) minnow_context = "('a, 'k) minnow_world el_context"

text \<open>The descriptors and rules by number: the adapter's, the local socket's.\<close>

definition adapter_fd :: nat where
  "adapter_fd = 0"

definition thread_data_fd :: nat where
  "thread_data_fd = 1"

fun adapter_write_all :: "'a adapter \<Rightarrow> (tcp_message \<Rightarrow> int syscall) \<Rightarrow> tcp_message list \<Rightarrow> 'a \<Rightarrow> 'a result" where
  "adapter_write_all ad ret [] a = Inr a"
| "adapter_write_all ad ret (m # ms) a = rbind (ad_write ad m (ret m) a) (adapter_write_all ad ret ms)"

text \<open>What the kernel takes of the bytes rule 3 offers, and what rule 2 gets from it.\<close>

definition taken :: "(bytes \<Rightarrow> int syscall) \<Rightarrow> minnow \<Rightarrow> bytes" where
  "taken outcome s = (case mi_tcp s of None \<Rightarrow> [] | Some p \<Rightarrow>
     if bytes_buffered (inbound_reader p) = 0 then []
     else case Reader_peek (inbound_reader p) of Inl _ \<Rightarrow> [] | Inr buffer \<Rightarrow>
       (case outcome buffer of Failed _ \<Rightarrow> [] | Returned n \<Rightarrow> take (nat n) buffer))"

definition given :: "(nat \<Rightarrow> bytes syscall) \<Rightarrow> minnow \<Rightarrow> bytes" where
  "given outcome s = (case mi_tcp s of None \<Rightarrow> [] | Some p \<Rightarrow>
     (case outcome (unat (available_capacity (outbound_writer p))) of Failed _ \<Rightarrow> [] | Returned d \<Rightarrow> d))"

definition store :: "'a adapter \<Rightarrow> ('a, 'k) minnow_world \<Rightarrow> fd_wrapper \<Rightarrow> ('a, 'k) minnow_context \<Rightarrow> ('a, 'k) minnow_context" where
  "store ad w thread_data c =
     c\<lparr>el_world := w\<lparr>mw_calls := mw_calls w + 1\<rparr>,
       el_fds := (el_fds c)(adapter_fd := ad_fd ad (mw_adapter w), thread_data_fd := thread_data)\<rparr>"

definition minnow_callback :: "'a adapter \<Rightarrow> nat \<Rightarrow> ('a, 'k) minnow_context \<Rightarrow> ('a, 'k) minnow_context result" where
  "minnow_callback ad i c =
     (let w = el_world c; thread_data = el_fds c thread_data_fd; oc = mw_outcomes w (mw_calls w) in
      if i = 0 then
        rbind (ad_read ad (oc_datagram oc) (mw_adapter w)) (\<lambda>(seg, a).
        rbind (receive_rule seg thread_data (mw_socket w)) (\<lambda>(msgs, s).
        rbind (adapter_write_all ad (oc_send oc) msgs a) (\<lambda>a.
        Inr (store ad (w\<lparr>mw_socket := s, mw_adapter := a, mw_sent := mw_sent w @ msgs\<rparr>) thread_data c))))
      else if i = 1 then
        rbind (outbound_rule (oc_read oc) thread_data (mw_socket w)) (\<lambda>(msgs, thread_data, s).
        rbind (adapter_write_all ad (oc_send oc) msgs (mw_adapter w)) (\<lambda>a.
        Inr (store ad (w\<lparr>mw_socket := s, mw_adapter := a, mw_sent := mw_sent w @ msgs,
                         mw_from_app := mw_from_app w @ given (oc_read oc) (mw_socket w)\<rparr>) thread_data c)))
      else
        rbind (inbound_rule (oc_write oc) (oc_shutdown oc) thread_data (mw_socket w)) (\<lambda>(thread_data, s).
        Inr (store ad (w\<lparr>mw_socket := s, mw_to_app := mw_to_app w @ taken (oc_write oc) (mw_socket w)\<rparr>) thread_data c)))"

definition on_socket :: "(minnow \<Rightarrow> minnow result) \<Rightarrow> ('a, 'k) minnow_context \<Rightarrow> ('a, 'k) minnow_context result" where
  "on_socket f c = rbind (f (mw_socket (el_world c))) (\<lambda>s. Inr (c\<lparr>el_world := (el_world c)\<lparr>mw_socket := s\<rparr>\<rparr>))"

definition minnow_rules :: "'a adapter \<Rightarrow> ('a, 'k) minnow_world epoll_behaviour" where
  "minnow_rules ad = \<lparr>
     bh_interest = (\<lambda>i c. (if i = 0 then receive_interest else if i = 1 then outbound_interest else inbound_interest)
                       (mw_socket (el_world c))),
     bh_callback = (\<lambda>i l. rbind (minnow_callback ad i (el_context l)) (\<lambda>c. Inr (l\<lparr>el_context := c\<rparr>))),
     bh_cancel = (\<lambda>i. if i = 1 then on_socket close_outbound else Inr),
     bh_error = (\<lambda>i. if i = 1 then on_socket outbound_error else if i = 2 then on_socket inbound_error else Inr)\<rparr>"

section \<open>The socket\<close>

type_synonym ('a, 'k) minnow_loop = "('a, 'k) minnow_world epoll_loop"

definition the_socket :: "('a, 'k) minnow_loop \<Rightarrow> minnow" where
  "the_socket l = mw_socket (el_world (el_context l))"

definition set_socket :: "minnow \<Rightarrow> ('a, 'k) minnow_loop \<Rightarrow> ('a, 'k) minnow_loop" where
  "set_socket s l = l\<lparr>el_context := (el_context l)\<lparr>el_world := (el_world (el_context l))\<lparr>mw_socket := s\<rparr>\<rparr>\<rparr>"

definition set_adapter :: "'a adapter \<Rightarrow> 'a \<Rightarrow> ('a, 'k) minnow_loop \<Rightarrow> ('a, 'k) minnow_loop" where
  "set_adapter ad a l = l\<lparr>el_context := (el_context l)\<lparr>el_world := (el_world (el_context l))\<lparr>mw_adapter := a\<rparr>,
     el_fds := (el_fds (el_context l))(adapter_fd := ad_fd ad a)\<rparr>\<rparr>"

definition initialize_TCP :: "tcp_config \<Rightarrow> ('a, 'k) minnow_loop \<Rightarrow> ('a, 'k) minnow_loop result" where
  "initialize_TCP config l =
     (let l = set_socket ((the_socket l)\<lparr>mi_tcp := Some (TCPPeer_new config)\<rparr>) l in
      rbind (add_rule_named ''receive TCP segment from the network'' adapter_fd In l) (\<lambda>l.
      rbind (add_rule_named ''push bytes to TCPPeer'' thread_data_fd In l) (\<lambda>l.
      add_rule_named ''read bytes from inbound stream'' thread_data_fd Out l)))"

definition log_sent :: "tcp_message list \<Rightarrow> ('a, 'k) minnow_loop \<Rightarrow> ('a, 'k) minnow_loop" where
  "log_sent msgs l = l\<lparr>el_context := (el_context l)\<lparr>el_world := (el_world (el_context l))\<lparr>mw_sent := mw_sent (el_world (el_context l)) @ msgs\<rparr>\<rparr>\<rparr>"

text \<open>Handing messages to the adapter outside of the rules, with the outcomes of the calls.\<close>

definition transmit_all :: "'a adapter \<Rightarrow> (tcp_message \<Rightarrow> int syscall) \<Rightarrow> tcp_message list \<Rightarrow> ('a, 'k) minnow_loop
    \<Rightarrow> ('a, 'k) minnow_loop result" where
  "transmit_all ad ret msgs l =
     rbind (adapter_write_all ad ret msgs (mw_adapter (el_world (el_context l)))) (\<lambda>a.
     Inr (log_sent msgs (set_adapter ad a l)))"

text \<open>
  \<^verbatim>\<open>_tcp_loop\<close>: what the machine does in one turn of the loop, and the loop over the turns it gets to
  make.  The owner's thread sets the abort flag, \<open>tu_abort\<close> is whether it has by the end of the wait.
\<close>

record ('a, 'k) turn =
  tu_ctl :: "('a, 'k) minnow_world epoll_ctl"
  tu_wait :: "int \<Rightarrow> ('a, 'k) minnow_world \<Rightarrow> (int \<times> u32) list syscall"
  tu_sockopt :: "int \<Rightarrow> (int \<times> nat) syscall"
  tu_abort :: bool
  tu_now :: u64
  tu_send :: "tcp_message \<Rightarrow> int syscall"

definition request_abort :: "minnow \<Rightarrow> minnow" where
  "request_abort s = s\<lparr>mi_abort := True\<rparr>"

definition TCP_TICK_MS :: int where
  "TCP_TICK_MS = 10"

datatype loop_state = Running | Ended

text \<open>What a turn does after the wait, and the whole turn.\<close>

definition tcp_after_wait :: "'a adapter \<Rightarrow> ('a, 'k) turn \<Rightarrow> u64 \<Rightarrow> el_result \<Rightarrow> ('a, 'k) minnow_loop
    \<Rightarrow> (loop_state \<times> u64 \<times> ('a, 'k) minnow_loop) result" where
  "tcp_after_wait ad tu base_time ret l =
     (if ret = Exit \<or> mi_abort (the_socket l) then Inr (Ended, base_time, l)
      else case mi_tcp (the_socket l) of
             None \<Rightarrow> Inl (Runtime_Error ''_tcp_loop entered before TCPPeer initialized'')
           | Some p \<Rightarrow>
               if Peer_active p then
                 let next_time = tu_now tu;
                     (msgs, p) = Peer_tick (next_time - base_time) p;
                     l = set_socket ((the_socket l)\<lparr>mi_tcp := Some p\<rparr>) l
                 in rbind (transmit_all ad (tu_send tu) msgs l) (\<lambda>l.
                    rbind (ad_tick ad (next_time - base_time) (mw_adapter (el_world (el_context l)))) (\<lambda>a.
                    Inr (Running, next_time, set_adapter ad a l)))
               else Inr (Running, base_time, l))"

definition tcp_turn :: "'a adapter \<Rightarrow> ('a, 'k) turn \<Rightarrow> u64 \<Rightarrow> ('a, 'k) minnow_loop
    \<Rightarrow> (loop_state \<times> u64 \<times> ('a, 'k) minnow_loop) result" where
  "tcp_turn ad tu base_time l =
     rbind (epoll_wait_next_event (minnow_rules ad) (tu_ctl tu) (tu_wait tu) (tu_sockopt tu) TCP_TICK_MS l) (\<lambda>(ret, acts, l).
     tcp_after_wait ad tu base_time ret (if tu_abort tu then set_socket (request_abort (the_socket l)) l else l))"

fun tcp_loop :: "'a adapter \<Rightarrow> (minnow \<Rightarrow> bool) \<Rightarrow> ('a, 'k) turn list \<Rightarrow> u64 \<Rightarrow> ('a, 'k) minnow_loop
    \<Rightarrow> (loop_state \<times> ('a, 'k) minnow_loop) result" where
  "tcp_loop ad condition turns base_time l =
     (if \<not> condition (the_socket l) then Inr (Ended, l)
      else case turns of
             [] \<Rightarrow> Inr (Running, l)
           | tu # turns \<Rightarrow>
               rbind (tcp_turn ad tu base_time l) (\<lambda>(state, base_time, l).
               if state = Ended then Inr (Ended, l) else tcp_loop ad condition turns base_time l))"

declare tcp_loop.simps [simp del]

definition in_flight :: "minnow \<Rightarrow> u64" where
  "in_flight s = (case mi_tcp s of None \<Rightarrow> 0 | Some p \<Rightarrow> sequence_numbers_in_flight (tp_sender p))"

text \<open>\<^verbatim>\<open>connect\<close> and \<^verbatim>\<open>listen_and_accept\<close> up to the start of the thread.\<close>

definition Minnow_connect :: "'a adapter \<Rightarrow> tcp_config \<Rightarrow> fd_adapter_config \<Rightarrow> (tcp_message \<Rightarrow> int syscall) \<Rightarrow> u64
    \<Rightarrow> ('a, 'k) turn list \<Rightarrow> ('a, 'k) minnow_loop \<Rightarrow> (loop_state \<times> ('a, 'k) minnow_loop) result" where
  "Minnow_connect ad c_tcp c_ad ret now turns l =
     (if mi_tcp (the_socket l) \<noteq> None then Inl (Runtime_Error ''connect() with TCPConnection already initialized'')
      else rbind (initialize_TCP c_tcp l) (\<lambda>l.
           let l = set_adapter ad (ad_configure ad c_ad (mw_adapter (el_world (el_context l)))) l in
           rbind (case mi_tcp (the_socket l) of
                    None \<Rightarrow> Inl (Runtime_Error ''TCPPeer not successfully initialized'')
                  | Some p \<Rightarrow> Inr p) (\<lambda>p.
           rbind (Peer_push p) (\<lambda>(msgs, p).
           let l = set_socket ((the_socket l)\<lparr>mi_tcp := Some p\<rparr>) l in
           rbind (transmit_all ad ret msgs l) (\<lambda>l.
           if in_flight (the_socket l) \<noteq> 1
           then Inl (Runtime_Error ''After TCPConnection::connect(), expected sequence_numbers_in_flight() == 1'')
           else tcp_loop ad (\<lambda>s. in_flight s = 1) turns now l)))))"

definition Minnow_listen_and_accept :: "'a adapter \<Rightarrow> tcp_config \<Rightarrow> fd_adapter_config \<Rightarrow> u64
    \<Rightarrow> ('a, 'k) turn list \<Rightarrow> ('a, 'k) minnow_loop \<Rightarrow> (loop_state \<times> ('a, 'k) minnow_loop) result" where
  "Minnow_listen_and_accept ad c_tcp c_ad now turns l =
     (if mi_tcp (the_socket l) \<noteq> None then Inl (Runtime_Error ''listen_and_accept() with TCPConnection already initialized'')
      else rbind (initialize_TCP c_tcp l) (\<lambda>l.
           let l = set_adapter ad (ad_set_listening ad True (ad_configure ad c_ad (mw_adapter (el_world (el_context l))))) l in
           tcp_loop ad (\<lambda>s. (case mi_tcp s of None \<Rightarrow> False | Some p \<Rightarrow> \<not> has_ackno p) \<or> in_flight s \<noteq> 0) turns now l))"

text \<open>
  \<^verbatim>\<open>_tcp_main\<close>, with the outcome of the \<^verbatim>\<open>shutdown\<close> of the owner's end of the local socket.  When the turns run
  out before the loop has ended, so has what there is to say.
\<close>

definition tcp_main :: "'a adapter \<Rightarrow> u64 \<Rightarrow> ('a, 'k) turn list \<Rightarrow> int syscall \<Rightarrow> fd_wrapper \<Rightarrow> ('a, 'k) minnow_loop
    \<Rightarrow> (loop_state \<times> fd_wrapper \<times> ('a, 'k) minnow_loop) result" where
  "tcp_main ad now turns shut owner l =
     (if mi_tcp (the_socket l) = None then Inl (Runtime_Error ''no TCP'')
      else rbind (tcp_loop ad (\<lambda>s. True) turns now l) (\<lambda>(state, l).
           if state = Running then Inr (Running, owner, l)
           else rbind (Socket_shutdown SHUT_RDWR shut owner) (\<lambda>owner.
                Inr (Ended, owner, set_socket ((the_socket l)\<lparr>mi_tcp := None\<rparr>) l))))"

section \<open>The rules are well behaved\<close>

lemma store_requests: "requests_kept c (store ad w td c)"
  by (simp add: requests_kept_def store_def)

lemma minnow_callback_requests: "minnow_callback ad i c = Inr c' \<Longrightarrow> requests_kept c c'"
  by (auto simp: minnow_callback_def Let_def rbind_Inr_iff store_requests split: if_splits)

lemma on_socket_requests: "on_socket f c = Inr c' \<Longrightarrow> requests_kept c c'"
  by (auto simp: on_socket_def rbind_Inr_iff)

lemma minnow_rules_ok: "behaviour_ok (minnow_rules ad)"
  unfolding behaviour_ok_def minnow_rules_def
  by (auto simp: rbind_Inr_iff dest: on_socket_requests minnow_callback_requests intro!: extends_context split: if_splits)

section \<open>Two sockets and the network\<close>

text \<open>
  One end: the socket, the wrapper of its local socket, the bytes it has read from the application and
  those the application's end has taken, and the messages handed to the adapter.
\<close>

record minnow_end =
  me_socket :: minnow
  me_thread_data :: fd_wrapper
  me_from_app :: bytes
  me_to_app :: bytes
  me_sent :: "tcp_message list"

definition ssize_ok :: "(bytes \<Rightarrow> int syscall) \<Rightarrow> bool" where
  "ssize_ok outcome \<longleftrightarrow> (\<forall>b n. outcome b = Returned n \<longrightarrow> 0 \<le> n \<and> n < 2 ^ 63)"

definition minnow_end_new :: "tcp_config \<Rightarrow> fd_wrapper \<Rightarrow> minnow_end" where
  "minnow_end_new cfg td =
     \<lparr>me_socket = minnow_new\<lparr>mi_tcp := Some (TCPPeer_new cfg)\<rparr>, me_thread_data = td, me_from_app = [], me_to_app = [], me_sent = []\<rparr>"

text \<open>
  The two ends run: rules in any order, each when it is interested; the functions called on
  cancellation and errors at any time; ticks; and the push of \<^verbatim>\<open>connect\<close>.  A datagram read is one the
  other end has sent at some time, or nothing.
\<close>

inductive minnow_run :: "(bool \<Rightarrow> tcp_config) \<Rightarrow> (bool \<Rightarrow> minnow_end) \<Rightarrow> bool" for cfg where
  mr_start: "minnow_run cfg (\<lambda>x. minnow_end_new (cfg x) (td x))"
| mr_receive: "minnow_run cfg k \<Longrightarrow> seg = None \<or> (\<exists>m\<in>set (me_sent (k (\<not> x))). seg = Some (on_wire m)) \<Longrightarrow>
    receive_rule seg (me_thread_data (k x)) (me_socket (k x)) = Inr (ms, s) \<Longrightarrow>
    minnow_run cfg (k(x := (k x)\<lparr>me_socket := s, me_sent := me_sent (k x) @ ms\<rparr>))"
| mr_outbound: "minnow_run cfg k \<Longrightarrow> outbound_interest (me_socket (k x)) \<Longrightarrow>
    outbound_rule outcome (me_thread_data (k x)) (me_socket (k x)) = Inr (ms, td, s) \<Longrightarrow>
    minnow_run cfg (k(x := (k x)\<lparr>me_socket := s, me_thread_data := td,
      me_from_app := me_from_app (k x) @ given outcome (me_socket (k x)), me_sent := me_sent (k x) @ ms\<rparr>))"
| mr_inbound: "minnow_run cfg k \<Longrightarrow> ssize_ok outcome \<Longrightarrow>
    inbound_rule outcome shut (me_thread_data (k x)) (me_socket (k x)) = Inr (td, s) \<Longrightarrow>
    minnow_run cfg (k(x := (k x)\<lparr>me_socket := s, me_thread_data := td,
      me_to_app := me_to_app (k x) @ taken outcome (me_socket (k x))\<rparr>))"
| mr_tell: "minnow_run cfg k \<Longrightarrow> f \<in> {close_outbound, outbound_error, inbound_error, Inr \<circ> request_abort} \<Longrightarrow>
    f (me_socket (k x)) = Inr s \<Longrightarrow> minnow_run cfg (k(x := (k x)\<lparr>me_socket := s\<rparr>))"
| mr_tick: "minnow_run cfg k \<Longrightarrow> mi_tcp (me_socket (k x)) = Some p \<Longrightarrow> Peer_tick t p = (ms, p') \<Longrightarrow>
    minnow_run cfg (k(x := (k x)\<lparr>me_socket := (me_socket (k x))\<lparr>mi_tcp := Some p'\<rparr>, me_sent := me_sent (k x) @ ms\<rparr>))"
| mr_push: "minnow_run cfg k \<Longrightarrow> mi_tcp (me_socket (k x)) = Some p \<Longrightarrow> Peer_push p = Inr (ms, p') \<Longrightarrow>
    minnow_run cfg (k(x := (k x)\<lparr>me_socket := (me_socket (k x))\<lparr>mi_tcp := Some p'\<rparr>, me_sent := me_sent (k x) @ ms\<rparr>))"

text \<open>Each end is an endpoint of \<open>Connection\<close>.\<close>

definition as_endpoint :: "minnow_end \<Rightarrow> endpoint" where
  "as_endpoint k = \<lparr>ep_peer = the (mi_tcp (me_socket k)), ep_written = me_from_app k, ep_read = me_to_app k, ep_sent = me_sent k\<rparr>"

definition me_ok :: "minnow_end \<Rightarrow> bool" where
  "me_ok k \<longleftrightarrow> mi_tcp (me_socket k) \<noteq> None
     \<and> (is_closed (outbound (as_endpoint k)) \<longrightarrow> mi_outbound_shutdown (me_socket k))"

text \<open>The operations of a peer do not open or close its outbound stream.\<close>

lemma Reader_pop_closed: "Reader_pop n bs = Inr bs' \<Longrightarrow> bs_closed bs' = bs_closed bs"
  by (auto simp: Reader_pop_def Let_def rbind_Inr_iff)

lemma payload_loop_closed: "payload_loop room bs acc = Inr (d, bs') \<Longrightarrow> bs_closed bs' = bs_closed bs"
proof (induction room bs acc rule: payload_loop.induct)
  case (1 room bs acc)
  from "1.prems" consider "bs' = bs" | front bs1 where "length acc < unat room \<and> 0 < bytes_buffered bs" "Reader_peek bs = Inr front"
      "take (unat room - length acc) front \<noteq> []" "Reader_pop (size64 (take (unat room - length acc) front)) bs = Inr bs1"
      "payload_loop room bs1 (acc @ take (unat room - length acc) front) = Inr (d, bs')"
    by (subst (asm) payload_loop.simps) (auto simp: Let_def split: if_splits sum.splits)
  then show ?case using "1.IH" Reader_pop_closed by cases metis+
qed

lemma send_segment_closed: "send_segment w s = Inr (m, s') \<Longrightarrow> bs_closed (ts_input s') = bs_closed (ts_input s)"
  by (auto simp: send_segment_def Let_def rbind_Inr_iff dest: payload_loop_closed split: if_splits)

lemma push_loop_closed: "push_loop e s sent = Inr (ms, s') \<Longrightarrow> bs_closed (ts_input s') = bs_closed (ts_input s)"
proof (induction e s sent rule: push_loop.induct)
  case (1 e s sent)
  from "1.prems" consider "s' = s" | "send_segment (e - ts_next_seqno s) s = Inr (None, s')"
    | m s1 where "ts_next_seqno s < e \<and> \<not> ts_fin_sent s" "send_segment (e - ts_next_seqno s) s = Inr (Some m, s1)"
      "push_loop e s1 (sent @ [m]) = Inr (ms, s')"
    by (subst (asm) push_loop.simps) (auto split: if_splits sum.splits option.splits)
  then show ?case using "1.IH" send_segment_closed by cases metis+
qed

lemma Peer_push_closed: "Peer_push p = Inr (ms, p') \<Longrightarrow> is_closed (outbound_writer p') = is_closed (outbound_writer p)"
  by (auto simp: Peer_push_def rbind_Inr_iff Peer_send_each_eq Sender_push_def Let_def outbound_writer_def is_closed_def
      dest: push_loop_closed split: if_splits)

lemma Peer_tick_closed: "Peer_tick t p = (ms, p') \<Longrightarrow> is_closed (outbound_writer p') = is_closed (outbound_writer p)"
  by (auto simp: Peer_tick_def Sender_tick_def Peer_send_each_eq Let_def outbound_writer_def is_closed_def split: if_splits)

lemma Sender_receive_closed: "bs_closed (ts_input (Sender_receive m s)) = bs_closed (ts_input s)"
  by (auto simp: Sender_receive_def Let_def set_error_def split: option.splits prod.splits)

lemma Peer_receive_closed: "Peer_receive m p = Inr (ms, p') \<Longrightarrow> is_closed (outbound_writer p') = is_closed (outbound_writer p)"
  by (auto simp: Peer_receive_def Let_def rbind_Inr_iff Peer_send_def outbound_writer_def is_closed_def Sender_receive_closed
      dest!: Peer_push_closed split: if_splits prod.splits)

text \<open>Simulation, rule by rule: \<open>c\<close> is a connection in which the end \<open>x\<close> is the socket's.\<close>

lemma outbound_endpoint: "outbound (as_endpoint k) = outbound_writer (the (mi_tcp (me_socket k)))"
  and inbound_endpoint: "inbound (as_endpoint k) = inbound_reader (the (mi_tcp (me_socket k)))"
  by (simp_all add: outbound_def inbound_def as_endpoint_def outbound_writer_def inbound_reader_def)

lemma set_outbound_writer_sel [simp]: "outbound_writer (set_outbound_writer bs p) = bs"
  by (simp add: outbound_writer_def set_outbound_writer_def)

lemma receive_rule_run:
  assumes "conn_run cfg c" and "c x = as_endpoint k" and "me_ok k"
    and "seg = None \<or> (\<exists>m\<in>set (ep_sent (c (\<not> x))). seg = Some (on_wire m))"
    and "receive_rule seg td (me_socket k) = Inr (ms, s)"
  defines "k' \<equiv> k\<lparr>me_socket := s, me_sent := me_sent k @ ms\<rparr>"
  shows "conn_run cfg (c(x := as_endpoint k')) \<and> me_ok k'"
proof -
  from assms(3) obtain p where p: "mi_tcp (me_socket k) = Some p" by (auto simp: me_ok_def)
  from assms(5) p obtain p' where r: "(case seg of None \<Rightarrow> Inr ([], p) | Some seg \<Rightarrow> Peer_receive seg p) = Inr (ms, p')"
    and s: "mi_tcp s = Some p'" "mi_outbound_shutdown s = mi_outbound_shutdown (me_socket k)"
    by (auto simp: receive_rule_def the_tcp_def rbind_Inr_iff Let_def)
  have k': "as_endpoint k' = (c x)\<lparr>ep_peer := p', ep_sent := ep_sent (c x) @ ms\<rparr>"
    by (simp add: assms(2) as_endpoint_def k'_def s)
  have "conn_run cfg (c(x := as_endpoint k'))"
  proof (cases seg)
    case None
    with r have "as_endpoint k' = c x" by (simp add: assms(2) as_endpoint_def p k'_def s)
    with assms(1) show ?thesis by simp
  next
    case (Some m')
    with assms(4) obtain m where "m \<in> set (ep_sent (c (\<not> x)))" "m' = on_wire m" by auto
    moreover from this r Some have "Peer_receive (on_wire m) (ep_peer (c x)) = Inr (ms, p')" by (simp add: assms(2) as_endpoint_def p)
    ultimately show ?thesis unfolding k' using assms(1) by (blast intro: conn_run.deliver)
  qed
  moreover have "is_closed (outbound_writer p') = is_closed (outbound_writer p)"
    using r by (auto split: option.splits dest: Peer_receive_closed)
  ultimately show ?thesis using assms(3) s p by (simp add: me_ok_def outbound_endpoint k'_def)
qed

lemma set_outbound_writer_twice [simp]: "set_outbound_writer bs (set_outbound_writer bs' p) = set_outbound_writer bs p"
  by (simp add: set_outbound_writer_def)

lemma set_outbound_endpoint:
  "mi_tcp (me_socket k) = Some p \<Longrightarrow> set_outbound bs (as_endpoint k) = (as_endpoint k)\<lparr>ep_peer := set_outbound_writer bs p\<rparr>"
  by (simp add: set_outbound_def as_endpoint_def set_outbound_writer_def)

lemma set_inbound_endpoint:
  "mi_tcp (me_socket k) = Some p \<Longrightarrow> set_inbound bs (as_endpoint k) = (as_endpoint k)\<lparr>ep_peer := set_inbound_reader bs p\<rparr>"
  by (simp add: set_inbound_def as_endpoint_def set_inbound_reader_def)

lemma FD_read_within:
  assumes "FD_read (replicate n 0) (outcome (FD_read_size (replicate n 0))) td = Inr (data, td')" and "0 < n"
  shows "data = (case outcome n of Failed _ \<Rightarrow> [] | Returned d \<Rightarrow> d) \<and> length data \<le> n"
  using assms by (cases "outcome n") (auto simp: FD_read_size_def Let_def split: if_splits)

text \<open>Rule 2 pushes all the bytes it has read.\<close>

lemma outbound_rule_run:
  assumes "conn_run cfg c" and "c x = as_endpoint k" and "me_ok k" and "outbound_interest (me_socket k)"
    and "outbound_rule outcome td (me_socket k) = Inr (ms, td', s)"
  defines "k' \<equiv> k\<lparr>me_socket := s, me_thread_data := td', me_from_app := me_from_app k @ given outcome (me_socket k), me_sent := me_sent k @ ms\<rparr>"
  shows "conn_run cfg (c(x := as_endpoint k')) \<and> me_ok k'"
proof -
  from assms(3) obtain p where p: "mi_tcp (me_socket k) = Some p" by (auto simp: me_ok_def)
  let ?ob = "outbound_writer p"
  have cap: "0 < unat (available_capacity ?ob)" and ns: "\<not> mi_outbound_shutdown (me_socket k)"
    using assms(4) p by (auto simp: outbound_interest_def unat_gt_0 word_gt_0)
  with assms(3) p have op: "\<not> is_closed ?ob" by (auto simp: me_ok_def outbound_endpoint)
  from assms(5) p obtain data where
    rd: "FD_read (replicate (unat (available_capacity ?ob)) 0) (outcome (FD_read_size (replicate (unat (available_capacity ?ob)) 0))) td = Inr (data, td')"
    by (auto simp: outbound_rule_def the_tcp_def rbind_Inr_iff Let_def)
  note data = FD_read_within[where outcome = outcome, OF rd cap]
  have g: "given outcome (me_socket k) = data" using data p by (simp add: given_def)
  define ob where "ob = (if fw_eof td' then Writer_close (Writer_push data ?ob) else Writer_push data ?ob)"
  obtain p' where push: "Peer_push (set_outbound_writer ob p) = Inr (ms, p')" and s: "mi_tcp s = Some p'"
    and sh: "mi_outbound_shutdown s = fw_eof td'"
    using assms(5) p rd ns
    by (auto simp: outbound_rule_def the_tcp_def rbind_Inr_iff Let_def close_outbound_def ob_def split: if_splits)
  define e where "e = (as_endpoint k)\<lparr>ep_written := me_from_app k @ data, ep_peer := set_outbound_writer (Writer_push data ?ob) p\<rparr>"
  have "conn_run cfg (c(x := e))"
    using conn_run.app_write[OF assms(1), of x data] data[THEN conjunct2] op
    by (simp add: assms(2) outbound_endpoint p set_outbound_endpoint e_def) (simp add: as_endpoint_def)
  then have "conn_run cfg (c(x := e\<lparr>ep_peer := set_outbound_writer ob p\<rparr>))"
    using conn_run.app_close[of cfg "c(x := e)" x]
    by (auto simp: ob_def e_def outbound_def set_outbound_def set_outbound_writer_def)
  from conn_run.push[OF this, of x ms p'] push
  have "conn_run cfg (c(x := e\<lparr>ep_peer := p', ep_sent := ep_sent e @ ms\<rparr>))" by simp
  moreover have "as_endpoint k' = e\<lparr>ep_peer := p', ep_sent := ep_sent e @ ms\<rparr>"
    by (simp add: as_endpoint_def k'_def e_def s g)
  moreover
  have "is_closed (outbound_writer p') \<longrightarrow> fw_eof td'"
    using Peer_push_closed[OF push] op by (simp add: ob_def is_closed_def Writer_push_def Let_def split: if_splits)
  then have "me_ok k'" using s sh by (simp add: me_ok_def outbound_endpoint k'_def)
  ultimately show ?thesis by simp
qed

text \<open>Rule 3 pops exactly the bytes the kernel has taken.\<close>

lemma Reader_peek_prefix: "Reader_peek bs = Inr v \<Longrightarrow> \<exists>rest. bs_content bs = v @ rest"
  by (cases "bs_segments bs") (auto simp: Reader_peek_def bs_content_def str_substr_def split: if_splits)

lemma FD_write_taken:
  assumes "FD_write buffer r td = Inr (n, td')" and "\<And>n. r = Returned n \<Longrightarrow> 0 \<le> n \<and> n < 2 ^ 63"
  shows "0 \<le> n \<and> n \<le> int (length buffer) \<and> n < 2 ^ 63 \<and> (case r of Failed _ \<Rightarrow> n = 0 | Returned m \<Rightarrow> n = m)"
  using assms by (cases r) (auto simp: FD_write_def FD_writev_def Let_def rbind_Inr_iff split: if_splits)

lemma inbound_rule_run:
  assumes "conn_run cfg c" and "c x = as_endpoint k" and "me_ok k" and "ssize_ok outcome"
    and "inbound_rule outcome shut td (me_socket k) = Inr (td', s)"
  defines "k' \<equiv> k\<lparr>me_socket := s, me_thread_data := td', me_to_app := me_to_app k @ taken outcome (me_socket k)\<rparr>"
  shows "conn_run cfg (c(x := as_endpoint k')) \<and> me_ok k'"
proof -
  from assms(3) obtain p where p: "mi_tcp (me_socket k) = Some p" by (auto simp: me_ok_def)
  let ?ib = "inbound_reader p" and ?t = "taken outcome (me_socket k)"
  have ok: "me_ok k'" if "mi_tcp s = Some (set_inbound_reader ib p)" "mi_outbound_shutdown s = mi_outbound_shutdown (me_socket k)" for ib
    using assms(3) that p by (simp add: me_ok_def outbound_endpoint k'_def outbound_writer_def set_inbound_reader_def)
  show ?thesis
  proof (cases "bytes_buffered ?ib = 0")
    case True
    with assms(5) p have s: "mi_tcp s = Some (set_inbound_reader ?ib p)" "mi_outbound_shutdown s = mi_outbound_shutdown (me_socket k)"
      by (auto simp: inbound_rule_def the_tcp_def rbind_Inr_iff Let_def split: if_splits)
    have "?t = []" using True p by (simp add: taken_def)
    then have "as_endpoint k' = c x" by (simp add: assms(2) as_endpoint_def p k'_def s set_inbound_reader_def inbound_reader_def)
    with assms(1) ok[OF s] show ?thesis by simp
  next
    case False
    with assms(5) p obtain buffer n td1 ib where pk: "Reader_peek ?ib = Inr buffer"
      and w: "FD_write buffer (outcome buffer) td = Inr (n, td1)" and pop: "Reader_pop (of_int n) ?ib = Inr ib"
      and s: "mi_tcp s = Some (set_inbound_reader ib p)" "mi_outbound_shutdown s = mi_outbound_shutdown (me_socket k)"
      by (auto simp: inbound_rule_def the_tcp_def rbind_Inr_iff Let_def split: if_splits)
    note n = FD_write_taken[OF w] 
    have nb: "0 \<le> n" "n \<le> int (length buffer)" "n < 2 ^ 63" and t: "?t = take (nat n) buffer"
      using n assms(4) p pk False by (auto simp: ssize_ok_def taken_def split: syscall.splits)
    have un: "unat (of_int n :: u64) = nat n" using nb by (simp add: unsigned_of_int take_bit_int_eq_self)
    obtain rest where "bs_content ?ib = buffer @ rest" using Reader_peek_prefix[OF pk] by blast
    then have "take (unat (of_int n :: u64)) (bs_content ?ib) = ?t" using nb un t by simp
    with conn_run.app_read[OF assms(1), of "of_int n" x ib] pop
    have "conn_run cfg (c(x := (as_endpoint k)\<lparr>ep_peer := set_inbound_reader ib p, ep_read := me_to_app k @ ?t\<rparr>))"
      by (simp add: assms(2) inbound_endpoint p set_inbound_endpoint) (simp add: as_endpoint_def)
    moreover have "as_endpoint k' = (as_endpoint k)\<lparr>ep_peer := set_inbound_reader ib p, ep_read := me_to_app k @ ?t\<rparr>"
      by (simp add: as_endpoint_def k'_def s)
    ultimately show ?thesis using ok[OF s] by simp
  qed
qed

text \<open>The remaining steps, and all of them together.\<close>

lemma tell_run:
  assumes "conn_run cfg c" and "c x = as_endpoint k" and "me_ok k" and "f \<in> {close_outbound, outbound_error, inbound_error, Inr \<circ> request_abort}"
    and "f (me_socket k) = Inr s"
  shows "conn_run cfg (c(x := as_endpoint (k\<lparr>me_socket := s\<rparr>))) \<and> me_ok (k\<lparr>me_socket := s\<rparr>)"
proof -
  from assms(3) obtain p where p: "mi_tcp (me_socket k) = Some p" by (auto simp: me_ok_def)
  have c: "outbound (c x) = outbound_writer p" "inbound (c x) = inbound_reader p"
    by (simp_all add: assms(2) outbound_endpoint inbound_endpoint p)
  consider (close) "f = close_outbound" | (err) "f = outbound_error" | (ierr) "f = inbound_error"
    | (abort) "f = Inr \<circ> request_abort" using assms(4) by blast
  then show ?thesis
  proof cases
    case close
    with assms(5) p have s: "s = (me_socket k)\<lparr>mi_tcp := Some (set_outbound_writer (Writer_close (outbound_writer p)) p), mi_outbound_shutdown := True\<rparr>"
      by (simp add: close_outbound_def the_tcp_def)
    have "as_endpoint (k\<lparr>me_socket := s\<rparr>) = set_outbound (Writer_close (outbound (c x))) (c x)"
      unfolding c by (simp add: assms(2) set_outbound_endpoint p) (simp add: as_endpoint_def s)
    with conn_run.app_close[OF assms(1), of x] s show ?thesis by (simp add: me_ok_def)
  next
    case err
    with assms(5) p have s: "s = (me_socket k)\<lparr>mi_tcp := Some (set_outbound_writer (set_error (outbound_writer p)) p)\<rparr>"
      by (simp add: outbound_error_def the_tcp_def)
    have "as_endpoint (k\<lparr>me_socket := s\<rparr>) = set_outbound (set_error (outbound (c x))) (c x)"
      unfolding c by (simp add: assms(2) set_outbound_endpoint p) (simp add: as_endpoint_def s)
    with conn_run.app_error[OF assms(1), of x] have "conn_run cfg (c(x := as_endpoint (k\<lparr>me_socket := s\<rparr>)))" by simp
    with assms(3) show ?thesis by (simp add: me_ok_def outbound_endpoint s p is_closed_def set_error_def)
  next
    case ierr
    with assms(5) p have s: "s = (me_socket k)\<lparr>mi_tcp := Some (set_inbound_reader (set_error (inbound_reader p)) p)\<rparr>"
      by (simp add: inbound_error_def the_tcp_def)
    have "as_endpoint (k\<lparr>me_socket := s\<rparr>) = set_inbound (set_error (inbound (c x))) (c x)"
      unfolding c by (simp add: assms(2) set_inbound_endpoint p) (simp add: as_endpoint_def s)
    with conn_run.app_abort[OF assms(1), of x] have "conn_run cfg (c(x := as_endpoint (k\<lparr>me_socket := s\<rparr>)))" by simp
    with assms(3) show ?thesis by (simp add: me_ok_def outbound_endpoint s p outbound_writer_def set_inbound_reader_def)
  next
    case abort
    with assms(5) have s: "s = request_abort (me_socket k)" by simp
    have "as_endpoint (k\<lparr>me_socket := s\<rparr>) = c x" by (simp add: assms(2) as_endpoint_def s request_abort_def)
    with assms(1) have "conn_run cfg (c(x := as_endpoint (k\<lparr>me_socket := s\<rparr>)))" by simp
    with assms(3) show ?thesis by (simp add: me_ok_def outbound_endpoint s request_abort_def)
  qed
qed

lemma send_run:
  assumes "conn_run cfg c" and "c x = as_endpoint k" and "me_ok k" and p: "mi_tcp (me_socket k) = Some p"
    and r: "Peer_push p = Inr (ms, p') \<or> Peer_tick t p = (ms, p')"
  defines "k' \<equiv> k\<lparr>me_socket := (me_socket k)\<lparr>mi_tcp := Some p'\<rparr>, me_sent := me_sent k @ ms\<rparr>"
  shows "conn_run cfg (c(x := as_endpoint k')) \<and> me_ok k'"
proof -
  have k': "as_endpoint k' = (c x)\<lparr>ep_peer := p', ep_sent := ep_sent (c x) @ ms\<rparr>"
    by (simp add: assms(2) as_endpoint_def k'_def)
  have "ep_peer (c x) = p" by (simp add: assms(2) as_endpoint_def p)
  then have "conn_run cfg (c(x := as_endpoint k'))"
    unfolding k' using r conn_run.push[OF assms(1), of x ms p'] conn_run.tick[OF assms(1), of t x ms p'] by blast
  moreover have "is_closed (outbound_writer p') = is_closed (outbound_writer p)"
    using r Peer_push_closed Peer_tick_closed by blast
  ultimately show ?thesis using assms(3) p by (simp add: me_ok_def outbound_endpoint k'_def)
qed

lemma abs_upd: "(\<lambda>y. as_endpoint ((k(x := e)) y)) = (\<lambda>y. as_endpoint (k y))(x := as_endpoint e)"
  by auto

lemma minnow_run_conn:
  assumes "minnow_run cfg k"
  shows "conn_run cfg (\<lambda>x. as_endpoint (k x)) \<and> (\<forall>x. me_ok (k x))"
  using assms
proof (induction rule: minnow_run.induct)
  case (mr_start td)
  have "(\<lambda>x. as_endpoint (minnow_end_new (cfg x) (td x))) = (\<lambda>x. endpoint_new (cfg x))"
    by (simp add: as_endpoint_def minnow_end_new_def endpoint_new_def)
  moreover have "me_ok (minnow_end_new (cfg x) (td x))" for x
    by (simp add: me_ok_def minnow_end_new_def outbound_endpoint outbound_writer_def TCPPeer_new_def TCPSender_new_def
        ByteStream_new_def is_closed_def)
  ultimately show ?case using conn_run.start[of cfg] by simp
next
  case (mr_receive k seg x ms s)
  then show ?case
    unfolding abs_upd using receive_rule_run[of cfg "\<lambda>x. as_endpoint (k x)" x "k x" seg "me_thread_data (k x)" ms s]
    by (auto simp: as_endpoint_def)
next
  case (mr_outbound k x outcome ms td s)
  then show ?case
    unfolding abs_upd using outbound_rule_run[of cfg "\<lambda>x. as_endpoint (k x)" x "k x" outcome "me_thread_data (k x)" ms td s] by auto
next
  case (mr_inbound k outcome shut x td s)
  then show ?case
    unfolding abs_upd using inbound_rule_run[of cfg "\<lambda>x. as_endpoint (k x)" x "k x" outcome shut "me_thread_data (k x)" td s] by auto
next
  case (mr_tell k f x s)
  then show ?case
    unfolding abs_upd using tell_run[of cfg "\<lambda>x. as_endpoint (k x)" x "k x" f s] by auto
next
  case (mr_tick k x p t ms p')
  then show ?case
    unfolding abs_upd using send_run[of cfg "\<lambda>x. as_endpoint (k x)" x "k x" p ms p' t] by auto
next
  case (mr_push k x p ms p')
  then show ?case
    unfolding abs_upd using send_run[of cfg "\<lambda>x. as_endpoint (k x)" x "k x" p ms p'] by auto
qed

section \<open>End of file\<close>

text \<open>Once closed or in error, an inbound stream stays so.\<close>

definition later :: "byte_stream \<Rightarrow> byte_stream \<Rightarrow> bool" where
  "later bs bs' \<longleftrightarrow> (bs_closed bs \<longrightarrow> bs_closed bs') \<and> (bs_error bs \<longrightarrow> bs_error bs')"

lemma insert_later: "Reassembler.insert i d e r = Inr r' \<Longrightarrow> later (ra_output r) (ra_output r')"
  using insert_flags by (simp add: later_def has_error_def is_closed_def)

lemma Receiver_receive_later: "Receiver_receive m r = Inr r' \<Longrightarrow> later (ra_output (tr_reassembler r)) (ra_output (tr_reassembler r'))"
  by (auto simp: Receiver_receive_def Let_def rbind_Inr_iff dest!: insert_later split: if_splits)
    (auto simp: later_def Reassembler_close_def Reassembler_set_error_def Writer_close_def set_error_def)

lemma Peer_push_receiver: "Peer_push p = Inr (ms, p') \<Longrightarrow> tp_receiver p' = tp_receiver p"
  by (auto simp: Peer_push_def rbind_Inr_iff Peer_send_each_eq)

lemma Peer_tick_receiver: "Peer_tick t p = (ms, p') \<Longrightarrow> tp_receiver p' = tp_receiver p"
  by (auto simp: Peer_tick_def Peer_send_each_eq Let_def split: prod.splits)

lemma Peer_receive_later: "Peer_receive m p = Inr (ms, p') \<Longrightarrow> later (inbound_reader p) (inbound_reader p')"
  by (auto simp: Peer_receive_def Let_def rbind_Inr_iff inbound_reader_def Peer_send_def
      dest!: Receiver_receive_later Peer_push_receiver split: if_splits prod.splits) (simp add: later_def)

text \<open>
  A socket that has shut down the writing side of its local socket, without an error on the stream,
  has passed on all the bytes the other application wrote.
\<close>

definition eof_complete :: "(bool \<Rightarrow> minnow_end) \<Rightarrow> bool \<Rightarrow> bool" where
  "eof_complete k x \<longleftrightarrow> mi_inbound_shutdown (me_socket (k x)) \<and> \<not> has_error (inbound (as_endpoint (k x))) \<longrightarrow>
     is_closed (inbound (as_endpoint (k x))) \<and> me_to_app (k x) = me_from_app (k (\<not> x))"

lemma minnow_prefix:
  assumes "minnow_run cfg k" and "\<And>x. unat (cfg_recv_capacity (cfg x)) < 2 ^ 63" and "\<And>x. length (me_from_app (k x)) < 2 ^ 31 - 1"
  shows "bs_wf (inbound (as_endpoint (k x)))"
    and "\<exists>rest. me_from_app (k (\<not> x)) = me_to_app (k x) @ bs_content (inbound (as_endpoint (k x))) @ rest"
    and "is_closed (inbound (as_endpoint (k x))) \<Longrightarrow> \<not> has_error (inbound (as_endpoint (k x))) \<Longrightarrow>
      me_from_app (k (\<not> x)) = me_to_app (k x) @ bs_content (inbound (as_endpoint (k x))) \<and> mi_outbound_shutdown (me_socket (k (\<not> x)))"
proof -
  let ?c = "\<lambda>x. as_endpoint (k x)"
  have run: "conn_run cfg ?c" "me_ok (k y)" for y using minnow_run_conn[OF assms(1)] by auto
  have "conn_inv cfg ?c" using conn_run_inv[OF run(1)] assms(2,3) by (simp add: in_bounds_def as_endpoint_def)
  from conn_inv_halves(2)[OF this, of x] show "bs_wf (inbound (?c x))" using ra_invD(1) by (auto simp: tp_in_def tr_inv_def inbound_def)
  note p = connection_prefix[OF run(1), THEN spec, of "\<not> x"]
  show "\<exists>rest. me_from_app (k (\<not> x)) = me_to_app (k x) @ bs_content (inbound (?c x)) @ rest"
    using p assms(2,3) by (simp add: as_endpoint_def)
  show "me_from_app (k (\<not> x)) = me_to_app (k x) @ bs_content (inbound (?c x)) \<and> mi_outbound_shutdown (me_socket (k (\<not> x)))"
    if "is_closed (inbound (?c x))" "\<not> has_error (inbound (?c x))"
    using p assms(2,3) that run(2)[of "\<not> x"] by (auto simp: me_ok_def) (simp_all add: as_endpoint_def)
qed

lemma eof_step:
  assumes "eof_complete k y" and "later (inbound (as_endpoint (k y))) (inbound (as_endpoint (k' y)))"
    and "mi_inbound_shutdown (me_socket (k' y)) = mi_inbound_shutdown (me_socket (k y))"
    and "me_to_app (k' y) = me_to_app (k y)" and "me_from_app (k' (\<not> y)) = me_from_app (k (\<not> y))"
  shows "eof_complete k' y"
  using assms by (auto simp: eof_complete_def later_def has_error_def is_closed_def)

text \<open>What each step does to the inbound stream of its end.\<close>

lemma receive_rule_later:
  assumes "receive_rule seg td s = Inr (ms, s')" and "mi_tcp s = Some p"
  obtains p' where "mi_tcp s' = Some p'" "later (inbound_reader p) (inbound_reader p')" "mi_inbound_shutdown s' = mi_inbound_shutdown s"
  using assms by (auto simp: receive_rule_def the_tcp_def rbind_Inr_iff Let_def split: option.splits dest: Peer_receive_later)
    (simp add: later_def)

lemma outbound_rule_later:
  assumes "outbound_rule oc td s = Inr (ms, td', s')" and "mi_tcp s = Some p"
  obtains p' where "mi_tcp s' = Some p'" "inbound_reader p' = inbound_reader p" "mi_inbound_shutdown s' = mi_inbound_shutdown s"
  using assms by (auto simp: outbound_rule_def the_tcp_def rbind_Inr_iff Let_def close_outbound_def inbound_reader_def
      set_outbound_writer_def dest!: Peer_push_receiver split: if_splits)

lemma Reader_pop_error: "Reader_pop n bs = Inr bs' \<Longrightarrow> bs_error bs' = bs_error bs"
  by (auto simp: Reader_pop_def Let_def rbind_Inr_iff)

lemma inbound_rule_later:
  assumes "inbound_rule oc sh td s = Inr (td', s')" and "mi_tcp s = Some p"
  obtains p' where "mi_tcp s' = Some p'" "later (inbound_reader p) (inbound_reader p')"
    "mi_inbound_shutdown s' \<longrightarrow> mi_inbound_shutdown s \<or> is_finished (inbound_reader p') \<or> has_error (inbound_reader p')"
proof -
  let ?s = "\<lambda>ib. s\<lparr>mi_tcp := Some (set_inbound_reader ib p)\<rparr>"
  from assms obtain ib td1 where ib: "(if bytes_buffered (inbound_reader p) \<noteq> 0 then rbind (Reader_peek (inbound_reader p)) (\<lambda>buffer.
      rbind (FD_write buffer (oc buffer) td) (\<lambda>(n, td). rbind (Reader_pop (of_int n) (inbound_reader p)) (\<lambda>inbound. Inr (inbound, td))))
      else Inr (inbound_reader p, td)) = Inr (ib, td1)"
    and s': "(if is_finished ib \<or> has_error ib then rbind (Socket_shutdown SHUT_WR sh td1) (\<lambda>td. Inr (td, (?s ib)\<lparr>mi_inbound_shutdown := True\<rparr>))
      else Inr (td1, ?s ib)) = Inr (td', s')"
    unfolding inbound_rule_def the_tcp_def rbind_Inr_iff Let_def by auto
  from ib have "later (inbound_reader p) ib"
    using Reader_pop_error Reader_pop_closed by (auto simp: later_def rbind_Inr_iff split: if_splits)
  with s' show ?thesis
    by (intro that[of "set_inbound_reader ib p"]) (auto simp: rbind_Inr_iff inbound_reader_def set_inbound_reader_def split: if_splits)
qed

lemma tell_later:
  assumes "f s = Inr s'" and "f \<in> {close_outbound, outbound_error, inbound_error, Inr \<circ> request_abort}" and "mi_tcp s = Some p"
  obtains p' where "mi_tcp s' = Some p'" "later (inbound_reader p) (inbound_reader p')" "mi_inbound_shutdown s' = mi_inbound_shutdown s"
  using assms by (auto simp: close_outbound_def outbound_error_def inbound_error_def request_abort_def the_tcp_def later_def
      inbound_reader_def set_inbound_reader_def set_outbound_writer_def set_error_def)

lemma inbound_as_endpoint: "mi_tcp (me_socket k) = Some p \<Longrightarrow> inbound (as_endpoint k) = inbound_reader p"
  by (simp add: inbound_endpoint)

text \<open>A step of the end \<open>x\<close> that reads nothing from its application and passes nothing on.\<close>

lemma eof_quiet_step:
  assumes "\<forall>y. eof_complete k y" and "mi_tcp (me_socket (k x)) = Some p" and "mi_tcp (me_socket e) = Some p'"
    and "later (inbound_reader p) (inbound_reader p')" and "mi_inbound_shutdown (me_socket e) = mi_inbound_shutdown (me_socket (k x))"
    and "me_to_app e = me_to_app (k x)" and "me_from_app e = me_from_app (k x)"
  shows "\<forall>y. eof_complete (k(x := e)) y"
proof
  fix y
  show "eof_complete (k(x := e)) y"
    using assms eof_step[of k y "k(x := e)"] by (cases "y = x") (simp_all add: inbound_as_endpoint, auto simp: later_def)
qed

lemma both_ends: "P x \<Longrightarrow> P (\<not> x) \<Longrightarrow> \<forall>y. P y"
  by (cases x) (auto simp: all_bool_eq)

lemma from_app_grows:
  assumes "\<And>y. length (me_from_app ((k(x := e)) y)) < 2 ^ 31 - 1" and "length (me_from_app (k x)) \<le> length (me_from_app e)"
  shows "length (me_from_app (k y)) < 2 ^ 31 - 1"
  using assms(1)[of y] assms(2) by (cases "y = x") auto

text \<open>Rule 2 runs only as long as the other end has not seen the end of the stream.\<close>

lemma eof_outbound_step:
  assumes "eof_complete k x" "eof_complete k (\<not> x)"
    and "mi_tcp (me_socket (k x)) = Some p" "mi_tcp (me_socket e) = Some p'" "inbound_reader p' = inbound_reader p"
    and "mi_inbound_shutdown (me_socket e) = mi_inbound_shutdown (me_socket (k x))" "me_to_app e = me_to_app (k x)"
    and opn: "is_closed (inbound (as_endpoint (k (\<not> x)))) \<Longrightarrow> has_error (inbound (as_endpoint (k (\<not> x))))"
  shows "\<forall>y. eof_complete (k(x := e)) y"
proof (rule both_ends[of _ x])
  show "eof_complete (k(x := e)) x" using assms(1,3-7) by (simp add: eof_complete_def inbound_as_endpoint)
  show "eof_complete (k(x := e)) (\<not> x)" using assms(2) opn by (auto simp: eof_complete_def)
qed

text \<open>Rule 3 shuts down when everything has been passed on, and passes nothing on after that.\<close>

lemma eof_inbound_step:
  assumes "eof_complete k x" "eof_complete k (\<not> x)"
    and p: "mi_tcp (me_socket (k x)) = Some p" "mi_tcp (me_socket e) = Some p'" and l: "later (inbound_reader p) (inbound_reader p')"
    and sh: "mi_inbound_shutdown (me_socket e) \<longrightarrow>
      mi_inbound_shutdown (me_socket (k x)) \<or> is_finished (inbound_reader p') \<or> has_error (inbound_reader p')"
    and to: "me_to_app e = me_to_app (k x) @ d" "me_from_app e = me_from_app (k x)"
    and pre: "bs_wf (inbound_reader p')" "\<exists>rest. me_from_app (k (\<not> x)) = me_to_app e @ bs_content (inbound_reader p') @ rest"
      "is_closed (inbound_reader p') \<Longrightarrow> \<not> has_error (inbound_reader p') \<Longrightarrow>
        me_from_app (k (\<not> x)) = me_to_app e @ bs_content (inbound_reader p')"
  shows "\<forall>y. eof_complete (k(x := e)) y"
proof (rule both_ends[of _ x])
  show "eof_complete (k(x := e)) (\<not> x)" using assms(2) to(2) by (simp add: eof_complete_def)
  have "is_closed (inbound_reader p') \<and> me_to_app e = me_from_app (k (\<not> x))"
    if "mi_inbound_shutdown (me_socket e)" and ne: "\<not> has_error (inbound_reader p')"
  proof (cases "mi_inbound_shutdown (me_socket (k x))")
    case True
    then have "is_closed (inbound_reader p)" "me_to_app (k x) = me_from_app (k (\<not> x))"
      using assms(1) ne l p(1) by (auto simp: eof_complete_def inbound_as_endpoint later_def has_error_def)
    then show ?thesis using pre(2) l to(1) by (auto simp: later_def is_closed_def)
  next
    case False
    then have "is_finished (inbound_reader p')" using that sh by simp
    then show ?thesis using pre(1,3) ne by (simp add: is_finished_iff is_closed_def)
  qed
  then show "eof_complete (k(x := e)) x" using p(2) by (simp add: eof_complete_def inbound_as_endpoint)
qed

lemma minnow_run_eof:
  assumes "minnow_run cfg k" and cap: "\<And>x. unat (cfg_recv_capacity (cfg x)) < 2 ^ 63"
  shows "(\<And>x. length (me_from_app (k x)) < 2 ^ 31 - 1) \<Longrightarrow> \<forall>x. eof_complete k x"
  using assms(1)
proof (induction rule: minnow_run.induct)
  case (mr_start td)
  then show ?case by (simp add: eof_complete_def minnow_end_new_def minnow_new_def)
next
  case (mr_receive k seg x ms s)
  have len: "length (me_from_app (k y)) < 2 ^ 31 - 1" for y by (rule from_app_grows[OF mr_receive.prems]) simp
  obtain p where p: "mi_tcp (me_socket (k x)) = Some p" using minnow_run_conn[OF mr_receive.hyps(1)] by (auto simp: me_ok_def)
  show ?case
    by (rule receive_rule_later[OF mr_receive.hyps(3) p], rule eof_quiet_step[OF mr_receive.IH[OF len] p]) simp_all
next
  case (mr_outbound k x outcome ms td s)
  have len: "length (me_from_app (k y)) < 2 ^ 31 - 1" for y by (rule from_app_grows[OF mr_outbound.prems]) simp
  obtain p where p: "mi_tcp (me_socket (k x)) = Some p" using minnow_run_conn[OF mr_outbound.hyps(1)] by (auto simp: me_ok_def)
  have "\<not> mi_outbound_shutdown (me_socket (k x))" using mr_outbound.hyps(2) p by (simp add: outbound_interest_def)
  then have opn: "is_closed (inbound (as_endpoint (k (\<not> x)))) \<Longrightarrow> has_error (inbound (as_endpoint (k (\<not> x))))"
    using minnow_prefix(3)[OF mr_outbound.hyps(1) cap len, of "\<not> x"] by fastforce
  from outbound_rule_later[OF mr_outbound.hyps(3) p] obtain p' where p': "mi_tcp s = Some p'" "inbound_reader p' = inbound_reader p"
    "mi_inbound_shutdown s = mi_inbound_shutdown (me_socket (k x))" by blast
  show ?case
    by (rule eof_outbound_step[OF mr_outbound.IH[OF len, THEN spec] mr_outbound.IH[OF len, THEN spec] p _ p'(2)])
      (use p' opn in simp_all)
next
  case (mr_inbound k outcome shut x td s)
  have len: "length (me_from_app (k y)) < 2 ^ 31 - 1" for y by (rule from_app_grows[OF mr_inbound.prems]) simp
  note pre = minnow_prefix[OF minnow_run.mr_inbound[OF mr_inbound.hyps] cap mr_inbound.prems, of x]
  obtain p where p: "mi_tcp (me_socket (k x)) = Some p" using minnow_run_conn[OF mr_inbound.hyps(1)] by (auto simp: me_ok_def)
  from inbound_rule_later[OF mr_inbound.hyps(3) p] obtain p' where p': "mi_tcp s = Some p'" "later (inbound_reader p) (inbound_reader p')"
    "mi_inbound_shutdown s \<longrightarrow> mi_inbound_shutdown (me_socket (k x)) \<or> is_finished (inbound_reader p') \<or> has_error (inbound_reader p')"
    by blast
  show ?case
    by (rule eof_inbound_step[OF mr_inbound.IH[OF len, THEN spec] mr_inbound.IH[OF len, THEN spec] p])
      (use p' pre(1,2) pre(3)[THEN conjunct1] in \<open>simp_all add: inbound_as_endpoint\<close>)
next
  case (mr_tell k f x s)
  have len: "length (me_from_app (k y)) < 2 ^ 31 - 1" for y by (rule from_app_grows[OF mr_tell.prems]) simp
  obtain p where p: "mi_tcp (me_socket (k x)) = Some p" using minnow_run_conn[OF mr_tell.hyps(1)] by (auto simp: me_ok_def)
  show ?case
    by (rule tell_later[OF mr_tell.hyps(3,2) p], rule eof_quiet_step[OF mr_tell.IH[OF len] p]) simp_all
next
  case (mr_tick k x p t ms p')
  have len: "length (me_from_app (k y)) < 2 ^ 31 - 1" for y by (rule from_app_grows[OF mr_tick.prems]) simp
  show ?case
    using Peer_tick_receiver[OF mr_tick.hyps(3)]
    by (intro eof_quiet_step[where p' = p', OF mr_tick.IH[OF len] mr_tick.hyps(2)]) (simp_all add: inbound_reader_def later_def)
next
  case (mr_push k x p ms p')
  have len: "length (me_from_app (k y)) < 2 ^ 31 - 1" for y by (rule from_app_grows[OF mr_push.prems]) simp
  show ?case
    using Peer_push_receiver[OF mr_push.hyps(3)]
    by (intro eof_quiet_step[where p' = p', OF mr_push.IH[OF len] mr_push.hyps(2)]) (simp_all add: inbound_reader_def later_def)
qed

section \<open>Making and closing a socket\<close>

text \<open>
  \<^verbatim>\<open>socket_pair_helper\<close> and the constructors: the outcomes of \<^verbatim>\<open>socketpair\<close>, and for both ends those of the
  calls that the constructors of the descriptor and of the local socket make.
\<close>

type_synonym so_outcomes = "sockopt \<times> sockopt \<times> sockopt"

fun LocalStreamSocket_of :: "so_outcomes \<Rightarrow> fd_wrapper \<Rightarrow> fd_wrapper result" where
  "LocalStreamSocket_of (so_domain, so_type, so_protocol) w = LocalStreamSocket_new so_domain so_type so_protocol w"

fun socket_pair_helper :: "(int \<times> int) syscall \<Rightarrow> int syscall \<times> so_outcomes \<Rightarrow> int syscall \<times> so_outcomes \<Rightarrow> (fd_wrapper \<times> fd_wrapper) result" where
  "socket_pair_helper (Failed errno) oc0 oc1 = Inl (Unix_Error ''socketpair'' errno)"
| "socket_pair_helper (Returned (fd0, fd1)) (getfl0, so0) (getfl1, so1) =
     rbind (FDWrapper_new fd0 getfl0) (\<lambda>w0.
     rbind (LocalStreamSocket_of so0 w0) (\<lambda>w0.
     rbind (FDWrapper_new fd1 getfl1) (\<lambda>w1.
     rbind (LocalStreamSocket_of so1 w1) (\<lambda>w1. Inr (w0, w1)))))"

text \<open>The owner's end, the end of the TCP thread, and the socket's own state.\<close>

fun TCPMinnowSocket_new :: "so_outcomes \<times> int syscall \<times> (int \<Rightarrow> int syscall) \<Rightarrow> so_outcomes \<times> int syscall \<times> (int \<Rightarrow> int syscall)
    \<Rightarrow> fd_wrapper \<times> fd_wrapper \<Rightarrow> (fd_wrapper \<times> fd_wrapper \<times> minnow) result" where
  "TCPMinnowSocket_new (so0, getfl0, setfl0) (so1, getfl1, setfl1) (w0, w1) =
     rbind (LocalStreamSocket_of so0 w0) (\<lambda>owner.
     rbind (LocalStreamSocket_of so1 w1) (\<lambda>thread_data.
     rbind (FD_set_blocking False getfl1 setfl1 thread_data) (\<lambda>thread_data.
     rbind (FD_set_blocking False getfl0 setfl0 owner) (\<lambda>owner.
     Inr (owner, thread_data, minnow_new)))))"

text \<open>What the owner's thread does before it waits for the other one to end.\<close>

definition wait_until_closed :: "int syscall \<Rightarrow> fd_wrapper \<Rightarrow> fd_wrapper result" where
  "wait_until_closed = Socket_shutdown SHUT_RDWR"

definition TCPMinnowSocket_destroy :: "bool \<Rightarrow> minnow \<Rightarrow> minnow" where
  "TCPMinnowSocket_destroy joinable s = (if joinable then request_abort s else s)"

lemma FD_set_blocking_mode: "FD_set_blocking b getfl setfl w = Inr w' \<Longrightarrow> w' = w\<lparr>fw_non_blocking := \<not> b\<rparr>"
  by (auto simp: FD_set_blocking_def rbind_Inr_iff Let_def)

text \<open>Both ends of the pair are in non-blocking mode, as the event loop needs.\<close>

lemma TCPMinnowSocket_new_nonblocking:
  "TCPMinnowSocket_new oc0 oc1 ws = Inr (owner, thread_data, s) \<Longrightarrow> fw_non_blocking owner \<and> fw_non_blocking thread_data \<and> s = minnow_new"
  by (induction oc0 oc1 ws rule: TCPMinnowSocket_new.induct) (auto simp: rbind_Inr_iff dest!: FD_set_blocking_mode)

text \<open>
  The destructor of a socket whose connection is open sets the abort flag and waits for the thread.
  The thread then ends after the wait it is in: it hands nothing to the adapter that was not handed
  to it by a callback of that wait, so no segment with RST tells the other end.
\<close>

lemma abort_sends_nothing:
  assumes "mi_tcp (the_socket l) \<noteq> None" and "tu_abort tu"
    and "epoll_wait_next_event (minnow_rules ad) (tu_ctl tu) (tu_wait tu) (tu_sockopt tu) TCP_TICK_MS l = Inr (ret, acts, l1)"
    and "tcp_main ad now (tu # turns) shut owner l = Inr (state, owner', l')"
  shows "state = Ended \<and> mi_tcp (the_socket l') = None
    \<and> mw_sent (el_world (el_context l')) = mw_sent (el_world (el_context l1)) \<and> mw_adapter (el_world (el_context l')) = mw_adapter (el_world (el_context l1))"
  using assms
  by (auto simp: tcp_main_def tcp_loop.simps[of _ _ "_ # _"] tcp_turn_def tcp_after_wait_def the_socket_def set_socket_def request_abort_def rbind_Inr_iff)

end
