(* ===== verification/Minnow_System.thy ===== *)
theory Minnow_System
  imports Minnow_Socket
begin

text \<open>
  Two Minnow sockets and everything below them: on each side the event loop of \<^verbatim>\<open>epoll_eventloop.cc\<close> runs
  the rules of the socket over an adapter that puts TCP messages into IPv4 datagrams on a TUN
  device; between them a network that carries datagrams as bytes, loses, repeats, delays and
  reorders them, and mixes in datagrams of others.
\<close>

section \<open>The system\<close>

definition the_world :: "('a, 'k) minnow_loop \<Rightarrow> ('a, 'k) minnow_world" where
  "the_world l = el_world (el_context l)"

definition with_outcomes :: "(nat \<Rightarrow> outcomes) \<Rightarrow> ('a, 'k) minnow_loop \<Rightarrow> ('a, 'k) minnow_loop" where
  "with_outcomes ocs l = l\<lparr>el_context := (el_context l)\<lparr>el_world := (the_world l)\<lparr>mw_outcomes := ocs\<rparr>\<rparr>\<rparr>"

text \<open>
  What a read of the TUN device may bring: the bytes of a datagram that carries a message the other
  end has handed to its adapter, or anything that the adapter does not pass on.
\<close>

definition may_arrive :: "(tun_adapter, 'k) minnow_world \<Rightarrow> fd_adapter \<Rightarrow> bytes syscall \<Rightarrow> bool" where
  "may_arrive other base outcome \<longleftrightarrow>
     (\<exists>m\<in>set (mw_sent other). \<exists>bufs. Tun_datagram m (mw_adapter other) = Inr bufs \<and> outcome = Returned (concat_refs bufs))
     \<or> (\<forall>a seg a'. ta_base a = base \<and> Tun_read outcome a = Inr (seg, a') \<longrightarrow> seg = None)"

definition outcomes_ok :: "(tun_adapter, 'k) minnow_world \<Rightarrow> fd_adapter \<Rightarrow> outcomes \<Rightarrow> bool" where
  "outcomes_ok other base oc \<longleftrightarrow> may_arrive other base (oc_datagram oc) \<and> ssize_ok (oc_write oc)"

text \<open>\<^verbatim>\<open>epoll_ctl\<close> changes nothing but the kernel's state.\<close>

definition ctl_only_kernel :: "('a, 'k) minnow_world epoll_ctl \<Rightarrow> bool" where
  "ctl_only_kernel ctl \<longleftrightarrow> (\<forall>op fd ev w. \<exists>k. snd (ctl op fd ev w) = w\<lparr>mw_kernel := k\<rparr>)"

text \<open>So the registration of the epoll loop (\<open>epoll_registration\<close>) applies to the rules of the socket.\<close>

lemma minnow_rules_blind:
  fixes ctl :: "('a, 'k) minnow_world epoll_ctl"
  assumes "ctl_only_kernel ctl"
  shows "interest_blind (minnow_rules ad) ctl"
  unfolding interest_blind_def
proof (intro allI)
  fix i fd ev op and c :: "('a, 'k) minnow_world el_context"
  from assms obtain k where "snd (ctl op fd ev (el_world c)) = (el_world c)\<lparr>mw_kernel := k\<rparr>" unfolding ctl_only_kernel_def by blast
  then show "bh_interest (minnow_rules ad) i (c\<lparr>el_world := snd (ctl op fd ev (el_world c))\<rparr>) = bh_interest (minnow_rules ad) i c"
    by (simp add: minnow_rules_def)
qed

definition connected :: "(bool \<Rightarrow> address) \<Rightarrow> bool \<Rightarrow> fd_adapter \<Rightarrow> bool" where
  "connected addr x base \<longleftrightarrow> fc_source (fa_cfg base) = addr x \<and> fc_destination (fa_cfg base) = addr (\<not> x) \<and> \<not> fa_listen base"

text \<open>A socket after \<^verbatim>\<open>_initialize_TCP\<close>, with an adapter that is connected.\<close>

definition initialized :: "tcp_config \<Rightarrow> (bool \<Rightarrow> address) \<Rightarrow> bool \<Rightarrow> (tun_adapter, 'k) minnow_world \<Rightarrow> bool" where
  "initialized cfg addr x w \<longleftrightarrow> mw_socket w = minnow_new\<lparr>mi_tcp := Some (TCPPeer_new cfg)\<rparr>
     \<and> connected addr x (ta_base (mw_adapter w)) \<and> mw_from_app w = [] \<and> mw_to_app w = [] \<and> mw_sent w = []"

text \<open>
  The two sockets take turns of their loops in any order; \<open>sr_push\<close> is the push with which \<^verbatim>\<open>connect\<close>
  starts.
\<close>

inductive stack_run :: "tun_adapter adapter \<Rightarrow> (bool \<Rightarrow> tcp_config) \<Rightarrow> (bool \<Rightarrow> address) \<Rightarrow> (bool \<Rightarrow> (tun_adapter, 'k) minnow_loop) \<Rightarrow> bool"
  for ad cfg addr where
  sr_start: "(\<And>x. initialized (cfg x) addr x (the_world (s x))) \<Longrightarrow> stack_run ad cfg addr s"
| sr_push: "stack_run ad cfg addr s \<Longrightarrow> mi_tcp (the_socket (s x)) = Some p \<Longrightarrow> Peer_push p = Inr (msgs, p') \<Longrightarrow>
    transmit_all ad ret msgs (set_socket ((the_socket (s x))\<lparr>mi_tcp := Some p'\<rparr>) (s x)) = Inr l \<Longrightarrow>
    stack_run ad cfg addr (s(x := l))"
| sr_turn: "stack_run ad cfg addr s \<Longrightarrow>
    (\<And>n. outcomes_ok (the_world (s (\<not> x))) (ta_base (mw_adapter (the_world (s x)))) (ocs n)) \<Longrightarrow>
    ctl_only_kernel (tu_ctl tu) \<Longrightarrow> tcp_turn ad tu base_time (with_outcomes ocs (s x)) = Inr (state, base_time', l) \<Longrightarrow>
    stack_run ad cfg addr (s(x := l))"

section \<open>The contract of the adapters\<close>

text \<open>
  What the system relies on: an adapter reads what \<open>Tun_read\<close> reads or nothing, and keeps its
  configuration.
\<close>

lemma Tun_read_base:
  assumes "Tun_read outcome a = Inr (seg, a')" and "\<not> fa_listen (ta_base a)"
  shows "ta_base a' = ta_base a"
proof -
  have "unwrap_tcp_in_ip dg b = Inr (m, b') \<Longrightarrow> \<not> fa_listen b \<Longrightarrow> b' = b" for dg b m b'
    by (auto simp: unwrap_tcp_in_ip_def Let_def rbind_Inr_iff split: if_splits)
  with assms show ?thesis by (auto simp: Tun_read_def Let_def rbind_Inr_iff split: if_splits)
qed

lemma Tun_write_base: "Tun_write m ret a = Inr a' \<Longrightarrow> ta_base a' = ta_base a"
  by (auto simp: Tun_write_def rbind_Inr_iff)

locale tun_like =
  fixes ad :: "tun_adapter adapter"
  assumes read_tun: "ad_read ad outcome a = Inr (seg, a') \<Longrightarrow> \<exists>seg'. Tun_read outcome a = Inr (seg', a') \<and> (seg = None \<or> seg = seg')"
    and write_base: "ad_write ad m ret a = Inr a' \<Longrightarrow> ta_base a' = ta_base a"
    and tick_base: "ad_tick ad ms a = Inr a' \<Longrightarrow> ta_base a' = ta_base a"
begin

lemma write_all_base: "adapter_write_all ad ret ms a = Inr a' \<Longrightarrow> ta_base a' = ta_base a"
  by (induction ms arbitrary: a) (auto simp: rbind_Inr_iff dest: write_base)

end

interpretation tun: tun_like tun_ops
  by unfold_locales (auto simp: tun_ops_def FdAdapter_tick_def dest: Tun_write_base)

interpretation lossy: tun_like "lossy_ops rand_dn rand_up" for rand_dn rand_up
  by unfold_locales
    (auto simp: lossy_ops_def tun_ops_def Lossy_read_def Lossy_write_def FdAdapter_tick_def rbind_Inr_iff
      dest: Tun_write_base split: if_splits)

section \<open>A turn is a run of the rules\<close>

text \<open>What a peer sends fits into a datagram.\<close>

lemma sent_payload_small:
  assumes "minnow_run cfg k" and "\<And>x. unat (cfg_recv_capacity (cfg x)) < 2 ^ 63"
    and "\<And>x. length (me_from_app (k x)) < 2 ^ 31 - 1" and "m \<in> set (me_sent (k x))"
  shows "length (sm_payload (ref_get (msg_sender m))) \<le> 16384"
proof -
  let ?c = "\<lambda>x. as_endpoint (k x)"
  have "in_bounds ?c" using assms(3) by (simp add: in_bounds_def as_endpoint_def)
  then have "conn_inv cfg ?c" using conn_run_inv minnow_run_conn[OF assms(1)] assms(2) by blast
  from conn_inv_halves(1)[OF this, of x] assms(4)
  have "\<exists>n. peer_seg (me_from_app (k x)) (ts_isn (tp_sender (ep_peer (as_endpoint (k x))))) n (ref_get (msg_sender m))"
    by (auto simp: tp_out_def as_endpoint_def)
  then show ?thesis by (auto simp: peer_seg_def blank_def seg_at_def MAX_PAYLOAD_SIZE_def)
qed

definition end_of :: "('a, 'k) minnow_context \<Rightarrow> minnow_end" where
  "end_of c = \<lparr>me_socket = mw_socket (el_world c), me_thread_data = el_fds c thread_data_fd,
     me_from_app = mw_from_app (el_world c), me_to_app = mw_to_app (el_world c), me_sent = mw_sent (el_world c)\<rparr>"

abbreviation byte_limit :: nat where
  "byte_limit \<equiv> 2 ^ 31 - 1"

text \<open>
  What stays true during a turn of the end \<open>x\<close>, while the other end stays as it is in \<open>k\<close>: the adapter's
  configuration and the outcomes are fixed, and, as long as the streams are below the limit, the
  ends form a run of the rules.
\<close>

definition turning :: "(bool \<Rightarrow> tcp_config) \<Rightarrow> (bool \<Rightarrow> minnow_end) \<Rightarrow> bool \<Rightarrow> fd_adapter \<Rightarrow> (nat \<Rightarrow> outcomes)
    \<Rightarrow> (tun_adapter, 'k) minnow_context \<Rightarrow> bool" where
  "turning cfg k x base ocs c \<longleftrightarrow> ta_base (mw_adapter (el_world c)) = base \<and> mw_outcomes (el_world c) = ocs
     \<and> (length (mw_from_app (el_world c)) < byte_limit \<and> length (me_from_app (k (\<not> x))) < byte_limit
          \<longrightarrow> minnow_run cfg (k(x := end_of c)))"

lemma turningI:
  assumes "turning cfg k x base ocs c" and "ta_base (mw_adapter (el_world c')) = base" and "mw_outcomes (el_world c') = ocs"
    and "length (mw_from_app (el_world c)) \<le> length (mw_from_app (el_world c'))"
    and "length (mw_from_app (el_world c)) < byte_limit \<Longrightarrow> length (me_from_app (k (\<not> x))) < byte_limit \<Longrightarrow>
      minnow_run cfg (k(x := end_of c)) \<Longrightarrow> minnow_run cfg (k(x := end_of c'))"
  shows "turning cfg k x base ocs c'"
  using assms by (auto simp: turning_def)

lemma arriving_message:
  fixes other :: "(tun_adapter, 'k) minnow_world"
  assumes "may_arrive other base outcome" and "Tun_read outcome a = Inr (seg, a')" and "ta_base a = base"
    and "connected addr x base" and "connected addr (\<not> x) (ta_base (mw_adapter other))" and "\<And>x. is_ipv4 (addr x)"
    and "\<And>m. m \<in> set (mw_sent other) \<Longrightarrow> length (sm_payload (ref_get (msg_sender m))) \<le> 16384"
  shows "seg = None \<or> (\<exists>m\<in>set (mw_sent other). seg = Some (on_wire m))"
proof -
  from assms(1) consider m bufs where "m \<in> set (mw_sent other)" "Tun_datagram m (mw_adapter other) = Inr bufs" "outcome = Returned (concat_refs bufs)"
    | "\<forall>a seg a'. ta_base a = base \<and> Tun_read outcome a = Inr (seg, a') \<longrightarrow> seg = None"
    by (auto simp: may_arrive_def)
  then show ?thesis
  proof cases
    case (1 m bufs)
    then have "Tun_read outcome a = Inr (Some (on_wire m), a\<lparr>ta_tun := register_read (ta_tun a)\<rparr>)"
      using Tun_roundtrip[of "addr (\<not> x)" "addr x" "mw_adapter other" a m] assms(3-7) by (auto simp: connected_def)
    with assms(2) 1(1) show ?thesis by auto
  next
    case 2
    with assms(2,3) show ?thesis by blast
  qed
qed

context tun_like
begin

lemma callback_turning:
  assumes t: "turning cfg k x base ocs c" and i: "bh_interest (minnow_rules ad) i c" and cb: "minnow_callback ad i c = Inr c'"
    and con: "connected addr x base" "connected addr (\<not> x) (ta_base (mw_adapter other))" "\<And>x. is_ipv4 (addr x)"
    and oc: "\<And>n. outcomes_ok other base (ocs n)"
    and cap: "\<And>x. unat (cfg_recv_capacity (cfg x)) < 2 ^ 63"
    and other: "me_sent (k (\<not> x)) = mw_sent other"
  shows "turning cfg k x base ocs c'"
proof -
  let ?w = "el_world c" and ?td = "el_fds c thread_data_fd"
  define o1 where "o1 = ocs (mw_calls ?w)"
  have base: "ta_base (mw_adapter ?w) = base" and ocs: "mw_outcomes ?w = ocs" using t by (auto simp: turning_def)
  have o1: "may_arrive other base (oc_datagram o1)" "ssize_ok (oc_write o1)" using oc by (simp_all add: o1_def outcomes_ok_def)
  consider (rc) "i = 0" | (ob) "i = 1" | (ib) "i \<noteq> 0" "i \<noteq> 1" by blast
  then show ?thesis
  proof cases
    case rc
    from cb rc obtain seg a msgs s a1 where r: "ad_read ad (oc_datagram o1) (mw_adapter ?w) = Inr (seg, a)"
      "receive_rule seg ?td (mw_socket ?w) = Inr (msgs, s)" "adapter_write_all ad (oc_send o1) msgs a = Inr a1"
      and c': "c' = store ad (?w\<lparr>mw_socket := s, mw_adapter := a1, mw_sent := mw_sent ?w @ msgs\<rparr>) ?td c"
      by (auto simp: minnow_callback_def Let_def rbind_Inr_iff o1_def ocs)
    from read_tun[OF r(1)] obtain seg' where tr: "Tun_read (oc_datagram o1) (mw_adapter ?w) = Inr (seg', a)" "seg = None \<or> seg = seg'" by blast
    have "ta_base a1 = base" using write_all_base[OF r(3)] Tun_read_base[OF tr(1)] con(1) base by (simp add: connected_def)
    moreover have "minnow_run cfg (k(x := end_of c'))"
      if b: "length (mw_from_app ?w) < byte_limit" "length (me_from_app (k (\<not> x))) < byte_limit" and run: "minnow_run cfg (k(x := end_of c))"
    proof -
      have all: "length (me_from_app ((k(x := end_of c)) y)) < byte_limit" for y
        using b by (cases "y = x") (auto simp: end_of_def)
      have "length (sm_payload (ref_get (msg_sender m))) \<le> 16384" if "m \<in> set (mw_sent other)" for m
        using sent_payload_small[OF run cap all, of m "\<not> x"] that other by simp
      then have "seg' = None \<or> (\<exists>m\<in>set (mw_sent other). seg' = Some (on_wire m))"
        by (rule arriving_message[OF o1(1) tr(1) base con(1,2,3)])
      then have "seg = None \<or> (\<exists>m\<in>set (me_sent ((k(x := end_of c)) (\<not> x))). seg = Some (on_wire m))"
        using tr(2) other by auto
      from mr_receive[where k = "k(x := end_of c)" and x = x, OF run this, of msgs s] r(2) show ?thesis
        by (simp add: end_of_def c' store_def thread_data_fd_def adapter_fd_def)
    qed
    ultimately show ?thesis by (intro turningI[OF t]) (simp_all add: c' store_def ocs)
  next
    case ob
    from cb ob obtain msgs td s a1 where r: "outbound_rule (oc_read o1) ?td (mw_socket ?w) = Inr (msgs, td, s)"
      "adapter_write_all ad (oc_send o1) msgs (mw_adapter ?w) = Inr a1"
      and c': "c' = store ad (?w\<lparr>mw_socket := s, mw_adapter := a1, mw_sent := mw_sent ?w @ msgs,
        mw_from_app := mw_from_app ?w @ given (oc_read o1) (mw_socket ?w)\<rparr>) td c"
      by (auto simp: minnow_callback_def Let_def rbind_Inr_iff o1_def ocs)
    have "outbound_interest (mw_socket ?w)" using i ob by (simp add: minnow_rules_def)
    then have "minnow_run cfg (k(x := end_of c'))" if "minnow_run cfg (k(x := end_of c))"
      using mr_outbound[OF that, of x "oc_read o1" msgs td s] r(1)
      by (simp add: end_of_def c' store_def thread_data_fd_def adapter_fd_def)
    moreover have "ta_base a1 = base" using write_all_base[OF r(2)] base by simp
    ultimately show ?thesis by (intro turningI[OF t]) (simp_all add: c' store_def ocs)
  next
    case ib
    from cb ib obtain td s where r: "inbound_rule (oc_write o1) (oc_shutdown o1) ?td (mw_socket ?w) = Inr (td, s)"
      and c': "c' = store ad (?w\<lparr>mw_socket := s, mw_to_app := mw_to_app ?w @ taken (oc_write o1) (mw_socket ?w)\<rparr>) td c"
      by (auto simp: minnow_callback_def Let_def rbind_Inr_iff o1_def ocs)
    have "minnow_run cfg (k(x := end_of c'))" if "minnow_run cfg (k(x := end_of c))"
      using mr_inbound[OF that o1(2), of "oc_shutdown o1" x td s] r
      by (simp add: end_of_def c' store_def thread_data_fd_def adapter_fd_def)
    then show ?thesis by (intro turningI[OF t]) (simp_all add: c' store_def ocs base)
  qed
qed

end

lemma end_of_socket: "end_of (c\<lparr>el_world := (el_world c)\<lparr>mw_socket := s\<rparr>\<rparr>) = (end_of c)\<lparr>me_socket := s\<rparr>"
  by (simp add: end_of_def)

lemma on_socket_turning:
  assumes "turning cfg k x base ocs c" and "on_socket f c = Inr c'" and "f \<in> {close_outbound, outbound_error, inbound_error, Inr \<circ> request_abort}"
  shows "turning cfg k x base ocs c'"
proof -
  from assms(2) obtain s where f: "f (mw_socket (el_world c)) = Inr s" and c': "c' = c\<lparr>el_world := (el_world c)\<lparr>mw_socket := s\<rparr>\<rparr>"
    by (auto simp: on_socket_def rbind_Inr_iff)
  have "minnow_run cfg (k(x := end_of c'))" if "minnow_run cfg (k(x := end_of c))"
    using mr_tell[OF that assms(3), of x s] f by (simp add: c' end_of_socket) (simp add: end_of_def)
  then show ?thesis
    by (intro turningI[OF assms(1)]) (use assms(1) in \<open>auto simp: c' turning_def\<close>)
qed

text \<open>Handing messages to the adapter outside of the rules: what \<^verbatim>\<open>push\<close> and \<^verbatim>\<open>tick\<close> send.\<close>

lemma transmit_all_context:
  assumes "transmit_all ad ret msgs l = Inr l'"
  obtains a where "adapter_write_all ad ret msgs (mw_adapter (el_world (el_context l))) = Inr a"
    and "el_context l' = (el_context l)\<lparr>el_world := (el_world (el_context l))\<lparr>mw_adapter := a, mw_sent := mw_sent (el_world (el_context l)) @ msgs\<rparr>,
      el_fds := (el_fds (el_context l))(adapter_fd := ad_fd ad a)\<rparr>"
  using assms by (auto simp: transmit_all_def rbind_Inr_iff log_sent_def set_adapter_def)

context tun_like
begin

lemma send_turning:
  assumes t: "turning cfg k x base ocs (el_context l)" and p: "mi_tcp (the_socket l) = Some p"
    and r: "Peer_push p = Inr (msgs, p') \<or> Peer_tick ms p = (msgs, p')"
    and tr: "transmit_all ad ret msgs (set_socket ((the_socket l)\<lparr>mi_tcp := Some p'\<rparr>) l) = Inr l'"
  shows "turning cfg k x base ocs (el_context l')"
proof -
  let ?w = "el_world (el_context l)"
  from tr obtain a where a: "adapter_write_all ad ret msgs (mw_adapter ?w) = Inr a"
    and c: "el_world (el_context l') = ?w\<lparr>mw_socket := (mw_socket ?w)\<lparr>mi_tcp := Some p'\<rparr>, mw_adapter := a, mw_sent := mw_sent ?w @ msgs\<rparr>"
      "el_fds (el_context l') thread_data_fd = el_fds (el_context l) thread_data_fd"
    by (rule transmit_all_context) (auto simp: set_socket_def the_socket_def thread_data_fd_def adapter_fd_def)
  have p': "mi_tcp (me_socket ((k(x := end_of (el_context l))) x)) = Some p" using p by (simp add: end_of_def the_socket_def)
  have "minnow_run cfg (k(x := end_of (el_context l')))" if run: "minnow_run cfg (k(x := end_of (el_context l)))"
    using mr_push[where k = "k(x := end_of (el_context l))" and x = x, OF run p', of msgs p']
      mr_tick[where k = "k(x := end_of (el_context l))" and x = x, OF run p', of ms msgs p'] r
    by (auto simp: end_of_def c)
  then show ?thesis
    using t write_all_base[OF a] by (intro turningI[OF t]) (auto simp: c turning_def)
qed

lemma turn_turning:
  fixes l :: "(tun_adapter, 'k) minnow_loop" and other :: "(tun_adapter, 'k) minnow_world"
  assumes t: "turning cfg k x base ocs (el_context l)" and tt: "tcp_turn ad tu base_time l = Inr (state, base_time', l')"
    and con: "connected addr x base" "connected addr (\<not> x) (ta_base (mw_adapter other))" "\<And>x. is_ipv4 (addr x)"
    and oc: "\<And>n. outcomes_ok other base (ocs n)" and ctl: "ctl_only_kernel (tu_ctl tu)"
    and cap: "\<And>x. unat (cfg_recv_capacity (cfg x)) < 2 ^ 63"
    and other: "me_sent (k (\<not> x)) = mw_sent other"
  shows "turning cfg k x base ocs (el_context l')"
proof -
  let ?P = "turning cfg k x base ocs :: (tun_adapter, 'k) minnow_context \<Rightarrow> bool"
  have keeps: "round_keeps (minnow_rules ad) (tu_ctl tu) ?P"
    unfolding round_keeps_def
  proof (intro conjI allI impI, elim conjE)
    fix i l1 l2
    assume "?P (el_context l1)" "bh_interest (minnow_rules ad) i (el_context l1)" "bh_callback (minnow_rules ad) i l1 = Inr l2"
    then show "?P (el_context l2)"
      using callback_turning[where cfg = cfg and k = k and x = x and addr = addr and other = other and ocs = ocs, OF _ _ _ con oc cap other] by (auto simp: minnow_rules_def rbind_Inr_iff)
  next
    fix i c c'
    assume "?P c \<and> bh_cancel (minnow_rules ad) i c = Inr c'"
    then show "?P c'" by (auto simp: minnow_rules_def split: if_splits intro: on_socket_turning)
  next
    fix i c c'
    assume "?P c \<and> bh_error (minnow_rules ad) i c = Inr c'"
    then show "?P c'" by (auto simp: minnow_rules_def split: if_splits intro: on_socket_turning)
  next
    fix op fd ev c
    assume P: "?P c"
    obtain kn where "snd (tu_ctl tu op fd ev (el_world c)) = (el_world c)\<lparr>mw_kernel := kn\<rparr>"
      using ctl unfolding ctl_only_kernel_def by blast
    with P show "?P (c\<lparr>el_world := snd (tu_ctl tu op fd ev (el_world c))\<rparr>)" by (simp add: turning_def end_of_def)
  qed
  obtain ret acts l1 where w: "epoll_wait_next_event (minnow_rules ad) (tu_ctl tu) (tu_wait tu) (tu_sockopt tu) TCP_TICK_MS l = Inr (ret, acts, l1)"
    using tt by (auto simp: tcp_turn_def rbind_Inr_iff)
  define l2 where "l2 = (if tu_abort tu then set_socket (request_abort (the_socket l1)) l1 else l1)"
  have "?P (el_context l1)" using epoll_round_keeps[OF keeps w t] .
  then have P2: "?P (el_context l2)"
    using on_socket_turning[of cfg k x base ocs "el_context l1" "Inr \<circ> request_abort"]
    by (simp add: l2_def on_socket_def set_socket_def the_socket_def)
  from tt w consider "l' = l2" | p msgs p' l3 a where "mi_tcp (the_socket l2) = Some p" "Peer_tick (tu_now tu - base_time) p = (msgs, p')"
      "transmit_all ad (tu_send tu) msgs (set_socket ((the_socket l2)\<lparr>mi_tcp := Some p'\<rparr>) l2) = Inr l3"
      "l' = set_adapter ad a l3" "ad_tick ad (tu_now tu - base_time) (mw_adapter (el_world (el_context l3))) = Inr a"
    by (simp only: tcp_turn_def rbind.simps prod.case l2_def[symmetric])
      (auto simp: tcp_after_wait_def Let_def rbind_Inr_iff split: if_splits option.splits prod.splits)
  then show ?thesis
  proof cases
    case 1
    then show ?thesis using P2 by simp
  next
    case (2 p msgs p' l3 a)
    have "?P (el_context l3)" using send_turning[OF P2 2(1) _ 2(3)] 2(2) by blast
    then show ?thesis
      by (simp add: 2(4) turning_def set_adapter_def tick_base[OF 2(5)] end_of_def adapter_fd_def thread_data_fd_def)
  qed
qed

end

section \<open>End to end\<close>

text \<open>From the turn of one end to the state of both.\<close>

lemma stack_turning:
  assumes "(\<forall>y. length (mw_from_app (the_world (s y))) < byte_limit) \<longrightarrow> minnow_run cfg (\<lambda>y. end_of (el_context (s y)))"
    and "the_world l = (the_world (s x))\<lparr>mw_outcomes := ocs\<rparr>" and "el_fds (el_context l) = el_fds (el_context (s x))"
  shows "turning cfg (\<lambda>y. end_of (el_context (s y))) x (ta_base (mw_adapter (the_world (s x)))) ocs (el_context l)"
proof -
  have "end_of (el_context l) = end_of (el_context (s x))" using assms(2,3) by (simp add: end_of_def the_world_def)
  moreover have "(\<forall>y. P y) \<longleftrightarrow> P x \<and> P (\<not> x)" for P by (cases x) (auto simp: all_bool_eq)
  ultimately show ?thesis using assms by (auto simp: turning_def the_world_def end_of_def fun_upd_idem)
qed

lemma turning_stack:
  assumes "turning cfg (\<lambda>y. end_of (el_context (s y))) x (ta_base (mw_adapter (the_world (s x)))) ocs (el_context l)"
    and "\<forall>y. connected addr y (ta_base (mw_adapter (the_world (s y))))" and "s' = s(x := l)"
  shows "(\<forall>y. connected addr y (ta_base (mw_adapter (the_world (s' y)))))
    \<and> ((\<forall>y. length (mw_from_app (the_world (s' y))) < byte_limit) \<longrightarrow> minnow_run cfg (\<lambda>y. end_of (el_context (s' y))))"
proof -
  have "(\<lambda>y. end_of (el_context (s y)))(x := end_of (el_context l)) = (\<lambda>y. end_of (el_context (s' y)))" using assms(3) by auto
  moreover have "length (mw_from_app (the_world (s' x))) = length (mw_from_app (el_world (el_context l)))"
    "length (mw_from_app (the_world (s' (\<not> x)))) = length (me_from_app (end_of (el_context (s (\<not> x)))))"
    using assms(3) by (simp_all add: the_world_def end_of_def)
  ultimately show ?thesis using assms by (auto simp: turning_def the_world_def)
qed

context tun_like
begin

lemma stack_run_minnow_run:
  fixes s :: "bool \<Rightarrow> (tun_adapter, 'k) minnow_loop"
  assumes "stack_run ad cfg addr s" and ip: "\<And>x. is_ipv4 (addr x)" and cap: "\<And>x. unat (cfg_recv_capacity (cfg x)) < 2 ^ 63"
  shows "(\<forall>x. connected addr x (ta_base (mw_adapter (the_world (s x)))))
    \<and> ((\<forall>x. length (mw_from_app (the_world (s x))) < byte_limit) \<longrightarrow> minnow_run cfg (\<lambda>x. end_of (el_context (s x))))"
  using assms(1)
proof induction
  case (sr_start s)
  have "(\<lambda>x. end_of (el_context (s x))) = (\<lambda>x. minnow_end_new (cfg x) (el_fds (el_context (s x)) thread_data_fd))"
    using sr_start by (auto simp: end_of_def minnow_end_new_def initialized_def the_world_def)
  then show ?case using sr_start mr_start[of cfg "\<lambda>x. el_fds (el_context (s x)) thread_data_fd"] by (auto simp: initialized_def)
next
  case (sr_push s x p msgs p' ret l)
  have "turning cfg (\<lambda>y. end_of (el_context (s y))) x (ta_base (mw_adapter (the_world (s x)))) (mw_outcomes (the_world (s x))) (el_context (s x))"
    using sr_push.IH by (intro stack_turning) simp_all
  from send_turning[OF this sr_push.hyps(2) _ sr_push.hyps(4)] sr_push.hyps(3)
  show ?case using sr_push.IH by (intro turning_stack) auto
next
  case (sr_turn s x ocs tu base_time state base_time' l)
  have "turning cfg (\<lambda>y. end_of (el_context (s y))) x (ta_base (mw_adapter (the_world (s x)))) ocs (el_context (with_outcomes ocs (s x)))"
    using sr_turn.IH by (intro stack_turning) (simp_all add: with_outcomes_def the_world_def)
  from turn_turning[where addr = addr, OF this sr_turn.hyps(4) _ _ ip sr_turn.hyps(2,3) cap] sr_turn.IH
  have "turning cfg (\<lambda>y. end_of (el_context (s y))) x (ta_base (mw_adapter (the_world (s x)))) ocs (el_context l)"
    by (simp add: end_of_def the_world_def)
  then show ?case using sr_turn.IH by (intro turning_stack) auto
qed

end

context tun_like
begin

lemma stack_delivers:
  fixes s :: "bool \<Rightarrow> (tun_adapter, 'k) minnow_loop"
  assumes run: "stack_run ad cfg addr s" and ip: "\<And>x. is_ipv4 (addr x)" and cap: "\<And>x. unat (cfg_recv_capacity (cfg x)) < 2 ^ 63"
    and len: "\<And>x. length (mw_from_app (the_world (s x))) < 2 ^ 31 - 1"
  shows "\<exists>p rest. mi_tcp (the_socket (s (\<not> x))) = Some p
    \<and> mw_from_app (the_world (s x)) = mw_to_app (the_world (s (\<not> x))) @ bs_content (inbound_reader p) @ rest
    \<and> (mi_inbound_shutdown (the_socket (s (\<not> x))) \<and> \<not> has_error (inbound_reader p) \<longrightarrow>
         mw_to_app (the_world (s (\<not> x))) = mw_from_app (the_world (s x)))"
proof -
  let ?k = "\<lambda>x. end_of (el_context (s x))"
  have k: "minnow_run cfg ?k" using stack_run_minnow_run[OF run ip cap] len by simp
  have len': "length (me_from_app (?k y)) < 2 ^ 31 - 1" for y using len[of y] by (simp add: end_of_def the_world_def)
  obtain p where p: "mi_tcp (me_socket (?k (\<not> x))) = Some p" using minnow_run_conn[OF k] by (auto simp: me_ok_def)
  obtain rest where "me_from_app (?k x) = me_to_app (?k (\<not> x)) @ bs_content (inbound_reader p) @ rest"
    using minnow_prefix(2)[OF k cap len', of "\<not> x"] p by (auto simp: inbound_as_endpoint)
  moreover have "eof_complete ?k (\<not> x)" using minnow_run_eof[OF k cap len'] by blast
  ultimately show ?thesis
    using p by (intro exI[of _ p] exI[of _ rest]) (auto simp: eof_complete_def inbound_as_endpoint end_of_def the_world_def the_socket_def)
qed

end

text \<open>
  C1. End-to-end correctness of the whole stack: two sockets whose event loops run their rules over
  TUN devices (with or without simulated loss), and a network that carries IPv4 datagrams as bytes
  and loses, repeats, delays and reorders them.  Whatever the system calls of each turn return, the
  bytes a socket has passed to its application, followed by those still waiting in its inbound
  stream, are a prefix of the bytes the other socket has read from its application; and when the
  application sees the end of the stream without an error, it has got every byte.
\<close>

theorem stack_end_to_end:
  fixes s :: "bool \<Rightarrow> (tun_adapter, 'k) minnow_loop"
  assumes "stack_run ad cfg addr s" and "ad = tun_ops \<or> (\<exists>rand_dn rand_up. ad = lossy_ops rand_dn rand_up)"
    and "\<And>x. is_ipv4 (addr x)" and "\<And>x. unat (cfg_recv_capacity (cfg x)) < 2 ^ 63"
    and "\<And>x. length (mw_from_app (the_world (s x))) < 2 ^ 31 - 1"
  shows "\<exists>p rest. mi_tcp (the_socket (s (\<not> x))) = Some p
    \<and> mw_from_app (the_world (s x)) = mw_to_app (the_world (s (\<not> x))) @ bs_content (inbound_reader p) @ rest
    \<and> (mi_inbound_shutdown (the_socket (s (\<not> x))) \<and> \<not> has_error (inbound_reader p) \<longrightarrow>
         mw_to_app (the_world (s (\<not> x))) = mw_from_app (the_world (s x)))"
  using assms(2) tun.stack_delivers[where cfg = cfg and addr = addr and s = s, OF _ assms(3-5)]
    lossy.stack_delivers[where cfg = cfg and addr = addr and s = s, OF _ assms(3-5)] assms(1) by blast

section \<open>An example run\<close>

text \<open>
  One end connects and, in a turn of its loop, reads a byte from its application; the calls return
  what the functions here say.
\<close>

definition ex_fd :: "int \<Rightarrow> fd_wrapper" where
  "ex_fd n = \<lparr>fw_fd = n, fw_eof = False, fw_closed = False, fw_non_blocking = True, fw_read_count = 0, fw_write_count = 0\<rparr>"

definition ex_addr :: "bool \<Rightarrow> address" where
  "ex_addr x = (if x then Address_of 0x0a000001 1000 else Address_of 0x0a000002 2000)"

definition ex_adapter :: "bool \<Rightarrow> tun_adapter" where
  "ex_adapter x = \<lparr>ta_base = \<lparr>fa_cfg = FdAdapterConfig_new\<lparr>fc_source := ex_addr x, fc_destination := ex_addr (\<not> x)\<rparr>, fa_listen = False\<rparr>,
     ta_tun = ex_fd 3\<rparr>"

definition ex_send :: "tcp_message \<Rightarrow> int syscall" where
  "ex_send m = Returned (40 + int (length (sm_payload (ref_get (msg_sender m)))))"

definition ex_outcomes :: "bytes \<Rightarrow> outcomes" where
  "ex_outcomes data = \<lparr>oc_datagram = Failed EAGAIN, oc_send = ex_send, oc_read = (\<lambda>n. Returned data),
     oc_write = (\<lambda>b. Returned (if b = [] then 0 else 1)), oc_shutdown = Returned 0\<rparr>"

definition ex_world :: "bool \<Rightarrow> (tun_adapter, unit) minnow_world" where
  "ex_world x = \<lparr>mw_socket = minnow_new, mw_adapter = ex_adapter x, mw_outcomes = (\<lambda>n. ex_outcomes []), mw_calls = 0,
     mw_kernel = (), mw_from_app = [], mw_to_app = [], mw_sent = []\<rparr>"

definition ex_start :: "bool \<Rightarrow> (tun_adapter, unit) minnow_loop option" where
  "ex_start x = (case rbind (EpollEventLoop_new (Returned 5) \<lparr>el_fds = (\<lambda>i. if i = adapter_fd then ex_fd 3 else ex_fd 4),
       el_cancel_requested = (\<lambda>i. False), el_world = ex_world x\<rparr>) (initialize_TCP small_config) of Inl _ \<Rightarrow> None | Inr l \<Rightarrow> Some l)"

definition ex_turn :: "int \<Rightarrow> u32 \<Rightarrow> (tun_adapter, unit) turn" where
  "ex_turn fd events = \<lparr>tu_ctl = (\<lambda>op fd ev w. (Returned (), w)), tu_wait = (\<lambda>ms w. Returned [(fd, events)]), tu_sockopt = (\<lambda>fd. Returned (0, 0)),
     tu_abort = False, tu_now = 0, tu_send = ex_send\<rparr>"

definition ex_connect :: "(tun_adapter, unit) minnow_loop \<Rightarrow> (tun_adapter, unit) minnow_loop option" where
  "ex_connect l = Option.bind (mi_tcp (the_socket l)) (\<lambda>p. case Peer_push p of Inl _ \<Rightarrow> None | Inr (msgs, p) \<Rightarrow>
     (case transmit_all tun_ops ex_send msgs (set_socket ((the_socket l)\<lparr>mi_tcp := Some p\<rparr>) l) of Inl _ \<Rightarrow> None | Inr l \<Rightarrow> Some l))"

definition ex_read :: "(tun_adapter, unit) minnow_loop \<Rightarrow> (tun_adapter, unit) minnow_loop option" where
  "ex_read l = (case tcp_turn tun_ops (ex_turn 4 EPOLLIN) 0 (with_outcomes (\<lambda>n. ex_outcomes [5]) l) of
     Inl _ \<Rightarrow> None | Inr (state, t, l) \<Rightarrow> Some l)"

lemma ex_evaluates:
  "case ex_start False of None \<Rightarrow> False | Some b \<Rightarrow> (case ex_start True of None \<Rightarrow> False | Some a \<Rightarrow>
     (case ex_connect a of None \<Rightarrow> False | Some a' \<Rightarrow> (case ex_read a' of None \<Rightarrow> False | Some a'' \<Rightarrow>
       mw_from_app (the_world a'') = [5] \<and> length (mw_sent (the_world a'')) = 1 \<and> mw_from_app (the_world b) = [])))"
  by code_simp

lemma add_rule_named_world: "add_rule_named name fd d l = Inr l' \<Longrightarrow> the_world l' = the_world l"
  by (auto simp: the_world_def add_rule_named_def epoll_add_fd_rule_def add_fd_rule_def new_rule_def add_category_def Let_def rbind_Inr_iff split: if_splits)

lemma initialize_TCP_world:
  "initialize_TCP cfg l = Inr l' \<Longrightarrow> the_world l' = (the_world l)\<lparr>mw_socket := (the_socket l)\<lparr>mi_tcp := Some (TCPPeer_new cfg)\<rparr>\<rparr>"
  by (auto simp: initialize_TCP_def rbind_Inr_iff Let_def dest!: add_rule_named_world)
    (simp add: the_world_def set_socket_def the_socket_def)

lemma ex_start_initialized: "ex_start x = Some l \<Longrightarrow> initialized small_config ex_addr x (the_world l)"
  by (auto simp: ex_start_def EpollEventLoop_new_def EventLoop_new_def event_loop.extend_def rbind_Inr_iff initialized_def connected_def
      ex_world_def ex_adapter_def the_world_def the_socket_def dest!: initialize_TCP_world split: sum.splits)

lemma ex_nothing_arrives: "may_arrive other base (Failed EAGAIN)"
proof -
  have "case parse IPv4Datagram_parse IPv4Datagram_new [] of Inl _ \<Rightarrow> True | Inr (d, ok) \<Rightarrow> \<not> ok"
    by code_simp
  then show ?thesis
    by (auto simp: may_arrive_def Tun_read_def rbind_Inr_iff Let_def split: if_splits)
qed

lemma ex_stack_run:
  assumes "ex_start True = Some a" and "ex_start False = Some b" and "ex_connect a = Some a'" and "ex_read a' = Some a''"
  shows "stack_run tun_ops (\<lambda>x. small_config) ex_addr (\<lambda>x. if x then a'' else b)"
proof -
  let ?s = "\<lambda>x. if x then a else b"
  have "initialized small_config ex_addr x (the_world (?s x))" for x
    using ex_start_initialized assms(1,2) by (cases x) auto
  then have s0: "stack_run tun_ops (\<lambda>x. small_config) ex_addr ?s" by (rule sr_start)
  from assms(3) obtain p where p: "mi_tcp (the_socket a) = Some p" by (auto simp: ex_connect_def bind_eq_Some_conv)
  then obtain msgs p' where pu: "Peer_push p = Inr (msgs, p')"
    using assms(3) by (cases "Peer_push p") (auto simp: ex_connect_def)
  have "transmit_all tun_ops ex_send msgs (set_socket ((the_socket a)\<lparr>mi_tcp := Some p'\<rparr>) a) = Inr a'"
    using assms(3) p pu by (auto simp: ex_connect_def split: sum.splits)
  with p pu have s1: "stack_run tun_ops (\<lambda>x. small_config) ex_addr (?s(True := a'))" by (intro sr_push[OF s0]) simp_all
  have ok: "outcomes_ok other base (ex_outcomes [5])" for other :: "(tun_adapter, unit) minnow_world" and base
    by (auto simp: outcomes_ok_def ex_outcomes_def ex_nothing_arrives ssize_ok_def)
  have ctl: "ctl_only_kernel (tu_ctl (ex_turn 4 EPOLLIN))"
    by (simp add: ctl_only_kernel_def ex_turn_def)
  from assms(4) obtain state t where "tcp_turn tun_ops (ex_turn 4 EPOLLIN) 0 (with_outcomes (\<lambda>n. ex_outcomes [5]) a') = Inr (state, t, a'')"
    by (auto simp: ex_read_def split: sum.splits prod.splits)
  then have "stack_run tun_ops (\<lambda>x. small_config) ex_addr (?s(True := a', True := a''))"
    by (intro sr_turn[OF s1, where ocs = "\<lambda>n. ex_outcomes [5]", OF ok ctl]) simp
  moreover have "?s(True := a', True := a'') = (\<lambda>x. if x then a'' else b)" by auto
  ultimately show ?thesis by simp
qed

theorem stack_end_to_end_witness:
  "\<exists>s :: bool \<Rightarrow> (tun_adapter, unit) minnow_loop. stack_run tun_ops (\<lambda>x. small_config) ex_addr s \<and> mw_from_app (the_world (s True)) = [5]
     \<and> (\<exists>p rest. mi_tcp (the_socket (s False)) = Some p \<and> [5] = mw_to_app (the_world (s False)) @ bs_content (inbound_reader p) @ rest)"
proof -
  from ex_evaluates obtain a b a' a'' where a: "ex_start True = Some a" "ex_start False = Some b" "ex_connect a = Some a'" "ex_read a' = Some a''"
    and w: "mw_from_app (the_world a'') = [5]" "mw_from_app (the_world b) = []"
    by (auto split: option.splits)
  let ?s = "\<lambda>x. if x then a'' else b"
  have run: "stack_run tun_ops (\<lambda>x. small_config) ex_addr ?s" using ex_stack_run[OF a] .
  have "length (mw_from_app (the_world (?s x))) < 2 ^ 31 - 1" "is_ipv4 (ex_addr x)" for x
    using w by (cases x; simp add: ex_addr_def)+
  then have "\<exists>p rest. mi_tcp (the_socket (?s (\<not> True))) = Some p
      \<and> mw_from_app (the_world (?s True)) = mw_to_app (the_world (?s (\<not> True))) @ bs_content (inbound_reader p) @ rest"
    using stack_end_to_end[OF run, of True] by (simp add: small_config_def) blast
  then show ?thesis using run w(1) by (intro exI[of _ ?s]) auto
qed

end
