(* ===== verification/Demo_Protocol.thy ===== *)
theory Demo_Protocol
  imports Socket Parser
begin

text \<open>
  The demonstration server and client of \<^verbatim>\<open>src/demo\<close>: the framing of messages (\<^verbatim>\<open>protocol.hh\<close>), the
  replies (\<^verbatim>\<open>server_handler.hh\<close>), what a worker of the blocking server does with a connection
  (\<^verbatim>\<open>serve_client\<close> of \<^verbatim>\<open>server.cpp\<close>) and how the client sends and receives (\<^verbatim>\<open>client.cpp\<close>).  Sizes are
  64-bit, as \<^verbatim>\<open>size_t\<close> is; output to \<^verbatim>\<open>cout\<close> and \<^verbatim>\<open>cerr\<close> is left out.
\<close>

section \<open>Framing\<close>

definition kMaxMessageSize :: u32 where
  "kMaxMessageSize = 1024 * 1024"

text \<open>A value of the enumeration can be any number of its underlying type.\<close>

type_synonym message_type = u32

definition MT_Echo :: message_type where
  "MT_Echo = 1"

definition MT_Time :: message_type where
  "MT_Time = 2"

definition MT_Quit :: message_type where
  "MT_Quit = 3"

definition MT_Error :: message_type where
  "MT_Error = 999"

record message =
  dm_type :: message_type
  dm_body :: bytes

definition Message_new :: message where
  "Message_new = \<lparr>dm_type = 0, dm_body = []\<rparr>"

datatype parse_result = Parse_Ok | NeedMore | Invalid

definition encode_message :: "message \<Rightarrow> bytes" where
  "encode_message msg =
     (if size64 (dm_body msg) > ucast kMaxMessageSize then []
      else int_bytes (dm_type msg) @ int_bytes (of_nat (length (dm_body msg)) :: u32) @ dm_body msg)"

definition frame_header_size :: u64 where
  "frame_header_size = 8"

definition try_parse_message :: "bytes \<Rightarrow> message \<Rightarrow> parse_result \<times> bytes \<times> message" where
  "try_parse_message buffer msg =
     (if size64 buffer < frame_header_size then (NeedMore, buffer, msg)
      else
        let type = be_value (take 4 buffer) 0 :: u32;
            len = be_value (take 4 (drop 4 buffer)) 0 :: u32
        in if len > kMaxMessageSize then (Invalid, buffer, msg)
           else if size64 buffer < frame_header_size + ucast len then (NeedMore, buffer, msg)
           else (Parse_Ok, drop (unat (frame_header_size + ucast len)) buffer,
                 \<lparr>dm_type = type, dm_body = take (unat len) (drop (unat frame_header_size) buffer)\<rparr>))"

section \<open>Replies\<close>

text \<open>
  The text of the current time is a parameter; \<open>ascii\<close> turns the literals of the source into bytes.
\<close>

definition ascii :: "string \<Rightarrow> bytes" where
  "ascii s = map (\<lambda>c. of_char c) s"

definition handle_message :: "bytes \<Rightarrow> message \<Rightarrow> message" where
  "handle_message ctime msg =
     (if dm_type msg = MT_Echo then \<lparr>dm_type = MT_Echo, dm_body = dm_body msg\<rparr>
      else if dm_type msg = MT_Time then \<lparr>dm_type = MT_Time, dm_body = ctime\<rparr>
      else if dm_type msg = MT_Quit then \<lparr>dm_type = MT_Quit, dm_body = ascii ''bye''\<rparr>
      else \<lparr>dm_type = MT_Error, dm_body = ascii ''unknown message type''\<rparr>)"

text \<open>
  The loop that takes messages off the read buffer and appends the replies to the write buffer: the
  two buffers, the message variable, whether a message told the server to quit, and how many messages
  have been handled; the \<open>n\<close>-th reply is made at a time whose text is \<open>ctime n\<close>.
\<close>

record conn_buffers =
  cb_read_buffer :: bytes
  cb_write_buffer :: bytes
  cb_closing :: bool
  cb_handled :: nat

definition ConnBuffers_new :: conn_buffers where
  "ConnBuffers_new = \<lparr>cb_read_buffer = [], cb_write_buffer = [], cb_closing = False, cb_handled = 0\<rparr>"

lemma unat_frame_size:
  assumes "len \<le> (0x100000 :: u32)"
  shows "unat (8 + ucast len :: u64) = 8 + unat len"
proof -
  have "unat len \<le> 1048576" using assms by (simp add: word_le_nat_alt)
  moreover from this have "unat (ucast len :: u64) = unat len" by (simp add: unsigned_ucast_eq take_bit_nat_eq_self)
  ultimately show ?thesis using unat_add_u64[of 8 "ucast len"] by simp
qed

lemma try_parse_shorter:
  assumes "try_parse_message buffer msg = (Parse_Ok, buffer', msg')"
  shows "length buffer' < length buffer"
proof -
  let ?len = "be_value (take 4 (drop 4 buffer)) 0 :: u32"
  have b: "\<not> size64 buffer < 8" "buffer' = drop (unat (8 + ucast ?len :: u64)) buffer" "?len \<le> 0x100000"
    using assms by (auto simp: try_parse_message_def Let_def frame_header_size_def kMaxMessageSize_def split: if_splits)
  then have "buffer \<noteq> []" by (auto simp: size64_def)
  moreover have "unat (8 + ucast ?len :: u64) = 8 + unat ?len" using unat_frame_size[OF b(3)] .
  ultimately show ?thesis using b(2) by simp
qed

function reply_loop :: "(nat \<Rightarrow> bytes) \<Rightarrow> message \<Rightarrow> conn_buffers \<Rightarrow> parse_result \<times> conn_buffers" where
  "reply_loop ctime msg b =
     (case try_parse_message (cb_read_buffer b) msg of
        (Parse_Ok, read_buffer, msg) \<Rightarrow>
          let reply = handle_message (ctime (cb_handled b)) msg;
              b = b\<lparr>cb_read_buffer := read_buffer, cb_write_buffer := cb_write_buffer b @ encode_message reply,
                    cb_handled := cb_handled b + 1\<rparr>
          in if dm_type msg = MT_Quit then (Parse_Ok, b\<lparr>cb_closing := True\<rparr>) else reply_loop ctime msg b
      | (r, read_buffer, msg) \<Rightarrow> (r, b\<lparr>cb_read_buffer := read_buffer\<rparr>))"
  by pat_completeness auto
termination
  by (relation "measure (\<lambda>(ctime, msg, b). length (cb_read_buffer b))") (auto dest!: try_parse_shorter[OF sym])

declare reply_loop.simps [simp del]

section \<open>Writing\<close>

text \<open>
  The loop that writes all of a buffer: the outcome of each call as a function of the bytes offered
  to it.  The descriptor's \<^verbatim>\<open>write\<close> throws when nothing is written, before the caller's own check.
  The bytes returned are those that the kernel took, call after call: of the buffer offered to it, the
  first \<open>bytes_written\<close>.  They are no value of the program, which only erases them from its buffer.
\<close>

function write_all :: "(bytes \<Rightarrow> int syscall) \<Rightarrow> bytes \<Rightarrow> fd_wrapper \<Rightarrow> (bytes \<times> fd_wrapper) result" where
  "write_all outcome buffer w =
     (if buffer = [] then Inr ([], w)
      else case FD_write buffer (outcome buffer) w of
             Inl e \<Rightarrow> Inl e
           | Inr (bytes_written, w) \<Rightarrow>
               let n = of_int bytes_written :: u64
               in if n = 0 then Inl (Runtime_Error ''write returned 0 on blocking socket'')
                  else rbind (write_all outcome (drop (unat n) buffer) w) (\<lambda>(taken, w).
                         Inr (take (nat bytes_written) buffer @ taken, w)))"
  by pat_completeness auto
termination
  by (relation "measure (\<lambda>(outcome, buffer, w). length buffer)") (auto simp: unat_gt_0)

declare write_all.simps [simp del]

section \<open>The blocking server\<close>

text \<open>
  One run of the loop in \<^verbatim>\<open>serve_client\<close>, with what the read brings and what the writes return; \<open>sv_sent\<close>
  records the bytes that the kernel has taken.  An exception ends the connection; \<^verbatim>\<open>serve_client\<close> catches it.
\<close>

record serve_turn =
  st_read :: "bytes syscall"
  st_write :: "bytes \<Rightarrow> int syscall"

record serving =
  sv_socket :: fd_wrapper
  sv_buffers :: conn_buffers
  sv_sent :: bytes

datatype serve_state = Serving | Disconnected | Client_Error cpp_error

definition serve_once :: "(nat \<Rightarrow> bytes) \<Rightarrow> string \<Rightarrow> serve_turn \<Rightarrow> serving \<Rightarrow> (serve_state \<times> serving) result" where
  "serve_once ctime peer t s =
     rbind (FD_read [] (st_read t) (sv_socket s)) (\<lambda>(chunk, w).
     if chunk = [] then Inr (if fw_eof w then Disconnected else Serving, s\<lparr>sv_socket := w\<rparr>)
     else
       let b = (sv_buffers s)\<lparr>cb_read_buffer := cb_read_buffer (sv_buffers s) @ chunk\<rparr>;
           (r, b) = reply_loop ctime Message_new b
       in if r = Invalid then Inl (Runtime_Error (''malformed frame from '' @ peer))
          else rbind (write_all (st_write t) (cb_write_buffer b) w) (\<lambda>(taken, w).
               Inr (if cb_closing b then Disconnected else Serving,
                    s\<lparr>sv_socket := w, sv_buffers := b\<lparr>cb_write_buffer := []\<rparr>, sv_sent := sv_sent s @ taken\<rparr>)))"

fun serve_loop :: "(nat \<Rightarrow> bytes) \<Rightarrow> string \<Rightarrow> serve_turn list \<Rightarrow> serving \<Rightarrow> (serve_state \<times> serving) result" where
  "serve_loop ctime peer [] s = Inr (Serving, s)"
| "serve_loop ctime peer (t # turns) s =
     rbind (serve_once ctime peer t s) (\<lambda>(state, s).
     if state = Serving then serve_loop ctime peer turns s else Inr (state, s))"

definition serving_new :: "fd_wrapper \<Rightarrow> serving" where
  "serving_new client = \<lparr>sv_socket = client, sv_buffers = ConnBuffers_new, sv_sent = []\<rparr>"

text \<open>\<open>peer\<close> is what \<^verbatim>\<open>client.peer_address().to_string()\<close> gives, outside of the \<^verbatim>\<open>try\<close>.\<close>

definition serve_client :: "(nat \<Rightarrow> bytes) \<Rightarrow> string result \<Rightarrow> serve_turn list \<Rightarrow> fd_wrapper \<Rightarrow> serve_state result" where
  "serve_client ctime peer turns client =
     rbind peer (\<lambda>peer.
     Inr (case serve_loop ctime peer turns (serving_new client) of Inl e \<Rightarrow> Client_Error e | Inr (state, s) \<Rightarrow> state))"

section \<open>The client\<close>

definition send_message :: "(bytes \<Rightarrow> int syscall) \<Rightarrow> message \<Rightarrow> fd_wrapper \<Rightarrow> (bytes \<times> fd_wrapper) result" where
  "send_message outcome msg sock = write_all outcome (encode_message msg) sock"

text \<open>
  \<^verbatim>\<open>recv_one_message\<close> with the outcomes of the reads it may make; those it has not made are returned.
  \<open>Waiting\<close>: the read after them has not returned.
\<close>

datatype recv_state = Got | Gave_Up | Waiting

fun recv_one_message :: "bytes syscall list \<Rightarrow> bytes \<Rightarrow> message \<Rightarrow> fd_wrapper
    \<Rightarrow> (recv_state \<times> bytes syscall list \<times> bytes \<times> message \<times> fd_wrapper) result" where
  "recv_one_message reads read_buffer out sock =
     (case try_parse_message read_buffer out of
        (Parse_Ok, read_buffer, out) \<Rightarrow> Inr (Got, reads, read_buffer, out, sock)
      | (Invalid, read_buffer, out) \<Rightarrow> Inr (Gave_Up, reads, read_buffer, out, sock)
      | (NeedMore, read_buffer, out) \<Rightarrow>
          (case reads of
             [] \<Rightarrow> Inr (Waiting, [], read_buffer, out, sock)
           | outcome # reads \<Rightarrow>
               rbind (FD_read [] outcome sock) (\<lambda>(chunk, sock).
               if chunk = [] then Inr (Gave_Up, reads, read_buffer, out, sock)
               else recv_one_message reads (read_buffer @ chunk) out sock)))"

declare recv_one_message.simps [simp del]

text \<open>The loop over the lines of the standard input: the replies printed, and whether it is still waiting.\<close>

definition client_message :: "bytes \<Rightarrow> message" where
  "client_message line = \<lparr>dm_type = (if line = ascii ''quit'' then MT_Quit else MT_Echo), dm_body = line\<rparr>"

fun client_loop :: "(bytes \<times> (bytes \<Rightarrow> int syscall)) list \<Rightarrow> bytes syscall list \<Rightarrow> bytes \<Rightarrow> fd_wrapper \<Rightarrow> (recv_state \<times> bytes list) result" where
  "client_loop [] reads read_buffer sock = Inr (Gave_Up, [])"
| "client_loop ((line, outcome) # lines) reads read_buffer sock =
     (if line = [] then Inr (Gave_Up, [])
      else
        let out = client_message line in
        rbind (send_message outcome out sock) (\<lambda>(taken, sock).
        rbind (recv_one_message reads read_buffer Message_new sock) (\<lambda>(state, reads, read_buffer, reply, sock).
        if state \<noteq> Got then Inr (state, [])
        else if dm_type out = MT_Quit then Inr (Got, [dm_body reply])
        else rbind (client_loop lines reads read_buffer sock) (\<lambda>(state, replies). Inr (state, dm_body reply # replies)))))"

section \<open>Frames\<close>

definition frame_ok :: "message \<Rightarrow> bool" where
  "frame_ok m \<longleftrightarrow> length (dm_body m) \<le> unat kMaxMessageSize"

lemma encode_frame:
  assumes "frame_ok m"
  shows "encode_message m = int_bytes (dm_type m) @ int_bytes (of_nat (length (dm_body m)) :: u32) @ dm_body m"
proof -
  have "length (dm_body m) \<le> 1048576" using assms by (simp add: frame_ok_def kMaxMessageSize_def)
  then show ?thesis
    by (simp add: encode_message_def size64_def kMaxMessageSize_def word_less_nat_alt unat_of_nat_u64)
qed

lemma length_encode: "frame_ok m \<Longrightarrow> length (encode_message m) = 8 + length (dm_body m)"
  by (simp add: encode_frame length_int_bytes)

lemma unat_body: "frame_ok m \<Longrightarrow> unat (of_nat (length (dm_body m)) :: u32) = length (dm_body m)"
  by (simp add: frame_ok_def kMaxMessageSize_def unat_of_nat take_bit_nat_eq_self)

text \<open>The fields of a frame, as soon as its header has arrived.\<close>

lemma frame_fields:
  assumes "frame_ok m" and "8 \<le> n"
  shows "be_value (take 4 (take n (encode_message m @ r))) 0 = dm_type m"
    and "be_value (take 4 (drop 4 (take n (encode_message m @ r)))) 0 = (of_nat (length (dm_body m)) :: u32)"
proof -
  have l: "length (int_bytes (x :: u32)) = 4" for x by (simp add: length_int_bytes)
  show "be_value (take 4 (take n (encode_message m @ r))) 0 = dm_type m"
    using assms l by (simp add: encode_frame take_add be_value_32 min_absorb1)
  show "be_value (take 4 (drop 4 (take n (encode_message m @ r)))) 0 = (of_nat (length (dm_body m)) :: u32)"
    using assms l by (simp add: encode_frame be_value_32 drop_take min_absorb1)
qed

lemma try_parse_encode:
  assumes "frame_ok m" and "length (encode_message m @ rest) < 2 ^ 64"
  shows "try_parse_message (encode_message m @ rest) old = (Parse_Ok, rest, m)"
proof -
  have l: "length (int_bytes (x :: u32)) = 4" for x by (simp add: length_int_bytes)
  have n: "unat (size64 (encode_message m @ rest)) = 8 + length (dm_body m) + length rest"
    using assms unat_size64[of "encode_message m @ rest"] by (simp add: length_encode)
  let ?len = "of_nat (length (dm_body m)) :: u32"
  have len: "?len \<le> 0x100000" using assms(1) by (simp add: word_le_nat_alt unat_body) (simp add: frame_ok_def kMaxMessageSize_def)
  have f: "unat (8 + ucast ?len :: u64) = 8 + length (dm_body m)" using unat_frame_size[OF len] assms(1) by (simp add: unat_body)
  have "be_value (take 4 (encode_message m @ rest)) 0 = dm_type m" "be_value (take 4 (drop 4 (encode_message m @ rest))) 0 = ?len"
    using frame_fields[OF assms(1), of "length (encode_message m @ rest)" rest] assms(1) by (simp_all add: length_encode)
  then show ?thesis
    using n f len assms(1) l
    by (simp add: try_parse_message_def frame_header_size_def kMaxMessageSize_def Let_def word_less_nat_alt unat_body)
      (use assms(1) in \<open>simp add: encode_frame frame_ok_def kMaxMessageSize_def\<close>)
qed

text \<open>A frame that has not arrived in full.\<close>

definition incomplete :: "bytes \<Rightarrow> bool" where
  "incomplete part \<longleftrightarrow> (\<exists>m rest. frame_ok m \<and> encode_message m = part @ rest \<and> rest \<noteq> [])"

lemma incomplete_Nil [simp]: "incomplete []"
proof -
  have "frame_ok Message_new" by (simp add: frame_ok_def Message_new_def)
  moreover from length_encode[OF this] have "encode_message Message_new \<noteq> []" by auto
  ultimately show ?thesis unfolding incomplete_def by (intro exI[of _ Message_new]) simp
qed

lemma incomplete_short: "incomplete part \<Longrightarrow> length part < 2 ^ 64"
proof -
  assume "incomplete part"
  then obtain m rest where "frame_ok m" "encode_message m = part @ rest" by (auto simp: incomplete_def)
  with length_encode[of m] show ?thesis by (simp add: frame_ok_def kMaxMessageSize_def)
qed

lemma try_parse_incomplete:
  assumes "incomplete part"
  shows "try_parse_message part old = (NeedMore, part, old)"
proof -
  from assms obtain m rest where m: "frame_ok m" "encode_message m = part @ rest" "rest \<noteq> []" by (auto simp: incomplete_def)
  let ?len = "of_nat (length (dm_body m)) :: u32"
  have lb: "length part < 8 + length (dm_body m)" "length (dm_body m) \<le> 1048576"
    using length_encode[OF m(1)] m by (cases rest; simp add: frame_ok_def kMaxMessageSize_def)+
  then have n: "unat (size64 part) = length part" by (simp add: unat_size64)
  have len: "?len \<le> 0x100000" using m(1) lb by (simp add: word_le_nat_alt unat_body)
  have f: "unat (8 + ucast ?len :: u64) = 8 + length (dm_body m)" using unat_frame_size[OF len] m(1) by (simp add: unat_body)
  show ?thesis
  proof (cases "length part < 8")
    case True
    then show ?thesis using n by (simp add: try_parse_message_def frame_header_size_def word_less_nat_alt)
  next
    case False
    have "part = take (length part) (encode_message m @ [])" using m(2) by simp
    then have "be_value (take 4 (drop 4 part)) 0 = ?len"
      using frame_fields(2)[OF m(1), of "length part" "[]"] False by simp
    then show ?thesis
      using n f lb False unat_body[OF m(1)] by (simp add: try_parse_message_def frame_header_size_def kMaxMessageSize_def Let_def word_less_nat_alt)
  qed
qed

section \<open>Answering a stream of messages\<close>

definition replies :: "(nat \<Rightarrow> bytes) \<Rightarrow> nat \<Rightarrow> message list \<Rightarrow> message list" where
  "replies ctime n msgs = map (\<lambda>(i, m). handle_message (ctime i) m) (enumerate n msgs)"

definition stream_of :: "message list \<Rightarrow> bytes" where
  "stream_of msgs = concat (map encode_message msgs)"

lemma stream_of_simps [simp]:
  "stream_of [] = []" "stream_of (m # ms) = encode_message m @ stream_of ms" "stream_of (ms @ ms') = stream_of ms @ stream_of ms'"
  by (simp_all add: stream_of_def)

lemma replies_simps [simp]:
  "replies ctime n [] = []" "replies ctime n (m # ms) = handle_message (ctime n) m # replies ctime (Suc n) ms"
  "replies ctime n (ms @ ms') = replies ctime n ms @ replies ctime (n + length ms) ms'"
  by (simp_all add: replies_def enumerate_append_eq)

lemma reply_loop_stream:
  assumes "\<forall>m\<in>set msgs. frame_ok m \<and> dm_type m \<noteq> MT_Quit" and "incomplete part"
    and "length (stream_of msgs @ part) < 2 ^ 64" and "cb_read_buffer b = stream_of msgs @ part"
  shows "reply_loop ctime msg b = (NeedMore, b\<lparr>cb_read_buffer := part,
    cb_write_buffer := cb_write_buffer b @ stream_of (replies ctime (cb_handled b) msgs), cb_handled := cb_handled b + length msgs\<rparr>)"
  using assms
proof (induction msgs arbitrary: msg b)
  case Nil
  then show ?case by (simp add: reply_loop.simps try_parse_incomplete)
next
  case (Cons m msgs)
  let ?b = "b\<lparr>cb_read_buffer := stream_of msgs @ part, cb_write_buffer := cb_write_buffer b @ encode_message (handle_message (ctime (cb_handled b)) m),
    cb_handled := cb_handled b + 1\<rparr>"
  have "try_parse_message (cb_read_buffer b) msg = (Parse_Ok, stream_of msgs @ part, m)"
    using Cons.prems try_parse_encode[of m "stream_of msgs @ part"] by simp
  then have "reply_loop ctime msg b = reply_loop ctime m ?b"
    using Cons.prems by (subst reply_loop.simps) (simp add: Let_def)
  also have "\<dots> = (NeedMore, ?b\<lparr>cb_read_buffer := part, cb_write_buffer := cb_write_buffer ?b @ stream_of (replies ctime (cb_handled ?b) msgs),
      cb_handled := cb_handled ?b + length msgs\<rparr>)"
    using Cons.prems by (intro Cons.IH) simp_all
  finally show ?case by simp
qed

text \<open>Every prefix of a stream of messages is some messages and a part of the next.\<close>

lemma stream_prefix:
  assumes "stream_of msgs = p @ q" and "\<forall>m\<in>set msgs. frame_ok m"
  shows "\<exists>ms ms' part. msgs = ms @ ms' \<and> p = stream_of ms @ part \<and> incomplete part"
  using assms
proof (induction msgs arbitrary: p)
  case (Cons m msgs)
  show ?case
  proof (cases "length (encode_message m) \<le> length p")
    case True
    then obtain p' where p: "p = encode_message m @ p'" and "stream_of msgs = p' @ q"
      using Cons.prems(1) by (auto simp: append_eq_append_conv2)
    with Cons.IH[of p'] Cons.prems(2) obtain ms ms' part where
      "msgs = ms @ ms'" "p' = stream_of ms @ part" "incomplete part" by auto
    with p show ?thesis by (intro exI[of _ "m # ms"] exI[of _ ms'] exI[of _ part]) simp
  next
    case False
    then obtain r where "encode_message m = p @ r" "r \<noteq> []"
      using Cons.prems(1) by (auto simp: append_eq_append_conv2)
    then have "incomplete p" using Cons.prems(2) by (auto simp: incomplete_def)
    then show ?thesis by (intro exI[of _ "[]"] exI[of _ "m # msgs"] exI[of _ p]) simp
  qed
qed auto

lemma incomplete_no_stream:
  assumes "incomplete (stream_of msgs)" and "\<forall>m\<in>set msgs. frame_ok m"
  shows "msgs = []"
proof (cases msgs)
  case (Cons m ms)
  have "length (stream_of msgs) < 2 ^ 64" using incomplete_short[OF assms(1)] .
  then have "try_parse_message (stream_of msgs) Message_new = (Parse_Ok, stream_of ms, m)"
    using try_parse_encode[of m "stream_of ms"] assms(2) Cons by simp
  then show ?thesis using try_parse_incomplete[OF assms(1)] by simp
qed simp

section \<open>Partial writes\<close>

text \<open>What the kernel takes of a buffer in the calls of the loop.\<close>

definition takes_some :: "(bytes \<Rightarrow> int syscall) \<Rightarrow> bool" where
  "takes_some outcome \<longleftrightarrow> (\<forall>b. b \<noteq> [] \<longrightarrow> (\<exists>n. outcome b = Returned n \<and> 0 < n \<and> n \<le> int (length b) \<and> n < 2 ^ 63))"

lemma write_all_ok:
  assumes "takes_some outcome"
  shows "\<exists>w'. write_all outcome buffer w = Inr (buffer, w') \<and> fw_eof w' = fw_eof w"
proof (induction buffer arbitrary: w rule: length_induct)
  case (1 buffer)
  show ?case
  proof (cases "buffer = []")
    case True
    then show ?thesis by (simp add: write_all.simps)
  next
    case False
    then obtain n where n: "outcome buffer = Returned n" "0 < n" "n \<le> int (length buffer)" "n < 2 ^ 63"
      using assms by (auto simp: takes_some_def)
    have u: "unat (of_int n :: u64) = nat n" using n by (simp add: unsigned_of_int take_bit_int_eq_self)
    then have "(of_int n :: u64) \<noteq> 0" using n by (metis unat_0 zero_less_nat_eq less_irrefl)
    moreover have "FD_write buffer (outcome buffer) w = Inr (n, register_write w)"
      using n False by (simp add: FD_write_def FD_writev_def Let_def)
    ultimately have "write_all outcome buffer w =
        rbind (write_all outcome (drop (nat n) buffer) (register_write w)) (\<lambda>(taken, w). Inr (take (nat n) buffer @ taken, w))"
      using False u by (subst write_all.simps) (simp add: Let_def)
    moreover have "length (drop (nat n) buffer) < length buffer" using n False by simp
    ultimately show ?thesis using 1[rule_format, of "drop (nat n) buffer" "register_write w"] by (auto simp: register_write_def)
  qed
qed

section \<open>The server answers whatever the chunks\<close>

text \<open>
  The state of the connection when the bytes \<open>got\<close> of the client's stream have arrived: the messages
  that are complete have been answered, the rest is in the buffer.
\<close>

definition answered :: "(nat \<Rightarrow> bytes) \<Rightarrow> message list \<Rightarrow> bytes \<Rightarrow> serving \<Rightarrow> bool" where
  "answered ctime msgs got s \<longleftrightarrow> (\<exists>ms ms' part. msgs = ms @ ms' \<and> got = stream_of ms @ part \<and> incomplete part
     \<and> sv_buffers s = \<lparr>cb_read_buffer = part, cb_write_buffer = [], cb_closing = False, cb_handled = length ms\<rparr>
     \<and> sv_sent s = stream_of (replies ctime 0 ms))"

lemma serve_once_answers:
  assumes "answered ctime msgs got s" and "\<forall>m\<in>set msgs. frame_ok m \<and> dm_type m \<noteq> MT_Quit" and "length (stream_of msgs) < 2 ^ 64"
    and "stream_of msgs = got @ chunk @ later" and "chunk \<noteq> []" and "length chunk \<le> kReadBufferSize"
    and "st_read t = Returned chunk" and "takes_some (st_write t)"
  shows "\<exists>s'. serve_once ctime peer t s = Inr (Serving, s') \<and> answered ctime msgs (got @ chunk) s'"
proof -
  from assms(1) obtain ms ms' part where m: "msgs = ms @ ms'" "got = stream_of ms @ part" "incomplete part"
    and b: "sv_buffers s = \<lparr>cb_read_buffer = part, cb_write_buffer = [], cb_closing = False, cb_handled = length ms\<rparr>"
    and st: "sv_sent s = stream_of (replies ctime 0 ms)" by (auto simp: answered_def)
  have ms': "stream_of ms' = (part @ chunk) @ later" using assms(4) m by simp
  obtain ms1 ms2 part1 where n: "ms' = ms1 @ ms2" "part @ chunk = stream_of ms1 @ part1" "incomplete part1"
    using stream_prefix[OF ms'] assms(2) m by auto
  let ?b = "\<lparr>cb_read_buffer = part @ chunk, cb_write_buffer = [], cb_closing = False, cb_handled = length ms\<rparr>"
  have "length (stream_of ms1 @ part1) < 2 ^ 64" using assms(3) n(2)[symmetric] ms' m by simp
  then have "reply_loop ctime Message_new ?b = (NeedMore, \<lparr>cb_read_buffer = part1,
      cb_write_buffer = stream_of (replies ctime (length ms) ms1), cb_closing = False, cb_handled = length ms + length ms1\<rparr>)"
    using reply_loop_stream[of ms1 part1 ?b ctime Message_new] assms(2) m n by simp
  moreover obtain w where "write_all (st_write t) (stream_of (replies ctime (length ms) ms1)) (register_read (sv_socket s))
      = Inr (stream_of (replies ctime (length ms) ms1), w)"
    using write_all_ok[OF assms(8)] by blast
  moreover have "FD_read [] (st_read t) (sv_socket s) = Inr (chunk, register_read (sv_socket s))"
    using assms(5-7) by (simp add: FD_read_size_def Let_def)
  ultimately have "serve_once ctime peer t s = Inr (Serving, s\<lparr>sv_socket := w,
      sv_buffers := \<lparr>cb_read_buffer = part1, cb_write_buffer = [], cb_closing = False, cb_handled = length ms + length ms1\<rparr>,
      sv_sent := sv_sent s @ stream_of (replies ctime (length ms) ms1)\<rparr>)"
    using assms(5) b by (simp add: serve_once_def)
  moreover have "answered ctime msgs (got @ chunk) (s\<lparr>sv_socket := w,
      sv_buffers := \<lparr>cb_read_buffer = part1, cb_write_buffer = [], cb_closing = False, cb_handled = length ms + length ms1\<rparr>,
      sv_sent := sv_sent s @ stream_of (replies ctime (length ms) ms1)\<rparr>)"
    unfolding answered_def using m n st by (intro exI[of _ "ms @ ms1"] exI[of _ ms2] exI[of _ part1]) simp
  ultimately show ?thesis by blast
qed

lemma serve_loop_answers:
  assumes "answered ctime msgs got s" and "\<forall>m\<in>set msgs. frame_ok m \<and> dm_type m \<noteq> MT_Quit" and "length (stream_of msgs) < 2 ^ 64"
    and "stream_of msgs = got @ concat chunks @ later" and "\<forall>c\<in>set chunks. c \<noteq> [] \<and> length c \<le> kReadBufferSize"
    and "map st_read turns = map Returned chunks" and "\<forall>t\<in>set turns. takes_some (st_write t)"
  shows "\<exists>s'. serve_loop ctime peer turns s = Inr (Serving, s') \<and> answered ctime msgs (got @ concat chunks) s'"
  using assms(1,4-7)
proof (induction turns arbitrary: got s chunks)
  case (Cons t turns)
  then obtain c cs where c: "chunks = c # cs" "st_read t = Returned c" "map st_read turns = map Returned cs" by auto
  obtain s1 where "serve_once ctime peer t s = Inr (Serving, s1)" "answered ctime msgs (got @ c) s1"
    using serve_once_answers[OF Cons.prems(1) assms(2,3), of c "concat cs @ later" t peer] Cons.prems c by auto
  moreover obtain s2 where "serve_loop ctime peer turns s1 = Inr (Serving, s2)" "answered ctime msgs ((got @ c) @ concat cs) s2"
    using Cons.IH[OF calculation(2), of cs] Cons.prems c by auto
  ultimately show ?case using c by simp
qed simp

text \<open>
  C17. However the network cuts the client's stream into pieces and however little the kernel takes in
  each write, the blocking server of the demonstration answers a stream of messages, of at most a
  megabyte each and as long as none of them asks to quit, with exactly the stream of their replies: what
  the kernel has taken in all the writes is the encoded replies, in order, each once.
\<close>

theorem server_answers_stream:
  assumes "\<forall>m\<in>set msgs. frame_ok m \<and> dm_type m \<noteq> MT_Quit" and "length (stream_of msgs) < 2 ^ 64"
    and "concat chunks = stream_of msgs" and "\<forall>c\<in>set chunks. c \<noteq> [] \<and> length c \<le> kReadBufferSize"
    and "map st_read turns = map Returned chunks" and "\<forall>t\<in>set turns. takes_some (st_write t)"
  shows "\<exists>s. serve_loop ctime peer turns (serving_new client) = Inr (Serving, s)
    \<and> sv_sent s = stream_of (replies ctime 0 msgs) \<and> cb_read_buffer (sv_buffers s) = []"
proof -
  have "answered ctime msgs [] (serving_new client)"
    unfolding answered_def by (intro exI[of _ "[]"] exI[of _ msgs]) (simp add: serving_new_def ConnBuffers_new_def)
  then obtain s where s: "serve_loop ctime peer turns (serving_new client) = Inr (Serving, s)" "answered ctime msgs (stream_of msgs) s"
    using serve_loop_answers[of ctime msgs "[]" "serving_new client" chunks "[]" turns peer] assms by (metis append_Nil append_Nil2)
  then obtain ms ms' part where m: "msgs = ms @ ms'" "stream_of msgs = stream_of ms @ part" "incomplete part"
    "cb_read_buffer (sv_buffers s) = part" "sv_sent s = stream_of (replies ctime 0 ms)" by (auto simp: answered_def)
  then have "ms' = []" using incomplete_no_stream[of ms'] assms(1) by simp
  with m s(1) show ?thesis by simp
qed

definition ex_chunks :: "bytes list" where
  "ex_chunks = [[0, 0, 0], [1, 0, 0, 0, 2, 104], [105]]"

theorem server_answers_stream_witness:
  "concat ex_chunks = stream_of [\<lparr>dm_type = MT_Echo, dm_body = [104, 105]\<rparr>] \<and>
   (\<exists>s. serve_loop (\<lambda>n. []) [] (map (\<lambda>c. \<lparr>st_read = Returned c, st_write = \<lambda>b. Returned 1\<rparr>) ex_chunks)
       (serving_new \<lparr>fw_fd = 4, fw_eof = False, fw_closed = False, fw_non_blocking = False, fw_read_count = 0, fw_write_count = 0\<rparr>) = Inr (Serving, s)
     \<and> sv_sent s = [0, 0, 0, 1, 0, 0, 0, 2, 104, 105])"
proof -
  let ?m = "\<lparr>dm_type = MT_Echo, dm_body = [104, 105]\<rparr>"
  let ?turns = "map (\<lambda>c. \<lparr>st_read = Returned c, st_write = \<lambda>b. Returned 1\<rparr>) ex_chunks"
  let ?w = "\<lparr>fw_fd = 4, fw_eof = False, fw_closed = False, fw_non_blocking = False, fw_read_count = 0, fw_write_count = 0\<rparr>"
  have s: "stream_of [?m] = [0, 0, 0, 1, 0, 0, 0, 2, 104, 105]" unfolding stream_of_def by code_simp
  have c: "concat ex_chunks = stream_of [?m]" unfolding s by (simp add: ex_chunks_def)
  have "takes_some (\<lambda>b. Returned 1)" by (auto simp: takes_some_def Suc_le_eq)
  moreover have "replies (\<lambda>n. []) 0 [?m] = [?m]" by (simp add: handle_message_def)
  moreover have "frame_ok ?m" "dm_type ?m \<noteq> MT_Quit" by (simp_all add: frame_ok_def kMaxMessageSize_def MT_Echo_def MT_Quit_def)
  moreover have "\<exists>s. serve_loop (\<lambda>n. []) [] ?turns (serving_new ?w) = Inr (Serving, s)
      \<and> sv_sent s = stream_of (replies (\<lambda>n. []) 0 [?m]) \<and> cb_read_buffer (sv_buffers s) = []"
    by (rule server_answers_stream[where chunks = ex_chunks])
      (use calculation c in \<open>simp_all add: s ex_chunks_def kReadBufferSize_def del: stream_of_simps\<close>)
  ultimately show ?thesis using c s by auto
qed

section \<open>The client receives whatever the chunks\<close>

text \<open>
  The reads bring the server's stream in any pieces: the next message of it is received, and what
  is left in the buffer and in the reads to come is the rest of the stream.
\<close>

lemma append_longer: "a @ x = e @ y \<Longrightarrow> length e \<le> length a \<Longrightarrow> \<exists>b. a = e @ b \<and> b @ x = y"
  and append_shorter: "a @ x = e @ y \<Longrightarrow> \<not> length e \<le> length a \<Longrightarrow> \<exists>r. e = a @ r \<and> r \<noteq> []"
  by (auto simp: append_eq_append_conv2)

lemma client_receives:
  assumes "frame_ok m" and "buffer @ concat chunks = encode_message m @ rest" and "length (buffer @ concat chunks) < 2 ^ 64"
    and "\<forall>c\<in>set chunks. c \<noteq> [] \<and> length c \<le> kReadBufferSize" and "\<not> fw_eof sock"
  shows "\<exists>buffer' chunks' sock'. recv_one_message (map Returned chunks) buffer old sock = Inr (Got, map Returned chunks', buffer', m, sock')
    \<and> buffer' @ concat chunks' = rest \<and> set chunks' \<subseteq> set chunks \<and> \<not> fw_eof sock'"
  using assms(2-5)
proof (induction chunks arbitrary: buffer sock)
  case Nil
  then have "try_parse_message buffer old = (Parse_Ok, rest, m)" using try_parse_encode[OF assms(1)] by simp
  then show ?case using Nil by (subst recv_one_message.simps) (auto intro: exI[of _ "[]"])
next
  case (Cons c chunks)
  show ?case
  proof (cases "length (encode_message m) \<le> length buffer")
    case True
    then obtain b where b: "buffer = encode_message m @ b" "b @ concat (c # chunks) = rest"
      using append_longer[OF Cons.prems(1)] by blast
    then have "try_parse_message buffer old = (Parse_Ok, b, m)"
      using try_parse_encode[OF assms(1), of b old] Cons.prems(2) by auto
    then show ?thesis using b Cons.prems(4) by (subst recv_one_message.simps) (auto intro!: exI[of _ b] exI[of _ "c # chunks"])
  next
    case False
    then have "incomplete buffer"
      using append_shorter[OF Cons.prems(1)] assms(1) by (auto simp: incomplete_def)
    then have "recv_one_message (map Returned (c # chunks)) buffer old sock
        = recv_one_message (map Returned chunks) (buffer @ c) old (register_read sock)"
      using Cons.prems(3) try_parse_incomplete by (subst recv_one_message.simps) (simp add: FD_read_size_def Let_def)
    then show ?thesis
      using Cons.IH[of "buffer @ c" "register_read sock"] Cons.prems by (fastforce simp: register_read_def)
  qed
qed

text \<open>
  A line of more than a megabyte: nothing is sent, since its frame is empty, and the client waits for
  a reply that no one will send.
\<close>

lemma oversized_line_hangs:
  assumes "1048576 < length line" and "length line < 2 ^ 64" and "incomplete buffer"
  shows "send_message outcome (client_message line) sock = Inr ([], sock)
    \<and> recv_one_message [] buffer Message_new sock = Inr (Waiting, [], buffer, Message_new, sock)"
proof -
  have "encode_message (client_message line) = []"
    using assms(1,2) unat_size64[of line]
    by (simp add: encode_message_def client_message_def kMaxMessageSize_def word_less_nat_alt)
  then show ?thesis using try_parse_incomplete[OF assms(3)]
    by (simp add: send_message_def write_all.simps recv_one_message.simps)
qed

end
