(* ===== verification/Epoll_Server.thy ===== *)
theory Epoll_Server
  imports Epoll_Event_Loop Demo_Protocol
begin

text \<open>
  \<^verbatim>\<open>src/demo/epoll_server.cpp\<close>: the server that serves all its clients from one thread, as a behaviour of the
  event loop of \<^verbatim>\<open>epoll_eventloop.cc\<close>.  The system calls are parameters: each callback has the outcomes of
  its calls.  Output to \<^verbatim>\<open>cerr\<close> is left out.
\<close>

section \<open>A connection\<close>

text \<open>
  Reading until nothing more comes: the outcomes of the reads that bring something or end it, then
  one that would block.
\<close>

fun drain :: "bytes syscall list \<Rightarrow> bytes \<Rightarrow> fd_wrapper \<Rightarrow> (bytes \<times> fd_wrapper) result" where
  "drain [] buffer w = rbind (FD_read [] (Failed EAGAIN) w) (\<lambda>(chunk, w). Inr (buffer, w))"
| "drain (r # rs) buffer w =
     rbind (FD_read [] r w) (\<lambda>(chunk, w). if chunk = [] then Inr (buffer, w) else drain rs (buffer @ chunk) w)"

definition on_readable :: "bytes syscall list \<Rightarrow> (nat \<Rightarrow> bytes) \<Rightarrow> int syscall \<Rightarrow> conn_buffers \<times> fd_wrapper \<Rightarrow> (conn_buffers \<times> fd_wrapper) result" where
  "on_readable reads ctime ret conn =
     rbind (drain reads (cb_read_buffer (fst conn)) (snd conn)) (\<lambda>(read_buffer, w).
     let (r, buf) = reply_loop ctime Message_new ((fst conn)\<lparr>cb_read_buffer := read_buffer\<rparr>)
     in if r = Invalid then rbind (FD_close ret w) (\<lambda>w. Inr (buf\<lparr>cb_write_buffer := []\<rparr>, w)) else Inr (buf, w))"

text \<open>The loop of \<^verbatim>\<open>on_writable\<close>: what is left of the buffer when it ends.\<close>

function flush_writes :: "(bytes \<Rightarrow> int syscall) \<Rightarrow> bytes \<Rightarrow> fd_wrapper \<Rightarrow> (bytes \<times> fd_wrapper) result" where
  "flush_writes outcome buffer w =
     (if buffer = [] then Inr ([], w)
      else case FD_write buffer (outcome buffer) w of
             Inl e \<Rightarrow> Inl e
           | Inr (bytes_written, w) \<Rightarrow>
               let n = of_int bytes_written :: u64
               in if n = 0 then Inr (buffer, w) else flush_writes outcome (drop (unat n) buffer) w)"
  by pat_completeness auto
termination
  by (relation "measure (\<lambda>(outcome, buffer, w). length buffer)") (auto simp: unat_gt_0)

declare flush_writes.simps [simp del]

definition on_writable :: "(bytes \<Rightarrow> int syscall) \<Rightarrow> int syscall \<Rightarrow> conn_buffers \<times> fd_wrapper \<Rightarrow> (conn_buffers \<times> fd_wrapper) result" where
  "on_writable outcome ret conn =
     rbind (flush_writes outcome (cb_write_buffer (fst conn)) (snd conn)) (\<lambda>(write_buffer, w).
     let buf = (fst conn)\<lparr>cb_write_buffer := write_buffer\<rparr>
     in if write_buffer = [] \<and> cb_closing buf then rbind (FD_close ret w) (\<lambda>w. Inr (buf, w)) else Inr (buf, w))"

section \<open>The server\<close>

text \<open>The outcomes of the calls of one callback; which of them are made depends on the callback.\<close>

record server_outcomes =
  so_reads :: "bytes syscall list"
  so_write :: "bytes \<Rightarrow> int syscall"
  so_close :: "int syscall"
  so_ctime :: "nat \<Rightarrow> bytes"
  so_accept :: "int syscall"
  so_getfl :: "int syscall"
  so_sockopts :: "sockopt \<times> sockopt \<times> sockopt"
  so_flags :: "int syscall"
  so_setfl :: "int \<Rightarrow> int syscall"
  so_peer :: "string result"

text \<open>
  The map of the connections by descriptor number; a connection's socket is a descriptor of the loop.
  \<open>sw_rules\<close> has what the functions of a rule have captured: the number, the connection, and which of the
  two rules it is.
\<close>

record conn =
  co_slot :: nat
  co_buf :: conn_buffers

record 'k server_world =
  sw_clients :: "int \<Rightarrow> conn option"
  sw_rules :: "nat \<Rightarrow> (int \<times> nat \<times> direction) option"
  sw_next_slot :: nat
  sw_outcomes :: "nat \<Rightarrow> server_outcomes"
  sw_calls :: nat
  sw_kernel :: 'k

type_synonym 'k server_loop = "'k server_world epoll_loop"

definition listener_fd :: nat where
  "listener_fd = 0"

definition set_world :: "'k server_world \<Rightarrow> 'k server_loop \<Rightarrow> 'k server_loop" where
  "set_world w l = l\<lparr>el_context := (el_context l)\<lparr>el_world := w\<rparr>\<rparr>"

definition set_fd :: "nat \<Rightarrow> fd_wrapper \<Rightarrow> 'k server_loop \<Rightarrow> 'k server_loop" where
  "set_fd slot fd l = l\<lparr>el_context := (el_context l)\<lparr>el_fds := (el_fds (el_context l))(slot := fd)\<rparr>\<rparr>"

text \<open>The connection is entered into the map, its socket into the loop's descriptors.\<close>

definition enter_client :: "fd_wrapper \<Rightarrow> 'k server_loop \<Rightarrow> 'k server_loop" where
  "enter_client client l =
     (let fd = fw_fd client; w = el_world (el_context l); slot = sw_next_slot w;
          w = w\<lparr>sw_clients := (sw_clients w)(fd \<mapsto> \<lparr>co_slot = slot, co_buf = ConnBuffers_new\<rparr>), sw_next_slot := slot + 1,
                sw_rules := (sw_rules w)(el_next_id l \<mapsto> (fd, slot, In), el_next_id l + 1 \<mapsto> (fd, slot, Out))\<rparr>
      in set_fd slot client (set_world w l))"

definition register_client :: "server_outcomes \<Rightarrow> fd_wrapper \<Rightarrow> 'k server_loop \<Rightarrow> 'k server_loop result" where
  "register_client oc client l =
     rbind (FD_set_blocking False (so_flags oc) (so_setfl oc) client) (\<lambda>client.
     rbind (so_peer oc) (\<lambda>peer.
     let slot = sw_next_slot (el_world (el_context l)) in
     if sw_clients (el_world (el_context l)) (fw_fd client) \<noteq> None then Inr l
     else rbind (add_rule_named ''read from client'' slot In (enter_client client l)) (\<lambda>l.
          add_rule_named ''write to client'' slot Out l)))"

definition accept_client :: "server_outcomes \<Rightarrow> 'k server_loop \<Rightarrow> 'k server_loop result" where
  "accept_client oc l =
     (let (so_domain, so_type, so_protocol) = so_sockopts oc in
      rbind (TCPSocket_accept (so_accept oc) (so_getfl oc) so_domain so_type so_protocol (el_fds (el_context l) listener_fd)) (\<lambda>(client, listener).
      register_client oc client (set_fd listener_fd (register_read listener) l)))"

text \<open>The callback of a rule; a rule whose connection is gone has a dangling reference to it.\<close>

definition client_callback :: "server_outcomes \<Rightarrow> int \<times> nat \<times> direction \<Rightarrow> 'k server_loop \<Rightarrow> 'k server_loop result" where
  "client_callback oc rule l =
     (let (fd, slot, dir) = rule; w = el_world (el_context l) in
      case sw_clients w fd of
        None \<Rightarrow> Inl Undefined_Behaviour
      | Some co \<Rightarrow>
          if co_slot co \<noteq> slot then Inl Undefined_Behaviour
          else rbind (if dir = In then on_readable (so_reads oc) (so_ctime oc) (so_close oc) (co_buf co, el_fds (el_context l) slot)
                      else on_writable (so_write oc) (so_close oc) (co_buf co, el_fds (el_context l) slot)) (\<lambda>(buf, sock).
               Inr (set_fd slot sock (set_world (w\<lparr>sw_clients := (sw_clients w)(fd \<mapsto> co\<lparr>co_buf := buf\<rparr>)\<rparr>) l))))"

definition count_call :: "'k server_loop \<Rightarrow> 'k server_loop" where
  "count_call l = set_world ((el_world (el_context l))\<lparr>sw_calls := sw_calls (el_world (el_context l)) + 1\<rparr>) l"

definition server_callback :: "nat \<Rightarrow> 'k server_loop \<Rightarrow> 'k server_loop result" where
  "server_callback i l =
     (let w = el_world (el_context l); oc = sw_outcomes w (sw_calls w); l = count_call l
      in case sw_rules w i of None \<Rightarrow> accept_client oc l | Some rule \<Rightarrow> client_callback oc rule l)"

definition write_interest :: "int \<Rightarrow> nat \<Rightarrow> 'k server_world \<Rightarrow> bool" where
  "write_interest fd slot w = (case sw_clients w fd of None \<Rightarrow> False
     | Some co \<Rightarrow> co_slot co = slot \<and> cb_write_buffer (co_buf co) \<noteq> [])"

definition server_rules :: "'k server_world epoll_behaviour" where
  "server_rules = \<lparr>
     bh_interest = (\<lambda>i c. case sw_rules (el_world c) i of Some (fd, slot, Out) \<Rightarrow> write_interest fd slot (el_world c) | _ \<Rightarrow> True),
     bh_callback = server_callback,
     bh_cancel = (\<lambda>i c. case sw_rules (el_world c) i of
         Some (fd, slot, In) \<Rightarrow> Inr (c\<lparr>el_world := (el_world c)\<lparr>sw_clients := (sw_clients (el_world c))(fd := None)\<rparr>\<rparr>)
       | _ \<Rightarrow> Inr c),
     bh_error = (\<lambda>i c. case sw_rules (el_world c) i of
         Some (fd, slot, In) \<Rightarrow>
           rbind (FD_close (so_close (sw_outcomes (el_world c) (sw_calls (el_world c)))) (el_fds c slot)) (\<lambda>sock.
           Inr (c\<lparr>el_fds := (el_fds c)(slot := sock)\<rparr>))
       | _ \<Rightarrow> Inr c)\<rparr>"

text \<open>What the rules are interested in does not depend on the kernel, so \<open>epoll_registration\<close> applies to them.\<close>

lemma server_rules_blind:
  fixes ctl :: "'k server_world epoll_ctl"
  assumes "\<forall>op fd ev w. \<exists>k. snd (ctl op fd ev w) = w\<lparr>sw_kernel := k\<rparr>"
  shows "interest_blind server_rules ctl"
  unfolding interest_blind_def
proof (intro allI)
  fix i fd ev op and c :: "'k server_world el_context"
  obtain k where "snd (ctl op fd ev (el_world c)) = (el_world c)\<lparr>sw_kernel := k\<rparr>" using assms by blast
  then show "bh_interest server_rules i (c\<lparr>el_world := snd (ctl op fd ev (el_world c))\<rparr>) = bh_interest server_rules i c"
    by (simp add: server_rules_def write_interest_def split: option.splits direction.splits)
qed

text \<open>
  The set-up in \<^verbatim>\<open>main\<close>: the outcomes of \<^verbatim>\<open>epoll_create1\<close>, \<^verbatim>\<open>socket\<close> with \<^verbatim>\<open>fcntl\<close>, \<^verbatim>\<open>setsockopt\<close>, \<^verbatim>\<open>bind\<close>,
  \<^verbatim>\<open>listen\<close> and \<^verbatim>\<open>getsockname\<close>.  \<open>fds\<close> fills the numbers of descriptors that are not in use.
\<close>

definition server_init :: "int syscall \<Rightarrow> int syscall \<Rightarrow> int syscall \<Rightarrow> int syscall \<Rightarrow> int syscall \<Rightarrow> int syscall \<Rightarrow> address syscall
    \<Rightarrow> (nat \<Rightarrow> server_outcomes) \<Rightarrow> (nat \<Rightarrow> fd_wrapper) \<Rightarrow> 'k \<Rightarrow> 'k server_loop result" where
  "server_init epfd sock getfl reuse bnd lstn addr ocs fds k =
     (let world = \<lparr>sw_clients = (\<lambda>fd. None), sw_rules = (\<lambda>i. None), sw_next_slot = 1, sw_outcomes = ocs, sw_calls = 0, sw_kernel = k\<rparr> in
      rbind (EpollEventLoop_new epfd \<lparr>el_fds = fds, el_cancel_requested = (\<lambda>i. False), el_world = world\<rparr>) (\<lambda>l.
      rbind (Socket_new sock getfl) (\<lambda>listener.
      rbind (set_reuseaddr reuse listener) (\<lambda>_.
      rbind (Socket_bind bnd listener) (\<lambda>_.
      rbind (TCPSocket_listen lstn listener) (\<lambda>_.
      rbind (local_address addr listener) (\<lambda>_.
      add_rule_named ''accept'' listener_fd In (set_fd listener_fd listener l))))))))"

section \<open>Answering\<close>

lemma drain_chunks:
  assumes "\<forall>c\<in>set chunks. c \<noteq> [] \<and> length c \<le> kReadBufferSize" and "fw_non_blocking w"
  shows "\<exists>w'. drain (map Returned chunks) buffer w = Inr (buffer @ concat chunks, w') \<and> fw_non_blocking w'"
  using assms
proof (induction chunks arbitrary: buffer w)
  case Nil
  then show ?case by (simp add: would_block_def)
next
  case (Cons c chunks)
  then show ?case using Cons.IH[of "register_read w" "buffer @ c"] by (simp add: FD_read_size_def Let_def register_read_def)
qed

text \<open>A readable connection: the messages that are complete are answered into the write buffer.\<close>

lemma on_readable_answers:
  assumes "\<forall>m\<in>set msgs. frame_ok m \<and> dm_type m \<noteq> MT_Quit" and "length (stream_of msgs @ part) < 2 ^ 64" and "incomplete part"
    and "cb_read_buffer buf @ concat chunks = stream_of msgs @ part" and "\<forall>c\<in>set chunks. c \<noteq> [] \<and> length c \<le> kReadBufferSize"
    and "fw_non_blocking w"
  shows "\<exists>w'. on_readable (map Returned chunks) ctime ret (buf, w) = Inr (buf\<lparr>cb_read_buffer := part,
    cb_write_buffer := cb_write_buffer buf @ stream_of (replies ctime (cb_handled buf) msgs), cb_handled := cb_handled buf + length msgs\<rparr>, w')
    \<and> fw_non_blocking w'"
proof -
  obtain w' where "drain (map Returned chunks) (cb_read_buffer buf) w = Inr (stream_of msgs @ part, w')" "fw_non_blocking w'"
    using drain_chunks[OF assms(5,6), of "cb_read_buffer buf"] assms(4) by auto
  moreover have "reply_loop ctime Message_new (buf\<lparr>cb_read_buffer := stream_of msgs @ part\<rparr>) = (NeedMore, buf\<lparr>cb_read_buffer := part,
      cb_write_buffer := cb_write_buffer buf @ stream_of (replies ctime (cb_handled buf) msgs), cb_handled := cb_handled buf + length msgs\<rparr>)"
    using reply_loop_stream[OF assms(1,3), of "buf\<lparr>cb_read_buffer := stream_of msgs @ part\<rparr>" ctime Message_new] assms(2) by simp
  ultimately show ?thesis by (simp add: on_readable_def)
qed

text \<open>
  A connection over many readable events: in each of them the kernel has the given chunks.  \<open>collected\<close> is the state when the
  bytes \<open>got\<close> of the client's stream have arrived.
\<close>

fun readable_all :: "(nat \<Rightarrow> bytes) \<Rightarrow> bytes list list \<Rightarrow> conn_buffers \<times> fd_wrapper \<Rightarrow> (conn_buffers \<times> fd_wrapper) result" where
  "readable_all ctime [] conn = Inr conn"
| "readable_all ctime (chunks # events) conn =
     rbind (on_readable (map Returned chunks) ctime (Returned 0) conn) (readable_all ctime events)"

definition collected :: "(nat \<Rightarrow> bytes) \<Rightarrow> message list \<Rightarrow> bytes \<Rightarrow> conn_buffers \<Rightarrow> bool" where
  "collected ctime msgs got buf \<longleftrightarrow> (\<exists>ms ms' part. msgs = ms @ ms' \<and> got = stream_of ms @ part \<and> incomplete part
     \<and> buf = \<lparr>cb_read_buffer = part, cb_write_buffer = stream_of (replies ctime 0 ms), cb_closing = False, cb_handled = length ms\<rparr>)"

lemma on_readable_collects:
  assumes "collected ctime msgs got buf" and "\<forall>m\<in>set msgs. frame_ok m \<and> dm_type m \<noteq> MT_Quit" and "length (stream_of msgs) < 2 ^ 64"
    and "stream_of msgs = got @ concat chunks @ later" and "\<forall>c\<in>set chunks. c \<noteq> [] \<and> length c \<le> kReadBufferSize" and "fw_non_blocking w"
  shows "\<exists>buf' w'. on_readable (map Returned chunks) ctime ret (buf, w) = Inr (buf', w') \<and> collected ctime msgs (got @ concat chunks) buf' \<and> fw_non_blocking w'"
proof -
  from assms(1) obtain ms ms' part where m: "msgs = ms @ ms'" "got = stream_of ms @ part" "incomplete part"
    and b: "buf = \<lparr>cb_read_buffer = part, cb_write_buffer = stream_of (replies ctime 0 ms), cb_closing = False, cb_handled = length ms\<rparr>"
    by (auto simp: collected_def)
  have ms': "stream_of ms' = (part @ concat chunks) @ later" using assms(4) m by simp
  obtain ms1 ms2 part1 where n: "ms' = ms1 @ ms2" "part @ concat chunks = stream_of ms1 @ part1" "incomplete part1"
    using stream_prefix[OF ms'] assms(2) m by auto
  have "length (stream_of ms1 @ part1) < 2 ^ 64" using assms(3) n(2)[symmetric] ms' m by simp
  then obtain w' where "on_readable (map Returned chunks) ctime ret (buf, w) = Inr (buf\<lparr>cb_read_buffer := part1,
      cb_write_buffer := cb_write_buffer buf @ stream_of (replies ctime (cb_handled buf) ms1), cb_handled := cb_handled buf + length ms1\<rparr>, w')"
      "fw_non_blocking w'"
    using on_readable_answers[of ms1 part1 buf chunks w ctime ret] assms(2,5,6) m(1) n b by auto
  moreover have "collected ctime msgs (got @ concat chunks) (buf\<lparr>cb_read_buffer := part1,
      cb_write_buffer := cb_write_buffer buf @ stream_of (replies ctime (cb_handled buf) ms1), cb_handled := cb_handled buf + length ms1\<rparr>)"
    unfolding collected_def using m n b by (intro exI[of _ "ms @ ms1"] exI[of _ ms2] exI[of _ part1]) simp
  ultimately show ?thesis by blast
qed

lemma readable_all_collects:
  assumes "collected ctime msgs got buf" and "\<forall>m\<in>set msgs. frame_ok m \<and> dm_type m \<noteq> MT_Quit" and "length (stream_of msgs) < 2 ^ 64"
    and "stream_of msgs = got @ concat (concat events) @ later"
    and "\<forall>chunks\<in>set events. \<forall>c\<in>set chunks. c \<noteq> [] \<and> length c \<le> kReadBufferSize" and "fw_non_blocking w"
  shows "\<exists>buf' w'. readable_all ctime events (buf, w) = Inr (buf', w') \<and> collected ctime msgs (got @ concat (concat events)) buf'"
  using assms(1,4-6)
proof (induction events arbitrary: got buf w)
  case (Cons chunks events)
  obtain buf1 w1 where 1: "on_readable (map Returned chunks) ctime (Returned 0) (buf, w) = Inr (buf1, w1)"
      "collected ctime msgs (got @ concat chunks) buf1" "fw_non_blocking w1"
    using on_readable_collects[OF Cons.prems(1) assms(2,3), of chunks "concat (concat events) @ later" w "Returned 0"] Cons.prems by auto
  with Cons.IH[OF 1(2)] Cons.prems show ?case by auto
qed simp

text \<open>
  C18. However the network cuts a client's stream into pieces, and however these are spread over the rounds of the loop, the
  epoll server has put exactly the stream of the replies into the connection's write buffer when all of a stream of messages
  (of at most a megabyte each, none of them asking to quit) has arrived and nothing was written yet, and nothing is left in its read buffer.
\<close>

theorem epoll_server_answers:
  assumes "\<forall>m\<in>set msgs. frame_ok m \<and> dm_type m \<noteq> MT_Quit" and "length (stream_of msgs) < 2 ^ 64"
    and "concat (concat events) = stream_of msgs"
    and "\<forall>chunks\<in>set events. \<forall>c\<in>set chunks. c \<noteq> [] \<and> length c \<le> kReadBufferSize" and "fw_non_blocking w"
  shows "\<exists>w'. readable_all ctime events (ConnBuffers_new, w) = Inr (\<lparr>cb_read_buffer = [],
    cb_write_buffer = stream_of (replies ctime 0 msgs), cb_closing = False, cb_handled = length msgs\<rparr>, w')"
proof -
  have "collected ctime msgs [] ConnBuffers_new"
    unfolding collected_def by (intro exI[of _ "[]"] exI[of _ msgs]) (simp add: ConnBuffers_new_def)
  then obtain buf w' where r: "readable_all ctime events (ConnBuffers_new, w) = Inr (buf, w')" "collected ctime msgs (stream_of msgs) buf"
    using readable_all_collects[of ctime msgs "[]" ConnBuffers_new events "[]" w] assms by (metis append_Nil append_Nil2)
  then obtain ms ms' part where m: "msgs = ms @ ms'" "stream_of msgs = stream_of ms @ part" "incomplete part"
    "buf = \<lparr>cb_read_buffer = part, cb_write_buffer = stream_of (replies ctime 0 ms), cb_closing = False, cb_handled = length ms\<rparr>"
    by (auto simp: collected_def)
  then have "ms' = []" using incomplete_no_stream[of ms'] assms(1) by simp
  with m r(1) show ?thesis by simp
qed

theorem epoll_server_answers_witness:
  "concat (concat [[[0, 0, 0], [1, 0, 0]], [[0, 2, 104, 105]]]) = stream_of [\<lparr>dm_type = MT_Echo, dm_body = [104, 105]\<rparr>] \<and>
   (\<exists>w'. readable_all (\<lambda>n. []) [[[0, 0, 0], [1, 0, 0]], [[0, 2, 104, 105]]]
      (ConnBuffers_new, \<lparr>fw_fd = 7, fw_eof = False, fw_closed = False, fw_non_blocking = True, fw_read_count = 0, fw_write_count = 0\<rparr>)
    = Inr (\<lparr>cb_read_buffer = [], cb_write_buffer = [0, 0, 0, 1, 0, 0, 0, 2, 104, 105], cb_closing = False, cb_handled = 1\<rparr>, w'))"
proof -
  let ?m = "\<lparr>dm_type = MT_Echo, dm_body = [104, 105]\<rparr>"
  have s: "stream_of [?m] = [0, 0, 0, 1, 0, 0, 0, 2, 104, 105]" unfolding stream_of_def by code_simp
  moreover have "replies (\<lambda>n. []) 0 [?m] = [?m]" by (simp add: handle_message_def)
  moreover have "frame_ok ?m" "dm_type ?m \<noteq> MT_Quit" by (simp_all add: frame_ok_def kMaxMessageSize_def MT_Echo_def MT_Quit_def)
  ultimately show ?thesis
    using epoll_server_answers[of "[?m]" "[[[0, 0, 0], [1, 0, 0]], [[0, 2, 104, 105]]]"
        "\<lparr>fw_fd = 7, fw_eof = False, fw_closed = False, fw_non_blocking = True, fw_read_count = 0, fw_write_count = 0\<rparr>" "\<lambda>n. []"]
    by (simp add: kReadBufferSize_def del: stream_of_simps)
qed

section \<open>What ends the server\<close>

text \<open>
  An exception leaves \<^verbatim>\<open>on_writable\<close> when the kernel takes only a part of the replies and the next
  write of the loop would block: the descriptor's \<^verbatim>\<open>write\<close> throws instead of returning
  the 0 that the loop checks for.
\<close>

theorem partial_write_throws:
  assumes "outcome (cb_write_buffer buf) = Returned n" and "0 < n" and "n < int (length (cb_write_buffer buf))" and "n < 2 ^ 63"
    and "outcome (drop (nat n) (cb_write_buffer buf)) = Failed EAGAIN" and "fw_non_blocking w"
  shows "on_writable outcome ret (buf, w) = Inl (Runtime_Error ''write returned 0 given non-empty input buffer'')"
proof -
  let ?b = "cb_write_buffer buf"
  have b: "?b \<noteq> []" "drop (nat n) ?b \<noteq> []" using assms(2,3) by auto
  have u: "unat (of_int n :: u64) = nat n" using assms(2,4) by (simp add: unsigned_of_int take_bit_int_eq_self)
  then have n0: "(of_int n :: u64) \<noteq> 0" using assms(2) by (metis unat_0 zero_less_nat_eq less_irrefl)
  have w1: "FD_write ?b (outcome ?b) w = Inr (n, register_write w)"
    using assms(1-3) b by (simp add: FD_write_def FD_writev_def Let_def)
  have w2: "FD_write (drop (nat n) ?b) (outcome (drop (nat n) ?b)) (register_write w) =
      Inl (Runtime_Error ''write returned 0 given non-empty input buffer'')"
    using assms(5,6) b by (simp add: FD_write_def FD_writev_def Let_def would_block_def register_write_def)
  have "flush_writes outcome ?b w = flush_writes outcome (drop (nat n) ?b) (register_write w)"
    using b(1) w1 n0 u by (subst flush_writes.simps) (simp add: Let_def)
  also have "\<dots> = Inl (Runtime_Error ''write returned 0 given non-empty input buffer'')"
    using b(2) w2 by (subst flush_writes.simps) simp
  finally show ?thesis by (simp add: on_writable_def)
qed

text \<open>
  Each client costs the loop two categories, of which it has 64 in all.
\<close>

lemma add_rule_named_categories:
  "add_rule_named name fd d l = Inr l' \<Longrightarrow> length (el_rule_categories l) < 64 \<and> el_rule_categories l' = el_rule_categories l @ [name]"
  by (auto simp: add_rule_named_def add_category_def epoll_add_fd_rule_def add_fd_rule_def new_rule_def Let_def rbind_Inr_iff split: if_splits)

lemma add_rule_named_full:
  "64 \<le> length (el_rule_categories l) \<Longrightarrow> add_rule_named name fd d l = Inl (Runtime_Error ''maximum categories reached'')"
  by (simp add: add_rule_named_def add_category_def)

lemma add_rule_named_ok:
  assumes "length (el_rule_categories l) < 64"
  shows "\<exists>l'. add_rule_named name fd d l = Inr l'"
proof -
  have "unat (size64 (el_rule_categories l @ [name]) - 1) = length (el_rule_categories l)"
    using assms by (simp add: size64_def unat_of_nat_u64)
  then show ?thesis using assms by (simp add: add_rule_named_def add_category_def epoll_add_fd_rule_def add_fd_rule_def Let_def)
qed

lemma set_fd_world_categories [simp]: "el_rule_categories (set_fd slot fd l) = el_rule_categories l" "el_rule_categories (set_world w l) = el_rule_categories l"
  "el_rule_categories (enter_client client l) = el_rule_categories l"
  by (simp_all add: set_fd_def set_world_def enter_client_def Let_def)

definition new_client :: "server_outcomes \<Rightarrow> fd_wrapper \<Rightarrow> 'k server_loop \<Rightarrow> bool" where
  "new_client oc client l \<longleftrightarrow> FD_set_blocking False (so_flags oc) (so_setfl oc) client = Inr (client\<lparr>fw_non_blocking := True\<rparr>)
     \<and> (\<exists>peer. so_peer oc = Inr peer) \<and> sw_clients (el_world (el_context l)) (fw_fd client) = None"

text \<open>
  Every new client adds two categories to the loop.  With the one of the accepting rule they reach the limit of 64
  when a client is registered after 31 others.
\<close>

theorem client_limit:
  assumes "new_client oc client l" and "length (el_rule_categories l) = 1 + 2 * k" and "k \<le> 31"
  shows "if k < 31 then \<exists>l'. register_client oc client l = Inr l' \<and> length (el_rule_categories l') = 1 + 2 * (k + 1)
    else register_client oc client l = Inl (Runtime_Error ''maximum categories reached'')"
proof -
  define l0 where "l0 = enter_client (client\<lparr>fw_non_blocking := True\<rparr>) l"
  have c: "length (el_rule_categories l0) = 1 + 2 * k" using assms(2) by (simp add: l0_def)
  have r: "register_client oc client l = rbind (add_rule_named ''read from client'' (sw_next_slot (el_world (el_context l))) In l0)
      (add_rule_named ''write to client'' (sw_next_slot (el_world (el_context l))) Out)"
    using assms(1) by (auto simp: register_client_def new_client_def Let_def l0_def)
  obtain l1 where l1: "add_rule_named ''read from client'' (sw_next_slot (el_world (el_context l))) In l0 = Inr l1"
    using add_rule_named_ok[of l0] c assms(3) by fastforce
  then have c1: "length (el_rule_categories l1) = 2 + 2 * k" using add_rule_named_categories[OF l1] c by simp
  show ?thesis
  proof (cases "k < 31")
    case True
    then obtain l2 where l2: "add_rule_named ''write to client'' (sw_next_slot (el_world (el_context l))) Out l1 = Inr l2"
      using add_rule_named_ok[of l1] c1 by fastforce
    then show ?thesis using True r l1 c1 add_rule_named_categories[OF l2] by simp
  next
    case False
    then show ?thesis using r l1 c1 assms(3) add_rule_named_full[of l1] by simp
  qed
qed

definition ex_socket :: fd_wrapper where
  "ex_socket = \<lparr>fw_fd = 7, fw_eof = False, fw_closed = False, fw_non_blocking = True, fw_read_count = 0, fw_write_count = 0\<rparr>"

theorem partial_write_throws_witness:
  "on_writable (\<lambda>b. if length b = 3 then Returned 2 else Failed EAGAIN) (Returned 0) (ConnBuffers_new\<lparr>cb_write_buffer := [1, 2, 3]\<rparr>, ex_socket)
     = Inl (Runtime_Error ''write returned 0 given non-empty input buffer'')"
  using partial_write_throws[of "\<lambda>b. if length b = 3 then Returned 2 else Failed EAGAIN" "ConnBuffers_new\<lparr>cb_write_buffer := [1, 2, 3]\<rparr>" 2
      ex_socket "Returned 0"] by (simp add: ex_socket_def)

definition ex_outcomes :: server_outcomes where
  "ex_outcomes = \<lparr>so_reads = [], so_write = (\<lambda>b. Failed EAGAIN), so_close = Returned 0, so_ctime = (\<lambda>n. []), so_accept = Returned 7,
     so_getfl = Returned 0, so_sockopts = (Returned (PF_INET, 4), Returned (SOCK_STREAM, 4), Returned (IPPROTO_TCP, 4)),
     so_flags = Returned 0, so_setfl = (\<lambda>flags. Returned 0), so_peer = Inr ''peer''\<rparr>"

definition ex_loop :: "nat \<Rightarrow> unit server_loop" where
  "ex_loop n = \<lparr>el_context = \<lparr>el_fds = (\<lambda>i. ex_socket), el_cancel_requested = (\<lambda>i. False),
       el_world = \<lparr>sw_clients = (\<lambda>fd. None), sw_rules = (\<lambda>i. None), sw_next_slot = 1, sw_outcomes = (\<lambda>n. ex_outcomes), sw_calls = 0, sw_kernel = ()\<rparr>\<rparr>,
     el_rule_categories = replicate n ''rule'', el_fd_rules = [], el_non_fd_rules = [], el_next_id = 1, ep_fd = 5, ep_fd_states = []\<rparr>"

theorem client_limit_witness:
  "(\<exists>l'. register_client ex_outcomes ex_socket (ex_loop 61) = Inr l' \<and> length (el_rule_categories l') = 63)
    \<and> register_client ex_outcomes ex_socket (ex_loop 63) = Inl (Runtime_Error ''maximum categories reached'')"
proof -
  have n: "new_client ex_outcomes ex_socket (ex_loop n)" for n
    by (simp add: new_client_def ex_outcomes_def ex_socket_def ex_loop_def FD_set_blocking_def Let_def)
  have "length (el_rule_categories (ex_loop n)) = n" for n by (simp add: ex_loop_def)
  then show ?thesis using client_limit[OF n, of 61 30] client_limit[OF n, of 63 31] by simp
qed

text \<open>
  When a client has ended its stream, the loop drops the reading rule and calls its cancel function, which destroys the
  connection; the writing rule, whose functions refer to the connection, stays in the loop, since its
  descriptor shares ownership of the socket and is not closed.
\<close>

lemma write_rule_dangles:
  assumes "sw_rules (el_world c) i = Some (fd, slot, In)" and "sw_rules (el_world c) j = Some (fd, slot, Out)"
    and "\<not> el_cancel_requested c i" and "\<not> el_cancel_requested c j" and "fw_eof (el_fds c slot)" and "\<not> fw_closed (el_fds c slot)"
  shows "\<exists>c'. drop_loop server_rules [\<lparr>br_id = i, br_category_id = a, fr_fd = slot, fr_direction = In\<rparr>, \<lparr>br_id = j, br_category_id = b, fr_fd = slot, fr_direction = Out\<rparr>] c
      = Inr ([\<lparr>br_id = j, br_category_id = b, fr_fd = slot, fr_direction = Out\<rparr>], [Cancelled i], c')
    \<and> sw_clients (el_world c') fd = None"
  using assms by (simp add: server_rules_def)

end
