(* ===== verification/Worker_Pool.thy ===== *)
theory Worker_Pool
  imports Prelude "HOL-Library.Multiset"
begin

text \<open>
  \<^verbatim>\<open>src/demo/bounded_queue.hh\<close> and \<^verbatim>\<open>worker_pool.hh\<close>: a bounded blocking queue and the pool of worker
  threads it feeds.  What a thread does while it holds the mutex is one step; a thread waits on a
  condition variable until a notification (or nothing at all: wakeups may be spurious) makes it look
  again.  The steps of the threads interleave in any way.
\<close>

section \<open>The queue\<close>

record 'a bounded_queue =
  bq_items :: "'a list"
  bq_capacity :: nat
  bq_closed :: bool

definition BoundedBlockingQueue_new :: "nat \<Rightarrow> 'a bounded_queue" where
  "BoundedBlockingQueue_new capacity = \<lparr>bq_items = [], bq_capacity = capacity, bq_closed = False\<rparr>"

text \<open>The predicates the two waits check, and what follows them under the lock.\<close>

definition push_ready :: "'a bounded_queue \<Rightarrow> bool" where
  "push_ready q \<longleftrightarrow> length (bq_items q) < bq_capacity q \<or> bq_closed q"

definition push_item :: "'a \<Rightarrow> 'a bounded_queue \<Rightarrow> bool \<times> 'a bounded_queue" where
  "push_item item q = (if bq_closed q then (False, q) else (True, q\<lparr>bq_items := bq_items q @ [item]\<rparr>))"

definition pop_ready :: "'a bounded_queue \<Rightarrow> bool" where
  "pop_ready q \<longleftrightarrow> bq_items q \<noteq> [] \<or> bq_closed q"

definition pop_item :: "'a bounded_queue \<Rightarrow> 'a option \<times> 'a bounded_queue" where
  "pop_item q = (case bq_items q of [] \<Rightarrow> (None, q) | item # items \<Rightarrow> (Some item, q\<lparr>bq_items := items\<rparr>))"

definition close_queue :: "'a bounded_queue \<Rightarrow> 'a bounded_queue" where
  "close_queue q = q\<lparr>bq_closed := True\<rparr>"

section \<open>The threads\<close>

text \<open>
  Where a thread is.  A worker is popping (about to look at the queue), waiting on \<^verbatim>\<open>not_empty_\<close>, in the
  handler, or has returned from \<^verbatim>\<open>run\<close>.  Another thread is outside of the pool, pushing, waiting on
  \<^verbatim>\<open>not_full_\<close>, or at one of the steps of \<^verbatim>\<open>shutdown\<close>: about to notify the waiters of the one and of the other
  variable, and joining the workers.
\<close>

datatype 'a thread =
    Popping
  | Pop_Waits
  | Handling 'a
  | Exited
  | Outside
  | Pushing 'a
  | Push_Waits 'a
  | Notify_Empty
  | Notify_Full
  | Joining

fun pop_waits :: "'a thread \<Rightarrow> bool" where
  "pop_waits Pop_Waits \<longleftrightarrow> True"
| "pop_waits _ \<longleftrightarrow> False"

fun push_waits :: "'a thread \<Rightarrow> bool" where
  "push_waits (Push_Waits _) \<longleftrightarrow> True"
| "push_waits _ \<longleftrightarrow> False"

fun awake :: "'a thread \<Rightarrow> 'a thread" where
  "awake Pop_Waits = Popping"
| "awake (Push_Waits x) = Pushing x"
| "awake th = th"

text \<open>\<^verbatim>\<open>notify_one\<close> wakes a thread that waits, if there is one; \<^verbatim>\<open>notify_all\<close> all of them.\<close>

definition notify_one :: "('a thread \<Rightarrow> bool) \<Rightarrow> (nat \<Rightarrow> 'a thread) \<Rightarrow> (nat \<Rightarrow> 'a thread) \<Rightarrow> bool" where
  "notify_one waits ths ths' \<longleftrightarrow>
     (\<exists>u. waits (ths u) \<and> ths' = ths(u := awake (ths u))) \<or> (\<forall>u. \<not> waits (ths u)) \<and> ths' = ths"

definition notify_all :: "('a thread \<Rightarrow> bool) \<Rightarrow> (nat \<Rightarrow> 'a thread) \<Rightarrow> nat \<Rightarrow> 'a thread" where
  "notify_all waits ths u = (if waits (ths u) then awake (ths u) else ths u)"

text \<open>
  The pool: the threads below \<open>po_workers\<close> are its workers.  The last three record what has happened:
  the items \<^verbatim>\<open>submit\<close> has accepted, those popped, and those whose handler has returned or thrown.
\<close>

record 'a pool =
  po_queue :: "'a bounded_queue"
  po_workers :: nat
  po_threads :: "nat \<Rightarrow> 'a thread"
  po_accepted :: "'a list"
  po_popped :: "'a list"
  po_handled :: "'a list"

definition WorkerPool_new :: "nat \<Rightarrow> nat \<Rightarrow> 'a pool" where
  "WorkerPool_new worker_count queue_capacity =
     \<lparr>po_queue = BoundedBlockingQueue_new queue_capacity, po_workers = worker_count,
      po_threads = (\<lambda>t. if t < worker_count then Popping else Outside), po_accepted = [], po_popped = [], po_handled = []\<rparr>"

text \<open>The calls: \<^verbatim>\<open>submit\<close>, which pushes, and \<^verbatim>\<open>shutdown\<close>, which closes the queue first.\<close>

inductive pool_call :: "'a pool \<Rightarrow> 'a pool \<Rightarrow> bool" where
  call_submit: "po_workers s \<le> t \<Longrightarrow> po_threads s t = Outside \<Longrightarrow> pool_call s (s\<lparr>po_threads := (po_threads s)(t := Pushing item)\<rparr>)"
| call_shutdown: "po_workers s \<le> t \<Longrightarrow> po_threads s t = Outside \<Longrightarrow>
    pool_call s (s\<lparr>po_queue := close_queue (po_queue s), po_threads := (po_threads s)(t := Notify_Empty)\<rparr>)"

text \<open>The steps of the threads that are in the pool.\<close>

inductive pool_step :: "'a pool \<Rightarrow> 'a pool \<Rightarrow> bool" where
  push_wait: "po_threads s t = Pushing item \<Longrightarrow> \<not> push_ready (po_queue s) \<Longrightarrow>
    pool_step s (s\<lparr>po_threads := (po_threads s)(t := Push_Waits item)\<rparr>)"
| push_refused: "po_threads s t = Pushing item \<Longrightarrow> push_ready (po_queue s) \<Longrightarrow> push_item item (po_queue s) = (False, q) \<Longrightarrow>
    pool_step s (s\<lparr>po_queue := q, po_threads := (po_threads s)(t := Outside)\<rparr>)"
| push_accepted: "po_threads s t = Pushing item \<Longrightarrow> push_ready (po_queue s) \<Longrightarrow> push_item item (po_queue s) = (True, q) \<Longrightarrow>
    notify_one pop_waits ((po_threads s)(t := Outside)) ths \<Longrightarrow>
    pool_step s (s\<lparr>po_queue := q, po_threads := ths, po_accepted := po_accepted s @ [item]\<rparr>)"
| pop_wait: "po_threads s t = Popping \<Longrightarrow> \<not> pop_ready (po_queue s) \<Longrightarrow>
    pool_step s (s\<lparr>po_threads := (po_threads s)(t := Pop_Waits)\<rparr>)"
| pop_some: "po_threads s t = Popping \<Longrightarrow> pop_ready (po_queue s) \<Longrightarrow> pop_item (po_queue s) = (Some item, q) \<Longrightarrow>
    notify_one push_waits ((po_threads s)(t := Handling item)) ths \<Longrightarrow>
    pool_step s (s\<lparr>po_queue := q, po_threads := ths, po_popped := po_popped s @ [item]\<rparr>)"
| pop_none: "po_threads s t = Popping \<Longrightarrow> pop_ready (po_queue s) \<Longrightarrow> pop_item (po_queue s) = (None, q) \<Longrightarrow>
    pool_step s (s\<lparr>po_queue := q, po_threads := (po_threads s)(t := Exited)\<rparr>)"
| handler_done: "po_threads s t = Handling item \<Longrightarrow>
    pool_step s (s\<lparr>po_threads := (po_threads s)(t := Popping), po_handled := po_handled s @ [item]\<rparr>)"
| notify_empty: "po_threads s t = Notify_Empty \<Longrightarrow>
    pool_step s (s\<lparr>po_threads := (notify_all pop_waits (po_threads s))(t := Notify_Full)\<rparr>)"
| notify_full: "po_threads s t = Notify_Full \<Longrightarrow>
    pool_step s (s\<lparr>po_threads := (notify_all push_waits (po_threads s))(t := Joining)\<rparr>)"
| joined: "po_threads s t = Joining \<Longrightarrow> (\<forall>u < po_workers s. po_threads s u = Exited) \<Longrightarrow>
    pool_step s (s\<lparr>po_threads := (po_threads s)(t := Outside)\<rparr>)"

text \<open>
  A wakeup without a notification.  It may happen at any time, but nothing may depend on it: it is not a step of a thread.
\<close>

inductive spurious_wakeup :: "'a pool \<Rightarrow> 'a pool \<Rightarrow> bool" where
  spurious: "pop_waits (po_threads s t) \<or> push_waits (po_threads s t) \<Longrightarrow>
    spurious_wakeup s (s\<lparr>po_threads := (po_threads s)(t := awake (po_threads s t))\<rparr>)"

inductive pool_run :: "nat \<Rightarrow> nat \<Rightarrow> 'a pool \<Rightarrow> bool" for workers capacity where
  pr_start: "pool_run workers capacity (WorkerPool_new workers capacity)"
| pr_call: "pool_run workers capacity s \<Longrightarrow> pool_call s s' \<Longrightarrow> pool_run workers capacity s'"
| pr_step: "pool_run workers capacity s \<Longrightarrow> pool_step s s' \<Longrightarrow> pool_run workers capacity s'"
| pr_spurious: "pool_run workers capacity s \<Longrightarrow> spurious_wakeup s s' \<Longrightarrow> pool_run workers capacity s'"

section \<open>Nothing is lost or repeated\<close>

lemma push_item_eq: "push_item x q = (ok, q') \<longleftrightarrow> ok = (\<not> bq_closed q) \<and> q' = (if ok then q\<lparr>bq_items := bq_items q @ [x]\<rparr> else q)"
  by (auto simp: push_item_def)

lemma pop_item_Some: "pop_item q = (Some x, q') \<longleftrightarrow> (\<exists>xs. bq_items q = x # xs \<and> q' = q\<lparr>bq_items := xs\<rparr>)"
  by (auto simp: pop_item_def split: list.splits)

lemma pop_item_None: "pop_item q = (None, q') \<longleftrightarrow> bq_items q = [] \<and> q' = q"
  by (auto simp: pop_item_def split: list.splits)

fun worker_state :: "'a thread \<Rightarrow> bool" where
  "worker_state Popping \<longleftrightarrow> True"
| "worker_state Pop_Waits \<longleftrightarrow> True"
| "worker_state (Handling _) \<longleftrightarrow> True"
| "worker_state Exited \<longleftrightarrow> True"
| "worker_state _ \<longleftrightarrow> False"

fun in_hand :: "'a thread \<Rightarrow> 'a multiset" where
  "in_hand (Handling x) = {#x#}"
| "in_hand _ = {#}"

text \<open>Workers stay workers, and the others stay outside or in a call.\<close>

definition roles :: "'a pool \<Rightarrow> bool" where
  "roles s \<longleftrightarrow> (\<forall>t. worker_state (po_threads s t) = (t < po_workers s))"

lemma awake_keeps [simp]: "worker_state (awake th) = worker_state th" "in_hand (awake th) = in_hand th"
  by (cases th; simp)+

lemma notify_one_keeps:
  assumes "notify_one waits ths ths'"
  shows "worker_state (ths' t) = worker_state (ths t)" "in_hand (ths' t) = in_hand (ths t)"
  using assms by (auto simp: notify_one_def split: if_splits)

lemma notify_all_keeps [simp]: "worker_state (notify_all waits ths t) = worker_state (ths t)" "in_hand (notify_all waits ths t) = in_hand (ths t)"
  by (simp_all add: notify_all_def)

lemma sum_upd:
  fixes f :: "'a thread \<Rightarrow> 'b :: cancel_comm_monoid_add" and t n :: nat
  shows "t < n \<Longrightarrow> (\<Sum>u<n. f ((ths(t := th)) u)) + f (ths t) = (\<Sum>u<n. f (ths u)) + f th"
    and "\<not> t < n \<Longrightarrow> (\<Sum>u<n. f ((ths(t := th)) u)) = (\<Sum>u<n. f (ths u))"
proof -
  assume "t < n"
  then have "(\<Sum>u<n. f (g u)) = f (g t) + (\<Sum>u\<in>{..<n} - {t}. f (g u))" for g
    using sum.remove[OF finite_lessThan, of t n "\<lambda>u. f (g u)"] by simp
  moreover have "(\<Sum>u\<in>{..<n} - {t}. f ((ths(t := th)) u)) = (\<Sum>u\<in>{..<n} - {t}. f (ths u))" by (intro sum.cong) auto
  ultimately show "(\<Sum>u<n. f ((ths(t := th)) u)) + f (ths t) = (\<Sum>u<n. f (ths u)) + f th"
    by (simp add: algebra_simps)
next
  assume "\<not> t < n"
  then show "(\<Sum>u<n. f ((ths(t := th)) u)) = (\<Sum>u<n. f (ths u))" by (intro sum.cong) auto
qed

definition hands :: "nat \<Rightarrow> (nat \<Rightarrow> 'a thread) \<Rightarrow> 'a multiset" where
  "hands n ths = (\<Sum>t<n. in_hand (ths t))"

lemma hands_upd:
  "worker_state (ths t) = (t < n) \<Longrightarrow> worker_state th = (t < n) \<Longrightarrow> hands n (ths(t := th)) + in_hand (ths t) = hands n ths + in_hand th"
  using sum_upd[where f = in_hand and t = t and ths = ths and th = th and n = n]
  by (cases "t < n"; cases "ths t"; cases th) (auto simp: hands_def)

lemma hands_notify: "notify_one waits ths ths' \<Longrightarrow> hands n ths' = hands n ths" "hands n (notify_all waits ths) = hands n ths"
  using notify_one_keeps(2) by (auto simp: hands_def intro!: sum.cong)

definition po_inv :: "'a pool \<Rightarrow> bool" where
  "po_inv s \<longleftrightarrow> roles s \<and> po_accepted s = po_popped s @ bq_items (po_queue s)
     \<and> length (bq_items (po_queue s)) \<le> bq_capacity (po_queue s)
     \<and> mset (po_popped s) = mset (po_handled s) + hands (po_workers s) (po_threads s)
     \<and> (\<forall>t. po_threads s t = Exited \<longrightarrow> bq_closed (po_queue s) \<and> bq_items (po_queue s) = [])"

lemma awake_Exited [simp]: "awake th = Exited \<longleftrightarrow> th = Exited"
  by (cases th) auto

lemma notify_one_Exited: "notify_one waits ths ths' \<Longrightarrow> ths' t = Exited \<longleftrightarrow> ths t = Exited"
  unfolding notify_one_def by (elim disjE exE conjE) (simp_all add: fun_upd_apply)

lemma notify_all_Exited: "notify_all waits ths t = Exited \<longleftrightarrow> ths t = Exited"
  by (cases "ths t") (auto simp: notify_all_def)

lemma po_invI:
  assumes "po_inv s" and "\<And>u. worker_state (po_threads s' u) = worker_state (po_threads s u)" and "po_workers s' = po_workers s"
    and "po_accepted s' = po_popped s' @ bq_items (po_queue s')" and "length (bq_items (po_queue s')) \<le> bq_capacity (po_queue s')"
    and "mset (po_popped s') = mset (po_handled s') + hands (po_workers s) (po_threads s')"
    and "\<And>u. po_threads s' u = Exited \<Longrightarrow> bq_closed (po_queue s') \<and> bq_items (po_queue s') = []"
  shows "po_inv s'"
  using assms by (simp add: po_inv_def roles_def)

lemma po_invD:
  assumes "po_inv s"
  shows "worker_state (po_threads s t) = (t < po_workers s)" and "po_accepted s = po_popped s @ bq_items (po_queue s)"
    and "length (bq_items (po_queue s)) \<le> bq_capacity (po_queue s)"
    and "mset (po_popped s) = mset (po_handled s) + hands (po_workers s) (po_threads s)"
    and "po_threads s t = Exited \<Longrightarrow> bq_closed (po_queue s)" and "po_threads s t = Exited \<Longrightarrow> bq_items (po_queue s) = []"
  using assms unfolding po_inv_def roles_def by blast+

text \<open>A step that only moves one thread, which does not take or finish an item.\<close>

lemma po_inv_move:
  assumes "po_inv s" and "worker_state th = worker_state (po_threads s t)" and "in_hand th = in_hand (po_threads s t)"
    and "th = Exited \<longrightarrow> bq_closed (po_queue s) \<and> bq_items (po_queue s) = []"
  shows "po_inv (s\<lparr>po_threads := (po_threads s)(t := th)\<rparr>)"
proof -
  have "hands (po_workers s) ((po_threads s)(t := th)) = hands (po_workers s) (po_threads s)"
    using hands_upd[of "po_threads s" t "po_workers s" th] assms po_invD(1)[OF assms(1), of t] by simp
  with assms po_invD(2-6)[OF assms(1)] show ?thesis by (intro po_invI[OF assms(1)]) (auto split: if_splits)
qed

lemma po_inv_notify_all:
  assumes "po_inv s"
  shows "po_inv (s\<lparr>po_threads := notify_all waits (po_threads s)\<rparr>)"
  using po_invD(2-6)[OF assms] by (intro po_invI[OF assms]) (simp_all add: hands_notify notify_all_Exited)

lemma po_inv_call: "pool_call s s' \<Longrightarrow> po_inv s \<Longrightarrow> po_inv s'"
proof (induction rule: pool_call.induct)
  case (call_submit s t item)
  then show ?case by (intro po_inv_move) simp_all
next
  case (call_shutdown s t)
  have "po_inv (s\<lparr>po_queue := close_queue (po_queue s)\<rparr>)"
    using po_invD(2-6)[OF call_shutdown(3)] by (intro po_invI[OF call_shutdown(3)]) (simp_all add: close_queue_def)
  from po_inv_move[OF this, of Notify_Empty t] call_shutdown show ?case by simp
qed

lemma po_inv_step:
  assumes "pool_step s s'" and inv: "po_inv s"
  shows "po_inv s'"
proof -
  let ?n = "po_workers s" and ?ths = "po_threads s"
  have h: "hands ?n (?ths(t := th)) + in_hand (?ths t) = hands ?n ?ths + in_hand th" if "worker_state th = worker_state (?ths t)" for t th
    using hands_upd[of ?ths t ?n th] po_invD(1)[OF inv, of t] that by simp
  from assms(1) show ?thesis
  proof cases
    case (push_accepted t item q ths)
    have "hands ?n ths = hands ?n ?ths" using h[of Outside t] push_accepted(2) hands_notify(1)[OF push_accepted(5)] by simp
    moreover have "bq_items q = bq_items (po_queue s) @ [item]" "length (bq_items q) \<le> bq_capacity q"
      using push_accepted(3,4) by (auto simp: push_item_eq push_ready_def)
    moreover have "\<not> bq_closed (po_queue s)" using push_accepted(4) by (simp add: push_item_eq)
    ultimately show ?thesis
      unfolding push_accepted(1) using po_invD(2-6)[OF inv] push_accepted(2) notify_one_keeps(1)[OF push_accepted(5)] notify_one_Exited[OF push_accepted(5)]
      by (intro po_invI[OF inv]) (auto split: if_splits)
  next
    case (pop_some t item q ths)
    have "hands ?n ths = hands ?n ?ths + {#item#}" using h[of "Handling item" t] pop_some(2) hands_notify(1)[OF pop_some(5)] by simp
    moreover have "bq_items (po_queue s) = item # bq_items q" "bq_capacity q = bq_capacity (po_queue s)"
      using pop_some(4) by (auto simp: pop_item_Some)
    ultimately show ?thesis
      unfolding pop_some(1) using po_invD(2-6)[OF inv] pop_some(2) notify_one_keeps(1)[OF pop_some(5)] notify_one_Exited[OF pop_some(5)]
      by (intro po_invI[OF inv]) (auto split: if_splits)
  next
    case (handler_done t item)
    have "hands ?n (?ths(t := Popping)) + {#item#} = hands ?n ?ths" using h[of Popping t] handler_done(2) by simp
    then show ?thesis
      unfolding handler_done(1) using po_invD(2-6)[OF inv] handler_done(2)
      by (intro po_invI[OF inv]) (auto split: if_splits)
  next
    case (pop_none t q)
    then show ?thesis using po_inv_move[OF inv, of Exited t] by (auto simp: pop_item_None pop_ready_def)
  next
    case (notify_empty t)
    then show ?thesis using po_inv_move[OF po_inv_notify_all[OF inv, of pop_waits], of Notify_Full t] by (simp add: notify_all_def)
  next
    case (notify_full t)
    then show ?thesis using po_inv_move[OF po_inv_notify_all[OF inv, of push_waits], of Joining t] by (simp add: notify_all_def)
  next
    case (push_refused t item q)
    then show ?thesis using po_inv_move[OF inv, of Outside t] by (simp add: push_item_eq)
  qed (use po_inv_move[OF inv] in simp_all)
qed

lemma po_inv_spurious: "spurious_wakeup s s' \<Longrightarrow> po_inv s \<Longrightarrow> po_inv s'"
proof (induction rule: spurious_wakeup.induct)
  case (spurious s t)
  then show ?case using po_inv_move[of s "awake (po_threads s t)" t] by (cases "po_threads s t") simp_all
qed

lemma pool_call_fixed: "pool_call s s' \<Longrightarrow> po_workers s' = po_workers s \<and> bq_capacity (po_queue s') = bq_capacity (po_queue s)"
  by (auto elim!: pool_call.cases simp: close_queue_def)

lemma pool_step_fixed: "pool_step s s' \<Longrightarrow> po_workers s' = po_workers s \<and> bq_capacity (po_queue s') = bq_capacity (po_queue s)"
  by (auto elim!: pool_step.cases simp: push_item_eq pop_item_Some pop_item_None)

lemma spurious_fixed:
  "spurious_wakeup s s' \<Longrightarrow> po_workers s' = po_workers s \<and> po_queue s' = po_queue s"
  by (auto elim!: spurious_wakeup.cases)

lemma pool_run_inv: "pool_run workers capacity s \<Longrightarrow> po_inv s \<and> po_workers s = workers \<and> bq_capacity (po_queue s) = capacity"
proof (induction rule: pool_run.induct)
  case pr_start
  have "hands workers (\<lambda>t. if t < workers then Popping else Outside) = {#}" by (simp add: hands_def)
  then show ?case by (simp add: WorkerPool_new_def po_inv_def roles_def BoundedBlockingQueue_new_def)
next
  case (pr_call s s')
  then show ?case using po_inv_call pool_call_fixed by metis
next
  case (pr_step s s')
  then show ?case using po_inv_step pool_step_fixed by metis
next
  case (pr_spurious s s')
  then show ?case using po_inv_spurious spurious_fixed by metis
qed

section \<open>No wakeup is lost\<close>

text \<open>How many threads are somewhere; only finitely many are in the pool.\<close>

definition threads_in :: "(nat \<Rightarrow> 'a thread) \<Rightarrow> bool" where
  "threads_in ths \<longleftrightarrow> finite {u. ths u \<noteq> Outside}"

definition count_in :: "('a thread \<Rightarrow> bool) \<Rightarrow> (nat \<Rightarrow> 'a thread) \<Rightarrow> nat" where
  "count_in P ths = card {u. P (ths u)}"

lemma threads_in_upd: "threads_in ths \<Longrightarrow> threads_in (ths(t := th))"
proof -
  assume "threads_in ths"
  moreover have "{u. (ths(t := th)) u \<noteq> Outside} \<subseteq> insert t {u. ths u \<noteq> Outside}" by auto
  ultimately show ?thesis unfolding threads_in_def by (meson finite_insert finite_subset)
qed

lemma count_upd:
  assumes "threads_in ths" and "\<not> P Outside"
  shows "count_in P (ths(t := th)) + of_bool (P (ths t)) = count_in P ths + of_bool (P th)"
proof -
  define A where "A = {u. P (ths u)} - {t}"
  have "{u. P (ths u)} \<subseteq> {u. ths u \<noteq> Outside}" using assms(2) by auto
  with assms(1) have "finite {u. P (ths u)}" unfolding threads_in_def by (rule finite_subset[rotated])
  then have fin: "finite A" "t \<notin> A" by (simp_all add: A_def)
  have "{u. P (ths u)} = (if P (ths t) then insert t A else A)" "{u. P ((ths(t := th)) u)} = (if P th then insert t A else A)"
    by (auto simp: A_def)
  then have "count_in P ths = card A + of_bool (P (ths t))" "count_in P (ths(t := th)) = card A + of_bool (P th)"
    unfolding count_in_def using fin by simp_all
  then show ?thesis by simp
qed

lemma count_pos: "0 < count_in P ths \<Longrightarrow> \<exists>u. P (ths u)"
  by (auto simp: count_in_def card_gt_0_iff)

fun is_popping :: "'a thread \<Rightarrow> bool" where
  "is_popping Popping \<longleftrightarrow> True"
| "is_popping _ \<longleftrightarrow> False"

fun is_pushing :: "'a thread \<Rightarrow> bool" where
  "is_pushing (Pushing _) \<longleftrightarrow> True"
| "is_pushing _ \<longleftrightarrow> False"

text \<open>
  While a thread waits for an item, as many threads as there are items are about to look, and once
  the queue is closed, a thread is about to notify; in the same way for room in the queue.
\<close>

definition pop_wake :: "'a bounded_queue \<Rightarrow> (nat \<Rightarrow> 'a thread) \<Rightarrow> bool" where
  "pop_wake q ths \<longleftrightarrow> ((\<exists>t. pop_waits (ths t)) \<longrightarrow> length (bq_items q) \<le> count_in is_popping ths \<and> (bq_closed q \<longrightarrow> (\<exists>u. ths u = Notify_Empty)))"

definition push_wake :: "'a bounded_queue \<Rightarrow> (nat \<Rightarrow> 'a thread) \<Rightarrow> bool" where
  "push_wake q ths \<longleftrightarrow> ((\<exists>t. push_waits (ths t)) \<longrightarrow> (\<not> bq_closed q \<longrightarrow> bq_capacity q \<le> length (bq_items q) + count_in is_pushing ths)
     \<and> (bq_closed q \<longrightarrow> (\<exists>u. ths u = Notify_Empty \<or> ths u = Notify_Full)))"

lemma pop_wake_upd:
  assumes "threads_in ths" and "pop_wake q ths" and "ths t \<noteq> Notify_Empty"
    and "pop_waits th \<longrightarrow> bq_items q' = [] \<and> \<not> bq_closed q'"
    and "length (bq_items q') + of_bool (is_popping (ths t)) \<le> length (bq_items q) + of_bool (is_popping th) \<or> bq_items q' = []"
    and "bq_closed q' = bq_closed q"
  shows "pop_wake q' (ths(t := th))"
  unfolding pop_wake_def
proof (intro impI conjI)
  assume w: "\<exists>u. pop_waits ((ths(t := th)) u)"
  show "length (bq_items q') \<le> count_in is_popping (ths(t := th))"
    using w assms count_upd[OF assms(1), of is_popping t th] unfolding pop_wake_def by (auto split: if_splits)
  assume "bq_closed q'"
  with w assms obtain u where "ths u = Notify_Empty" by (auto simp: pop_wake_def split: if_splits)
  with assms(3) show "\<exists>u. (ths(t := th)) u = Notify_Empty" by (intro exI[of _ u]) auto
qed

lemma push_wake_upd:
  assumes "threads_in ths" and "push_wake q ths" and "ths t \<noteq> Notify_Empty" "ths t \<noteq> Notify_Full"
    and "push_waits th \<longrightarrow> bq_capacity q' \<le> length (bq_items q') \<and> \<not> bq_closed q'"
    and "length (bq_items q) + of_bool (is_pushing (ths t)) \<le> length (bq_items q') + of_bool (is_pushing th)
      \<or> bq_closed q' \<or> bq_capacity q' \<le> length (bq_items q')"
    and "bq_closed q' = bq_closed q" and "bq_capacity q' = bq_capacity q"
  shows "push_wake q' (ths(t := th))"
  unfolding push_wake_def
proof (intro impI conjI)
  assume w: "\<exists>u. push_waits ((ths(t := th)) u)" and "\<not> bq_closed q'"
  then show "bq_capacity q' \<le> length (bq_items q') + count_in is_pushing (ths(t := th))"
    using assms count_upd[OF assms(1), of is_pushing t th] unfolding push_wake_def by (auto split: if_splits)
next
  assume w: "\<exists>u. push_waits ((ths(t := th)) u)" and "bq_closed q'"
  with assms obtain u where "ths u = Notify_Empty \<or> ths u = Notify_Full" by (auto simp: push_wake_def split: if_splits)
  with assms(3,4) show "\<exists>u. (ths(t := th)) u = Notify_Empty \<or> (ths(t := th)) u = Notify_Full" by (intro exI[of _ u]) auto
qed

text \<open>A wakeup does not harm, and \<^verbatim>\<open>notify_one\<close> makes up for one new item or one free place.\<close>

lemma pop_wake_awake:
  assumes "threads_in ths" and "pop_wake q ths"
  shows "pop_wake q (ths(t := awake (ths t)))"
  using assms by (cases "ths t") (auto simp: fun_upd_idem intro!: pop_wake_upd[where q = q])

lemma push_wake_awake:
  assumes "threads_in ths" and "push_wake q ths"
  shows "push_wake q (ths(t := awake (ths t)))"
  using assms by (cases "ths t") (auto simp: fun_upd_idem intro!: push_wake_upd[where q = q])

lemma pop_wake_notify:
  assumes "threads_in ths" and "notify_one pop_waits ths ths'" and "pop_wake q ths"
    and "length (bq_items q') \<le> Suc (length (bq_items q))" and "bq_closed q' = bq_closed q"
  shows "pop_wake q' ths'"
  using assms(2) unfolding notify_one_def
proof (elim disjE exE conjE)
  fix u
  assume u: "pop_waits (ths u)" and ths': "ths' = ths(u := awake (ths u))"
  have p: "ths u = Pop_Waits" using u by (cases "ths u") auto
  have len: "length (bq_items q) \<le> count_in is_popping ths" and cl: "bq_closed q \<Longrightarrow> \<exists>v. ths v = Notify_Empty"
    using assms(3) u unfolding pop_wake_def by blast+
  have "count_in is_popping ths' = Suc (count_in is_popping ths)"
    using count_upd[OF assms(1), of is_popping u Popping] by (simp add: ths' p)
  moreover have "\<exists>v. ths' v = Notify_Empty" if c: "bq_closed q'"
  proof -
    obtain v where v: "ths v = Notify_Empty" using cl c assms(5) by blast
    then have "v \<noteq> u" using p by auto
    with v show ?thesis by (auto simp: ths')
  qed
  ultimately show ?thesis using len assms(4) by (simp add: pop_wake_def)
next
  assume "\<forall>u. \<not> pop_waits (ths u)" and "ths' = ths"
  then show ?thesis by (simp add: pop_wake_def)
qed

lemma push_wake_notify:
  assumes "threads_in ths" and "notify_one push_waits ths ths'" and "push_wake q ths"
    and "length (bq_items q) \<le> Suc (length (bq_items q'))" and "bq_closed q' = bq_closed q" and "bq_capacity q' = bq_capacity q"
  shows "push_wake q' ths'"
  using assms(2) unfolding notify_one_def
proof (elim disjE exE conjE)
  fix u
  assume u: "push_waits (ths u)" and ths': "ths' = ths(u := awake (ths u))"
  obtain x where p: "ths u = Push_Waits x" using u by (cases "ths u") auto
  have len: "\<not> bq_closed q \<Longrightarrow> bq_capacity q \<le> length (bq_items q) + count_in is_pushing ths"
    and cl: "bq_closed q \<Longrightarrow> \<exists>v. ths v = Notify_Empty \<or> ths v = Notify_Full"
    using assms(3) u unfolding push_wake_def by blast+
  have "count_in is_pushing ths' = Suc (count_in is_pushing ths)"
    using count_upd[OF assms(1), of is_pushing u "Pushing x"] by (simp add: ths' p)
  moreover have "\<exists>v. ths' v = Notify_Empty \<or> ths' v = Notify_Full" if c: "bq_closed q'"
  proof -
    obtain v where v: "ths v = Notify_Empty \<or> ths v = Notify_Full" using cl c assms(5) by blast
    then have "v \<noteq> u" using p by auto
    with v show ?thesis by (auto simp: ths')
  qed
  ultimately show ?thesis using len assms(4-6) by (auto simp: push_wake_def)
next
  assume "\<forall>u. \<not> push_waits (ths u)" and "ths' = ths"
  then show ?thesis by (simp add: push_wake_def)
qed

lemma notify_one_other:
  "notify_one push_waits ths ths' \<Longrightarrow> threads_in ths \<Longrightarrow> pop_wake q ths \<Longrightarrow> pop_wake q ths'"
  "notify_one pop_waits ths ths' \<Longrightarrow> threads_in ths \<Longrightarrow> push_wake q ths \<Longrightarrow> push_wake q ths'"
  unfolding notify_one_def using pop_wake_awake push_wake_awake by blast+

lemma notify_one_threads: "notify_one waits ths ths' \<Longrightarrow> threads_in ths \<Longrightarrow> threads_in ths'"
  unfolding notify_one_def using threads_in_upd by blast

lemma notify_all_threads: "threads_in ths \<Longrightarrow> threads_in (notify_all waits ths)"
proof -
  have "notify_all waits ths u = Outside \<longleftrightarrow> ths u = Outside" for u by (cases "ths u") (auto simp: notify_all_def)
  then show "threads_in ths \<Longrightarrow> threads_in (notify_all waits ths)" by (simp add: threads_in_def)
qed

definition closing :: "'a thread \<Rightarrow> bool" where
  "closing th \<longleftrightarrow> th \<in> {Notify_Empty, Notify_Full, Joining}"

definition wake_inv :: "'a pool \<Rightarrow> bool" where
  "wake_inv s \<longleftrightarrow> threads_in (po_threads s) \<and> pop_wake (po_queue s) (po_threads s) \<and> push_wake (po_queue s) (po_threads s)
     \<and> ((\<exists>t. closing (po_threads s t)) \<longrightarrow> bq_closed (po_queue s))"

lemma notify_one_closing: "notify_one waits ths ths' \<Longrightarrow> closing (ths' t) \<longleftrightarrow> closing (ths t)"
proof -
  have "closing (awake th) \<longleftrightarrow> closing th" for th :: "'a thread" by (cases th) (auto simp: closing_def)
  then show "notify_one waits ths ths' \<Longrightarrow> closing (ths' t) \<longleftrightarrow> closing (ths t)"
    unfolding notify_one_def by (elim disjE exE conjE) (simp_all add: fun_upd_apply)
qed

text \<open>A step that moves one thread and leaves the queue.\<close>

lemma wake_inv_move:
  assumes "wake_inv s" and "po_threads s t \<noteq> Notify_Empty" "po_threads s t \<noteq> Notify_Full" and "closing th \<longrightarrow> bq_closed (po_queue s)"
    and "pop_waits th \<longrightarrow> \<not> pop_ready (po_queue s)" and "push_waits th \<longrightarrow> \<not> push_ready (po_queue s)"
    and "is_popping (po_threads s t) \<longrightarrow> is_popping th \<or> bq_items (po_queue s) = []"
    and "is_pushing (po_threads s t) \<longrightarrow> is_pushing th \<or> bq_closed (po_queue s) \<or> \<not> push_ready (po_queue s)"
  shows "wake_inv (s\<lparr>po_threads := (po_threads s)(t := th)\<rparr>)"
proof -
  have "pop_wake (po_queue s) ((po_threads s)(t := th))"
    using assms by (intro pop_wake_upd[where q = "po_queue s"]) (auto simp: wake_inv_def closing_def pop_ready_def)
  moreover have "push_wake (po_queue s) ((po_threads s)(t := th))"
    using assms by (intro push_wake_upd[where q = "po_queue s"]) (auto simp: wake_inv_def closing_def push_ready_def)
  ultimately show ?thesis using assms threads_in_upd by (auto simp: wake_inv_def)
qed

lemma wake_invD:
  assumes "wake_inv s"
  shows "threads_in (po_threads s)" "pop_wake (po_queue s) (po_threads s)" "push_wake (po_queue s) (po_threads s)"
    "closing (po_threads s t) \<Longrightarrow> bq_closed (po_queue s)"
  using assms by (auto simp: wake_inv_def)

lemma wake_inv_call: "pool_call s s' \<Longrightarrow> wake_inv s \<Longrightarrow> wake_inv s'"
proof (induction rule: pool_call.induct)
  case (call_submit s t item)
  then show ?case by (intro wake_inv_move) (auto simp: closing_def)
next
  case (call_shutdown s t)
  note inv = wake_invD[OF call_shutdown(3)]
  have "count_in is_popping ((po_threads s)(t := Notify_Empty)) = count_in is_popping (po_threads s)"
    using count_upd[OF inv(1), of is_popping t Notify_Empty] call_shutdown(2) by simp
  then have "pop_wake (close_queue (po_queue s)) ((po_threads s)(t := Notify_Empty))"
    using inv(2) by (auto simp: pop_wake_def close_queue_def split: if_splits)
  moreover have "push_wake (close_queue (po_queue s)) ((po_threads s)(t := Notify_Empty))"
    by (auto simp: push_wake_def close_queue_def)
  ultimately show ?case using inv(1) threads_in_upd by (auto simp: wake_inv_def close_queue_def)
qed

lemma notify_all_states:
  "is_popping (notify_all push_waits ths u) = is_popping (ths u)" "pop_waits (notify_all push_waits ths u) = pop_waits (ths u)"
  "\<not> pop_waits (notify_all pop_waits ths u)" "\<not> push_waits (notify_all push_waits ths u)"
  "notify_all waits ths u = Notify_Empty \<longleftrightarrow> ths u = Notify_Empty"
  by (cases "ths u"; simp add: notify_all_def)+

lemma wake_inv_step:
  assumes "pool_step s s'" and w: "wake_inv s"
  shows "wake_inv s'"
proof -
  let ?q = "po_queue s" and ?ths = "po_threads s"
  note inv = wake_invD[OF w]
  from assms(1) show ?thesis
  proof cases
    case (push_accepted t item q ths)
    have q: "bq_items q = bq_items ?q @ [item]" "bq_closed q = bq_closed ?q" "bq_capacity q = bq_capacity ?q" "\<not> bq_closed ?q"
      using push_accepted(4) by (auto simp: push_item_eq)
    have t: "threads_in (?ths(t := Outside))" using threads_in_upd inv(1) by blast
    have "pop_wake ?q (?ths(t := Outside))" using push_accepted(2) inv by (intro pop_wake_upd[where q = ?q]) simp_all
    from pop_wake_notify[OF t push_accepted(5) this, of q] q have "pop_wake q ths" by simp
    moreover have "push_wake q (?ths(t := Outside))" using push_accepted(2) inv q by (intro push_wake_upd[where q = ?q]) simp_all
    from notify_one_other(2)[OF push_accepted(5) t this] have "push_wake q ths" .
    moreover have "\<not> closing (ths u)" for u
      using notify_one_closing[OF push_accepted(5), of u] inv(4)[of u] q(4) by (auto simp: closing_def split: if_splits)
    ultimately show ?thesis using push_accepted(1) notify_one_threads[OF push_accepted(5) t] by (simp add: wake_inv_def)
  next
    case (pop_some t item q ths)
    have q: "bq_items ?q = item # bq_items q" "bq_closed q = bq_closed ?q" "bq_capacity q = bq_capacity ?q"
      using pop_some(4) by (auto simp: pop_item_Some)
    have t: "threads_in (?ths(t := Handling item))" using threads_in_upd inv(1) by blast
    have "pop_wake q (?ths(t := Handling item))" using pop_some(2) inv q by (intro pop_wake_upd[where q = ?q]) simp_all
    from notify_one_other(1)[OF pop_some(5) t this] have "pop_wake q ths" .
    moreover have "push_wake ?q (?ths(t := Handling item))" using pop_some(2) inv by (intro push_wake_upd[where q = ?q]) simp_all
    from push_wake_notify[OF t pop_some(5) this, of q] q have "push_wake q ths" by simp
    moreover have "bq_closed q" if "closing (ths u)" for u
      using notify_one_closing[OF pop_some(5), of u] inv(4)[of u] q(2) that by (auto simp: closing_def split: if_splits)
    ultimately show ?thesis using pop_some(1) notify_one_threads[OF pop_some(5) t] by (auto simp: wake_inv_def)
  next
    case (notify_empty t)
    have "bq_closed ?q" using inv(4)[of t] notify_empty by (simp add: closing_def)
    moreover have "pop_wake ?q ((notify_all pop_waits ?ths)(t := Notify_Full))" by (simp add: pop_wake_def notify_all_states)
    ultimately show ?thesis
      unfolding notify_empty(1) using notify_all_threads[OF inv(1)] threads_in_upd by (auto simp: wake_inv_def push_wake_def)
  next
    case (notify_full t)
    have "bq_closed ?q" using inv(4)[of t] notify_full by (simp add: closing_def)
    moreover have "count_in is_popping ((notify_all push_waits ?ths)(t := Joining)) = count_in is_popping ?ths"
      using notify_full(2) by (auto simp: count_in_def notify_all_states intro!: arg_cong[where f = card])
    moreover have "(\<exists>u. pop_waits (((notify_all push_waits ?ths)(t := Joining)) u)) = (\<exists>u. pop_waits (?ths u))"
      using notify_full(2) by (metis fun_upd_apply notify_all_states(2) pop_waits.simps(9,10))
    moreover have "((notify_all push_waits ?ths)(t := Joining)) u = Notify_Empty" if "?ths u = Notify_Empty" for u
      using that notify_full(2) by (auto simp: notify_all_states)
    ultimately have "pop_wake ?q ((notify_all push_waits ?ths)(t := Joining))" "bq_closed ?q"
      using inv(2) unfolding pop_wake_def by metis+
    then show ?thesis
      unfolding notify_full(1) using notify_all_threads[OF inv(1)] threads_in_upd
      by (auto simp: wake_inv_def push_wake_def notify_all_states)
  next
    case (joined t)
    then show ?thesis using wake_inv_move[OF w, of t Outside] by (simp add: closing_def)
  next
    case (push_refused t item q)
    then show ?thesis using wake_inv_move[OF w, of t Outside] by (auto simp: push_item_eq closing_def)
  next
    case (pop_none t q)
    then show ?thesis using wake_inv_move[OF w, of t Exited] by (auto simp: pop_item_None closing_def)
  next
    case (push_wait t item)
    then show ?thesis using wake_inv_move[OF w, of t "Push_Waits item"] by (auto simp: closing_def)
  next
    case (pop_wait t)
    then show ?thesis using wake_inv_move[OF w, of t Pop_Waits] by (auto simp: closing_def pop_ready_def)
  next
    case (handler_done t item)
    then show ?thesis using wake_inv_move[OF w, of t Popping] by (auto simp: closing_def wake_inv_def)
  qed
qed

lemma wake_inv_spurious: "spurious_wakeup s s' \<Longrightarrow> wake_inv s \<Longrightarrow> wake_inv s'"
proof (induction rule: spurious_wakeup.induct)
  case (spurious s t)
  then show ?case using wake_inv_move[of s t "awake (po_threads s t)"] by (cases "po_threads s t") (auto simp: closing_def)
qed

lemma pool_run_wake: "pool_run workers capacity s \<Longrightarrow> wake_inv s"
proof (induction rule: pool_run.induct)
  case pr_start
  have "{u. u < workers \<and> (Popping :: 'a thread) \<noteq> Outside} = {..<workers}" by auto
  then show ?case
    by (simp add: WorkerPool_new_def wake_inv_def threads_in_def pop_wake_def push_wake_def closing_def BoundedBlockingQueue_new_def)
qed (auto intro: wake_inv_call wake_inv_step wake_inv_spurious)

section \<open>The contract of the pool\<close>

text \<open>
  C12. The bounded queue and the worker pool, for any number of threads and any interleaving of their
  steps: items are popped in the order in which \<^verbatim>\<open>submit\<close> accepted them and none is lost or
  repeated; there are never more than the capacity in the queue; each popped item is being handled
  or has been, once; and when all workers have returned, every accepted item has been handled.
\<close>

theorem pool_handles_each_once:
  assumes "pool_run workers capacity s"
  shows "po_accepted s = po_popped s @ bq_items (po_queue s) \<and> length (bq_items (po_queue s)) \<le> capacity
    \<and> mset (po_popped s) = mset (po_handled s) + (\<Sum>t<workers. in_hand (po_threads s t))
    \<and> (0 < workers \<and> (\<forall>t<workers. po_threads s t = Exited) \<longrightarrow> mset (po_handled s) = mset (po_accepted s))"
proof -
  have inv: "po_inv s" "po_workers s = workers" "bq_capacity (po_queue s) = capacity" using pool_run_inv[OF assms] by auto
  note d = po_invD(2-6)[OF inv(1), unfolded inv(2,3) hands_def]
  have "mset (po_handled s) = mset (po_accepted s)" if "0 < workers" "\<forall>t<workers. po_threads s t = Exited"
    using d(1,3) d(5)[of 0] that by simp
  with d show ?thesis by blast
qed

text \<open>Who can make a step whatever the queue holds.\<close>

lemma notify_one_some: "\<exists>ths'. notify_one waits ths ths'"
  unfolding notify_one_def by blast

fun able :: "'a thread \<Rightarrow> bool" where
  "able Popping \<longleftrightarrow> True"
| "able (Handling _) \<longleftrightarrow> True"
| "able (Pushing _) \<longleftrightarrow> True"
| "able Notify_Empty \<longleftrightarrow> True"
| "able Notify_Full \<longleftrightarrow> True"
| "able _ \<longleftrightarrow> False"

lemma able_steps:
  assumes "able (po_threads s u)"
  shows "\<exists>s'. pool_step s s'"
proof (cases "po_threads s u")
  case Popping
  show ?thesis
  proof (cases "pop_ready (po_queue s)")
    case True
    obtain r q where rq: "pop_item (po_queue s) = (r, q)" by fastforce
    show ?thesis
    proof (cases r)
      case None
      then show ?thesis using pool_step.pop_none[OF Popping True] rq by blast
    next
      case (Some item)
      obtain ths where "notify_one push_waits ((po_threads s)(u := Handling item)) ths" using notify_one_some by blast
      then show ?thesis using pool_step.pop_some[OF Popping True] rq Some by blast
    qed
  next
    case False
    then show ?thesis using pool_step.pop_wait[OF Popping] by blast
  qed
next
  case (Pushing item)
  show ?thesis
  proof (cases "push_ready (po_queue s)")
    case True
    obtain ok q where rq: "push_item item (po_queue s) = (ok, q)" by fastforce
    obtain ths where "notify_one pop_waits ((po_threads s)(u := Outside)) ths" using notify_one_some by blast
    then show ?thesis
      using pool_step.push_accepted[OF Pushing True, of q] pool_step.push_refused[OF Pushing True, of q] rq by (cases ok) (simp; blast)+
  next
    case False
    then show ?thesis using pool_step.push_wait[OF Pushing] by blast
  qed
next
  case (Handling item)
  then show ?thesis using pool_step.handler_done[OF Handling] by blast
next
  case Notify_Empty
  then show ?thesis using pool_step.notify_empty[OF Notify_Empty] by blast
next
  case Notify_Full
  then show ?thesis using pool_step.notify_full[OF Notify_Full] by blast
qed (use assms in simp_all)

lemma wait_covered:
  assumes "wake_inv s"
  shows "pop_waits (po_threads s t) \<Longrightarrow> pop_ready (po_queue s) \<Longrightarrow> \<exists>u. able (po_threads s u)"
    and "push_waits (po_threads s t) \<Longrightarrow> push_ready (po_queue s) \<Longrightarrow> \<exists>u. able (po_threads s u)"
proof -
  note inv = wake_invD[OF assms]
  have ab: "is_popping th \<Longrightarrow> able th" "is_pushing th \<Longrightarrow> able th" for th :: "'a thread" by (cases th; simp)+
  show "\<exists>u. able (po_threads s u)" if w: "pop_waits (po_threads s t)" and r: "pop_ready (po_queue s)"
  proof (cases "bq_closed (po_queue s)")
    case True
    then obtain u where "po_threads s u = Notify_Empty" using inv(2) w unfolding pop_wake_def by blast
    then show ?thesis by (intro exI[of _ u]) simp
  next
    case False
    then have "bq_items (po_queue s) \<noteq> []" using r by (simp add: pop_ready_def)
    moreover have "length (bq_items (po_queue s)) \<le> count_in is_popping (po_threads s)"
      using inv(2) w unfolding pop_wake_def by blast
    ultimately have "0 < count_in is_popping (po_threads s)" by (cases "bq_items (po_queue s)") simp_all
    then show ?thesis using count_pos[of is_popping] ab by blast
  qed
  show "\<exists>u. able (po_threads s u)" if w: "push_waits (po_threads s t)" and r: "push_ready (po_queue s)"
  proof (cases "bq_closed (po_queue s)")
    case True
    then obtain u where "po_threads s u = Notify_Empty \<or> po_threads s u = Notify_Full" using inv(3) w unfolding push_wake_def by blast
    then show ?thesis by (intro exI[of _ u]) auto
  next
    case False
    then have "bq_capacity (po_queue s) \<le> length (bq_items (po_queue s)) + count_in is_pushing (po_threads s)"
      using inv(3) w unfolding push_wake_def by blast
    then have "0 < count_in is_pushing (po_threads s)" using r False by (auto simp: push_ready_def)
    then show ?thesis using count_pos[of is_pushing] ab by blast
  qed
qed

text \<open>
  C13. No wakeup is lost.  As long as a worker waits on an open queue, at least as many threads are about to pop as
  there are items in the queue; and when the threads of the pool have come to rest, that is, none can make a step
  without a spurious wakeup, no thread waits whose condition holds: a worker waits only if the queue is
  empty and open, a submitter only if it is full and open.
\<close>

theorem pool_no_lost_wakeup:
  assumes "pool_run workers capacity s"
  shows "((\<exists>t. po_threads s t = Pop_Waits) \<and> \<not> bq_closed (po_queue s)
      \<longrightarrow> length (bq_items (po_queue s)) \<le> card {u. po_threads s u = Popping})
    \<and> ((\<forall>s'. \<not> pool_step s s') \<longrightarrow>
         (\<forall>t. po_threads s t = Pop_Waits \<longrightarrow> bq_items (po_queue s) = [] \<and> \<not> bq_closed (po_queue s))
       \<and> (\<forall>t x. po_threads s t = Push_Waits x \<longrightarrow> length (bq_items (po_queue s)) = capacity \<and> \<not> bq_closed (po_queue s)))"
proof -
  note wake = pool_run_wake[OF assms]
  have inv: "length (bq_items (po_queue s)) \<le> capacity" "bq_capacity (po_queue s) = capacity"
    using pool_run_inv[OF assms] by (auto simp: po_inv_def)
  have popping: "is_popping th \<longleftrightarrow> th = Popping" for th :: "'a thread" by (cases th) auto
  have items: "length (bq_items (po_queue s)) \<le> card {u. po_threads s u = Popping}" if "po_threads s t = Pop_Waits" for t
  proof -
    have "pop_waits (po_threads s t)" using that by simp
    then show ?thesis using wake_invD(2)[OF wake] unfolding pop_wake_def count_in_def popping by blast
  qed
  have rest: "\<not> able (po_threads s u)" if "\<forall>s'. \<not> pool_step s s'" for u using able_steps[of s u] that by blast
  have "\<not> pop_ready (po_queue s)" if "\<forall>s'. \<not> pool_step s s'" "po_threads s t = Pop_Waits" for t
    using wait_covered(1)[OF wake, of t] rest that by auto
  moreover have "\<not> push_ready (po_queue s)" if "\<forall>s'. \<not> pool_step s s'" "po_threads s t = Push_Waits x" for t x
    using wait_covered(2)[OF wake, of t] rest that by auto
  ultimately show ?thesis using items inv by (force simp: pop_ready_def push_ready_def)
qed

section \<open>Shutting down\<close>

fun weight :: "'a thread \<Rightarrow> nat" where
  "weight Popping = 1"
| "weight Pop_Waits = 2"
| "weight (Handling _) = 2"
| "weight Exited = 0"
| "weight Outside = 0"
| "weight (Pushing _) = 1"
| "weight (Push_Waits _) = 2"
| "weight Notify_Empty = 3"
| "weight Notify_Full = 2"
| "weight Joining = 1"

definition weights :: "(nat \<Rightarrow> 'a thread) \<Rightarrow> nat" where
  "weights ths = (\<Sum>u | ths u \<noteq> Outside. weight (ths u))"

definition pool_weight :: "'a pool \<Rightarrow> nat" where
  "pool_weight s = 3 * length (bq_items (po_queue s)) + weights (po_threads s)"

lemma weights_eq:
  assumes "finite A" and "{u. ths u \<noteq> Outside} \<subseteq> A"
  shows "weights ths = (\<Sum>u\<in>A. weight (ths u))"
  unfolding weights_def by (rule sum.mono_neutral_left) (use assms in auto)

lemma weights_upd:
  assumes "threads_in ths"
  shows "weights (ths(t := th)) + weight (ths t) = weights ths + weight th"
proof -
  let ?A = "insert t {u. ths u \<noteq> Outside}"
  have fin: "finite ?A" using assms by (simp add: threads_in_def)
  have sub: "{u. (ths(t := th)) u \<noteq> Outside} \<subseteq> ?A" by auto
  have "weights ths = weight (ths t) + (\<Sum>u\<in>?A - {t}. weight (ths u))"
    using weights_eq[OF fin, of ths] sum.remove[OF fin, of t "\<lambda>u. weight (ths u)"] by auto
  moreover have "weights (ths(t := th)) = weight th + (\<Sum>u\<in>?A - {t}. weight ((ths(t := th)) u))"
    unfolding weights_eq[OF fin sub] using sum.remove[OF fin, of t "\<lambda>u. weight ((ths(t := th)) u)"] by simp
  moreover have "(\<Sum>u\<in>?A - {t}. weight ((ths(t := th)) u)) = (\<Sum>u\<in>?A - {t}. weight (ths u))" by (intro sum.cong) auto
  ultimately show ?thesis by linarith
qed

lemma weight_awake: "weight (awake th) \<le> weight th" "pop_waits th \<or> push_waits th \<Longrightarrow> weight (awake th) < weight th"
  by (cases th; simp)+

lemma weights_notify_one: "notify_one waits ths ths' \<Longrightarrow> threads_in ths \<Longrightarrow> weights ths' \<le> weights ths"
  unfolding notify_one_def using weights_upd weight_awake(1) by (metis add_le_cancel_left add.commute order_refl)

lemma weights_notify_all: "threads_in ths \<Longrightarrow> weights (notify_all waits ths) \<le> weights ths"
proof -
  assume "threads_in ths"
  moreover have "{u. notify_all waits ths u \<noteq> Outside} \<subseteq> {u. ths u \<noteq> Outside}" by (auto simp: notify_all_def)
  ultimately have "weights (notify_all waits ths) = (\<Sum>u | ths u \<noteq> Outside. weight (notify_all waits ths u))"
    by (intro weights_eq) (simp_all add: threads_in_def)
  also have "\<dots> \<le> (\<Sum>u | ths u \<noteq> Outside. weight (ths u))" by (intro sum_mono) (simp add: notify_all_def weight_awake)
  finally show ?thesis by (simp add: weights_def)
qed

lemma closed_step_weight:
  assumes "pool_step s s'" and "threads_in (po_threads s)" and "bq_closed (po_queue s)"
  shows "pool_weight s' < pool_weight s \<and> bq_closed (po_queue s')"
  using assms(1)
proof cases
  case (pop_some t item q ths)
  have "weights ths \<le> weights ((po_threads s)(t := Handling item))"
    using weights_notify_one[OF pop_some(5)] threads_in_upd[OF assms(2)] by blast
  moreover have "weights ((po_threads s)(t := Handling item)) = weights (po_threads s) + 1"
    using weights_upd[OF assms(2), of t "Handling item"] pop_some(2) by simp
  ultimately show ?thesis using pop_some(1,4) assms(3) by (auto simp: pool_weight_def pop_item_Some)
next
  case (notify_empty t)
  then have "weights ((notify_all pop_waits (po_threads s))(t := Notify_Full)) < weights (po_threads s)"
    using weights_upd[OF notify_all_threads[OF assms(2)], of pop_waits t Notify_Full] weights_notify_all[OF assms(2), of pop_waits]
    by (simp add: notify_all_def)
  then show ?thesis using notify_empty assms(3) by (simp add: pool_weight_def)
next
  case (notify_full t)
  then have "weights ((notify_all push_waits (po_threads s))(t := Joining)) < weights (po_threads s)"
    using weights_upd[OF notify_all_threads[OF assms(2)], of push_waits t Joining] weights_notify_all[OF assms(2), of push_waits]
    by (simp add: notify_all_def)
  then show ?thesis using notify_full assms(3) by (simp add: pool_weight_def)
next
  case (push_refused t item q)
  then show ?thesis using weights_upd[OF assms(2), of t Outside] assms(3) by (simp add: pool_weight_def push_item_eq)
next
  case (pop_none t q)
  then show ?thesis using weights_upd[OF assms(2), of t Exited] assms(3) by (simp add: pool_weight_def pop_item_None)
next
  case (handler_done t item)
  then show ?thesis using weights_upd[OF assms(2), of t Popping] assms(3) by (simp add: pool_weight_def)
next
  case (joined t)
  then show ?thesis using weights_upd[OF assms(2), of t Outside] assms(3) by (simp add: pool_weight_def)
qed (use assms(3) in \<open>simp_all add: push_ready_def pop_ready_def push_item_eq\<close>)

lemma closed_spurious_weight:
  assumes "spurious_wakeup s s'" and "threads_in (po_threads s)"
  shows "pool_weight s' < pool_weight s"
  using assms(1)
proof cases
  case (spurious t)
  then show ?thesis
    using weights_upd[OF assms(2), of t "awake (po_threads s t)"] weight_awake(2)[of "po_threads s t"] by (simp add: pool_weight_def)
qed

text \<open>What may happen in the pool until the next call.\<close>

definition pool_moves :: "'a pool \<Rightarrow> 'a pool \<Rightarrow> bool" where
  "pool_moves s s' \<longleftrightarrow> pool_step s s' \<or> spurious_wakeup s s'"

lemma closed_moves:
  "(pool_moves ^^ n) s s' \<Longrightarrow> pool_run workers capacity s \<Longrightarrow> bq_closed (po_queue s)
    \<Longrightarrow> pool_run workers capacity s' \<and> bq_closed (po_queue s') \<and> n + pool_weight s' \<le> pool_weight s"
proof (induction n arbitrary: s')
  case (Suc n)
  then obtain m where m: "(pool_moves ^^ n) s m" "pool_moves m s'" by auto
  with Suc have IH: "pool_run workers capacity m" "bq_closed (po_queue m)" "n + pool_weight m \<le> pool_weight s" by auto
  have thr: "threads_in (po_threads m)" using wake_invD(1)[OF pool_run_wake[OF IH(1)]] .
  from m(2) consider "pool_step m s'" | "spurious_wakeup m s'" by (auto simp: pool_moves_def)
  then show ?case
  proof cases
    case 1
    then show ?thesis using closed_step_weight[OF 1 thr IH(2)] IH pr_step by force
  next
    case 2
    then show ?thesis using closed_spurious_weight[OF 2 thr] spurious_fixed[OF 2] IH pr_spurious by force
  qed
qed simp

text \<open>A closed pool whose threads cannot make a step has shut down; nobody waits for a notification that never comes.\<close>

lemma closed_rest:
  assumes "bq_closed (po_queue s)" and "roles s" and "wake_inv s" and "\<forall>s'. \<not> pool_step s s'"
  shows "po_threads s t = (if t < po_workers s then Exited else Outside)"
proof -
  have rest: "\<not> able (po_threads s u)" for u using able_steps[of s u] assms(4) by blast
  have ready: "pop_ready (po_queue s)" "push_ready (po_queue s)" using assms(1) by (simp_all add: pop_ready_def push_ready_def)
  have wait: "\<not> pop_waits (po_threads s u)" "\<not> push_waits (po_threads s u)" for u
    using wait_covered[OF assms(3), of u] ready rest by blast+
  have role: "worker_state (po_threads s u) = (u < po_workers s)" for u using assms(2) by (simp add: roles_def)
  have workers: "po_threads s u = Exited" if "u < po_workers s" for u
    using rest[of u] wait[of u] role[of u] that by (cases "po_threads s u") simp_all
  moreover have "po_threads s u = Outside" if "\<not> u < po_workers s" for u
  proof (cases "po_threads s u")
    case Joining
    then show ?thesis using pool_step.joined[of s u] workers assms(4) by blast
  qed (use rest[of u] wait[of u] role[of u] that in simp_all)
  ultimately show ?thesis by simp
qed

text \<open>
  C14. A pool that is shut down comes to rest: once the queue is closed, at most \<open>pool_weight\<close> steps and spurious wakeups
  happen until the next call.  When the threads can make no step any more, and without the help of
  spurious wakeups, every worker has returned and so has every call, \<^verbatim>\<open>shutdown\<close> too; and if the pool has
  workers, the queue is empty and every item that was accepted has been handled.
\<close>

theorem pool_shuts_down:
  assumes "pool_run workers capacity s" and "bq_closed (po_queue s)" and "(pool_moves ^^ n) s s'"
  shows "n \<le> pool_weight s
    \<and> ((\<forall>s''. \<not> pool_step s' s'') \<longrightarrow> (\<forall>t. po_threads s' t = (if t < workers then Exited else Outside))
         \<and> (0 < workers \<longrightarrow> bq_items (po_queue s') = [] \<and> mset (po_handled s') = mset (po_accepted s')))"
proof -
  have s': "pool_run workers capacity s'" "bq_closed (po_queue s')" "n \<le> pool_weight s"
    using closed_moves[OF assms(3,1,2)] by auto
  have inv: "po_inv s'" "po_workers s' = workers" using pool_run_inv[OF s'(1)] by auto
  have "roles s'" using inv by (simp add: po_inv_def)
  then have t: "po_threads s' t = (if t < workers then Exited else Outside)" if "\<forall>s''. \<not> pool_step s' s''" for t
    using closed_rest[OF s'(2) _ pool_run_wake[OF s'(1)] that] inv(2) by simp
  have "bq_items (po_queue s') = [] \<and> mset (po_handled s') = mset (po_accepted s')"
    if "\<forall>t. po_threads s' t = (if t < workers then Exited else Outside)" "0 < workers"
  proof -
    have "hands workers (po_threads s') = {#}" using that by (simp add: hands_def)
    moreover have "bq_items (po_queue s') = []" using po_invD(6)[OF inv(1), of 0] that by simp
    ultimately show ?thesis using po_invD(2,4)[OF inv(1)] inv(2) by simp
  qed
  then show ?thesis using s'(3) t by blast
qed

section \<open>Examples\<close>

text \<open>Two workers wait; an item is submitted; one of them is woken up.\<close>

definition ex_pool :: "(nat \<Rightarrow> nat thread) \<Rightarrow> nat list \<Rightarrow> bool \<Rightarrow> nat list \<Rightarrow> nat list \<Rightarrow> nat list \<Rightarrow> nat pool" where
  "ex_pool ths items closed accepted popped handled =
     \<lparr>po_queue = \<lparr>bq_items = items, bq_capacity = 1, bq_closed = closed\<rparr>, po_workers = 2, po_threads = ths,
      po_accepted = accepted, po_popped = popped, po_handled = handled\<rparr>"

definition ex_threads :: "nat thread \<Rightarrow> nat thread \<Rightarrow> nat thread \<Rightarrow> nat \<Rightarrow> nat thread" where
  "ex_threads a b c = (\<lambda>t. Outside)(0 := a, 1 := b, 2 := c)"

lemma ex_threads_sel [simp]: "ex_threads a b c 0 = a" "ex_threads a b c (Suc 0) = b" "ex_threads a b c 2 = c"
  and ex_threads_upd [simp]: "(ex_threads a b c)(0 := x) = ex_threads x b c" "(ex_threads a b c)(Suc 0 := x) = ex_threads a x c"
    "(ex_threads a b c)(2 := x) = ex_threads a b x"
  by (auto simp: ex_threads_def)

lemma ex_pool_woken: "pool_run 2 1 (ex_pool (ex_threads Popping Pop_Waits Outside) [7] False [7] [] [])"
proof -
  have "WorkerPool_new 2 1 = ex_pool (ex_threads Popping Popping Outside) [] False [] [] []"
    by (auto simp: WorkerPool_new_def ex_pool_def ex_threads_def BoundedBlockingQueue_new_def less_2_cases_iff)
  moreover have "pool_run 2 1 (WorkerPool_new 2 1 :: nat pool)" by (rule pr_start)
  ultimately have "pool_run 2 1 (ex_pool (ex_threads Popping Popping Outside) [] False [] [] [])" by simp
  from pr_step[OF this pool_step.pop_wait[of _ 0]] have "pool_run 2 1 (ex_pool (ex_threads Pop_Waits Popping Outside) [] False [] [] [])"
    by (simp add: ex_pool_def pop_ready_def)
  from pr_step[OF this pool_step.pop_wait[of _ 1]] have "pool_run 2 1 (ex_pool (ex_threads Pop_Waits Pop_Waits Outside) [] False [] [] [])"
    by (simp add: ex_pool_def pop_ready_def)
  from pr_call[OF this pool_call.call_submit[of _ 2 7]] have "pool_run 2 1 (ex_pool (ex_threads Pop_Waits Pop_Waits (Pushing 7)) [] False [] [] [])"
    by (simp add: ex_pool_def)
  moreover have "notify_one pop_waits (ex_threads Pop_Waits Pop_Waits Outside) (ex_threads Popping Pop_Waits Outside)"
    unfolding notify_one_def by (intro disjI1 exI[of _ 0]) simp
  ultimately show ?thesis
    using pr_step[OF _ pool_step.push_accepted[of _ 2 7]] by (fastforce simp: ex_pool_def push_ready_def push_item_def)
qed

text \<open>Then the item is handled, the pool is shut down and its workers return.\<close>

lemma ex_pool_closed: "pool_run 2 1 (ex_pool (ex_threads Popping Popping Notify_Full) [] True [7] [7] [7])"
proof -
  have "notify_one push_waits (ex_threads (Handling 7) Pop_Waits Outside) (ex_threads (Handling 7) Pop_Waits Outside)"
    unfolding notify_one_def by (auto simp: ex_threads_def)
  then have "pool_run 2 1 (ex_pool (ex_threads (Handling 7) Pop_Waits Outside) [] False [7] [7] [])"
    using pr_step[OF ex_pool_woken pool_step.pop_some[of _ 0 7]] by (fastforce simp: ex_pool_def pop_ready_def pop_item_def)
  from pr_step[OF this pool_step.handler_done[of _ 0 7]] have "pool_run 2 1 (ex_pool (ex_threads Popping Pop_Waits Outside) [] False [7] [7] [7])"
    by (simp add: ex_pool_def)
  from pr_call[OF this pool_call.call_shutdown[of _ 2]] have "pool_run 2 1 (ex_pool (ex_threads Popping Pop_Waits Notify_Empty) [] True [7] [7] [7])"
    by (simp add: ex_pool_def close_queue_def)
  from pr_step[OF this pool_step.notify_empty[of _ 2]]
  have "pool_run 2 1 (ex_pool ((notify_all pop_waits (ex_threads Popping Pop_Waits Notify_Empty))(2 := Notify_Full)) [] True [7] [7] [7])"
    by (simp add: ex_pool_def)
  moreover have "(notify_all pop_waits (ex_threads Popping Pop_Waits Notify_Empty))(2 := Notify_Full) = ex_threads Popping Popping Notify_Full"
    by (auto simp: notify_all_def ex_threads_def)
  ultimately show ?thesis by simp
qed

lemma ex_pool_done: "pool_run 2 1 (ex_pool (ex_threads Exited Exited Notify_Full) [] True [7] [7] [7])"
proof -
  from pr_step[OF ex_pool_closed pool_step.pop_none[of _ 0]] have "pool_run 2 1 (ex_pool (ex_threads Exited Popping Notify_Full) [] True [7] [7] [7])"
    by (simp add: ex_pool_def pop_ready_def pop_item_def)
  from pr_step[OF this pool_step.pop_none[of _ 1]] show ?thesis by (simp add: ex_pool_def pop_ready_def pop_item_def)
qed

theorem pool_handles_each_once_witness:
  "\<exists>s. pool_run 2 1 s \<and> po_accepted s = [7 :: nat] \<and> mset (po_handled s) = mset (po_accepted s)"
  using pool_handles_each_once[OF ex_pool_done] ex_pool_done
  by (intro exI[of _ "ex_pool (ex_threads Exited Exited Notify_Full) [] True [7] [7] [7]"]) (simp add: ex_pool_def less_2_cases_iff)

text \<open>Two workers that wait for items: the pool is at rest.\<close>

lemma ex_pool_idle: "pool_run 2 1 (ex_pool (ex_threads Pop_Waits Pop_Waits Outside) [] False [] [] [])"
proof -
  have "WorkerPool_new 2 1 = ex_pool (ex_threads Popping Popping Outside) [] False [] [] []"
    by (auto simp: WorkerPool_new_def ex_pool_def ex_threads_def BoundedBlockingQueue_new_def less_2_cases_iff)
  moreover have "pool_run 2 1 (WorkerPool_new 2 1 :: nat pool)" by (rule pr_start)
  ultimately have "pool_run 2 1 (ex_pool (ex_threads Popping Popping Outside) [] False [] [] [])" by simp
  from pr_step[OF this pool_step.pop_wait[of _ 0]] have "pool_run 2 1 (ex_pool (ex_threads Pop_Waits Popping Outside) [] False [] [] [])"
    by (simp add: ex_pool_def pop_ready_def)
  from pr_step[OF this pool_step.pop_wait[of _ 1]] show ?thesis by (simp add: ex_pool_def pop_ready_def)
qed

lemma ex_threads_cases: "ex_threads a b c t = x \<Longrightarrow> x = a \<or> x = b \<or> x = c \<or> x = Outside"
  by (auto simp: ex_threads_def split: if_splits)

theorem pool_no_lost_wakeup_witness:
  "(\<forall>s'. \<not> pool_step (ex_pool (ex_threads Pop_Waits Pop_Waits Outside) [] False [] [] []) s')
   \<and> length [7 :: nat] \<le> card {u. ex_threads Popping Pop_Waits Outside u = Popping}"
proof -
  have "\<not> pool_step (ex_pool (ex_threads Pop_Waits Pop_Waits Outside) [] False [] [] []) s'" for s'
    by (auto elim!: pool_step.cases simp: ex_pool_def dest!: ex_threads_cases)
  moreover have "\<exists>t. ex_threads Popping Pop_Waits Outside t = Pop_Waits" by (rule exI[of _ "Suc 0"]) simp
  ultimately show ?thesis
    using pool_no_lost_wakeup[OF ex_pool_woken] pool_no_lost_wakeup[OF ex_pool_idle] by (simp add: ex_pool_def)
qed

theorem pool_shuts_down_witness:
  "(\<exists>s'. (pool_moves ^^ 1) (ex_pool (ex_threads Popping Popping Notify_Full) [] True [7] [7] [7]) s')
   \<and> 1 \<le> pool_weight (ex_pool (ex_threads Popping Popping Notify_Full) [] True [7] [7] [7])"
proof -
  let ?s = "ex_pool (ex_threads Popping Popping Notify_Full) [] True [7] [7] [7]"
  have "pool_step ?s (?s\<lparr>po_queue := po_queue ?s, po_threads := (po_threads ?s)(0 := Exited)\<rparr>)"
    by (rule pool_step.pop_none) (simp_all add: ex_pool_def pop_ready_def pop_item_def)
  then have m: "(pool_moves ^^ 1) ?s (?s\<lparr>po_queue := po_queue ?s, po_threads := (po_threads ?s)(0 := Exited)\<rparr>)"
    by (simp only: relpowp_1 pool_moves_def simp_thms)
  moreover have "bq_closed (po_queue ?s)" by (simp add: ex_pool_def)
  ultimately show ?thesis using pool_shuts_down[OF ex_pool_closed] by blast
qed

end
