(* ===== verification/Stream_Copy.thy ===== *)
theory Stream_Copy
  imports Event_Loop Byte_Stream Socket
begin

text \<open>
  \<^verbatim>\<open>src/apps/bidirectional_stream_copy.cc\<close>: the program that copies standard input to a socket and the socket to
  standard output, as a behaviour of the event loop of \<^verbatim>\<open>eventloop.cc\<close>.  The system calls are parameters:
  each callback has the outcomes of its calls.  Output to \<^verbatim>\<open>cerr\<close> is left out.
\<close>

section \<open>The program\<close>

definition buffer_size :: u64 where
  "buffer_size = 1048576"

text \<open>The outcomes of the calls of one callback; which of them are made depends on the callback.\<close>

record copy_outcomes =
  co_read :: "bytes syscall"
  co_write :: "int syscall"
  co_shutdown :: "int syscall"
  co_close :: "int syscall"

text \<open>
  The local variables that the functions of the rules refer to.  \<open>re_source\<close> and \<open>re_sink\<close> record what was read
  from, and written to, the outside in the two directions; the program does not have them.
\<close>

record relay =
  re_stream :: byte_stream
  re_shutdown :: bool
  re_source :: bytes
  re_sink :: bytes

record copy_world =
  cw_outbound :: relay
  cw_inbound :: relay
  cw_outcomes :: "nat \<Rightarrow> copy_outcomes"
  cw_calls :: nat

definition input_fd :: nat where
  "input_fd = 0"

definition socket_fd :: nat where
  "socket_fd = 1"

definition output_fd :: nat where
  "output_fd = 2"

text \<open>What the two rules of a direction do to its stream: reading from the descriptor, and writing to it.\<close>

definition fill :: "copy_outcomes \<Rightarrow> relay \<times> fd_wrapper \<Rightarrow> (relay \<times> fd_wrapper) result" where
  "fill oc rw =
     (let r = fst rw; data = str_resize (unat (available_capacity (re_stream r))) [] in
      rbind (FD_read data (co_read oc) (snd rw)) (\<lambda>(data, w).
      let s = Writer_push data (re_stream r);
          s = (if fw_eof w then Writer_close s else s)
      in Inr (r\<lparr>re_stream := s, re_source := re_source r @ data\<rparr>, w)))"

definition empty_front :: "copy_outcomes \<Rightarrow> relay \<times> fd_wrapper \<Rightarrow> (relay \<times> fd_wrapper) result" where
  "empty_front oc rw =
     (let r = fst rw in
      if bytes_buffered (re_stream r) = 0 then Inr rw
      else rbind (Reader_peek (re_stream r)) (\<lambda>view.
           rbind (FD_write view (co_write oc) (snd rw)) (\<lambda>(n, w).
           rbind (Reader_pop (of_int n) (re_stream r)) (\<lambda>s.
           Inr (r\<lparr>re_stream := s, re_sink := re_sink r @ take (nat n) view\<rparr>, w)))))"

definition copy_from_outbound :: "copy_outcomes \<Rightarrow> relay \<times> fd_wrapper \<Rightarrow> (relay \<times> fd_wrapper) result" where
  "copy_from_outbound oc rw =
     rbind (empty_front oc rw) (\<lambda>(r, w).
     if is_finished (re_stream r)
     then rbind (Socket_shutdown SHUT_WR (co_shutdown oc) w) (\<lambda>w. Inr (r\<lparr>re_shutdown := True\<rparr>, w))
     else Inr (r, w))"

definition copy_from_inbound :: "copy_outcomes \<Rightarrow> relay \<times> fd_wrapper \<Rightarrow> (relay \<times> fd_wrapper) result" where
  "copy_from_inbound oc rw =
     rbind (empty_front oc rw) (\<lambda>(r, w).
     if is_finished (re_stream r)
     then rbind (FD_close (co_close oc) w) (\<lambda>w. Inr (r\<lparr>re_shutdown := True\<rparr>, w))
     else Inr (r, w))"

text \<open>The functions of the four rules, which have the numbers 0 to 3.\<close>

definition on_outbound :: "(copy_outcomes \<Rightarrow> relay \<times> fd_wrapper \<Rightarrow> (relay \<times> fd_wrapper) result) \<Rightarrow> nat \<Rightarrow> copy_world el_context \<Rightarrow> copy_world el_context result" where
  "on_outbound f fd c =
     (let w = el_world c in
      rbind (f (cw_outcomes w (cw_calls w)) (cw_outbound w, el_fds c fd)) (\<lambda>(r, desc).
      Inr (c\<lparr>el_world := w\<lparr>cw_outbound := r, cw_calls := cw_calls w + 1\<rparr>, el_fds := (el_fds c)(fd := desc)\<rparr>)))"

definition on_inbound :: "(copy_outcomes \<Rightarrow> relay \<times> fd_wrapper \<Rightarrow> (relay \<times> fd_wrapper) result) \<Rightarrow> nat \<Rightarrow> copy_world el_context \<Rightarrow> copy_world el_context result" where
  "on_inbound f fd c =
     (let w = el_world c in
      rbind (f (cw_outcomes w (cw_calls w)) (cw_inbound w, el_fds c fd)) (\<lambda>(r, desc).
      Inr (c\<lparr>el_world := w\<lparr>cw_inbound := r, cw_calls := cw_calls w + 1\<rparr>, el_fds := (el_fds c)(fd := desc)\<rparr>)))"

definition copy_step :: "nat \<Rightarrow> copy_world el_context \<Rightarrow> copy_world el_context result" where
  "copy_step i =
     (if i = 0 then on_outbound fill input_fd
      else if i = 1 then on_outbound copy_from_outbound socket_fd
      else if i = 2 then on_inbound fill socket_fd
      else on_inbound copy_from_inbound output_fd)"

definition wants_source :: "relay \<Rightarrow> relay \<Rightarrow> bool" where
  "wants_source r other \<longleftrightarrow> \<not> has_error (re_stream r) \<and> \<not> has_error (re_stream other)
     \<and> available_capacity (re_stream r) > 0 \<and> \<not> is_closed (re_stream r)"

definition wants_sink :: "relay \<Rightarrow> bool" where
  "wants_sink r \<longleftrightarrow> bytes_buffered (re_stream r) \<noteq> 0 \<or> is_finished (re_stream r) \<and> \<not> re_shutdown r"

definition close_relay :: "relay \<Rightarrow> relay" where
  "close_relay r = r\<lparr>re_stream := Writer_close (re_stream r)\<rparr>"

definition fail_relay :: "relay \<Rightarrow> relay" where
  "fail_relay r = r\<lparr>re_stream := set_error (re_stream r)\<rparr>"

definition copy_rules :: "(copy_world, unit) el_behaviour" where
  "copy_rules = \<lparr>
     bh_interest = (\<lambda>i c. let w = el_world c in
       if i = 0 then wants_source (cw_outbound w) (cw_inbound w) else if i = 1 then wants_sink (cw_outbound w)
       else if i = 2 then wants_source (cw_inbound w) (cw_outbound w) else wants_sink (cw_inbound w)),
     bh_callback = (\<lambda>i l. rbind (copy_step i (el_context l)) (\<lambda>c. Inr (l\<lparr>el_context := c\<rparr>))),
     bh_cancel = (\<lambda>i c. let w = el_world c in
       Inr (c\<lparr>el_world := if i \<le> 1 then w\<lparr>cw_outbound := close_relay (cw_outbound w)\<rparr> else w\<lparr>cw_inbound := close_relay (cw_inbound w)\<rparr>\<rparr>)),
     bh_error = (\<lambda>i c. let w = el_world c in
       Inr (c\<lparr>el_world := w\<lparr>cw_outbound := fail_relay (cw_outbound w), cw_inbound := fail_relay (cw_inbound w)\<rparr>\<rparr>))\<rparr>"

text \<open>
  The set-up: the outcomes of \<^verbatim>\<open>fcntl\<close> for standard input and output, and of the two calls of
  \<^verbatim>\<open>set_blocking\<close> for each of the three descriptors.
\<close>

definition relay_new :: relay where
  "relay_new = \<lparr>re_stream = ByteStream_new buffer_size, re_shutdown = False, re_source = [], re_sink = []\<rparr>"

definition stream_copy_init :: "int syscall \<Rightarrow> int syscall \<Rightarrow> (nat \<Rightarrow> int syscall) \<Rightarrow> (nat \<Rightarrow> int \<Rightarrow> int syscall) \<Rightarrow> (nat \<Rightarrow> copy_outcomes)
    \<Rightarrow> fd_wrapper \<Rightarrow> copy_world event_loop result" where
  "stream_copy_init getfl_in getfl_out getfl setfl ocs socket =
     rbind (FDWrapper_new 0 getfl_in) (\<lambda>input.
     rbind (FDWrapper_new 1 getfl_out) (\<lambda>output.
     rbind (FD_set_blocking False (getfl socket_fd) (setfl socket_fd) socket) (\<lambda>socket.
     rbind (FD_set_blocking False (getfl input_fd) (setfl input_fd) input) (\<lambda>input.
     rbind (FD_set_blocking False (getfl output_fd) (setfl output_fd) output) (\<lambda>output.
     let c = \<lparr>el_fds = (\<lambda>i. if i = input_fd then input else if i = socket_fd then socket else output), el_cancel_requested = (\<lambda>i. False),
              el_world = \<lparr>cw_outbound = relay_new, cw_inbound = relay_new, cw_outcomes = ocs, cw_calls = 0\<rparr>\<rparr> in
     rbind (add_poll_rule ''read from stdin into outbound byte stream'' input_fd In (EventLoop_new c)) (\<lambda>l.
     rbind (add_poll_rule ''read from outbound byte stream into socket'' socket_fd Out l) (\<lambda>l.
     rbind (add_poll_rule ''read from socket into inbound byte stream'' socket_fd In l) (\<lambda>l.
     add_poll_rule ''read from inbound byte stream into stdout'' output_fd Out l))))))))"

text \<open>
  The loop, for the outcomes of \<^verbatim>\<open>poll\<close> and \<^verbatim>\<open>getsockopt\<close> of its rounds: whether it has returned, and the state.
\<close>

type_synonym round_outcome = "((int \<times> u16) list \<Rightarrow> int \<Rightarrow> (int \<times> u16 list) syscall) \<times> (int \<Rightarrow> (int \<times> nat) syscall)"

fun stream_copy_loop :: "round_outcome list \<Rightarrow> copy_world event_loop \<Rightarrow> (bool \<times> copy_world event_loop) result" where
  "stream_copy_loop [] l = Inr (False, l)"
| "stream_copy_loop ((poll, sockopt) # rounds) l =
     rbind (wait_next_event copy_rules poll sockopt (-1) l) (\<lambda>(res, acts, l).
     if res = Exit then Inr (True, l) else stream_copy_loop rounds l)"

section \<open>What a relay keeps\<close>

text \<open>
  Everything that was read was written in the same order or is still buffered; when the direction was
  shut down, everything had been written.
\<close>

definition relay_ok :: "relay \<Rightarrow> bool" where
  "relay_ok r \<longleftrightarrow> bs_wf (re_stream r) \<and> bs_capacity (re_stream r) = buffer_size \<and> re_source r = re_sink r @ bs_content (re_stream r)
     \<and> (re_shutdown r \<longrightarrow> is_finished (re_stream r))"

lemma relay_ok_new: "relay_ok relay_new"
  by (simp add: relay_ok_def relay_new_def bs_wf_new) (simp add: ByteStream_new_def)

lemma relay_ok_told: "relay_ok r \<Longrightarrow> relay_ok (close_relay r)" "relay_ok r \<Longrightarrow> relay_ok (fail_relay r)"
  by (auto simp: relay_ok_def close_relay_def fail_relay_def Writer_close_def set_error_def is_finished_def)

lemma fill_ok:
  assumes "relay_ok r" and "available_capacity (re_stream r) \<noteq> 0" and "\<not> re_shutdown r" and "fill oc (r, w) = Inr (r', w')"
  shows "relay_ok r'"
proof -
  let ?s = "re_stream r"
  let ?n = "unat (available_capacity ?s)"
  have "str_resize ?n [] \<noteq> []" using assms(2) length_str_resize[of ?n "[]"] by (metis list.size(3) unat_eq_0)
  then have b: "FD_read_size (str_resize ?n []) = ?n" by (simp add: FD_read_size_def)
  obtain data where d: "FD_read (str_resize ?n []) (co_read oc) w = Inr (data, w')"
    and r': "r' = r\<lparr>re_stream := if fw_eof w' then Writer_close (Writer_push data ?s) else Writer_push data ?s, re_source := re_source r @ data\<rparr>"
    using assms(4) by (auto simp: fill_def Let_def rbind_Inr_iff)
  have "length data \<le> ?n" using d b by (cases "co_read oc") (auto simp: Let_def split: if_splits)
  moreover have "bs_wf ?s" using assms(1) by (simp add: relay_ok_def)
  ultimately have "bs_wf (Writer_push data ?s)" "bs_content (Writer_push data ?s) = bs_content ?s @ data"
    using Writer_push_ok[of ?s data] by simp_all
  then show ?thesis using assms(1,3) r' by (auto simp: relay_ok_def Writer_close_def)
qed

text \<open>The kernel takes a number of bytes that is not negative.\<close>

definition write_ok :: "copy_outcomes \<Rightarrow> bool" where
  "write_ok oc = (case co_write oc of Returned n \<Rightarrow> 0 \<le> n | Failed errno \<Rightarrow> True)"

lemma empty_front_ok:
  assumes "relay_ok r" and "empty_front oc (r, w) = Inr (r', w')" and "write_ok oc"
  shows "relay_ok r' \<and> re_shutdown r' = re_shutdown r"
proof (cases "bytes_buffered (re_stream r) = 0")
  case True
  then show ?thesis using assms by (simp add: empty_front_def)
next
  case False
  let ?s = "re_stream r"
  have wf: "bs_wf ?s" using assms(1) by (simp add: relay_ok_def)
  then have c: "bs_content ?s \<noteq> []" using False by (simp add: bytes_buffered_eq_0_iff)
  then obtain view rest where v: "Reader_peek ?s = Inr view" "bs_content ?s = view @ rest" using Reader_peek_ok[OF wf] by auto
  from assms(2) v(1) False obtain n where n: "FD_write view (co_write oc) w = Inr (n, w')"
    by (auto simp: empty_front_def Let_def rbind_Inr_iff)
  obtain s' where s': "Reader_pop (of_int n) ?s = Inr s'" "bs_wf s'" "bs_capacity s' = bs_capacity ?s" "bs_content s' = drop (unat (of_int n :: u64)) (bs_content ?s)"
    using Reader_pop_ok[OF wf, of "of_int n"] by (auto simp: bs_frame_def)
  with assms(2) v(1) False n have r': "r' = r\<lparr>re_stream := s', re_sink := re_sink r @ take (nat n) view\<rparr>"
    by (simp add: empty_front_def)
  have "0 \<le> n" "n \<le> int (length view)" using n assms(3)
    by (cases "co_write oc"; auto simp: FD_write_def FD_writev_def Let_def write_ok_def split: if_splits)+
  moreover have "length view < 2 ^ 64" using bs_wf_length[OF wf] v(2) by simp
  ultimately have u: "unat (of_int n :: u64) = nat n" and le: "nat n \<le> length view"
    by (simp_all add: unsigned_of_int take_bit_int_eq_self)
  have "\<not> re_shutdown r" using assms(1) c wf is_finished_iff by (auto simp: relay_ok_def)
  then show ?thesis using assms(1) r' s'(2-4) u le v(2) by (simp add: relay_ok_def)
qed

lemma copy_from_ok:
  assumes "relay_ok r" and "write_ok oc"
  shows "copy_from_outbound oc (r, w) = Inr (r', w') \<Longrightarrow> relay_ok r'"
    and "copy_from_inbound oc (r, w) = Inr (r', w') \<Longrightarrow> relay_ok r'"
  using empty_front_ok[OF assms(1) _ assms(2), of w]
  by (auto simp: copy_from_outbound_def copy_from_inbound_def rbind_Inr_iff relay_ok_def split: if_splits)

section \<open>Runs of the program\<close>

definition copy_ok :: "copy_world el_context \<Rightarrow> bool" where
  "copy_ok c \<longleftrightarrow> relay_ok (cw_outbound (el_world c)) \<and> relay_ok (cw_inbound (el_world c)) \<and> (\<forall>n. write_ok (cw_outcomes (el_world c) n))"

text \<open>Cancel and error functions only close streams and mark them: the room in them and the flags stay.\<close>

definition relay_frame :: "relay \<Rightarrow> u64 \<times> u64 \<times> bool" where
  "relay_frame r = (available_capacity (re_stream r), bytes_buffered (re_stream r), re_shutdown r)"

lemma relay_frame_told [simp]: "relay_frame (close_relay r) = relay_frame r" "relay_frame (fail_relay r) = relay_frame r"
  by (simp_all add: relay_frame_def close_relay_def fail_relay_def Writer_close_def set_error_def available_capacity_def bytes_buffered_def)

lemma copy_told:
  "told copy_rules c c' \<Longrightarrow> relay_frame (cw_outbound (el_world c')) = relay_frame (cw_outbound (el_world c))
    \<and> relay_frame (cw_inbound (el_world c')) = relay_frame (cw_inbound (el_world c))"
  by (induction rule: told.induct) (auto simp: copy_rules_def Let_def split: if_splits)

lemma copy_interest [simp]:
  "bh_interest copy_rules 0 c = wants_source (cw_outbound (el_world c)) (cw_inbound (el_world c))"
  "bh_interest copy_rules (Suc 0) c = wants_sink (cw_outbound (el_world c))"
  "bh_interest copy_rules 2 c = wants_source (cw_inbound (el_world c)) (cw_outbound (el_world c))"
  "bh_interest copy_rules 3 c = wants_sink (cw_inbound (el_world c))"
  by (simp_all add: copy_rules_def Let_def)

lemma wants_source_room:
  assumes "relay_ok r" and "wants_source r other" and "relay_frame r' = relay_frame r"
  shows "available_capacity (re_stream r') \<noteq> 0 \<and> \<not> re_shutdown r'"
  using assms by (auto simp: relay_frame_def wants_source_def relay_ok_def is_finished_def is_closed_def)

lemma on_outbound_ok:
  assumes "on_outbound f fd c = Inr c'" and "copy_ok c"
    and "\<And>oc w r' w'. write_ok oc \<Longrightarrow> f oc (cw_outbound (el_world c), w) = Inr (r', w') \<Longrightarrow> relay_ok r'"
  shows "copy_ok c'"
  using assms(1,2) assms(3)[of "cw_outcomes (el_world c) (cw_calls (el_world c))" "el_fds c fd"]
  by (cases "f (cw_outcomes (el_world c) (cw_calls (el_world c))) (cw_outbound (el_world c), el_fds c fd)")
    (auto simp: on_outbound_def Let_def copy_ok_def)

lemma on_inbound_ok:
  assumes "on_inbound f fd c = Inr c'" and "copy_ok c"
    and "\<And>oc w r' w'. write_ok oc \<Longrightarrow> f oc (cw_inbound (el_world c), w) = Inr (r', w') \<Longrightarrow> relay_ok r'"
  shows "copy_ok c'"
  using assms(1,2) assms(3)[of "cw_outcomes (el_world c) (cw_calls (el_world c))" "el_fds c fd"]
  by (cases "f (cw_outcomes (el_world c) (cw_calls (el_world c))) (cw_inbound (el_world c), el_fds c fd)")
    (auto simp: on_inbound_def Let_def copy_ok_def)

lemma copy_step_ok:
  assumes "copy_ok c" and "wanted copy_rules copy_ok i c" and "copy_step i c = Inr c'"
  shows "copy_ok c'"
proof -
  let ?out = "cw_outbound (el_world c)" and ?in = "cw_inbound (el_world c)"
  obtain c0 where c0: "copy_ok c0" "bh_interest copy_rules i c0" "told copy_rules c0 c"
    using assms(2) by (auto simp: wanted_def)
  have out: "available_capacity (re_stream ?out) \<noteq> 0 \<and> \<not> re_shutdown ?out" if "i = 0"
    using that c0(1,2) copy_told[OF c0(3)] wants_source_room[of "cw_outbound (el_world c0)" "cw_inbound (el_world c0)" ?out] by (simp add: copy_ok_def)
  have "in": "available_capacity (re_stream ?in) \<noteq> 0 \<and> \<not> re_shutdown ?in" if "i = 2"
    using that c0(1,2) copy_told[OF c0(3)] wants_source_room[of "cw_inbound (el_world c0)" "cw_outbound (el_world c0)" ?in] by (simp add: copy_ok_def)
  have ok: "relay_ok ?out" "relay_ok ?in" using assms(1) by (simp_all add: copy_ok_def)
  consider "i = 0" | "i = 1" | "i = 2" | "i \<noteq> 0" "i \<noteq> 1" "i \<noteq> 2" by blast
  then show ?thesis
  proof cases
    case 1
    then have "on_outbound fill input_fd c = Inr c'" using assms(3) by (simp add: copy_step_def)
    then show ?thesis by (rule on_outbound_ok[OF _ assms(1)]) (use fill_ok[OF ok(1)] out 1 in auto)
  next
    case 2
    then have "on_outbound copy_from_outbound socket_fd c = Inr c'" using assms(3) by (simp add: copy_step_def)
    then show ?thesis by (rule on_outbound_ok[OF _ assms(1)]) (rule copy_from_ok(1)[OF ok(1)])
  next
    case 3
    then have "on_inbound fill socket_fd c = Inr c'" using assms(3) by (simp add: copy_step_def)
    then show ?thesis by (rule on_inbound_ok[OF _ assms(1)]) (use fill_ok[OF ok(2)] "in" 3 in auto)
  next
    case 4
    then have "on_inbound copy_from_inbound output_fd c = Inr c'" using assms(3) by (simp add: copy_step_def)
    then show ?thesis by (rule on_inbound_ok[OF _ assms(1)]) (rule copy_from_ok(2)[OF ok(2)])
  qed
qed

lemma copy_rules_keep: "poll_keeps copy_rules copy_ok"
  unfolding poll_keeps_def
proof (intro conjI allI impI)
  fix i :: nat and l l' :: "copy_world event_loop"
  assume "copy_ok (el_context l) \<and> wanted copy_rules copy_ok i (el_context l) \<and> bh_callback copy_rules i l = Inr l'"
  then show "copy_ok (el_context l')" using copy_step_ok by (auto simp: copy_rules_def rbind_Inr_iff)
next
  fix i :: nat and c c' :: "copy_world el_context"
  assume "copy_ok c \<and> bh_cancel copy_rules i c = Inr c'"
  then show "copy_ok c'" by (auto simp: copy_rules_def Let_def copy_ok_def relay_ok_told)
next
  fix i :: nat and c c' :: "copy_world el_context"
  assume "copy_ok c \<and> bh_error copy_rules i c = Inr c'"
  then show "copy_ok c'" by (auto simp: copy_rules_def Let_def copy_ok_def relay_ok_told)
qed

lemma stream_copy_loop_ok:
  "stream_copy_loop rounds l = Inr (ended, l') \<Longrightarrow> copy_ok (el_context l) \<Longrightarrow> copy_ok (el_context l')"
  by (induction rounds l rule: stream_copy_loop.induct)
    (auto simp: rbind_Inr_iff split: if_splits dest: poll_round_keeps[OF copy_rules_keep])

definition relayed :: "relay \<Rightarrow> bool" where
  "relayed r \<longleftrightarrow> re_source r = re_sink r @ bs_content (re_stream r) \<and> length (bs_content (re_stream r)) \<le> 1048576
     \<and> (re_shutdown r \<longrightarrow> re_sink r = re_source r)"

lemma relay_ok_relayed: "relay_ok r \<Longrightarrow> relayed r"
  by (auto simp: relay_ok_def relayed_def bs_wf_def is_finished_iff buffer_size_def)

lemma idle_sink:
  assumes "relay_ok r" and "\<not> wants_sink r1" and "relay_frame r = relay_frame r1"
  shows "re_sink r = re_source r"
  using assms bytes_buffered_eq_0_iff[of "re_stream r"] by (auto simp: relay_ok_def wants_sink_def relay_frame_def)

lemma stream_copy_loop_exit:
  assumes "stream_copy_loop rounds l = Inr (True, l')" and "copy_ok (el_context l)"
  shows "\<forall>r\<in>set (el_fd_rules l'). \<exists>c1. \<not> bh_interest copy_rules (br_id r) c1 \<and> told copy_rules c1 (el_context l')"
  using assms
proof (induction rounds l rule: stream_copy_loop.induct)
  case (1 l)
  then show ?case by simp
next
  case (2 poll sockopt rounds l)
  then obtain res acts l1 where w: "wait_next_event copy_rules poll sockopt (-1) l = Inr (res, acts, l1)"
    and r: "if res = Exit then l1 = l' else stream_copy_loop rounds l1 = Inr (True, l')"
    by (auto simp: rbind_Inr_iff split: if_splits)
  show ?case
  proof (cases "res = Exit")
    case True
    then show ?thesis using exit_idle w r by simp
  next
    case False
    then show ?thesis using "2.IH"[OF False] r poll_round_keeps[OF copy_rules_keep w "2.prems"(2)] by simp
  qed
qed

lemma stream_copy_init_ok:
  assumes "stream_copy_init getfl_in getfl_out getfl setfl ocs socket = Inr l" and "\<forall>n. write_ok (ocs n)"
  shows "copy_ok (el_context l)"
  using assms relay_ok_new
  by (auto simp: stream_copy_init_def add_poll_rule_def add_category_def add_fd_rule_def new_rule_def EventLoop_new_def copy_ok_def
      rbind_Inr_iff Let_def split: if_splits)

text \<open>
  C10. The program relays both ways without loss: at any time, what it read from standard input is what it wrote to
  the socket followed by at most 1 MiB that is buffered, the same holds from the socket to standard
  output, and a direction is shut down only when everything was written.  When the program returns,
  nothing is left in a direction that was shut down or whose writing rule is still in the loop.
\<close>

theorem stream_copy_relays:
  assumes "stream_copy_init getfl_in getfl_out getfl setfl ocs socket = Inr l" and "\<forall>n. write_ok (ocs n)"
    and "stream_copy_loop rounds l = Inr (ended, l')"
  shows "relayed (cw_outbound (el_world (el_context l'))) \<and> relayed (cw_inbound (el_world (el_context l')))
    \<and> (ended \<longrightarrow> (\<forall>rule\<in>set (el_fd_rules l').
        (br_id rule = 1 \<longrightarrow> re_sink (cw_outbound (el_world (el_context l'))) = re_source (cw_outbound (el_world (el_context l'))))
        \<and> (br_id rule = 3 \<longrightarrow> re_sink (cw_inbound (el_world (el_context l'))) = re_source (cw_inbound (el_world (el_context l'))))))"
proof -
  note ok0 = stream_copy_init_ok[OF assms(1,2)]
  have ok: "relay_ok (cw_outbound (el_world (el_context l')))" "relay_ok (cw_inbound (el_world (el_context l')))"
    using stream_copy_loop_ok[OF assms(3) ok0] by (simp_all add: copy_ok_def)
  have "\<exists>c1. \<not> bh_interest copy_rules (br_id rule) c1 \<and> told copy_rules c1 (el_context l')" if "ended" "rule \<in> set (el_fd_rules l')" for rule
    using stream_copy_loop_exit[of rounds l l'] assms(3) ok0 that by simp
  then show ?thesis using ok relay_ok_relayed idle_sink copy_told by fastforce
qed

section \<open>A run\<close>

text \<open>Three bytes from standard input, then both sides end.\<close>

definition ex_outcomes :: "nat \<Rightarrow> copy_outcomes" where
  "ex_outcomes n = \<lparr>co_read = Returned (if n = 0 then [1, 2, 3] else []), co_write = Returned 3, co_shutdown = Returned 0, co_close = Returned 0\<rparr>"

definition ex_round :: "u16 list \<Rightarrow> round_outcome" where
  "ex_round revents = (\<lambda>entries timeout. Returned (1, revents), \<lambda>fd. Failed ENOTSOCK)"

definition ex_rounds :: "round_outcome list" where
  "ex_rounds = map ex_round [[POLLIN, 0, 0, 0], [0, POLLOUT, 0, 0], [POLLIN, 0, 0, 0], [POLLOUT, 0, 0], [0, POLLIN, 0], [0, POLLOUT], [0]]"

definition ex_socket :: fd_wrapper where
  "ex_socket = \<lparr>fw_fd = 5, fw_eof = False, fw_closed = False, fw_non_blocking = False, fw_read_count = 0, fw_write_count = 0\<rparr>"

definition ex_init :: "copy_world event_loop result" where
  "ex_init = stream_copy_init (Returned 2) (Returned 2) (\<lambda>i. Returned 2) (\<lambda>i flags. Returned 0) ex_outcomes ex_socket"

lemma read_size_resize [simp]: "FD_read_size (str_resize n []) = (if n = 0 then kReadBufferSize else n)"
  by (auto simp: FD_read_size_def str_resize_def)

lemmas init_simps = stream_copy_init_def FDWrapper_new_def FD_set_blocking_def ex_socket_def
  add_poll_rule_def add_category_def add_fd_rule_def new_rule_def EventLoop_new_def size64_def Let_def input_fd_def socket_fd_def output_fd_def
  relay_new_def ByteStream_new_def buffer_size_def O_NONBLOCK_def

lemmas round_simps = wait_next_event_def setup_loop_Cons fd_dead_def copy_rules_def wants_source_def wants_sink_def has_error_def
  available_capacity_def is_closed_def bytes_buffered_def is_finished_def direction_event_def POLLIN_def POLLOUT_def POLLERR_def POLLHUP_def POLLNVAL_def
  Let_def service_count_def copy_step_def on_outbound_def on_inbound_def fill_def empty_front_def copy_from_outbound_def copy_from_inbound_def
  ex_outcomes_def Writer_push_def Writer_close_def register_read_def register_write_def set_eof_def Reader_peek_def Reader_pop_def size64_def
  FD_write_def FD_writev_def Socket_shutdown_def FD_close_def close_relay_def input_fd_def socket_fd_def output_fd_def SHUT_RD_def SHUT_WR_def

lemma ex_copy_run: "\<exists>l l'. ex_init = Inr l \<and> stream_copy_loop ex_rounds l = Inr (True, l') \<and> map br_id (el_fd_rules l') = [1]
  \<and> re_source (cw_outbound (el_world (el_context l'))) = [1, 2, 3]
  \<and> re_sink (cw_outbound (el_world (el_context l'))) = [1, 2, 3] \<and> re_shutdown (cw_outbound (el_world (el_context l')))"
  by (simp add: ex_init_def init_simps ex_rounds_def ex_round_def) (simp add: round_simps)

theorem stream_copy_relays_witness:
  "\<exists>l l'. ex_init = Inr l \<and> stream_copy_loop ex_rounds l = Inr (True, l') \<and> relayed (cw_outbound (el_world (el_context l')))
     \<and> re_sink (cw_outbound (el_world (el_context l'))) = [1, 2, 3]"
proof -
  obtain l l' where r: "ex_init = Inr l" "stream_copy_loop ex_rounds l = Inr (True, l')" "map br_id (el_fd_rules l') = [1]"
    "re_source (cw_outbound (el_world (el_context l'))) = [1, 2, 3]" using ex_copy_run by (elim exE conjE) (rule that)
  have "\<forall>n. write_ok (ex_outcomes n)" by (simp add: write_ok_def ex_outcomes_def)
  from stream_copy_relays[OF r(1)[unfolded ex_init_def] this r(2)] r show ?thesis by auto
qed

end
