(* ===== verification/Ethernet.thy ===== *)
theory Ethernet
  imports Parser
begin

text \<open>
  \<^verbatim>\<open>src/util/ethernet_header.hh\<close>, \<^verbatim>\<open>ethernet_header.cc\<close> and \<^verbatim>\<open>ethernet_frame.hh\<close>: Ethernet addresses
  (arrays of six bytes), the frame header and frames, with parsing and serialization.  The
  printable forms are in \<open>Summary\<close>.
\<close>

type_synonym ethernet_address = bytes

definition ETHERNET_BROADCAST :: ethernet_address where
  "ETHERNET_BROADCAST = [0xff, 0xff, 0xff, 0xff, 0xff, 0xff]"

definition ETHERNET_ZERO :: ethernet_address where
  "ETHERNET_ZERO = [0, 0, 0, 0, 0, 0]"

definition EthernetHeader_LENGTH :: u8 where
  "EthernetHeader_LENGTH = 14"

definition TYPE_IPv4 :: u16 where
  "TYPE_IPv4 = 0x800"

definition TYPE_ARP :: u16 where
  "TYPE_ARP = 0x806"

record ethernet_header =
  eh_dst :: ethernet_address
  eh_src :: ethernet_address
  eh_type :: u16

definition EthernetHeader_new :: ethernet_header where
  "EthernetHeader_new = \<lparr>eh_dst = ETHERNET_ZERO, eh_src = ETHERNET_ZERO, eh_type = 0\<rparr>"

definition EthernetHeader_parse :: "ethernet_header \<Rightarrow> parser \<Rightarrow> (ethernet_header \<times> parser) result" where
  "EthernetHeader_parse h p =
     rbind (Parser_octets (eh_dst h) p) (\<lambda>(dst, p).
     rbind (Parser_octets (eh_src h) p) (\<lambda>(src, p).
     rbind (Parser_integer (eh_type h) p) (\<lambda>(type, p).
       Inr (\<lparr>eh_dst = dst, eh_src = src, eh_type = type\<rparr>, p))))"

definition EthernetHeader_serialize :: "ethernet_header \<Rightarrow> serializer \<Rightarrow> serializer" where
  "EthernetHeader_serialize h s =
     (let s = Serializer_octets (eh_dst h) s;
          s = Serializer_octets (eh_src h) s
      in Serializer_integer (eh_type h) s)"

record ethernet_frame =
  ef_header :: ethernet_header
  ef_payload :: "bytes cpp_ref list"

definition EthernetFrame_new :: ethernet_frame where
  "EthernetFrame_new = \<lparr>ef_header = EthernetHeader_new, ef_payload = []\<rparr>"

definition EthernetFrame_parse :: "ethernet_frame \<Rightarrow> parser \<Rightarrow> (ethernet_frame \<times> parser) result" where
  "EthernetFrame_parse f p =
     rbind (EthernetHeader_parse (ef_header f) p) (\<lambda>(h, p).
     rbind (all_remaining p) (\<lambda>payload. Inr (\<lparr>ef_header = h, ef_payload = payload\<rparr>, p)))"

definition EthernetFrame_serialize :: "ethernet_frame \<Rightarrow> serializer \<Rightarrow> serializer" where
  "EthernetFrame_serialize f s =
     Serializer_refs (ef_payload f) (EthernetHeader_serialize (ef_header f) s)"

section \<open>Round trips\<close>

definition eh_valid :: "ethernet_header \<Rightarrow> bool" where
  "eh_valid h \<longleftrightarrow> length (eh_dst h) = 6 \<and> length (eh_src h) = 6"

definition eh_bytes :: "ethernet_header \<Rightarrow> bytes" where
  "eh_bytes h = eh_dst h @ eh_src h @ int_bytes (eh_type h)"

lemma EthernetHeader_parse_ok:
  assumes "eh_valid h" and "eh_valid old" and "pr_ok p (eh_bytes h @ d)"
  shows "\<exists>p'. EthernetHeader_parse old p = Inr (h, p') \<and> pr_ok p' d"
proof -
  obtain p1 where p1: "Parser_octets (eh_dst old) p = Inr (eh_dst h, p1)"
      "pr_ok p1 (eh_src h @ int_bytes (eh_type h) @ d)"
    using Parser_octets_ok [of p "eh_dst h" "eh_src h @ int_bytes (eh_type h) @ d"] assms
    by (auto simp: eh_bytes_def eh_valid_def)
  obtain p2 where p2: "Parser_octets (eh_src old) p1 = Inr (eh_src h, p2)" "pr_ok p2 (int_bytes (eh_type h) @ d)"
    using Parser_octets_ok [OF p1(2)] assms by (auto simp: eh_valid_def)
  obtain p3 where p3: "Parser_integer (eh_type old) p2 = Inr (eh_type h, p3)" "pr_ok p3 d"
    using Parser_integer_16 [OF p2(2)] by blast
  show ?thesis using p1(1) p2(1) p3 by (simp add: EthernetHeader_parse_def)
qed

interpretation ethernet: codec eh_valid eh_valid eh_bytes "\<lambda>h s. Inr (EthernetHeader_serialize h s)" EthernetHeader_parse
proof unfold_locales
  show "\<exists>p'. EthernetHeader_parse old p = Inr (h, p') \<and> pr_ok p' d"
    if "eh_valid h" "eh_valid old" "pr_ok p (eh_bytes h @ d)" for h old p d
    by (rule EthernetHeader_parse_ok [OF that])
qed (simp add: EthernetHeader_serialize_def eh_bytes_def Let_def)

lemma eh_valid_new: "eh_valid EthernetHeader_new"
  by (simp add: eh_valid_def EthernetHeader_new_def ETHERNET_ZERO_def)

text \<open>
  An Ethernet frame that is serialized, carried as bytes and parsed again has the same header,
  and its payload has the same bytes; parsing does not report an error.
\<close>

theorem ethernet_frame_roundtrip:
  assumes "length (eh_dst (ef_header f)) = 6" and "length (eh_src (ef_header f)) = 6"
    and "length (concat_refs (ef_payload f)) < 2 ^ 32"
  shows "\<exists>p f' p'. Parser_new (clone_payload (Serializer_finish (EthernetFrame_serialize f Serializer_new))) = Inr p \<and>
    EthernetFrame_parse EthernetFrame_new p = Inr (f', p') \<and> \<not> pr_error p' \<and>
    ef_header f' = ef_header f \<and> concat_refs (ef_payload f') = concat_refs (ef_payload f)"
proof -
  have v: "eh_valid (ef_header f)" using assms by (simp add: eh_valid_def)
  have "length (eh_bytes (ef_header f)) + length (concat_refs (ef_payload f)) < 2 ^ 64"
    using assms by (simp add: eh_bytes_def length_int_bytes)
  from ethernet.payload_roundtrip [OF v eh_valid_new this] show ?thesis
    by (auto simp: EthernetFrame_serialize_def EthernetFrame_parse_def EthernetFrame_new_def)
qed

theorem ethernet_frame_roundtrip_witness:
  "let f = \<lparr>ef_header = \<lparr>eh_dst = ETHERNET_BROADCAST, eh_src = [2, 0, 0, 0, 0, 1], eh_type = TYPE_ARP\<rparr>,
       ef_payload = [Borrowed [1, 2], Owned [3]]\<rparr>
   in \<exists>p f' p'. Parser_new (clone_payload (Serializer_finish (EthernetFrame_serialize f Serializer_new))) = Inr p \<and>
    EthernetFrame_parse EthernetFrame_new p = Inr (f', p') \<and> \<not> pr_error p' \<and>
    ef_header f' = ef_header f \<and> concat_refs (ef_payload f') = [1, 2, 3]"
  using ethernet_frame_roundtrip [of "\<lparr>ef_header = \<lparr>eh_dst = ETHERNET_BROADCAST, eh_src = [2, 0, 0, 0, 0, 1], eh_type = TYPE_ARP\<rparr>,
       ef_payload = [Borrowed [1, 2], Owned [3]]\<rparr>"]
  by (simp add: ETHERNET_BROADCAST_def concat_refs_eq)

end
