(* ===== verification/ARP_Table.thy ===== *)
theory ARP_Table
  imports Ethernet Timer
begin

text \<open>
  \<^verbatim>\<open>src/src/arp_table.hh\<close> and \<^verbatim>\<open>arp_table.cc\<close>: the cache of Ethernet addresses.  The
  \<^verbatim>\<open>unordered_map\<close> is an association list with distinct keys, in the order of some iteration.
\<close>

record arp_entry =
  ae_mac :: ethernet_address
  ae_ttl :: timer

type_synonym arp_table = "(u32 \<times> arp_entry) list"

definition ArpEntry_new :: arp_entry where
  "ArpEntry_new = \<lparr>ae_mac = ETHERNET_ZERO, ae_ttl = Timer_new ARP_ENTRY_TIMEOUT\<rparr>"

definition add_entry :: "u32 \<Rightarrow> ethernet_address \<Rightarrow> arp_table \<Rightarrow> arp_table" where
  "add_entry ip mac t =
     (let entry = (case map_of t ip of None \<Rightarrow> ArpEntry_new | Some e \<Rightarrow> e)
      in AList.update ip (entry\<lparr>ae_mac := mac, ae_ttl := Timer_start (ae_ttl entry)\<rparr>) t)"

definition remove_entry :: "u32 \<Rightarrow> arp_table \<Rightarrow> arp_table" where
  "remove_entry ip t = AList.delete ip t"

definition arp_lookup :: "u32 \<Rightarrow> arp_table \<Rightarrow> ethernet_address option \<times> arp_table" where
  "arp_lookup ip t =
     (case map_of t ip of
        None \<Rightarrow> (None, t)
      | Some e \<Rightarrow> if Timer_is_expired (ae_ttl e) then (None, AList.delete ip t)
                  else (Some (ae_mac e), t))"

fun ARPTable_tick :: "u64 \<Rightarrow> arp_table \<Rightarrow> arp_table" where
  "ARPTable_tick ms [] = []"
| "ARPTable_tick ms ((ip, e) # t) =
     (let e = e\<lparr>ae_ttl := Timer_tick ms (ae_ttl e)\<rparr>
      in if Timer_is_expired (ae_ttl e) then ARPTable_tick ms t else (ip, e) # ARPTable_tick ms t)"

section \<open>The table as a map\<close>

definition at_wf :: "arp_table \<Rightarrow> bool" where
  "at_wf t \<longleftrightarrow> distinct (map fst t) \<and>
     (\<forall>(ip, e) \<in> set t. tm_timeout_ms (ae_ttl e) = ARP_ENTRY_TIMEOUT \<and> tm_running (ae_ttl e)
        \<and> tm_elapsed_ms (ae_ttl e) < ARP_ENTRY_TIMEOUT)"

text \<open>What a lookup of an address sees: the Ethernet address and the age of the entry.\<close>

definition at_view :: "arp_table \<Rightarrow> u32 \<Rightarrow> (ethernet_address \<times> u64) option" where
  "at_view t ip = map_option (\<lambda>e. (ae_mac e, tm_elapsed_ms (ae_ttl e))) (map_of t ip)"

lemma at_wfD:
  assumes "at_wf t" and "map_of t ip = Some e"
  shows "tm_timeout_ms (ae_ttl e) = ARP_ENTRY_TIMEOUT" "tm_running (ae_ttl e)" "tm_elapsed_ms (ae_ttl e) < ARP_ENTRY_TIMEOUT"
    "\<not> Timer_is_expired (ae_ttl e)"
  using assms map_of_SomeD [OF assms(2)] by (auto simp: at_wf_def Timer_is_expired_def)

lemma at_wf_new [simp]: "at_wf []" "at_view [] ip = None"
  by (simp_all add: at_wf_def at_view_def)

lemma add_entry_ok:
  assumes "at_wf t"
  shows "at_wf (add_entry ip mac t)" and "at_view (add_entry ip mac t) ip = Some (mac, 0)"
    and "ip' \<noteq> ip \<Longrightarrow> at_view (add_entry ip mac t) ip' = at_view t ip'"
proof -
  let ?e = "case map_of t ip of None \<Rightarrow> ArpEntry_new | Some e \<Rightarrow> e"
  let ?n = "?e\<lparr>ae_mac := mac, ae_ttl := Timer_start (ae_ttl ?e)\<rparr>"
  have n: "tm_timeout_ms (ae_ttl ?n) = ARP_ENTRY_TIMEOUT" "tm_running (ae_ttl ?n)" "tm_elapsed_ms (ae_ttl ?n) = 0"
    using at_wfD(1) [OF assms]
    by (auto simp: Timer_start_def ArpEntry_new_def Timer_new_def split: option.splits)
  have eq: "add_entry ip mac t = AList.update ip ?n t" by (simp add: add_entry_def Let_def)
  show "at_wf (add_entry ip mac t)"
    using assms n alist_update_subset [of ip ?n t] unfolding eq at_wf_def
    by (auto simp: distinct_update ARP_ENTRY_TIMEOUT_def)
  show "at_view (add_entry ip mac t) ip = Some (mac, 0)"
    using n(3) unfolding eq at_view_def by (simp add: update_conv)
  show "ip' \<noteq> ip \<Longrightarrow> at_view (add_entry ip mac t) ip' = at_view t ip'"
    unfolding eq at_view_def by (simp add: update_conv)
qed

lemma arp_lookup_ok:
  assumes "at_wf t"
  shows "arp_lookup ip t = (map_option fst (at_view t ip), t)"
  using at_wfD(4) [OF assms] by (auto simp: arp_lookup_def at_view_def comp_def split: option.splits)

lemma remove_entry_ok:
  assumes "at_wf t"
  shows "at_wf (remove_entry ip t)" and "at_view (remove_entry ip t) ip' = (if ip' = ip then None else at_view t ip')"
proof -
  show "at_wf (remove_entry ip t)"
    using assms alist_delete_subset [of ip t] by (auto simp: at_wf_def remove_entry_def distinct_delete)
  show "at_view (remove_entry ip t) ip' = (if ip' = ip then None else at_view t ip')"
    by (simp add: remove_entry_def at_view_def delete_conv)
qed

lemma fst_ARPTable_tick: "fst ` set (ARPTable_tick ms t) \<subseteq> fst ` set t"
  by (induction ms t rule: ARPTable_tick.induct) (auto simp: Let_def)

lemma ARPTable_tick_ok:
  assumes "at_wf t"
  shows "at_wf (ARPTable_tick ms t) \<and>
    at_view (ARPTable_tick ms t) ip = (case at_view t ip of None \<Rightarrow> None | Some (mac, age) \<Rightarrow>
      if ARP_ENTRY_TIMEOUT \<le> age + ms then None else Some (mac, age + ms))"
  using assms
proof (induction ms t rule: ARPTable_tick.induct)
  case (2 ms ip' e t)
  have wf: "at_wf t" and fresh: "ip' \<notin> fst ` set t" and e: "tm_running (ae_ttl e)" "tm_timeout_ms (ae_ttl e) = ARP_ENTRY_TIMEOUT"
    using "2.prems" by (auto simp: at_wf_def)
  have notin: "ip' \<notin> fst ` set (ARPTable_tick ms t)" using fresh fst_ARPTable_tick [of ms t] by auto
  then have none: "at_view (ARPTable_tick ms t) ip' = None" by (simp add: at_view_def map_of_eq_None_iff)
  let ?e = "e\<lparr>ae_ttl := Timer_tick ms (ae_ttl e)\<rparr>"
  have ex: "Timer_is_expired (ae_ttl ?e) \<longleftrightarrow> ARP_ENTRY_TIMEOUT \<le> tm_elapsed_ms (ae_ttl e) + ms"
    using e by (simp add: timer_defs)
  have ih: "at_wf (ARPTable_tick ms t)" "at_view (ARPTable_tick ms t) ip = (case at_view t ip of None \<Rightarrow> None
      | Some (mac, age) \<Rightarrow> if ARP_ENTRY_TIMEOUT \<le> age + ms then None else Some (mac, age + ms))"
    using "2.IH" wf by auto
  have hd: "at_view ((ip', d) # t') ip = (if ip = ip' then Some (ae_mac d, tm_elapsed_ms (ae_ttl d)) else at_view t' ip)" for d t'
    by (simp add: at_view_def)
  have wf': "at_wf ((ip', ?e) # ARPTable_tick ms t)" if "\<not> Timer_is_expired (ae_ttl ?e)"
    using ih(1) notin e that by (auto simp: at_wf_def timer_defs)
  have view: "at_view (ARPTable_tick ms ((ip', e) # t)) ip = (if ip = ip'
      then if ARP_ENTRY_TIMEOUT \<le> tm_elapsed_ms (ae_ttl e) + ms then None else Some (ae_mac e, tm_elapsed_ms (ae_ttl e) + ms)
      else at_view (ARPTable_tick ms t) ip)"
    using ex none e by (simp add: Let_def hd) (simp add: timer_defs at_view_def)
  have "at_wf (ARPTable_tick ms ((ip', e) # t))" using ih(1) wf' by (simp add: Let_def)
  then show ?case using view ih(2) by (simp add: hd)
qed simp

section \<open>The contract of the cache\<close>

text \<open>What the network interface relies on, and the lifetime of an entry, which follows from it.\<close>

datatype cache_op = Learn u32 ethernet_address | Forget u32 | Ask u32 | Pass u64

fun time_of :: "cache_op \<Rightarrow> nat" where
  "time_of (Pass ms) = unat ms"
| "time_of _ = 0"

fun touches :: "u32 \<Rightarrow> cache_op \<Rightarrow> bool" where
  "touches ip (Learn ip' _) \<longleftrightarrow> ip' = ip"
| "touches ip (Forget ip') \<longleftrightarrow> ip' = ip"
| "touches ip _ \<longleftrightarrow> False"

fun cache_apply :: "(u32 \<Rightarrow> ethernet_address \<Rightarrow> 't \<Rightarrow> 't) \<Rightarrow> (u32 \<Rightarrow> 't \<Rightarrow> 't) \<Rightarrow>
    (u32 \<Rightarrow> 't \<Rightarrow> ethernet_address option \<times> 't) \<Rightarrow> (u64 \<Rightarrow> 't \<Rightarrow> 't) \<Rightarrow> cache_op \<Rightarrow> 't \<Rightarrow> 't" where
  "cache_apply add remove lookup tick (Learn ip mac) t = add ip mac t"
| "cache_apply add remove lookup tick (Forget ip) t = remove ip t"
| "cache_apply add remove lookup tick (Ask ip) t = snd (lookup ip t)"
| "cache_apply add remove lookup tick (Pass ms) t = tick ms t"

locale ttl_cache =
  fixes wf :: "'t \<Rightarrow> bool"
    and view :: "'t \<Rightarrow> u32 \<Rightarrow> (ethernet_address \<times> u64) option"
    and add :: "u32 \<Rightarrow> ethernet_address \<Rightarrow> 't \<Rightarrow> 't"
    and remove :: "u32 \<Rightarrow> 't \<Rightarrow> 't"
    and lookup :: "u32 \<Rightarrow> 't \<Rightarrow> ethernet_address option \<times> 't"
    and tick :: "u64 \<Rightarrow> 't \<Rightarrow> 't"
    and timeout :: u64
  assumes add: "wf t \<Longrightarrow> wf (add ip mac t)"
      "wf t \<Longrightarrow> view (add ip mac t) ip' = (if ip' = ip then Some (mac, 0) else view t ip')"
    and remove: "wf t \<Longrightarrow> wf (remove ip t)"
      "wf t \<Longrightarrow> view (remove ip t) ip' = (if ip' = ip then None else view t ip')"
    and lookup: "wf t \<Longrightarrow> lookup ip t = (map_option fst (view t ip), t)"
    and tick: "wf t \<Longrightarrow> wf (tick ms t)"
      "wf t \<Longrightarrow> view (tick ms t) ip = (case view t ip of None \<Rightarrow> None | Some (mac, age) \<Rightarrow>
         if timeout \<le> age + ms then None else Some (mac, age + ms))"
    and timeout: "0 < timeout"
begin

abbreviation apply_op :: "cache_op \<Rightarrow> 't \<Rightarrow> 't" where
  "apply_op \<equiv> cache_apply add remove lookup tick"

lemma apply_op_wf: "wf t \<Longrightarrow> wf (apply_op op t)"
  by (cases op) (simp_all add: add remove lookup tick)

lemma view_None: "wf t \<Longrightarrow> \<forall>op \<in> set ops. \<not> touches ip op \<Longrightarrow> view t ip = None \<Longrightarrow>
    wf (fold apply_op ops t) \<and> view (fold apply_op ops t) ip = None"
proof (induction ops arbitrary: t)
  case (Cons op ops)
  have "view (apply_op op t) ip = None"
    using Cons.prems by (cases op) (auto simp: add remove lookup tick)
  then show ?case using Cons by (simp add: apply_op_wf)
qed simp

lemma view_ages:
  assumes "wf t" and "\<forall>op \<in> set ops. \<not> touches ip op" and "view t ip = Some (mac, age)" and "age < timeout"
    and "unat age + sum_list (map time_of ops) < 2 ^ 64"
  shows "wf (fold apply_op ops t) \<and> map_option fst (view (fold apply_op ops t) ip) =
    (if unat age + sum_list (map time_of ops) < unat timeout then Some mac else None)"
  using assms
proof (induction ops arbitrary: t age)
  case Nil
  then show ?case by (simp add: word_less_nat_alt)
next
  case (Cons op ops)
  let ?age = "age + of_nat (time_of op)"
  have lt: "unat age + time_of op < 2 ^ 64" using Cons.prems(5) by simp
  then have un: "unat ?age = unat age + time_of op" by (simp add: unat_add_u64 unat_of_nat_u64)
  have v: "view (apply_op op t) ip = (if timeout \<le> ?age then None else Some (mac, ?age))"
    using Cons.prems(1-4) by (cases op) (auto simp: add remove lookup tick)
  show ?case
  proof (cases "timeout \<le> ?age")
    case True
    then have "unat timeout \<le> unat age + time_of op" using un by (simp add: word_le_nat_alt)
    then show ?thesis using True v view_None [of "apply_op op t" ops ip] Cons.prems by (simp add: apply_op_wf)
  next
    case False
    then have "?age < timeout" by simp
    then show ?thesis using Cons.IH [of "apply_op op t" ?age] v False Cons.prems un by (simp add: apply_op_wf add.assoc)
  qed
qed

lemma entry_lifetime:
  assumes "wf t" and "\<forall>op \<in> set ops. \<not> touches ip op" and "sum_list (map time_of ops) < 2 ^ 64"
  shows "fst (lookup ip (fold apply_op ops (add ip mac t))) =
    (if sum_list (map time_of ops) < unat timeout then Some mac else None)"
  using view_ages [of "add ip mac t" ops ip mac 0] assms timeout by (simp add: add lookup)

end

interpretation cache: ttl_cache at_wf at_view add_entry remove_entry arp_lookup ARPTable_tick ARP_ENTRY_TIMEOUT
  using add_entry_ok remove_entry_ok arp_lookup_ok ARPTable_tick_ok
  by unfold_locales (auto simp: ARP_ENTRY_TIMEOUT_def)

abbreviation cache_step :: "cache_op \<Rightarrow> arp_table \<Rightarrow> arp_table" where
  "cache_step \<equiv> cache_apply add_entry remove_entry arp_lookup ARPTable_tick"

text \<open>
  C39. A learned Ethernet address is known for thirty seconds and no longer: whatever else happens to
  the table (other addresses are learned, removed or looked up, time passes in any steps), a lookup
  of the address succeeds exactly while less than 30 s have passed since it was learned.
\<close>

theorem arp_entry_lifetime:
  assumes "at_wf t" and "\<forall>op \<in> set ops. \<not> touches ip op" and "sum_list (map time_of ops) < 2 ^ 64"
  shows "fst (arp_lookup ip (fold cache_step ops (add_entry ip mac t))) =
    (if sum_list (map time_of ops) < 30000 then Some mac else None)"
  using cache.entry_lifetime [OF assms, of mac] by (simp add: ARP_ENTRY_TIMEOUT_def)

theorem arp_entry_lifetime_witness:
  "fst (arp_lookup 7 (fold cache_step [Pass 20000, Learn 8 [1, 1, 1, 1, 1, 1], Pass 9999] (add_entry 7 [2, 2, 2, 2, 2, 2] [])))
     = Some [2, 2, 2, 2, 2, 2] \<and>
   fst (arp_lookup 7 (fold cache_step [Pass 20000, Ask 7, Pass 10000] (add_entry 7 [2, 2, 2, 2, 2, 2] []))) = None"
  using arp_entry_lifetime [of "[]" "[Pass 20000, Learn 8 [1, 1, 1, 1, 1, 1], Pass 9999]" 7 "[2, 2, 2, 2, 2, 2]"]
    arp_entry_lifetime [of "[]" "[Pass 20000, Ask 7, Pass 10000]" 7 "[2, 2, 2, 2, 2, 2]"]
  by simp

end
