(* ===== verification/ARP_Queue.thy ===== *)
theory ARP_Queue
  imports IPv4 Address Timer
begin

text \<open>
  \<^verbatim>\<open>src/src/arp_message_queue.hh\<close> and \<^verbatim>\<open>arp_message_queue.cc\<close>: the datagrams that wait for the
  Ethernet address of their next hop.  The \<^verbatim>\<open>unordered_map\<close> is an association list with distinct
  keys, in the order of some iteration.  The callback is the list of next hops that \<open>ARPQueue_tick\<close>
  hands to it, which is empty when none is registered.
\<close>

record pending_datagram =
  pd_dgram :: ipv4_datagram
  pd_next_hop :: address
  pd_timer :: timer

record arp_queue =
  aq_pending :: "(u32 \<times> pending_datagram list) list"
  aq_on_timeout :: bool

definition PendingDatagram_new :: pending_datagram where
  "PendingDatagram_new =
     \<lparr>pd_dgram = IPv4Datagram_new, pd_next_hop = from_ipv4_numeric 0, pd_timer = Timer_new ARP_REQUEST_TIMEOUT\<rparr>"

definition ARPQueue_new :: arp_queue where
  "ARPQueue_new = \<lparr>aq_pending = [], aq_on_timeout = False\<rparr>"

definition set_callback :: "arp_queue \<Rightarrow> arp_queue" where
  "set_callback q = q\<lparr>aq_on_timeout := True\<rparr>"

text \<open>The assignment of a datagram copies the references of its payload.\<close>

definition IPv4Datagram_copy :: "ipv4_datagram \<Rightarrow> ipv4_datagram" where
  "IPv4Datagram_copy dg = dg\<lparr>dg_payload := map Ref_copy (dg_payload dg)\<rparr>"

definition add_pending :: "ipv4_datagram \<Rightarrow> address \<Rightarrow> arp_queue \<Rightarrow> arp_queue result" where
  "add_pending dgram next_hop q =
     rbind (ipv4_numeric next_hop) (\<lambda>ip.
     let queue = (case map_of (aq_pending q) ip of None \<Rightarrow> [] | Some queue \<Rightarrow> queue);
         pending = PendingDatagram_new\<lparr>pd_dgram := IPv4Datagram_copy dgram, pd_next_hop := next_hop\<rparr>;
         pending = pending\<lparr>pd_timer := Timer_start (pd_timer pending)\<rparr>
     in Inr (q\<lparr>aq_pending := AList.update ip (queue @ [pending]) (aq_pending q)\<rparr>))"

definition pop_pending :: "u32 \<Rightarrow> arp_queue \<Rightarrow> pending_datagram list \<times> arp_queue" where
  "pop_pending ip q =
     (case map_of (aq_pending q) ip of
        None \<Rightarrow> ([], q)
      | Some out \<Rightarrow> (out, q\<lparr>aq_pending := AList.delete ip (aq_pending q)\<rparr>))"

definition has_pending :: "u32 \<Rightarrow> arp_queue \<Rightarrow> bool" where
  "has_pending ip q =
     (case map_of (aq_pending q) ip of None \<Rightarrow> False | Some queue \<Rightarrow> queue \<noteq> [])"

fun tick_loop :: "u64 \<Rightarrow> (u32 \<times> pending_datagram list) list \<Rightarrow> address list \<times> (u32 \<times> pending_datagram list) list" where
  "tick_loop ms [] = ([], [])"
| "tick_loop ms ((ip, []) # rest) = tick_loop ms rest"
| "tick_loop ms ((ip, head # tail) # rest) =
     (let head = head\<lparr>pd_timer := Timer_tick ms (pd_timer head)\<rparr>;
          (expired, kept) = tick_loop ms rest
      in if Timer_is_expired (pd_timer head) then (pd_next_hop head # expired, kept)
         else (expired, (ip, head # tail) # kept))"

definition ARPQueue_tick :: "u64 \<Rightarrow> arp_queue \<Rightarrow> address list \<times> arp_queue" where
  "ARPQueue_tick ms q =
     (let (expired, kept) = tick_loop ms (aq_pending q)
      in (if aq_on_timeout q then expired else [], q\<lparr>aq_pending := kept\<rparr>))"

definition ARPQueue_size :: "arp_queue \<Rightarrow> u64" where
  "ARPQueue_size q = fold (\<lambda>(_, queue) total. total + size64 queue) (aq_pending q) 0"

definition ARPQueue_empty :: "arp_queue \<Rightarrow> bool" where
  "ARPQueue_empty q \<longleftrightarrow> aq_pending q = []"

section \<open>The queue as a map\<close>

text \<open>
  Queues are not empty, their datagrams wait for the address they are filed under, and the head has
  waited for less than the timeout.
\<close>

definition queue_ok :: "u32 \<Rightarrow> pending_datagram list \<Rightarrow> bool" where
  "queue_ok ip queue \<longleftrightarrow> queue \<noteq> [] \<and>
     (\<forall>pd \<in> set queue. is_ipv4 (pd_next_hop pd) \<and> ad_ipv4 (pd_next_hop pd) = ip \<and> tm_running (pd_timer pd)
        \<and> tm_timeout_ms (pd_timer pd) = ARP_REQUEST_TIMEOUT \<and> tm_elapsed_ms (pd_timer pd) < ARP_REQUEST_TIMEOUT)
     \<and> (\<forall>pd \<in> set (tl queue). tm_elapsed_ms (pd_timer pd) = 0)"

definition aq_wf :: "arp_queue \<Rightarrow> bool" where
  "aq_wf q \<longleftrightarrow> distinct (map fst (aq_pending q)) \<and> (\<forall>(ip, queue) \<in> set (aq_pending q). queue_ok ip queue)"

definition waiting :: "arp_queue \<Rightarrow> u32 \<Rightarrow> ipv4_datagram list" where
  "waiting q ip = (case map_of (aq_pending q) ip of None \<Rightarrow> [] | Some queue \<Rightarrow> map pd_dgram queue)"

text \<open>How long the head of the queue for an address has waited.\<close>

definition waited :: "arp_queue \<Rightarrow> u32 \<Rightarrow> u64" where
  "waited q ip = (case map_of (aq_pending q) ip of Some (pd # _) \<Rightarrow> tm_elapsed_ms (pd_timer pd) | _ \<Rightarrow> 0)"

lemma aq_wf_new [simp]: "aq_wf ARPQueue_new" "waiting ARPQueue_new ip = []" "waited ARPQueue_new ip = 0"
  by (simp_all add: aq_wf_def ARPQueue_new_def waiting_def waited_def)

lemma aq_wfD: "aq_wf q \<Longrightarrow> map_of (aq_pending q) ip = Some queue \<Longrightarrow> queue_ok ip queue"
  by (auto simp: aq_wf_def dest: map_of_SomeD)

lemma waiting_Nil_iff: "aq_wf q \<Longrightarrow> waiting q ip = [] \<longleftrightarrow> map_of (aq_pending q) ip = None"
  using aq_wfD [of q ip] by (auto simp: waiting_def queue_ok_def split: option.splits)

lemma waited_none: "aq_wf q \<Longrightarrow> waiting q ip = [] \<Longrightarrow> waited q ip = 0"
  by (simp add: waiting_Nil_iff waited_def)

lemma waited_less: "aq_wf q \<Longrightarrow> waited q ip < ARP_REQUEST_TIMEOUT"
  using aq_wfD [of q ip]
  by (auto simp: waited_def ARP_REQUEST_TIMEOUT_def queue_ok_def split: option.splits list.splits)

lemma add_pending_ok:
  assumes "aq_wf q" and "is_ipv4 next_hop" and ip: "ip = ad_ipv4 next_hop"
  shows "\<exists>q'. add_pending dgram next_hop q = Inr q' \<and> aq_wf q' \<and> aq_on_timeout q' = aq_on_timeout q \<and>
    (\<forall>i. waiting q' i = (if i = ip then waiting q i @ [IPv4Datagram_copy dgram] else waiting q i)) \<and>
    (\<forall>i. waited q' i = waited q i)"
proof -
  let ?old = "case map_of (aq_pending q) ip of None \<Rightarrow> [] | Some queue \<Rightarrow> queue"
  let ?pd = "\<lparr>pd_dgram = IPv4Datagram_copy dgram, pd_next_hop = next_hop,
    pd_timer = Timer_start (Timer_new ARP_REQUEST_TIMEOUT)\<rparr>"
  let ?q = "q\<lparr>aq_pending := AList.update ip (?old @ [?pd]) (aq_pending q)\<rparr>"
  have "queue_ok ip (?old @ [?pd])"
    using aq_wfD [OF assms(1), of ip] assms(2,3)
    by (cases "map_of (aq_pending q) ip") (auto simp: queue_ok_def timer_defs ARP_REQUEST_TIMEOUT_def neq_Nil_conv)
  then have wf: "aq_wf ?q"
    using assms(1) alist_update_subset [of ip "?old @ [?pd]" "aq_pending q"] by (auto simp: aq_wf_def distinct_update)
  have w: "waiting ?q i = (if i = ip then waiting q i @ [IPv4Datagram_copy dgram] else waiting q i)" for i
    by (auto simp: waiting_def update_conv split: option.splits)
  have e: "waited ?q i = waited q i" for i
    by (auto simp: waited_def update_conv timer_defs split: option.splits list.splits)
  have "add_pending dgram next_hop q = Inr ?q"
    using assms(2) by (simp add: add_pending_def ip PendingDatagram_new_def Let_def)
  then show ?thesis using wf w e by simp
qed

lemma has_pending_iff: "aq_wf q \<Longrightarrow> has_pending ip q \<longleftrightarrow> waiting q ip \<noteq> []"
  by (simp add: has_pending_def waiting_def split: option.splits)

lemma pop_pending_ok:
  assumes "aq_wf q" and "pop_pending ip q = (out, q')"
  shows "map pd_dgram out = waiting q ip" "aq_wf q'" "aq_on_timeout q' = aq_on_timeout q"
    "waiting q' i = (if i = ip then [] else waiting q i)" "waited q' i = (if i = ip then 0 else waited q i)"
proof -
  show "aq_wf q'"
    using assms alist_delete_subset [of ip "aq_pending q"] by (auto simp: aq_wf_def pop_pending_def distinct_delete split: option.splits)
qed (use assms in \<open>auto simp: pop_pending_def waiting_def waited_def delete_conv split: option.splits\<close>)

definition expires :: "u64 \<Rightarrow> arp_queue \<Rightarrow> u32 \<Rightarrow> bool" where
  "expires ms q ip \<longleftrightarrow> waiting q ip \<noteq> [] \<and> ARP_REQUEST_TIMEOUT \<le> waited q ip + ms"

definition late :: "u64 \<Rightarrow> pending_datagram list \<Rightarrow> bool" where
  "late ms queue \<longleftrightarrow> ARP_REQUEST_TIMEOUT \<le> tm_elapsed_ms (pd_timer (hd queue)) + ms"

definition aged :: "u64 \<Rightarrow> pending_datagram list \<Rightarrow> pending_datagram list" where
  "aged ms queue = (hd queue)\<lparr>pd_timer := Timer_tick ms (pd_timer (hd queue))\<rparr> # tl queue"

lemma tick_loop_eq:
  assumes "\<forall>(ip, queue) \<in> set qs. queue_ok ip queue"
  shows "tick_loop ms qs =
    (map (\<lambda>(_, queue). pd_next_hop (hd queue)) (filter (\<lambda>(_, queue). late ms queue) qs),
     map (\<lambda>(ip, queue). (ip, aged ms queue)) (filter (\<lambda>(_, queue). \<not> late ms queue) qs))"
  using assms
proof (induction ms qs rule: tick_loop.induct)
  case (3 ms ip head tail rest)
  then have "queue_ok ip (head # tail)" by simp
  then have "Timer_is_expired (Timer_tick ms (pd_timer head)) \<longleftrightarrow> late ms (head # tail)"
    by (simp add: queue_ok_def timer_defs late_def)
  then show ?case using 3 by (simp add: Let_def aged_def)
qed (auto simp: queue_ok_def)

lemma aged_ok: "queue_ok ip queue \<Longrightarrow> \<not> late ms queue \<Longrightarrow> queue_ok ip (aged ms queue)"
  by (cases queue) (auto simp: queue_ok_def aged_def late_def timer_defs)

lemma map_of_filter_map:
  assumes "distinct (map fst xs)"
  shows "map_of (map (\<lambda>(k, v). (k, f v)) (filter (\<lambda>(_, v). P v) xs)) k =
    (case map_of xs k of None \<Rightarrow> None | Some v \<Rightarrow> if P v then Some (f v) else None)"
  using assms by (induction xs) (auto simp: map_of_eq_None_iff split: option.splits, force+)

lemma ARPQueue_tick_ok:
  assumes "aq_wf q" and "ARPQueue_tick ms q = (hops, q')"
  shows "aq_wf q'" "aq_on_timeout q' = aq_on_timeout q"
    "waiting q' i = (if expires ms q i then [] else waiting q i)"
    "waiting q i \<noteq> [] \<Longrightarrow> waited q' i = (if expires ms q i then 0 else waited q i + ms)"
    "\<forall>hop \<in> set hops. is_ipv4 hop" "distinct (map ad_ipv4 hops)"
    "ad_ipv4 ` set hops = (if aq_on_timeout q then {i. expires ms q i} else {})"
proof -
  let ?P = "aq_pending q"
  have wf: "distinct (map fst ?P)" "\<forall>(ip, queue) \<in> set ?P. queue_ok ip queue" using assms(1) by (simp_all add: aq_wf_def)
  have q': "q' = q\<lparr>aq_pending := map (\<lambda>(ip, queue). (ip, aged ms queue)) (filter (\<lambda>(_, queue). \<not> late ms queue) ?P)\<rparr>"
    and hops: "hops = (if aq_on_timeout q then map (\<lambda>(_, queue). pd_next_hop (hd queue)) (filter (\<lambda>(_, queue). late ms queue) ?P) else [])"
    using assms(2) tick_loop_eq [OF wf(2), of ms] by (simp_all add: ARPQueue_tick_def split: if_splits)
  have m: "map_of (aq_pending q') i = (case map_of ?P i of None \<Rightarrow> None | Some v \<Rightarrow> if \<not> late ms v then Some (aged ms v) else None)" for i
    using map_of_filter_map [OF wf(1), of "aged ms" "\<lambda>v. \<not> late ms v" i] by (simp add: q')
  have ex: "expires ms q i \<longleftrightarrow> (\<exists>v. map_of ?P i = Some v \<and> late ms v)" for i
    using aq_wfD [OF assms(1), of i]
    by (auto simp: expires_def waiting_def waited_def late_def queue_ok_def split: option.splits list.splits)
  have "map fst (aq_pending q') = map fst (filter (\<lambda>(_, queue). \<not> late ms queue) ?P)"
    by (simp add: q' comp_def case_prod_beta)
  then have "distinct (map fst (aq_pending q'))" using wf(1) by (simp add: distinct_map_filter)
  moreover have "\<forall>(ip, queue) \<in> set (aq_pending q'). queue_ok ip queue"
    using wf(2) aged_ok by (auto simp: q')
  ultimately show "aq_wf q'" by (simp add: aq_wf_def)
  show "aq_on_timeout q' = aq_on_timeout q" by (simp add: q')
  show "waiting q' i = (if expires ms q i then [] else waiting q i)"
    using aq_wfD [OF assms(1), of i]
    by (auto simp: waiting_def m ex aged_def queue_ok_def neq_Nil_conv split: option.splits)
  show "waited q' i = (if expires ms q i then 0 else waited q i + ms)" if "waiting q i \<noteq> []"
    using that aq_wfD [OF assms(1), of i]
    by (auto simp: waiting_def waited_def m ex aged_def queue_ok_def neq_Nil_conv timer_defs split: option.splits)
  have hop: "is_ipv4 (pd_next_hop (hd queue)) \<and> ad_ipv4 (pd_next_hop (hd queue)) = ip" if "(ip, queue) \<in> set ?P" for ip queue
    using wf(2) that by (auto simp: queue_ok_def)
  then show "\<forall>hop \<in> set hops. is_ipv4 hop" by (auto simp: hops)
  have h: "map ad_ipv4 hops = (if aq_on_timeout q then map fst (filter (\<lambda>(_, queue). late ms queue) ?P) else [])"
    using hop by (auto simp: hops)
  then show "distinct (map ad_ipv4 hops)" using wf(1) by (simp add: distinct_map_filter)
  have "{i. expires ms q i} = fst ` {(ip, queue). (ip, queue) \<in> set ?P \<and> late ms queue}"
    using wf(1) by (force simp: ex)
  then show "ad_ipv4 ` set hops = (if aq_on_timeout q then {i. expires ms q i} else {})"
    using arg_cong [OF h, of set] by (auto split: if_splits)
qed

end
