(* ===== verification/ARP_Message.thy ===== *)
theory ARP_Message
  imports Ethernet
begin

text \<open>
  \<^verbatim>\<open>src/util/arp_message.hh\<close> and \<^verbatim>\<open>arp_message.cc\<close>: ARP messages for Ethernet and IPv4.  Parsing
  refuses any other combination of types and sizes; serializing one throws.
\<close>

definition ARPMessage_LENGTH :: nat where
  "ARPMessage_LENGTH = 28"

definition TYPE_ETHERNET :: u16 where
  "TYPE_ETHERNET = 1"

definition OPCODE_REQUEST :: u16 where
  "OPCODE_REQUEST = 1"

definition OPCODE_REPLY :: u16 where
  "OPCODE_REPLY = 2"

record arp_message =
  arp_hardware_type :: u16
  arp_protocol_type :: u16
  arp_hardware_address_size :: u8
  arp_protocol_address_size :: u8
  arp_opcode :: u16
  arp_sender_ethernet_address :: ethernet_address
  arp_sender_ip_address :: u32
  arp_target_ethernet_address :: ethernet_address
  arp_target_ip_address :: u32

definition ARPMessage_new :: arp_message where
  "ARPMessage_new =
     \<lparr>arp_hardware_type = TYPE_ETHERNET, arp_protocol_type = TYPE_IPv4,
      arp_hardware_address_size = 6, arp_protocol_address_size = 4, arp_opcode = 0,
      arp_sender_ethernet_address = ETHERNET_ZERO, arp_sender_ip_address = 0,
      arp_target_ethernet_address = ETHERNET_ZERO, arp_target_ip_address = 0\<rparr>"

definition arp_supported :: "arp_message \<Rightarrow> bool" where
  "arp_supported m \<longleftrightarrow> arp_hardware_type m = TYPE_ETHERNET \<and> arp_protocol_type m = TYPE_IPv4
     \<and> arp_hardware_address_size m = 6 \<and> arp_protocol_address_size m = 4
     \<and> (arp_opcode m = OPCODE_REQUEST \<or> arp_opcode m = OPCODE_REPLY)"

definition ARPMessage_parse :: "arp_message \<Rightarrow> parser \<Rightarrow> (arp_message \<times> parser) result" where
  "ARPMessage_parse m p =
     rbind (Parser_integer (arp_hardware_type m) p) (\<lambda>(ht, p).
     rbind (Parser_integer (arp_protocol_type m) p) (\<lambda>(pt, p).
     rbind (Parser_integer (arp_hardware_address_size m) p) (\<lambda>(hs, p).
     rbind (Parser_integer (arp_protocol_address_size m) p) (\<lambda>(ps, p).
     rbind (Parser_integer (arp_opcode m) p) (\<lambda>(op, p).
       let m = m\<lparr>arp_hardware_type := ht, arp_protocol_type := pt, arp_hardware_address_size := hs,
                  arp_protocol_address_size := ps, arp_opcode := op\<rparr>
       in if \<not> arp_supported m then Inr (m, Parser_set_error p)
          else
            rbind (Parser_octets (arp_sender_ethernet_address m) p) (\<lambda>(se, p).
            rbind (Parser_integer (arp_sender_ip_address m) p) (\<lambda>(si, p).
            rbind (Parser_octets (arp_target_ethernet_address m) p) (\<lambda>(te, p).
            rbind (Parser_integer (arp_target_ip_address m) p) (\<lambda>(ti, p).
              Inr (m\<lparr>arp_sender_ethernet_address := se, arp_sender_ip_address := si,
                     arp_target_ethernet_address := te, arp_target_ip_address := ti\<rparr>, p))))))))))"

definition ARPMessage_serialize :: "arp_message \<Rightarrow> serializer \<Rightarrow> serializer result" where
  "ARPMessage_serialize m s =
     (if \<not> arp_supported m
      then Inl (Runtime_Error ''ARPMessage: unsupported field combination (must be Ethernet/IP, and request or reply)'')
      else
        let s = Serializer_integer (arp_hardware_type m) s;
            s = Serializer_integer (arp_protocol_type m) s;
            s = Serializer_integer (arp_hardware_address_size m) s;
            s = Serializer_integer (arp_protocol_address_size m) s;
            s = Serializer_integer (arp_opcode m) s;
            s = Serializer_octets (arp_sender_ethernet_address m) s;
            s = Serializer_integer (arp_sender_ip_address m) s;
            s = Serializer_octets (arp_target_ethernet_address m) s;
            s = Serializer_integer (arp_target_ip_address m) s
        in Inr s)"

section \<open>Round trip\<close>

definition arp_shape :: "arp_message \<Rightarrow> bool" where
  "arp_shape m \<longleftrightarrow> length (arp_sender_ethernet_address m) = 6 \<and> length (arp_target_ethernet_address m) = 6"

definition arp_valid :: "arp_message \<Rightarrow> bool" where
  "arp_valid m \<longleftrightarrow> arp_supported m \<and> arp_shape m"

definition arp_bytes :: "arp_message \<Rightarrow> bytes" where
  "arp_bytes m = int_bytes (arp_hardware_type m) @ int_bytes (arp_protocol_type m)
     @ [arp_hardware_address_size m, arp_protocol_address_size m] @ int_bytes (arp_opcode m)
     @ arp_sender_ethernet_address m @ int_bytes (arp_sender_ip_address m)
     @ arp_target_ethernet_address m @ int_bytes (arp_target_ip_address m)"

lemma length_arp_bytes: "arp_shape m \<Longrightarrow> length (arp_bytes m) = ARPMessage_LENGTH"
  by (simp add: arp_bytes_def arp_shape_def length_int_bytes ARPMessage_LENGTH_def)

text \<open>The fixed part of a message.\<close>

lemma ARPMessage_parse_fixed:
  assumes "pr_ok p (int_bytes ht @ int_bytes pt @ hs # ps # int_bytes op @ d)"
  shows "\<exists>p5. pr_ok p5 d \<and> ARPMessage_parse old p =
    (let m = old\<lparr>arp_hardware_type := ht, arp_protocol_type := pt, arp_hardware_address_size := hs,
                  arp_protocol_address_size := ps, arp_opcode := op\<rparr>
     in if \<not> arp_supported m then Inr (m, Parser_set_error p5)
        else rbind (Parser_octets (arp_sender_ethernet_address m) p5) (\<lambda>(se, p).
            rbind (Parser_integer (arp_sender_ip_address m) p) (\<lambda>(si, p).
            rbind (Parser_octets (arp_target_ethernet_address m) p) (\<lambda>(te, p).
            rbind (Parser_integer (arp_target_ip_address m) p) (\<lambda>(ti, p).
              Inr (m\<lparr>arp_sender_ethernet_address := se, arp_sender_ip_address := si,
                     arp_target_ethernet_address := te, arp_target_ip_address := ti\<rparr>, p))))))"
proof -
  obtain p1 where p1: "Parser_integer (arp_hardware_type old) p = Inr (ht, p1)"
      "pr_ok p1 (int_bytes pt @ hs # ps # int_bytes op @ d)"
    using Parser_integer_16 [OF assms] by blast
  obtain p2 where p2: "Parser_integer (arp_protocol_type old) p1 = Inr (pt, p2)" "pr_ok p2 (hs # ps # int_bytes op @ d)"
    using Parser_integer_16 [OF p1(2)] by blast
  obtain p3 where p3: "Parser_integer (arp_hardware_address_size old) p2 = Inr (hs, p3)" "pr_ok p3 (ps # int_bytes op @ d)"
    using Parser_integer_8 [OF p2(2)] by blast
  obtain p4 where p4: "Parser_integer (arp_protocol_address_size old) p3 = Inr (ps, p4)" "pr_ok p4 (int_bytes op @ d)"
    using Parser_integer_8 [OF p3(2)] by blast
  obtain p5 where p5: "Parser_integer (arp_opcode old) p4 = Inr (op, p5)" "pr_ok p5 d"
    using Parser_integer_16 [OF p4(2)] by blast
  show ?thesis
    by (rule exI [of _ p5]) (simp add: p5(2) ARPMessage_parse_def p1(1) p2(1) p3(1) p4(1) p5(1))
qed

lemma ARPMessage_parse_ok:
  assumes v: "arp_valid m" and sh: "arp_shape old" and p: "pr_ok p (arp_bytes m @ d)"
  shows "\<exists>p'. ARPMessage_parse old p = Inr (m, p') \<and> pr_ok p' d"
proof -
  let ?m = "old\<lparr>arp_hardware_type := arp_hardware_type m, arp_protocol_type := arp_protocol_type m,
    arp_hardware_address_size := arp_hardware_address_size m,
    arp_protocol_address_size := arp_protocol_address_size m, arp_opcode := arp_opcode m\<rparr>"
  let ?d = "arp_sender_ethernet_address m @ int_bytes (arp_sender_ip_address m)
     @ arp_target_ethernet_address m @ int_bytes (arp_target_ip_address m) @ d"
  obtain p5 where p5: "pr_ok p5 ?d" and eq: "ARPMessage_parse old p =
      (if \<not> arp_supported ?m then Inr (?m, Parser_set_error p5)
       else rbind (Parser_octets (arp_sender_ethernet_address old) p5) (\<lambda>(se, p).
            rbind (Parser_integer (arp_sender_ip_address old) p) (\<lambda>(si, p).
            rbind (Parser_octets (arp_target_ethernet_address old) p) (\<lambda>(te, p).
            rbind (Parser_integer (arp_target_ip_address old) p) (\<lambda>(ti, p).
              Inr (?m\<lparr>arp_sender_ethernet_address := se, arp_sender_ip_address := si,
                     arp_target_ethernet_address := te, arp_target_ip_address := ti\<rparr>, p))))))"
    using ARPMessage_parse_fixed [of p "arp_hardware_type m" "arp_protocol_type m" "arp_hardware_address_size m"
        "arp_protocol_address_size m" "arp_opcode m" ?d old] p by (auto simp: arp_bytes_def Let_def)
  obtain p6 where p6: "Parser_octets (arp_sender_ethernet_address old) p5 = Inr (arp_sender_ethernet_address m, p6)"
      "pr_ok p6 (int_bytes (arp_sender_ip_address m) @ arp_target_ethernet_address m @ int_bytes (arp_target_ip_address m) @ d)"
    using Parser_octets_ok [OF p5, of "arp_sender_ethernet_address old"] v sh by (auto simp: arp_valid_def arp_shape_def)
  obtain p7 where p7: "Parser_integer (arp_sender_ip_address old) p6 = Inr (arp_sender_ip_address m, p7)"
      "pr_ok p7 (arp_target_ethernet_address m @ int_bytes (arp_target_ip_address m) @ d)"
    using Parser_integer_32 [OF p6(2)] by blast
  obtain p8 where p8: "Parser_octets (arp_target_ethernet_address old) p7 = Inr (arp_target_ethernet_address m, p8)"
      "pr_ok p8 (int_bytes (arp_target_ip_address m) @ d)"
    using Parser_octets_ok [OF p7(2), of "arp_target_ethernet_address old"] v sh by (auto simp: arp_valid_def arp_shape_def)
  obtain p9 where p9: "Parser_integer (arp_target_ip_address old) p8 = Inr (arp_target_ip_address m, p9)" "pr_ok p9 d"
    using Parser_integer_32 [OF p8(2)] by blast
  have "arp_supported ?m" using v by (simp add: arp_valid_def arp_supported_def)
  then show ?thesis unfolding eq using p6(1) p7(1) p8(1) p9 by simp
qed

interpretation arp: codec arp_valid arp_shape arp_bytes ARPMessage_serialize ARPMessage_parse
proof unfold_locales
  show "\<exists>p'. ARPMessage_parse old p = Inr (m, p') \<and> pr_ok p' d"
    if "arp_valid m" "arp_shape old" "pr_ok p (arp_bytes m @ d)" for m old p d
    by (rule ARPMessage_parse_ok [OF that])
qed (simp add: ARPMessage_serialize_def arp_valid_def arp_bytes_def Let_def)

text \<open>
  ARP messages survive the wire, and only supported ones do: a message for Ethernet and IPv4
  with the opcode of a request or a reply is written as 28 bytes and read back unchanged; any other
  message cannot be serialized, and bytes that announce other types, sizes or opcodes are refused by
  the parser.
\<close>

theorem arp_message_roundtrip:
  assumes "length (arp_sender_ethernet_address m) = 6" and "length (arp_target_ethernet_address m) = 6"
  shows "if arp_supported m
    then \<exists>s p p'. ARPMessage_serialize m Serializer_new = Inr s \<and> length (sr_bytes s) = 28 \<and>
      Parser_new (clone_payload (Serializer_finish s)) = Inr p \<and>
      ARPMessage_parse ARPMessage_new p = Inr (m, p') \<and> \<not> pr_error p'
    else (\<exists>e. ARPMessage_serialize m Serializer_new = Inl e) \<and>
      (\<forall>p. pr_ok p (arp_bytes m) \<longrightarrow>
        (\<exists>m' p'. ARPMessage_parse ARPMessage_new p = Inr (m', p') \<and> pr_error p'))"
proof -
  have sh: "arp_shape m" "arp_shape ARPMessage_new"
    using assms by (simp_all add: arp_shape_def ARPMessage_new_def ETHERNET_ZERO_def)
  show ?thesis
  proof (cases "arp_supported m")
    case True
    then have v: "arp_valid m" using sh by (simp add: arp_valid_def)
    obtain s where s: "ARPMessage_serialize m Serializer_new = Inr s" "sr_bytes s = arp_bytes m" "sr_wf s"
      using arp.ser [OF v, of Serializer_new] by auto
    have "length (sr_bytes s) = 28" using s(2) length_arp_bytes [OF sh(1)] by (simp add: ARPMessage_LENGTH_def)
    moreover from this obtain p where p: "Parser_new (clone_payload (Serializer_finish s)) = Inr p" "pr_ok p (arp_bytes m)"
      using parse_serialized [OF s(3)] s(2) by auto
    moreover obtain p' where "ARPMessage_parse ARPMessage_new p = Inr (m, p')" "pr_ok p' []"
      using arp.par [OF v sh(2), of p "[]"] p(2) by auto
    ultimately show ?thesis using True s(1) by (auto simp: pr_ok_def)
  next
    case False
    have "\<exists>m' p'. ARPMessage_parse ARPMessage_new p = Inr (m', p') \<and> pr_error p'" if "pr_ok p (arp_bytes m)" for p
    proof -
      let ?d = "arp_sender_ethernet_address m @ int_bytes (arp_sender_ip_address m)
         @ arp_target_ethernet_address m @ int_bytes (arp_target_ip_address m)"
      let ?m = "ARPMessage_new\<lparr>arp_hardware_type := arp_hardware_type m, arp_protocol_type := arp_protocol_type m,
        arp_hardware_address_size := arp_hardware_address_size m,
        arp_protocol_address_size := arp_protocol_address_size m, arp_opcode := arp_opcode m\<rparr>"
      have "\<not> arp_supported ?m" using False by (simp add: arp_supported_def)
      then show ?thesis
        using ARPMessage_parse_fixed [of p "arp_hardware_type m" "arp_protocol_type m" "arp_hardware_address_size m"
          "arp_protocol_address_size m" "arp_opcode m" ?d ARPMessage_new] that
        by (auto simp: arp_bytes_def Parser_set_error_def)
    qed
    then show ?thesis using False by (simp add: ARPMessage_serialize_def)
  qed
qed

theorem arp_message_roundtrip_witness:
  "let m = ARPMessage_new\<lparr>arp_opcode := OPCODE_REPLY, arp_sender_ip_address := 0x0a000001\<rparr>
   in \<exists>s p p'. ARPMessage_serialize m Serializer_new = Inr s \<and>
      Parser_new (clone_payload (Serializer_finish s)) = Inr p \<and> ARPMessage_parse ARPMessage_new p = Inr (m, p')"
proof -
  let ?m = "ARPMessage_new\<lparr>arp_opcode := OPCODE_REPLY, arp_sender_ip_address := 0x0a000001\<rparr>"
  have "arp_supported ?m" by (simp add: arp_supported_def ARPMessage_new_def OPCODE_REPLY_def)
  then show ?thesis
    using arp_message_roundtrip [of ?m] by (auto simp: ARPMessage_new_def ETHERNET_ZERO_def)
qed

end
