(* ===== verification/Network_Interface.thy ===== *)
theory Network_Interface
  imports ARP_Table ARP_Queue ARP_Message
begin

text \<open>
  \<^verbatim>\<open>src/src/network_interface.hh\<close> and \<^verbatim>\<open>network_interface.cc\<close>: the interface between IP and Ethernet.
  An operation returns the frames it hands to \<^verbatim>\<open>OutputPort::transmit\<close>, in order, and the interface
  afterwards, or the exception.  \<open>NI_initialize\<close> registers the queue's callback with a weak pointer to
  the interface itself: the result of \<^verbatim>\<open>weak_from_this()\<close>, which is empty unless a \<^verbatim>\<open>shared_ptr\<close> owns
  the interface.  Whether one does is the parameter \<open>owned\<close>; when it does, the pointer can be locked
  while an operation of the interface runs.
\<close>

record network_interface =
  ni_name :: string
  ni_ethernet_address :: ethernet_address
  ni_ip_address :: address
  ni_arp_table :: arp_table
  ni_arp_queue :: arp_queue
  ni_datagrams_received :: "ipv4_datagram list"
  ni_initialized :: bool
  ni_this_weak :: bool

definition NetworkInterface_new :: "string \<Rightarrow> ethernet_address \<Rightarrow> address \<Rightarrow> network_interface" where
  "NetworkInterface_new name ethernet_addr ip_addr =
     \<lparr>ni_name = name, ni_ethernet_address = ethernet_addr, ni_ip_address = ip_addr, ni_arp_table = [],
      ni_arp_queue = ARPQueue_new, ni_datagrams_received = [], ni_initialized = False, ni_this_weak = False\<rparr>"

text \<open>\<open>ni_this_weak\<close>: the weak pointer that the callback has captured can be locked.\<close>

definition NI_initialize :: "bool \<Rightarrow> network_interface \<Rightarrow> network_interface" where
  "NI_initialize owned n =
     (if ni_initialized n then n
      else n\<lparr>ni_arp_queue := set_callback (ni_arp_queue n), ni_this_weak := owned, ni_initialized := True\<rparr>)"

definition make_frame :: "u16 \<Rightarrow> ethernet_address \<Rightarrow> bytes cpp_ref list \<Rightarrow> network_interface \<Rightarrow> ethernet_frame" where
  "make_frame type dst payload n =
     \<lparr>ef_header = EthernetHeader_new\<lparr>eh_type := type, eh_src := ni_ethernet_address n, eh_dst := dst\<rparr>,
      ef_payload = payload\<rparr>"

definition send_ipv4 :: "ipv4_datagram \<Rightarrow> ethernet_address \<Rightarrow> network_interface \<Rightarrow> ethernet_frame list result" where
  "send_ipv4 dgram dst n =
     rbind (serialize IPv4Datagram_serialize dgram) (\<lambda>payload. Inr [make_frame TYPE_IPv4 dst payload n])"

definition send_arp_request :: "address \<Rightarrow> network_interface \<Rightarrow> ethernet_frame list result" where
  "send_arp_request next_hop n =
     rbind (ipv4_numeric (ni_ip_address n)) (\<lambda>sender_ip.
     rbind (ipv4_numeric next_hop) (\<lambda>target_ip.
     let req = ARPMessage_new\<lparr>arp_opcode := OPCODE_REQUEST, arp_sender_ethernet_address := ni_ethernet_address n,
                 arp_sender_ip_address := sender_ip, arp_target_ip_address := target_ip\<rparr>
     in rbind (serialize ARPMessage_serialize req) (\<lambda>payload.
        Inr [make_frame TYPE_ARP ETHERNET_BROADCAST payload n])))"

text \<open>The callback that \<^verbatim>\<open>initialize\<close> registers.\<close>

definition on_arp_timeout :: "address \<Rightarrow> network_interface \<Rightarrow> ethernet_frame list result" where
  "on_arp_timeout next_hop n = (if ni_this_weak n then send_arp_request next_hop n else Inr [])"

definition send_arp_reply :: "arp_message \<Rightarrow> network_interface \<Rightarrow> ethernet_frame list result" where
  "send_arp_reply request n =
     rbind (ipv4_numeric (ni_ip_address n)) (\<lambda>sender_ip.
     let reply = ARPMessage_new\<lparr>arp_opcode := OPCODE_REPLY, arp_sender_ethernet_address := ni_ethernet_address n,
                   arp_sender_ip_address := sender_ip,
                   arp_target_ethernet_address := arp_sender_ethernet_address request,
                   arp_target_ip_address := arp_sender_ip_address request\<rparr>
     in rbind (serialize ARPMessage_serialize reply) (\<lambda>payload.
        Inr [make_frame TYPE_ARP (arp_sender_ethernet_address request) payload n]))"

text \<open>A sequence of transmissions: the frames of each in turn, up to the first exception.\<close>

fun send_each :: "('a \<Rightarrow> ethernet_frame list result) \<Rightarrow> 'a list \<Rightarrow> ethernet_frame list result" where
  "send_each f [] = Inr []"
| "send_each f (x # xs) = rbind (f x) (\<lambda>out. rbind (send_each f xs) (\<lambda>outs. Inr (out @ outs)))"

definition flush_pending_for :: "u32 \<Rightarrow> network_interface \<Rightarrow> (ethernet_frame list \<times> network_interface) result" where
  "flush_pending_for ip n =
     (let (mac, table) = arp_lookup ip (ni_arp_table n);
          n = n\<lparr>ni_arp_table := table\<rparr>
      in case mac of
           None \<Rightarrow> Inr ([], n)
         | Some mac \<Rightarrow>
             let (out, queue) = pop_pending ip (ni_arp_queue n);
                 n = n\<lparr>ni_arp_queue := queue\<rparr>
             in rbind (send_each (\<lambda>pending. send_ipv4 (pd_dgram pending) mac n) out) (\<lambda>frames. Inr (frames, n)))"

definition NI_tick :: "u64 \<Rightarrow> network_interface \<Rightarrow> (ethernet_frame list \<times> network_interface) result" where
  "NI_tick ms n =
     (let n = n\<lparr>ni_arp_table := ARPTable_tick ms (ni_arp_table n)\<rparr>;
          (next_hops, queue) = ARPQueue_tick ms (ni_arp_queue n)
      in rbind (send_each (\<lambda>next_hop. on_arp_timeout next_hop n) next_hops) (\<lambda>frames.
         Inr (frames, n\<lparr>ni_arp_queue := queue\<rparr>)))"

definition send_datagram :: "ipv4_datagram \<Rightarrow> address \<Rightarrow> network_interface \<Rightarrow> (ethernet_frame list \<times> network_interface) result" where
  "send_datagram dgram next_hop n =
     rbind (ipv4_numeric next_hop) (\<lambda>ip.
     let (mac, table) = arp_lookup ip (ni_arp_table n);
         n = n\<lparr>ni_arp_table := table\<rparr>
     in case mac of
          Some mac \<Rightarrow> rbind (send_ipv4 dgram mac n) (\<lambda>frames. Inr (frames, n))
        | None \<Rightarrow>
            let already_querying = has_pending ip (ni_arp_queue n)
            in rbind (add_pending dgram next_hop (ni_arp_queue n)) (\<lambda>queue.
               let n = n\<lparr>ni_arp_queue := queue\<rparr>
               in if \<not> already_querying
                  then rbind (send_arp_request next_hop n) (\<lambda>frames. Inr (frames, n))
                  else Inr ([], n)))"

definition recv_frame :: "ethernet_frame \<Rightarrow> network_interface \<Rightarrow> (ethernet_frame list \<times> network_interface) result" where
  "recv_frame frame n =
     (if eh_dst (ef_header frame) \<noteq> ni_ethernet_address n \<and> eh_dst (ef_header frame) \<noteq> ETHERNET_BROADCAST
      then Inr ([], n)
      else if eh_type (ef_header frame) = TYPE_IPv4
      then rbind (parse IPv4Datagram_parse IPv4Datagram_new (ef_payload frame)) (\<lambda>(dgram, ok).
           Inr ([], if ok then n\<lparr>ni_datagrams_received := ni_datagrams_received n @ [dgram]\<rparr> else n))
      else if eh_type (ef_header frame) = TYPE_ARP
      then rbind (parse ARPMessage_parse ARPMessage_new (ef_payload frame)) (\<lambda>(msg, ok).
           if \<not> ok then Inr ([], n)
           else
             let n = n\<lparr>ni_arp_table := add_entry (arp_sender_ip_address msg) (arp_sender_ethernet_address msg) (ni_arp_table n)\<rparr>
             in rbind (if arp_opcode msg = OPCODE_REQUEST
                       then rbind (ipv4_numeric (ni_ip_address n)) (\<lambda>ip.
                            if arp_target_ip_address msg = ip then send_arp_reply msg n else Inr [])
                       else Inr []) (\<lambda>reply.
                rbind (flush_pending_for (arp_sender_ip_address msg) n) (\<lambda>(frames, n).
                Inr (reply @ frames, n))))
      else Inr ([], n))"

section \<open>The frames\<close>

definition ipv4_frame :: "network_interface \<Rightarrow> ipv4_datagram \<Rightarrow> ethernet_address \<Rightarrow> ethernet_frame" where
  "ipv4_frame n dg mac = make_frame TYPE_IPv4 mac
     (Owned (ip_bytes (dg_header dg)) # map Ref_duplicate (filter (\<lambda>r. ref_get r \<noteq> []) (dg_payload dg))) n"

definition request_message :: "network_interface \<Rightarrow> u32 \<Rightarrow> arp_message" where
  "request_message n ip = ARPMessage_new\<lparr>arp_opcode := OPCODE_REQUEST,
     arp_sender_ethernet_address := ni_ethernet_address n, arp_sender_ip_address := ad_ipv4 (ni_ip_address n),
     arp_target_ip_address := ip\<rparr>"

definition request_frame :: "network_interface \<Rightarrow> u32 \<Rightarrow> ethernet_frame" where
  "request_frame n ip = make_frame TYPE_ARP ETHERNET_BROADCAST [Owned (arp_bytes (request_message n ip))] n"

definition reply_message :: "network_interface \<Rightarrow> arp_message \<Rightarrow> arp_message" where
  "reply_message n msg = ARPMessage_new\<lparr>arp_opcode := OPCODE_REPLY,
     arp_sender_ethernet_address := ni_ethernet_address n, arp_sender_ip_address := ad_ipv4 (ni_ip_address n),
     arp_target_ethernet_address := arp_sender_ethernet_address msg, arp_target_ip_address := arp_sender_ip_address msg\<rparr>"

definition reply_frame :: "network_interface \<Rightarrow> arp_message \<Rightarrow> ethernet_frame" where
  "reply_frame n msg = make_frame TYPE_ARP (arp_sender_ethernet_address msg) [Owned (arp_bytes (reply_message n msg))] n"

lemma Serializer_refs_output:
  "Serializer_finish (Serializer_refs bufs \<lparr>sr_output = out, sr_buffer = buf\<rparr>) =
     out @ (if buf = [] then [] else [Owned buf]) @ map Ref_duplicate (filter (\<lambda>r. ref_get r \<noteq> []) bufs)"
proof (induction bufs arbitrary: out buf)
  case Nil
  then show ?case by (simp add: Serializer_refs_def Serializer_finish_def Serializer_flush_def)
next
  case (Cons b bufs)
  have "Serializer_refs (b # bufs) s = Serializer_refs bufs (Serializer_ref (Ref_duplicate b) s)" for s
    by (simp add: Serializer_refs_def)
  then show ?case
    using Cons.IH by (auto simp: Serializer_ref_def Serializer_flush_def Ref_duplicate_def Let_def)
qed

lemma Serializer_octets_eq: "Serializer_octets bs s = s\<lparr>sr_buffer := sr_buffer s @ bs\<rparr>"
  by (induction bs arbitrary: s) (simp_all add: Serializer_octets_def Serializer_integer_def)

lemma serialize_ipv4:
  "ip_ver (dg_header dg) = 4 \<Longrightarrow> serialize IPv4Datagram_serialize dg =
     Inr (Owned (ip_bytes (dg_header dg)) # map Ref_duplicate (filter (\<lambda>r. ref_get r \<noteq> []) (dg_payload dg)))"
  by (simp add: serialize_def IPv4Datagram_serialize_def IPv4Header_serialize_def Serializer_integer_def
      Serializer_new_def Let_def Serializer_refs_output ip_bytes_def first_byte_def fo_bits_def)

lemma send_ipv4_ok: "ip_ver (dg_header dg) = 4 \<Longrightarrow> send_ipv4 dg mac n = Inr [ipv4_frame n dg mac]"
  by (simp add: send_ipv4_def serialize_ipv4 ipv4_frame_def)

lemma serialize_arp: "arp_supported m \<Longrightarrow> serialize ARPMessage_serialize m = Inr [Owned (arp_bytes m)]"
  by (simp add: serialize_def ARPMessage_serialize_def Serializer_integer_def Serializer_octets_eq
      Serializer_new_def Serializer_finish_def Serializer_flush_def Let_def arp_bytes_def int_bytes_16)

lemma send_arp_request_ok:
  "is_ipv4 (ni_ip_address n) \<Longrightarrow> is_ipv4 hop \<Longrightarrow> send_arp_request hop n = Inr [request_frame n (ad_ipv4 hop)]"
  by (simp add: send_arp_request_def serialize_arp arp_supported_def ARPMessage_new_def request_frame_def
      request_message_def Let_def)

lemma send_arp_reply_ok: "is_ipv4 (ni_ip_address n) \<Longrightarrow> send_arp_reply msg n = Inr [reply_frame n msg]"
  by (simp add: send_arp_reply_def serialize_arp arp_supported_def ARPMessage_new_def reply_frame_def
      reply_message_def Let_def)

lemma ipv4_frame_copy [simp]: "ipv4_frame n (IPv4Datagram_copy dg) mac = ipv4_frame n dg mac"
  by (simp add: ipv4_frame_def IPv4Datagram_copy_def Ref_copy_def Ref_duplicate_def [abs_def] filter_map comp_def)

lemma send_each_ok: "\<forall>x \<in> set xs. f x = Inr [g x] \<Longrightarrow> send_each f xs = Inr (map g xs)"
  by (induction xs) auto

lemma send_each_none: "send_each (\<lambda>x. Inr []) xs = Inr []"
  by (induction xs) auto

text \<open>What a frame looks like depends on the addresses of the interface only.\<close>

lemma frame_cong:
  assumes "ni_ethernet_address n' = ni_ethernet_address n" and "ni_ip_address n' = ni_ip_address n"
  shows "ipv4_frame n' = ipv4_frame n" "request_frame n' = request_frame n" "reply_frame n' = reply_frame n"
  using assms by (auto simp: fun_eq_iff ipv4_frame_def request_frame_def reply_frame_def request_message_def
    reply_message_def make_frame_def)

section \<open>Specification\<close>

text \<open>
  What the interface promises to its users, without table, queue and timers: the addresses it knows
  with their age, the datagrams it holds back for each unknown address and how long the oldest has
  waited, and the datagrams that have arrived.
\<close>

record resolver =
  rs_known :: "u32 \<Rightarrow> (ethernet_address \<times> u64) option"
  rs_held :: "u32 \<Rightarrow> ipv4_datagram list"
  rs_waited :: "u32 \<Rightarrow> u64"
  rs_received :: "ipv4_datagram list"

datatype iface_op = Send ipv4_datagram address | Receive ethernet_frame | Elapse u64

fun iface_step :: "iface_op \<Rightarrow> network_interface \<Rightarrow> (ethernet_frame list \<times> network_interface) result" where
  "iface_step (Send dgram next_hop) n = send_datagram dgram next_hop n"
| "iface_step (Receive frame) n = recv_frame frame n"
| "iface_step (Elapse ms) n = NI_tick ms n"

fun iface_run :: "iface_op list \<Rightarrow> network_interface \<Rightarrow> (ethernet_frame list \<times> network_interface) result" where
  "iface_run [] n = Inr ([], n)"
| "iface_run (op # ops) n =
     rbind (iface_step op n) (\<lambda>(out, n). rbind (iface_run ops n) (\<lambda>(outs, n). Inr (out @ outs, n)))"

definition for_us :: "network_interface \<Rightarrow> ethernet_frame \<Rightarrow> bool" where
  "for_us n f \<longleftrightarrow> eh_dst (ef_header f) = ni_ethernet_address n \<or> eh_dst (ef_header f) = ETHERNET_BROADCAST"

definition datagram_in :: "ethernet_frame \<Rightarrow> ipv4_datagram option" where
  "datagram_in f = (if eh_type (ef_header f) = TYPE_IPv4
     then case parse IPv4Datagram_parse IPv4Datagram_new (ef_payload f) of Inr (dg, True) \<Rightarrow> Some dg | _ \<Rightarrow> None else None)"

definition message_in :: "ethernet_frame \<Rightarrow> arp_message option" where
  "message_in f = (if eh_type (ef_header f) = TYPE_ARP
     then case parse ARPMessage_parse ARPMessage_new (ef_payload f) of Inr (msg, True) \<Rightarrow> Some msg | _ \<Rightarrow> None else None)"

text \<open>
  The inputs on which no operation throws: IPv4 next hops and version 4 datagrams to send; frames
  whose payload the parsers read without exception.
\<close>

fun op_ok :: "iface_op \<Rightarrow> bool" where
  "op_ok (Send dgram next_hop) \<longleftrightarrow> ip_ver (dg_header dgram) = 4 \<and> is_ipv4 next_hop"
| "op_ok (Receive frame) \<longleftrightarrow>
     (eh_type (ef_header frame) = TYPE_IPv4 \<longrightarrow> \<not> isl (parse IPv4Datagram_parse IPv4Datagram_new (ef_payload frame))) \<and>
     (eh_type (ef_header frame) = TYPE_ARP \<longrightarrow> \<not> isl (parse ARPMessage_parse ARPMessage_new (ef_payload frame)))"
| "op_ok (Elapse ms) \<longleftrightarrow> True"

definition rs_expired :: "u64 \<Rightarrow> resolver \<Rightarrow> u32 \<Rightarrow> bool" where
  "rs_expired ms s ip \<longleftrightarrow> rs_held s ip \<noteq> [] \<and> ARP_REQUEST_TIMEOUT \<le> rs_waited s ip + ms"

definition rs_elapse :: "u64 \<Rightarrow> resolver \<Rightarrow> resolver" where
  "rs_elapse ms s = s\<lparr>
     rs_known := (\<lambda>ip. case rs_known s ip of None \<Rightarrow> None | Some (mac, age) \<Rightarrow>
       if ARP_ENTRY_TIMEOUT \<le> age + ms then None else Some (mac, age + ms)),
     rs_held := (\<lambda>ip. if rs_expired ms s ip then [] else rs_held s ip),
     rs_waited := (\<lambda>ip. if rs_held s ip = [] \<or> rs_expired ms s ip then 0 else rs_waited s ip + ms)\<rparr>"

text \<open>Whether the interface repeats a request that is not answered in time.\<close>

definition asks_again :: "network_interface \<Rightarrow> bool" where
  "asks_again n \<longleftrightarrow> aq_on_timeout (ni_arp_queue n) \<and> ni_this_weak n"

text \<open>
  The step relation of the specification; \<open>n\<close> gives the addresses of the interface and whether it asks again.
\<close>

inductive resolver_step :: "network_interface \<Rightarrow> resolver \<Rightarrow> iface_op \<Rightarrow> ethernet_frame list \<Rightarrow> resolver \<Rightarrow> bool" for n where
  send_known: "rs_known s (ad_ipv4 hop) = Some (mac, age) \<Longrightarrow>
    resolver_step n s (Send dg hop) [ipv4_frame n dg mac] s"
| send_unknown: "rs_known s (ad_ipv4 hop) = None \<Longrightarrow>
    resolver_step n s (Send dg hop) (if rs_held s (ad_ipv4 hop) = [] then [request_frame n (ad_ipv4 hop)] else [])
      (s\<lparr>rs_held := (rs_held s)(ad_ipv4 hop := rs_held s (ad_ipv4 hop) @ [IPv4Datagram_copy dg])\<rparr>)"
| receive_other: "\<not> for_us n f \<or> datagram_in f = None \<and> message_in f = None \<Longrightarrow> resolver_step n s (Receive f) [] s"
| receive_datagram: "for_us n f \<Longrightarrow> datagram_in f = Some dg \<Longrightarrow>
    resolver_step n s (Receive f) [] (s\<lparr>rs_received := rs_received s @ [dg]\<rparr>)"
| receive_message: "for_us n f \<Longrightarrow> message_in f = Some msg \<Longrightarrow> ip = arp_sender_ip_address msg \<Longrightarrow>
    mac = arp_sender_ethernet_address msg \<Longrightarrow>
    resolver_step n s (Receive f)
      ((if arp_opcode msg = OPCODE_REQUEST \<and> arp_target_ip_address msg = ad_ipv4 (ni_ip_address n) then [reply_frame n msg] else [])
        @ map (\<lambda>dg. ipv4_frame n dg mac) (rs_held s ip))
      (s\<lparr>rs_known := (rs_known s)(ip \<mapsto> (mac, 0)), rs_held := (rs_held s)(ip := []), rs_waited := (rs_waited s)(ip := 0)\<rparr>)"
| elapse: "asks_again n \<Longrightarrow> distinct ips \<Longrightarrow> set ips = {ip. rs_expired ms s ip} \<Longrightarrow>
    resolver_step n s (Elapse ms) (map (request_frame n) ips) (rs_elapse ms s)"
| elapse_quiet: "\<not> asks_again n \<Longrightarrow> resolver_step n s (Elapse ms) [] (rs_elapse ms s)"

inductive_simps resolver_step_simps:
  "resolver_step n s (Send dg hop) out s'" "resolver_step n s (Receive f) out s'" "resolver_step n s (Elapse ms) out s'"

definition ni_abs :: "network_interface \<Rightarrow> resolver" where
  "ni_abs n = \<lparr>rs_known = at_view (ni_arp_table n), rs_held = waiting (ni_arp_queue n),
     rs_waited = waited (ni_arp_queue n), rs_received = ni_datagrams_received n\<rparr>"

text \<open>
  The states of an interface, initialised or not, with an IPv4 address of its own: table and queue are
  well-formed, nothing is held back for an address that is known, and what is held can be sent.
\<close>

definition ni_inv :: "network_interface \<Rightarrow> bool" where
  "ni_inv n \<longleftrightarrow> is_ipv4 (ni_ip_address n) \<and> at_wf (ni_arp_table n) \<and> aq_wf (ni_arp_queue n)
     \<and> (\<forall>ip. at_view (ni_arp_table n) ip \<noteq> None \<longrightarrow> waiting (ni_arp_queue n) ip = [])
     \<and> (\<forall>ip. \<forall>dg \<in> set (waiting (ni_arp_queue n) ip). ip_ver (dg_header dg) = 4)"

definition same_addresses :: "network_interface \<Rightarrow> network_interface \<Rightarrow> bool" where
  "same_addresses n n' \<longleftrightarrow> ni_ethernet_address n' = ni_ethernet_address n \<and> ni_ip_address n' = ni_ip_address n
     \<and> asks_again n' = asks_again n"

section \<open>Refinement\<close>

lemma ni_inv_new: "is_ipv4 ip \<Longrightarrow> ni_inv (NetworkInterface_new name mac ip)"
  by (simp add: ni_inv_def NetworkInterface_new_def)

lemma NI_initialize_keeps [simp]:
  "ni_inv (NI_initialize owned n) = ni_inv n" "ni_abs (NI_initialize owned n) = ni_abs n"
  "ni_ethernet_address (NI_initialize owned n) = ni_ethernet_address n" "ni_ip_address (NI_initialize owned n) = ni_ip_address n"
  by (simp_all add: ni_inv_def ni_abs_def NI_initialize_def set_callback_def aq_wf_def waiting_def [abs_def] waited_def [abs_def])

lemma ni_abs_new [simp]:
  "ni_abs (NetworkInterface_new name mac ip) = \<lparr>rs_known = (\<lambda>_. None), rs_held = (\<lambda>_. []), rs_waited = (\<lambda>_. 0), rs_received = []\<rparr>"
  by (simp add: ni_abs_def NetworkInterface_new_def fun_eq_iff)

lemma asks_again_new [simp]:
  "\<not> asks_again (NetworkInterface_new name mac ip)"
  "asks_again (NI_initialize owned (NetworkInterface_new name mac ip)) = owned"
  by (simp_all add: asks_again_def NI_initialize_def NetworkInterface_new_def set_callback_def ARPQueue_new_def)

lemma ni_invD:
  assumes "ni_inv n"
  shows "is_ipv4 (ni_ip_address n)" "at_wf (ni_arp_table n)" "aq_wf (ni_arp_queue n)"
    "at_view (ni_arp_table n) ip \<noteq> None \<Longrightarrow> waiting (ni_arp_queue n) ip = []"
    "dg \<in> set (waiting (ni_arp_queue n) ip) \<Longrightarrow> ip_ver (dg_header dg) = 4"
  using assms by (auto simp: ni_inv_def)

lemma send_datagram_refines:
  assumes inv: "ni_inv n" and ok: "op_ok (Send dg hop)"
  shows "\<exists>out n'. send_datagram dg hop n = Inr (out, n') \<and> ni_inv n' \<and> same_addresses n n' \<and>
    resolver_step n (ni_abs n) (Send dg hop) out (ni_abs n')"
proof -
  note i = ni_invD [OF inv]
  let ?ip = "ad_ipv4 hop"
  have hop: "is_ipv4 hop" and ver: "ip_ver (dg_header dg) = 4" using ok by simp_all
  have look: "arp_lookup ?ip (ni_arp_table n) = (map_option fst (at_view (ni_arp_table n) ?ip), ni_arp_table n)"
    by (rule arp_lookup_ok [OF i(2)])
  show ?thesis
  proof (cases "at_view (ni_arp_table n) ?ip")
    case (Some e)
    obtain mac age where e: "e = (mac, age)" by fastforce
    have "send_datagram dg hop n = Inr ([ipv4_frame n dg mac], n)"
      using hop Some e by (simp add: send_datagram_def look send_ipv4_ok [OF ver])
    then show ?thesis using inv Some e by (auto simp: same_addresses_def resolver_step_simps ni_abs_def)
  next
    case None
    obtain q where q: "add_pending dg hop (ni_arp_queue n) = Inr q" "aq_wf q" "aq_on_timeout q = aq_on_timeout (ni_arp_queue n)"
        "\<forall>i. waiting q i = (if i = ?ip then waiting (ni_arp_queue n) i @ [IPv4Datagram_copy dg] else waiting (ni_arp_queue n) i)"
        "\<forall>i. waited q i = waited (ni_arp_queue n) i"
      using add_pending_ok [OF i(3) hop refl, of dg] by auto
    let ?n = "n\<lparr>ni_arp_queue := q\<rparr>"
    let ?out = "if waiting (ni_arp_queue n) ?ip = [] then [request_frame n ?ip] else []"
    have req: "send_arp_request hop ?n = Inr [request_frame n ?ip]"
      using send_arp_request_ok [of ?n hop] hop i(1) frame_cong(2) [of ?n n] by simp
    have step: "send_datagram dg hop n = Inr (?out, ?n)"
      using hop None q(1) req by (simp add: send_datagram_def look has_pending_iff [OF i(3)] Let_def)
    have "ni_inv ?n"
      using inv None q ver by (auto simp: ni_inv_def IPv4Datagram_copy_def)
    moreover have "ni_abs ?n = (ni_abs n)\<lparr>rs_held := (rs_held (ni_abs n))(?ip := rs_held (ni_abs n) ?ip @ [IPv4Datagram_copy dg])\<rparr>"
      using q(4,5) by (auto simp: ni_abs_def fun_eq_iff)
    ultimately show ?thesis
      using step None q(3) by (auto simp: same_addresses_def asks_again_def resolver_step_simps ni_abs_def)
  qed
qed

lemma flush_pending_for_ok:
  assumes "at_wf (ni_arp_table n)" and "aq_wf (ni_arp_queue n)" and "at_view (ni_arp_table n) ip = Some (mac, age)"
    and "\<forall>dg \<in> set (waiting (ni_arp_queue n) ip). ip_ver (dg_header dg) = 4"
  shows "\<exists>q. flush_pending_for ip n = Inr (map (\<lambda>dg. ipv4_frame n dg mac) (waiting (ni_arp_queue n) ip), n\<lparr>ni_arp_queue := q\<rparr>) \<and>
    pop_pending ip (ni_arp_queue n) = (fst (pop_pending ip (ni_arp_queue n)), q)"
proof -
  obtain out q where pop: "pop_pending ip (ni_arp_queue n) = (out, q)" by fastforce
  let ?n = "n\<lparr>ni_arp_queue := q\<rparr>"
  have out: "map pd_dgram out = waiting (ni_arp_queue n) ip" by (rule pop_pending_ok(1) [OF assms(2) pop])
  have "\<forall>pd \<in> set out. send_ipv4 (pd_dgram pd) mac ?n = Inr [ipv4_frame n (pd_dgram pd) mac]"
  proof
    fix pd assume "pd \<in> set out"
    then have "pd_dgram pd \<in> set (waiting (ni_arp_queue n) ip)" unfolding out [symmetric] by simp
    then show "send_ipv4 (pd_dgram pd) mac ?n = Inr [ipv4_frame n (pd_dgram pd) mac]"
      using assms(4) send_ipv4_ok [of "pd_dgram pd" mac ?n] frame_cong(1) [of ?n n] by simp
  qed
  from send_each_ok [OF this] have "send_each (\<lambda>pd. send_ipv4 (pd_dgram pd) mac ?n) out =
      Inr (map (\<lambda>dg. ipv4_frame n dg mac) (waiting (ni_arp_queue n) ip))"
    unfolding out [symmetric] by (simp add: comp_def)
  then show ?thesis
    using pop assms(3) by (simp add: flush_pending_for_def arp_lookup_ok [OF assms(1)] Let_def)
qed

lemma recv_arp_refines:
  assumes inv: "ni_inv n" and us: "for_us n f" and msg: "message_in f = Some msg"
  shows "\<exists>out n'. recv_frame f n = Inr (out, n') \<and> ni_inv n' \<and> same_addresses n n' \<and>
    resolver_step n (ni_abs n) (Receive f) out (ni_abs n')"
proof -
  note i = ni_invD [OF inv]
  let ?ip = "arp_sender_ip_address msg" and ?mac = "arp_sender_ethernet_address msg"
  let ?t = "add_entry ?ip ?mac (ni_arp_table n)"
  let ?n = "n\<lparr>ni_arp_table := ?t\<rparr>"
  have ty: "eh_type (ef_header f) = TYPE_ARP" and p: "parse ARPMessage_parse ARPMessage_new (ef_payload f) = Inr (msg, True)"
    using msg by (auto simp: message_in_def split: if_splits sum.splits bool.splits)
  have t: "at_wf ?t" "at_view ?t ?ip = Some (?mac, 0)" "\<And>i. i \<noteq> ?ip \<Longrightarrow> at_view ?t i = at_view (ni_arp_table n) i"
    using add_entry_ok [OF i(2)] by auto
  obtain q where q: "flush_pending_for ?ip ?n = Inr (map (\<lambda>dg. ipv4_frame ?n dg ?mac) (waiting (ni_arp_queue n) ?ip), ?n\<lparr>ni_arp_queue := q\<rparr>)"
      "pop_pending ?ip (ni_arp_queue n) = (fst (pop_pending ?ip (ni_arp_queue n)), q)"
    using flush_pending_for_ok [of ?n ?ip ?mac 0] t i(3,5) by auto
  note pop = pop_pending_ok [OF i(3) q(2)]
  let ?reply = "if arp_opcode msg = OPCODE_REQUEST \<and> arp_target_ip_address msg = ad_ipv4 (ni_ip_address n) then [reply_frame n msg] else []"
  let ?out = "?reply @ map (\<lambda>dg. ipv4_frame n dg ?mac) (waiting (ni_arp_queue n) ?ip)"
  have "TYPE_ARP \<noteq> TYPE_IPv4" by (simp add: TYPE_ARP_def TYPE_IPv4_def)
  then have step: "recv_frame f n = Inr (?out, ?n\<lparr>ni_arp_queue := q\<rparr>)"
    using us ty p q(1) i(1) send_arp_reply_ok [of ?n msg] frame_cong [of ?n n]
    by (auto simp: recv_frame_def for_us_def Let_def)
  have inv': "ni_inv (?n\<lparr>ni_arp_queue := q\<rparr>)"
    using inv t pop by (auto simp: ni_inv_def)
  have "ni_abs (?n\<lparr>ni_arp_queue := q\<rparr>) = (ni_abs n)\<lparr>rs_known := (rs_known (ni_abs n))(?ip \<mapsto> (?mac, 0)),
      rs_held := (rs_held (ni_abs n))(?ip := []), rs_waited := (rs_waited (ni_abs n))(?ip := 0)\<rparr>"
    using t pop by (auto simp: ni_abs_def fun_eq_iff)
  moreover have "resolver_step n (ni_abs n) (Receive f) ?out \<dots>"
    using resolver_step.receive_message [OF us msg refl refl, of "ni_abs n"] by (simp add: ni_abs_def)
  moreover have "asks_again (?n\<lparr>ni_arp_queue := q\<rparr>) = asks_again n" using pop by (simp add: asks_again_def)
  ultimately show ?thesis using step inv' by (auto simp: same_addresses_def)
qed

lemma recv_frame_refines:
  assumes inv: "ni_inv n" and ok: "op_ok (Receive f)"
  shows "\<exists>out n'. recv_frame f n = Inr (out, n') \<and> ni_inv n' \<and> same_addresses n n' \<and>
    resolver_step n (ni_abs n) (Receive f) out (ni_abs n')"
proof -
  have ignored: ?thesis if "recv_frame f n = Inr ([], n)" "\<not> for_us n f \<or> datagram_in f = None \<and> message_in f = None"
    using that inv resolver_step.receive_other [OF that(2)] by (auto simp: same_addresses_def)
  have ne: "TYPE_ARP \<noteq> TYPE_IPv4" by (simp add: TYPE_ARP_def TYPE_IPv4_def)
  consider (other) "\<not> for_us n f" | (ip) "for_us n f" "eh_type (ef_header f) = TYPE_IPv4"
    | (arp) "for_us n f" "eh_type (ef_header f) = TYPE_ARP"
    | (neither) "for_us n f" "eh_type (ef_header f) \<noteq> TYPE_IPv4" "eh_type (ef_header f) \<noteq> TYPE_ARP" by blast
  then show ?thesis
  proof cases
    case other
    then show ?thesis by (intro ignored) (simp_all add: recv_frame_def for_us_def)
  next
    case neither
    then show ?thesis
      by (intro ignored) (auto simp: recv_frame_def for_us_def datagram_in_def message_in_def)
  next
    case ip
    then obtain dg b where p: "parse IPv4Datagram_parse IPv4Datagram_new (ef_payload f) = Inr (dg, b)"
      using ok by (cases "parse IPv4Datagram_parse IPv4Datagram_new (ef_payload f)") auto
    let ?n = "n\<lparr>ni_datagrams_received := ni_datagrams_received n @ [dg]\<rparr>"
    have r: "recv_frame f n = Inr ([], if b then ?n else n)"
      using ip p by (auto simp: recv_frame_def for_us_def)
    show ?thesis
    proof (cases b)
      case True
      have "datagram_in f = Some dg" using p ip True by (simp add: datagram_in_def)
      from resolver_step.receive_datagram [OF ip(1) this, of "ni_abs n"]
      have "resolver_step n (ni_abs n) (Receive f) [] (ni_abs ?n)" by (simp add: ni_abs_def)
      moreover have "ni_inv ?n" using inv by (simp add: ni_inv_def)
      ultimately show ?thesis using r True by (auto simp: same_addresses_def asks_again_def)
    next
      case False
      then show ?thesis using p ip ne r by (intro ignored) (simp_all add: datagram_in_def message_in_def)
    qed
  next
    case arp
    then obtain msg b where p: "parse ARPMessage_parse ARPMessage_new (ef_payload f) = Inr (msg, b)"
      using ok by (cases "parse ARPMessage_parse ARPMessage_new (ef_payload f)") auto
    show ?thesis
    proof (cases b)
      case True
      then show ?thesis using recv_arp_refines [OF inv arp(1)] p arp(2) by (simp add: message_in_def)
    next
      case False
      then show ?thesis
        using p arp ne by (intro ignored) (auto simp: recv_frame_def for_us_def datagram_in_def message_in_def)
    qed
  qed
qed

lemma NI_tick_refines:
  assumes inv: "ni_inv n"
  shows "\<exists>out n'. NI_tick ms n = Inr (out, n') \<and> ni_inv n' \<and> same_addresses n n' \<and>
    resolver_step n (ni_abs n) (Elapse ms) out (ni_abs n')"
proof -
  note i = ni_invD [OF inv]
  obtain hops q where tick: "ARPQueue_tick ms (ni_arp_queue n) = (hops, q)" by fastforce
  note t = ARPQueue_tick_ok [OF i(3) tick] and c = ARPTable_tick_ok [OF i(2), of ms]
  let ?t = "ARPTable_tick ms (ni_arp_table n)"
  let ?n = "n\<lparr>ni_arp_table := ?t\<rparr>"
  let ?out = "if asks_again n then map (request_frame n) (map ad_ipv4 hops) else []"
  have "\<forall>hop \<in> set hops. send_arp_request hop ?n = Inr [request_frame n (ad_ipv4 hop)]"
    using t(5) i(1) send_arp_request_ok [of ?n] frame_cong(2) [of ?n n] by simp
  note each = send_each_ok [OF this]
  have "\<not> aq_on_timeout (ni_arp_queue n) \<Longrightarrow> hops = []" using tick by (auto simp: ARPQueue_tick_def split: prod.splits)
  then have step: "NI_tick ms n = Inr (?out, ?n\<lparr>ni_arp_queue := q\<rparr>)"
    using tick each send_each_none [of hops]
    by (cases "ni_this_weak n") (auto simp: NI_tick_def on_arp_timeout_def asks_again_def Let_def comp_def)
  have ex: "expires ms (ni_arp_queue n) = rs_expired ms (ni_abs n)"
    by (simp add: fun_eq_iff expires_def rs_expired_def ni_abs_def)
  have known: "at_view ?t ip \<noteq> None \<Longrightarrow> at_view (ni_arp_table n) ip \<noteq> None" for ip
    using c [of ip] by (auto split: option.splits)
  have "ni_inv (?n\<lparr>ni_arp_queue := q\<rparr>)"
    using inv t(1,2) c t(3) known i(4,5) by (auto simp: ni_inv_def)
  moreover have "waited q ip = (if waiting (ni_arp_queue n) ip = [] \<or> expires ms (ni_arp_queue n) ip then 0 else waited (ni_arp_queue n) ip + ms)" for ip
    using t(4) [of ip] t(3) [of ip] waited_none [OF t(1), of ip] by auto
  then have "ni_abs (?n\<lparr>ni_arp_queue := q\<rparr>) = rs_elapse ms (ni_abs n)"
    using c t(3) by (simp add: ni_abs_def rs_elapse_def fun_eq_iff ex [unfolded fun_eq_iff ni_abs_def])
  moreover have "resolver_step n (ni_abs n) (Elapse ms) ?out (rs_elapse ms (ni_abs n))"
  proof (cases "asks_again n")
    case True
    then have "distinct (map ad_ipv4 hops)" "set (map ad_ipv4 hops) = {ip. rs_expired ms (ni_abs n) ip}"
      using t(6,7) ex by (auto simp: fun_eq_iff asks_again_def)
    then show ?thesis using True resolver_step.elapse [of n "map ad_ipv4 hops" ms "ni_abs n"] by simp
  next
    case False
    then show ?thesis using resolver_step.elapse_quiet [of n] by simp
  qed
  moreover have "asks_again (?n\<lparr>ni_arp_queue := q\<rparr>) = asks_again n" using t(2) by (simp add: asks_again_def)
  ultimately show ?thesis using step by (auto simp: same_addresses_def)
qed

lemma iface_step_refines:
  assumes "ni_inv n" and "op_ok op"
  shows "\<exists>out n'. iface_step op n = Inr (out, n') \<and> ni_inv n' \<and> same_addresses n n' \<and>
    resolver_step n (ni_abs n) op out (ni_abs n')"
  using assms send_datagram_refines recv_frame_refines NI_tick_refines by (cases op) (simp_all del: op_ok.simps)

section \<open>Runs\<close>

inductive resolver_run :: "network_interface \<Rightarrow> resolver \<Rightarrow> iface_op list \<Rightarrow> ethernet_frame list \<Rightarrow> resolver \<Rightarrow> bool" for n where
  run_nil: "resolver_run n s [] [] s"
| run_cons: "resolver_step n s op out s' \<Longrightarrow> resolver_run n s' ops outs s'' \<Longrightarrow> resolver_run n s (op # ops) (out @ outs) s''"

lemma resolver_step_cong: "same_addresses n n' \<Longrightarrow> resolver_step n' = resolver_step n"
proof -
  assume "same_addresses n n'"
  then have eq: "ni_ethernet_address n' = ni_ethernet_address n" "ni_ip_address n' = ni_ip_address n" "asks_again n' = asks_again n"
    by (simp_all add: same_addresses_def)
  show ?thesis
    by (intro ext) (simp add: resolver_step.simps for_us_def eq frame_cong [OF eq(1,2)])
qed

lemma resolver_run_cong: "same_addresses n n' \<Longrightarrow> resolver_run n' s ops out s' \<Longrightarrow> resolver_run n s ops out s'"
proof -
  assume same: "same_addresses n n'"
  show "resolver_run n' s ops out s' \<Longrightarrow> resolver_run n s ops out s'"
    by (induction rule: resolver_run.induct) (auto simp: resolver_step_cong [OF same] intro: resolver_run.intros)
qed

lemma iface_run_refines:
  assumes "ni_inv n" and "list_all op_ok ops"
  shows "\<exists>out n'. iface_run ops n = Inr (out, n') \<and> ni_inv n' \<and> same_addresses n n' \<and>
    resolver_run n (ni_abs n) ops out (ni_abs n')"
  using assms
proof (induction ops arbitrary: n)
  case Nil
  then show ?case by (auto simp: same_addresses_def intro: resolver_run.intros)
next
  case (Cons op ops)
  obtain out n' where one: "iface_step op n = Inr (out, n')" "ni_inv n'" "same_addresses n n'"
      "resolver_step n (ni_abs n) op out (ni_abs n')"
    using iface_step_refines [of n op] Cons.prems by auto
  then obtain outs n'' where rest: "iface_run ops n' = Inr (outs, n'')" "ni_inv n''" "same_addresses n' n''"
      "resolver_run n' (ni_abs n') ops outs (ni_abs n'')"
    using Cons.IH [of n'] Cons.prems by auto
  have "resolver_run n (ni_abs n) (op # ops) (out @ outs) (ni_abs n'')"
    using one(4) resolver_run_cong [OF one(3) rest(4)] by (rule resolver_run.intros)
  then show ?case using one rest by (auto simp: same_addresses_def)
qed

text \<open>
  C24. The network interface implements address resolution.  From a new interface with an IPv4 address, initialised or
  not, any sequence of ticks, of sends of version 4 datagrams to IPv4 next hops and of received frames on whose payload
  the parsers do not throw runs without exception and is a run of the specification \<open>resolver_step\<close>, with the same
  frames transmitted; and no datagram is ever held back for an address that is known.  When a
  request has not been answered within five seconds, the datagrams are dropped, and the request is repeated only if
  the interface was initialised and a \<^verbatim>\<open>shared_ptr\<close> owns it.
\<close>

theorem interface_refines:
  assumes "is_ipv4 ip_addr" and "list_all op_ok ops"
    and "n = (if initialized then NI_initialize owned (NetworkInterface_new name mac ip_addr) else NetworkInterface_new name mac ip_addr)"
  shows "asks_again n = (initialized \<and> owned) \<and>
    (\<exists>out n'. iface_run ops n = Inr (out, n') \<and>
      resolver_run n \<lparr>rs_known = (\<lambda>_. None), rs_held = (\<lambda>_. []), rs_waited = (\<lambda>_. 0), rs_received = []\<rparr> ops out (ni_abs n') \<and>
      (\<forall>ip. rs_known (ni_abs n') ip \<noteq> None \<longrightarrow> rs_held (ni_abs n') ip = []))"
proof -
  have abs: "ni_abs n = \<lparr>rs_known = (\<lambda>_. None), rs_held = (\<lambda>_. []), rs_waited = (\<lambda>_. 0), rs_received = []\<rparr>"
    unfolding assms(3) by simp
  have inv: "ni_inv n" unfolding assms(3) using ni_inv_new [OF assms(1)] by simp
  from iface_run_refines [OF inv assms(2)] obtain out n' where
    r: "iface_run ops n = Inr (out, n')" "ni_inv n'" "resolver_run n (ni_abs n) ops out (ni_abs n')" by blast
  moreover have "asks_again n = (initialized \<and> owned)" unfolding assms(3) by simp
  ultimately show ?thesis using ni_invD(4) [OF r(2)] unfolding abs by (auto simp: ni_abs_def)
qed

theorem interface_refines_witness:
  "asks_again (NI_initialize True (NetworkInterface_new ''eth0'' [2, 0, 0, 0, 0, 1] (from_ipv4_numeric 5))) \<and>
   (\<exists>out n'. iface_run [Send IPv4Datagram_new (from_ipv4_numeric 7), Elapse 5000]
       (NI_initialize False (NetworkInterface_new ''eth0'' [2, 0, 0, 0, 0, 1] (from_ipv4_numeric 5))) = Inr (out, n') \<and>
     resolver_run (NI_initialize False (NetworkInterface_new ''eth0'' [2, 0, 0, 0, 0, 1] (from_ipv4_numeric 5)))
       \<lparr>rs_known = (\<lambda>_. None), rs_held = (\<lambda>_. []), rs_waited = (\<lambda>_. 0), rs_received = []\<rparr>
       [Send IPv4Datagram_new (from_ipv4_numeric 7), Elapse 5000] out (ni_abs n'))"
proof -
  let ?n = "\<lambda>owned. NI_initialize owned (NetworkInterface_new ''eth0'' [2, 0, 0, 0, 0, 1] (from_ipv4_numeric 5))"
  have "list_all op_ok [Send IPv4Datagram_new (from_ipv4_numeric 7), Elapse 5000]"
    by (simp add: IPv4Datagram_new_def IPv4Header_new_def)
  note r = interface_refines [OF _ this, of "from_ipv4_numeric 5" _ True _ "''eth0''" "[2, 0, 0, 0, 0, 1]"]
  show ?thesis using r [of "?n True" True] r [of "?n False" False] by simp blast
qed

section \<open>Resolution of an address\<close>

fun sends_to :: "u32 \<Rightarrow> iface_op list \<Rightarrow> ipv4_datagram list" where
  "sends_to ip [] = []"
| "sends_to ip (Send dg hop # ops) = (if ad_ipv4 hop = ip then dg # sends_to ip ops else sends_to ip ops)"
| "sends_to ip (op # ops) = sends_to ip ops"

fun learns :: "u32 \<Rightarrow> iface_op \<Rightarrow> bool" where
  "learns ip (Receive f) = (case message_in f of None \<Rightarrow> False | Some msg \<Rightarrow> arp_sender_ip_address msg = ip)"
| "learns ip _ = False"

fun op_time :: "iface_op \<Rightarrow> nat" where
  "op_time (Elapse ms) = unat ms"
| "op_time _ = 0"

lemma int_bytes_32_inj: "int_bytes (x :: u32) = int_bytes y \<Longrightarrow> x = y"
  by (metis be_value_32)

lemma request_frame_eq_iff [simp]:
  "request_frame n ip = request_frame n ip' \<longleftrightarrow> ip = ip'"
  "reply_frame n msg \<noteq> request_frame n ip"
  "ipv4_frame n dg mac \<noteq> request_frame n ip"
  by (auto simp: request_frame_def reply_frame_def ipv4_frame_def make_frame_def arp_bytes_def request_message_def
      reply_message_def ARPMessage_new_def EthernetHeader_new_def TYPE_ARP_def TYPE_IPv4_def OPCODE_REPLY_def OPCODE_REQUEST_def
      int_bytes_16 dest: int_bytes_32_inj)

abbreviation requests :: "network_interface \<Rightarrow> u32 \<Rightarrow> ethernet_frame list \<Rightarrow> nat" where
  "requests n ip out \<equiv> count_list out (request_frame n ip)"

lemma count_request_map: "distinct ips \<Longrightarrow> requests n ip (map (request_frame n) ips) = (if ip \<in> set ips then 1 else 0)"
  by (induction ips) auto

lemma elapse_tracks:
  assumes "rs_known s ip = None" and "unat (rs_waited s ip) + unat ms < 5000" and "rs_held s ip = [] \<longrightarrow> rs_waited s ip = 0"
  shows "\<not> rs_expired ms s ip" "rs_known (rs_elapse ms s) ip = None" "rs_held (rs_elapse ms s) ip = rs_held s ip"
    "unat (rs_waited (rs_elapse ms s) ip) \<le> unat (rs_waited s ip) + unat ms"
proof -
  have un: "unat (rs_waited s ip + ms) = unat (rs_waited s ip) + unat ms" using assms(2) by (simp add: unat_add_u64)
  then show ex: "\<not> rs_expired ms s ip"
    using assms(2) by (simp add: rs_expired_def ARP_REQUEST_TIMEOUT_def word_le_nat_alt)
  show "rs_known (rs_elapse ms s) ip = None" "rs_held (rs_elapse ms s) ip = rs_held s ip"
    "unat (rs_waited (rs_elapse ms s) ip) \<le> unat (rs_waited s ip) + unat ms"
    using assms(1) un ex by (auto simp: rs_elapse_def)
qed

lemma step_tracks:
  assumes "resolver_step n s op out s'" and "rs_known s ip = None" and "\<not> learns ip op"
    and "unat (rs_waited s ip) + op_time op < 5000" and "rs_held s ip = [] \<longrightarrow> rs_waited s ip = 0"
  shows "rs_known s' ip = None \<and> rs_held s' ip = rs_held s ip @ map IPv4Datagram_copy (sends_to ip [op]) \<and>
    unat (rs_waited s' ip) \<le> unat (rs_waited s ip) + op_time op \<and>
    requests n ip out = (if rs_held s ip = [] \<and> sends_to ip [op] \<noteq> [] then 1 else 0)"
  using assms
proof (cases rule: resolver_step.cases)
  case (elapse ips ms)
  then show ?thesis using elapse_tracks [of s ip ms] assms(2,4,5) by (auto simp: count_request_map)
next
  case (elapse_quiet ms)
  then show ?thesis using elapse_tracks [of s ip ms] assms(2,4,5) by auto
next
  case (receive_message f msg ip' mac)
  then have "ip \<noteq> ip'" using assms(3) by auto
  moreover have "requests n ip (map (\<lambda>dg. ipv4_frame n dg mac) dgs) = 0" for dgs by (induction dgs) auto
  ultimately show ?thesis using assms(2) receive_message by auto
qed auto


lemma run_tracks:
  assumes "ni_inv n" and "list_all op_ok ops" and "rs_known (ni_abs n) ip = None" and "\<forall>op \<in> set ops. \<not> learns ip op"
    and "unat (rs_waited (ni_abs n) ip) + sum_list (map op_time ops) < 5000"
  shows "\<exists>out n'. iface_run ops n = Inr (out, n') \<and> ni_inv n' \<and> same_addresses n n' \<and>
    rs_known (ni_abs n') ip = None \<and> rs_held (ni_abs n') ip = rs_held (ni_abs n) ip @ map IPv4Datagram_copy (sends_to ip ops) \<and>
    requests n ip out = (if rs_held (ni_abs n) ip = [] \<and> sends_to ip ops \<noteq> [] then 1 else 0)"
  using assms
proof (induction ops arbitrary: n)
  case Nil
  then show ?case by (auto simp: same_addresses_def)
next
  case (Cons op ops)
  obtain out n' where one: "iface_step op n = Inr (out, n')" "ni_inv n'" "same_addresses n n'"
      "resolver_step n (ni_abs n) op out (ni_abs n')"
    using iface_step_refines [of n op] Cons.prems(1,2) by (simp only: list.pred_inject) blast
  have z: "rs_held (ni_abs n) ip = [] \<longrightarrow> rs_waited (ni_abs n) ip = 0"
    using waited_none [OF ni_invD(3) [OF Cons.prems(1)]] by (simp add: ni_abs_def)
  have l: "\<not> learns ip op" "unat (rs_waited (ni_abs n) ip) + op_time op < 5000" using Cons.prems(4,5) by simp_all
  have t: "rs_known (ni_abs n') ip = None" "rs_held (ni_abs n') ip = rs_held (ni_abs n) ip @ map IPv4Datagram_copy (sends_to ip [op])"
      "unat (rs_waited (ni_abs n') ip) \<le> unat (rs_waited (ni_abs n) ip) + op_time op"
      "requests n ip out = (if rs_held (ni_abs n) ip = [] \<and> sends_to ip [op] \<noteq> [] then 1 else 0)"
    using step_tracks [OF one(4) Cons.prems(3) l z] by (simp_all only:)
  have l': "list_all op_ok ops" "\<forall>op \<in> set ops. \<not> learns ip op"
      "unat (rs_waited (ni_abs n') ip) + sum_list (map op_time ops) < 5000"
    using Cons.prems(2,4,5) t(3) by simp_all
  obtain outs n'' where rest: "iface_run ops n' = Inr (outs, n'')" "ni_inv n''" "same_addresses n' n''"
      "rs_known (ni_abs n'') ip = None" "rs_held (ni_abs n'') ip = rs_held (ni_abs n') ip @ map IPv4Datagram_copy (sends_to ip ops)"
      "requests n' ip outs = (if rs_held (ni_abs n') ip = [] \<and> sends_to ip ops \<noteq> [] then 1 else 0)"
    using Cons.IH [OF one(2) l'(1) t(1) l'(2,3)] by blast
  have f: "request_frame n' = request_frame n" using one(3) by (intro frame_cong(2)) (simp_all add: same_addresses_def)
  have s: "sends_to ip (op # ops) = sends_to ip [op] @ sends_to ip ops" by (cases op) auto
  have "requests n ip (out @ outs) = (if rs_held (ni_abs n) ip = [] \<and> sends_to ip (op # ops) \<noteq> [] then 1 else 0)"
    using t(2,4) rest(6) unfolding f s
    by (cases "rs_held (ni_abs n) ip = []"; cases "sends_to ip [op] = []") simp_all
  moreover have "iface_run (op # ops) n = Inr (out @ outs, n'')" using one(1) rest(1) by simp
  moreover have "same_addresses n n''" using one(3) rest(3) by (simp add: same_addresses_def)
  ultimately show ?case using rest(2,4,5) t(2) s by (intro exI [of _ "out @ outs"] exI [of _ n'']) simp
qed

text \<open>
  C25. Resolving an address: while the Ethernet address of a next hop is unknown and less than five
  seconds pass, whatever else is sent and received (of what the parsers read without exception), exactly one ARP request goes out for it, with the
  first datagram; and when a message from that hop arrives, all the datagrams sent to it leave, in
  the order they were sent, to the address the message names (after the answer, if it was a request
  for us).
\<close>

theorem interface_resolves:
  assumes "ni_inv n" and "list_all op_ok ops" and "rs_known (ni_abs n) ip = None" and "rs_held (ni_abs n) ip = []"
    and "\<forall>op \<in> set ops. \<not> learns ip op" and "sum_list (map op_time ops) < 5000"
    and "for_us n f" and "message_in f = Some msg" and "arp_sender_ip_address msg = ip"
  shows "\<exists>out n' n''. iface_run ops n = Inr (out, n') \<and>
    requests n ip out = (if sends_to ip ops = [] then 0 else 1) \<and>
    recv_frame f n' = Inr ((if arp_opcode msg = OPCODE_REQUEST \<and> arp_target_ip_address msg = ad_ipv4 (ni_ip_address n)
        then [reply_frame n msg] else [])
      @ map (\<lambda>dg. ipv4_frame n dg (arp_sender_ethernet_address msg)) (sends_to ip ops), n'') \<and>
    rs_known (ni_abs n'') ip = Some (arp_sender_ethernet_address msg, 0) \<and> rs_held (ni_abs n'') ip = []"
proof -
  have w: "rs_waited (ni_abs n) ip = 0"
    using waited_none [OF ni_invD(3) [OF assms(1)]] assms(4) by (simp add: ni_abs_def)
  obtain out n' where r: "iface_run ops n = Inr (out, n')" "ni_inv n'" "same_addresses n n'"
      "rs_held (ni_abs n') ip = map IPv4Datagram_copy (sends_to ip ops)"
      "requests n ip out = (if sends_to ip ops = [] then 0 else 1)"
    using run_tracks [OF assms(1-3,5)] assms(4,6) w by auto
  have addr: "ni_ethernet_address n' = ni_ethernet_address n" "ni_ip_address n' = ni_ip_address n"
    using r(3) by (simp_all add: same_addresses_def)
  have us: "for_us n' f" using assms(7) addr by (simp add: for_us_def)
  have "datagram_in f = None" using assms(8) by (auto simp: datagram_in_def message_in_def TYPE_ARP_def TYPE_IPv4_def split: if_splits)
  with recv_arp_refines [OF r(2) us assms(8)] us assms(8,9) show ?thesis
    using r(1,4,5) by (auto simp: resolver_step_simps frame_cong [OF addr] addr comp_def)
qed

text \<open>What an interface receives of the messages it or another one writes.\<close>

lemma message_in_frame:
  assumes "arp_valid m"
  shows "message_in \<lparr>ef_header = h\<lparr>eh_type := TYPE_ARP\<rparr>, ef_payload = [Owned (arp_bytes m)]\<rparr> = Some m"
proof -
  have len: "length (arp_bytes m) = 28" using length_arp_bytes assms by (simp add: arp_valid_def ARPMessage_LENGTH_def)
  then obtain p where p: "Parser_new [Owned (arp_bytes m)] = Inr p" "pr_ok p (arp_bytes m @ [])"
    using Parser_new_ok [of "[Owned (arp_bytes m)]"] by (cases "arp_bytes m") (auto simp: concat_refs_eq)
  have "arp_shape ARPMessage_new" by (simp add: arp_shape_def ARPMessage_new_def ETHERNET_ZERO_def)
  from arp.par [OF assms this p(2)] obtain p' where "ARPMessage_parse ARPMessage_new p = Inr (m, p')" "pr_ok p' []" by blast
  then show ?thesis using p(1) by (simp add: message_in_def parse_def pr_ok_def)
qed

theorem interface_resolves_witness:
  "let n = NI_initialize True (NetworkInterface_new ''eth0'' [2, 0, 0, 0, 0, 1] (from_ipv4_numeric 5));
       ops = [Send IPv4Datagram_new (from_ipv4_numeric 7), Elapse 4999, Send IPv4Datagram_new (from_ipv4_numeric 7)];
       msg = ARPMessage_new\<lparr>arp_opcode := OPCODE_REPLY, arp_sender_ethernet_address := [2, 0, 0, 0, 0, 9],
         arp_sender_ip_address := 7\<rparr>;
       f = \<lparr>ef_header = \<lparr>eh_dst = ETHERNET_BROADCAST, eh_src = ETHERNET_ZERO, eh_type = TYPE_ARP\<rparr>, ef_payload = [Owned (arp_bytes msg)]\<rparr>
   in \<exists>out n' n''. iface_run ops n = Inr (out, n') \<and> requests n 7 out = 1 \<and>
     recv_frame f n' = Inr ([ipv4_frame n IPv4Datagram_new [2, 0, 0, 0, 0, 9], ipv4_frame n IPv4Datagram_new [2, 0, 0, 0, 0, 9]], n'')"
proof -
  let ?n = "NI_initialize True (NetworkInterface_new ''eth0'' [2, 0, 0, 0, 0, 1] (from_ipv4_numeric 5))"
  let ?ops = "[Send IPv4Datagram_new (from_ipv4_numeric 7), Elapse 4999, Send IPv4Datagram_new (from_ipv4_numeric 7)]"
  let ?msg = "ARPMessage_new\<lparr>arp_opcode := OPCODE_REPLY, arp_sender_ethernet_address := [2, 0, 0, 0, 0, 9],
         arp_sender_ip_address := 7\<rparr>"
  let ?f = "\<lparr>ef_header = \<lparr>eh_dst = ETHERNET_BROADCAST, eh_src = ETHERNET_ZERO, eh_type = TYPE_ARP\<rparr>,
      ef_payload = [Owned (arp_bytes ?msg)]\<rparr>"
  have inv: "ni_inv ?n" using ni_inv_new by simp
  have abs: "rs_known (ni_abs ?n) 7 = None" "rs_held (ni_abs ?n) 7 = []"
    by simp_all
  have ok: "list_all op_ok ?ops" by (simp add: IPv4Datagram_new_def IPv4Header_new_def)
  have "arp_valid ?msg"
    by (simp add: arp_valid_def arp_shape_def arp_supported_def ARPMessage_new_def OPCODE_REPLY_def ETHERNET_ZERO_def)
  then have m: "message_in ?f = Some ?msg"
    using message_in_frame [of ?msg "\<lparr>eh_dst = ETHERNET_BROADCAST, eh_src = ETHERNET_ZERO, eh_type = TYPE_ARP\<rparr>"] by simp
  have us: "for_us ?n ?f" by (simp add: for_us_def)
  show ?thesis
    using interface_resolves [OF inv ok abs _ _ us m]
    by (auto simp: Let_def OPCODE_REPLY_def OPCODE_REQUEST_def)
qed

text \<open>
  Five seconds after the first datagram to an unknown address the datagram is dropped with its queue, and the next datagram
  to the same address makes the interface ask again.  If a \<^verbatim>\<open>shared_ptr\<close> owns the interface, the callback has
  asked already when the datagram was dropped, so a second request goes out while one is in flight.
\<close>

theorem interface_asks_twice:
  "let n = NI_initialize owned (NetworkInterface_new ''eth0'' [2, 0, 0, 0, 0, 1] (from_ipv4_numeric 5));
       send = Send IPv4Datagram_new (from_ipv4_numeric 7)
   in \<exists>n1 n2. iface_run [send, Elapse 5000] n = Inr (request_frame n 7 # (if owned then [request_frame n 7] else []), n1) \<and>
        rs_held (ni_abs n1) 7 = [] \<and> iface_step send n1 = Inr ([request_frame n 7], n2)"
proof -
  let ?n = "NI_initialize owned (NetworkInterface_new ''eth0'' [2, 0, 0, 0, 0, 1] (from_ipv4_numeric 5))"
  have n: "NI_initialize w (NetworkInterface_new ''eth0'' [2, 0, 0, 0, 0, 1] (from_ipv4_numeric 5)) = \<lparr>ni_name = ''eth0'', ni_ethernet_address = [2, 0, 0, 0, 0, 1], ni_ip_address = from_ipv4_numeric 5,
      ni_arp_table = [], ni_arp_queue = \<lparr>aq_pending = [], aq_on_timeout = True\<rparr>, ni_datagrams_received = [], ni_initialized = True, ni_this_weak = w\<rparr>" for w
    by (simp add: NI_initialize_def NetworkInterface_new_def set_callback_def ARPQueue_new_def)
  have req: "send_arp_request (from_ipv4_numeric 7) m = Inr [request_frame ?n 7]"
    if "ni_ethernet_address m = [2, 0, 0, 0, 0, 1]" "ni_ip_address m = from_ipv4_numeric 5" for m
    using that send_arp_request_ok [of m "from_ipv4_numeric 7"] frame_cong(2) [of m ?n] by (simp add: n)
  have "iface_run [Send IPv4Datagram_new (from_ipv4_numeric 7), Elapse 5000] ?n = Inr (request_frame ?n 7 # (if owned then [request_frame ?n 7] else []), ?n)"
    using req by (simp add: n send_datagram_def NI_tick_def on_arp_timeout_def arp_lookup_def has_pending_def add_pending_def Let_def
        ARPQueue_tick_def PendingDatagram_new_def timer_defs ARP_REQUEST_TIMEOUT_def)
  moreover have "\<exists>n2. iface_step (Send IPv4Datagram_new (from_ipv4_numeric 7)) ?n = Inr ([request_frame ?n 7], n2)"
    using req by (simp add: n send_datagram_def arp_lookup_def has_pending_def add_pending_def Let_def)
  moreover have "rs_held (ni_abs ?n) 7 = []" by (simp add: n ni_abs_def waiting_def)
  ultimately show ?thesis unfolding Let_def by blast
qed

end
