(* ===== verification/Router.thy ===== *)
theory Router
  imports Network_Interface
begin

text \<open>
  \<^verbatim>\<open>src/src/router.hh\<close> and \<^verbatim>\<open>router.cc\<close>: forwarding between network interfaces by longest prefix
  match.  The interfaces that the shared pointers of \<^verbatim>\<open>interfaces_\<close> point to are distinct objects;
  an operation returns the frames its interfaces transmit, each with the number of the interface.
\<close>

record route_entry =
  re_prefix :: u32
  re_prefix_length :: u8
  re_next_hop :: "address option"
  re_interface_num :: u64

record router =
  ro_interfaces :: "network_interface list"
  ro_routes :: "route_entry list"

definition Router_new :: router where
  "Router_new = \<lparr>ro_interfaces = [], ro_routes = []\<rparr>"

definition add_interface :: "network_interface \<Rightarrow> router \<Rightarrow> u64 \<times> router" where
  "add_interface iface r =
     (let r = r\<lparr>ro_interfaces := ro_interfaces r @ [iface]\<rparr> in (size64 (ro_interfaces r) - 1, r))"

definition Router_interface :: "u64 \<Rightarrow> router \<Rightarrow> network_interface result" where
  "Router_interface n r =
     (if unat n < length (ro_interfaces r) then Inr (ro_interfaces r ! unat n) else Inl Out_Of_Range)"

text \<open>
  \<^verbatim>\<open>std::ranges::upper_bound\<close> with \<^verbatim>\<open>greater\<close> on a range of descending prefix lengths: the position of
  the first route with a shorter prefix.
\<close>

definition add_route :: "u32 \<Rightarrow> u8 \<Rightarrow> address option \<Rightarrow> u64 \<Rightarrow> router \<Rightarrow> router" where
  "add_route route_prefix prefix_length next_hop interface_num r =
     (if prefix_length > 32 then r
      else
        let entry = \<lparr>re_prefix = route_prefix, re_prefix_length = prefix_length, re_next_hop = next_hop,
                     re_interface_num = interface_num\<rparr>;
            pos = length (takeWhile (\<lambda>x. \<not> prefix_length > re_prefix_length x) (ro_routes r))
        in r\<lparr>ro_routes := take pos (ro_routes r) @ entry # drop pos (ro_routes r)\<rparr>)"

definition route_mask :: "u8 \<Rightarrow> u32" where
  "route_mask len = (if len = 0 then 0 else push_bit (32 - unat len) (NOT 0))"

fun find_route_loop :: "u32 \<Rightarrow> route_entry list \<Rightarrow> route_entry option" where
  "find_route_loop destination [] = None"
| "find_route_loop destination (x # xs) =
     (let mask = route_mask (re_prefix_length x)
      in if destination AND mask = re_prefix x AND mask then Some x else find_route_loop destination xs)"

definition find_route :: "u32 \<Rightarrow> router \<Rightarrow> route_entry option" where
  "find_route destination r = find_route_loop destination (ro_routes r)"

definition forward :: "ipv4_datagram \<Rightarrow> u64 \<Rightarrow> router \<Rightarrow> ((u64 \<times> ethernet_frame) list \<times> router) result" where
  "forward datagram arrived_on r =
     (if ip_ttl (dg_header datagram) \<le> 1 then Inr ([], r)
      else case find_route (ip_dst (dg_header datagram)) r of
        None \<Rightarrow> Inr ([], r)
      | Some rt \<Rightarrow>
          if re_interface_num rt = arrived_on \<and> re_next_hop rt \<noteq> None then Inr ([], r)
          else
            let header = (dg_header datagram)\<lparr>ip_ttl := ip_ttl (dg_header datagram) - 1\<rparr> in
            rbind (IPv4Header_compute_checksum header) (\<lambda>header.
            let datagram = datagram\<lparr>dg_header := header\<rparr>;
                next_hop = (case re_next_hop rt of None \<Rightarrow> from_ipv4_numeric (ip_dst header) | Some a \<Rightarrow> a);
                i = unat (re_interface_num rt)
            in if i < length (ro_interfaces r)
               then rbind (send_datagram datagram next_hop (ro_interfaces r ! i)) (\<lambda>(out, iface).
                    Inr (map (Pair (re_interface_num rt)) out, r\<lparr>ro_interfaces := (ro_interfaces r)[i := iface]\<rparr>))
               else Inl Undefined_Behaviour))"

definition pop_received :: "u64 \<Rightarrow> router \<Rightarrow> router" where
  "pop_received i r = r\<lparr>ro_interfaces := (ro_interfaces r)[unat i :=
     (ro_interfaces r ! unat i)\<lparr>ni_datagrams_received := tl (ni_datagrams_received (ro_interfaces r ! unat i))\<rparr>]\<rparr>"

section \<open>Forwarding leaves the received datagrams alone\<close>

lemma send_datagram_received:
  "send_datagram dg hop n = Inr (out, n') \<Longrightarrow> ni_datagrams_received n' = ni_datagrams_received n"
proof (cases "ipv4_numeric hop")
  case (Inr ip)
  assume "send_datagram dg hop n = Inr (out, n')"
  then show ?thesis
    using Inr by (cases "arp_lookup ip (ni_arp_table n)")
      (auto simp: send_datagram_def rbind_Inr_iff Let_def split: option.splits if_splits)
qed (simp add: send_datagram_def)

lemma forward_received:
  assumes "forward dg i r = Inr (out, r')"
  shows "map ni_datagrams_received (ro_interfaces r') = map ni_datagrams_received (ro_interfaces r)"
    and "length (ro_interfaces r') = length (ro_interfaces r)"
proof -
  show "map ni_datagrams_received (ro_interfaces r') = map ni_datagrams_received (ro_interfaces r)"
    using assms send_datagram_received
    by (fastforce simp: forward_def rbind_Inr_iff Let_def map_update list_update_same_conv
        split: option.splits if_splits)
  then show "length (ro_interfaces r') = length (ro_interfaces r)" using map_eq_imp_length_eq by blast
qed

text \<open>The loops of \<^verbatim>\<open>Router::route\<close>: over the datagrams an interface has received, over the interfaces.\<close>

function route_queue :: "u64 \<Rightarrow> router \<Rightarrow> ((u64 \<times> ethernet_frame) list \<times> router) result" where
  "route_queue i r =
     (if unat i < length (ro_interfaces r) then
        case ni_datagrams_received (ro_interfaces r ! unat i) of
          [] \<Rightarrow> Inr ([], r)
        | datagram # _ \<Rightarrow>
            (case forward datagram i r of
               Inl e \<Rightarrow> Inl e
             | Inr (out, r') \<Rightarrow>
                 (case route_queue i (pop_received i r') of
                    Inl e \<Rightarrow> Inl e
                  | Inr (outs, r'') \<Rightarrow> Inr (out @ outs, r'')))
      else Inl Undefined_Behaviour)"
  by pat_completeness auto
termination
proof (relation "measure (\<lambda>(i, r). length (ni_datagrams_received (ro_interfaces r ! unat i)))", goal_cases)
  case (2 i r dg rest b out r')
  have "map ni_datagrams_received (ro_interfaces r') ! unat i = dg # rest" "unat i < length (ro_interfaces r')"
    using 2 forward_received [of dg i r out r'] by simp_all
  then have "ni_datagrams_received (ro_interfaces r' ! unat i) = dg # rest" by simp
  then show ?case using 2 \<open>unat i < length (ro_interfaces r')\<close> by (simp add: pop_received_def)
qed simp

declare route_queue.simps [simp del]

fun route_loop :: "u64 list \<Rightarrow> router \<Rightarrow> ((u64 \<times> ethernet_frame) list \<times> router) result" where
  "route_loop [] r = Inr ([], r)"
| "route_loop (i # is) r =
     rbind (route_queue i r) (\<lambda>(out, r). rbind (route_loop is r) (\<lambda>(outs, r). Inr (out @ outs, r)))"

definition route :: "router \<Rightarrow> ((u64 \<times> ethernet_frame) list \<times> router) result" where
  "route r = route_loop (map of_nat [0 ..< length (ro_interfaces r)]) r"

section \<open>Longest prefix match\<close>

text \<open>
  The reference: a route matches when its prefix and the destination agree in their first
  \<open>re_prefix_length\<close> bits; the best is a longest one, the earliest installed among those.
\<close>

definition matches :: "u32 \<Rightarrow> route_entry \<Rightarrow> bool" where
  "matches destination x \<longleftrightarrow> re_prefix_length x \<le> 32 \<and>
     drop_bit (32 - unat (re_prefix_length x)) destination = drop_bit (32 - unat (re_prefix_length x)) (re_prefix x)"

fun best_match :: "u32 \<Rightarrow> route_entry list \<Rightarrow> route_entry option \<Rightarrow> route_entry option" where
  "best_match destination [] best = best"
| "best_match destination (x # xs) best = best_match destination xs
     (if matches destination x \<and> (case best of None \<Rightarrow> True | Some y \<Rightarrow> re_prefix_length y < re_prefix_length x)
      then Some x else best)"

definition install :: "route_entry \<Rightarrow> router \<Rightarrow> router" where
  "install x = add_route (re_prefix x) (re_prefix_length x) (re_next_hop x) (re_interface_num x)"

lemma bit_route_mask: "len \<le> 32 \<Longrightarrow> bit (route_mask len) i \<longleftrightarrow> i < 32 \<and> 32 - unat len \<le> i"
  by (auto simp: route_mask_def bit_simps word_le_nat_alt unat_eq_0)

lemma mask_eq_iff:
  assumes "len \<le> 32"
  shows "a AND route_mask len = b AND route_mask len \<longleftrightarrow> drop_bit (32 - unat len) a = drop_bit (32 - unat len) (b :: u32)"
proof
  assume eq: "a AND route_mask len = b AND route_mask len"
  show "drop_bit (32 - unat len) a = drop_bit (32 - unat len) b"
  proof (rule bit_word_eqI)
    fix i assume "i < LENGTH(32)"
    have "bit (a AND route_mask len) (32 - unat len + i) = bit (b AND route_mask len) (32 - unat len + i)" using eq by simp
    then show "bit (drop_bit (32 - unat len) a) i = bit (drop_bit (32 - unat len) b) i"
      using bit_imp_le_length [of a "32 - unat len + i"] bit_imp_le_length [of b "32 - unat len + i"]
      by (auto simp: bit_simps bit_route_mask [OF assms])
  qed
next
  assume eq: "drop_bit (32 - unat len) a = drop_bit (32 - unat len) b"
  show "a AND route_mask len = b AND route_mask len"
  proof (rule bit_word_eqI)
    fix i assume "i < LENGTH(32)"
    have "bit (drop_bit (32 - unat len) a) (i - (32 - unat len)) = bit (drop_bit (32 - unat len) b) (i - (32 - unat len))"
      using eq by simp
    then show "bit (a AND route_mask len) i = bit (b AND route_mask len) i"
      by (auto simp: bit_simps bit_route_mask [OF assms])
  qed
qed

abbreviation descending :: "route_entry list \<Rightarrow> bool" where
  "descending \<equiv> sorted_wrt (\<lambda>x y. re_prefix_length y \<le> re_prefix_length x)"

abbreviation routes_ok :: "route_entry list \<Rightarrow> bool" where
  "routes_ok xs \<equiv> descending xs \<and> (\<forall>x \<in> set xs. re_prefix_length x \<le> 32)"

lemma find_route_loop_append:
  "find_route_loop d (xs @ ys) = (case find_route_loop d xs of None \<Rightarrow> find_route_loop d ys | Some x \<Rightarrow> Some x)"
  by (induction xs) (auto simp: Let_def)

lemma find_route_loop_Some: "find_route_loop d xs = Some x \<Longrightarrow> x \<in> set xs"
  by (induction xs) (auto simp: Let_def split: if_splits)

text \<open>Installing a route splits the table into the routes at least as long and the shorter ones.\<close>

lemma install_routes:
  assumes "routes_ok (ro_routes r)" and "re_prefix_length x \<le> 32"
  obtains xs ys where "ro_routes r = xs @ ys" and "ro_routes (install x r) = xs @ x # ys"
    and "\<forall>y \<in> set xs. re_prefix_length x \<le> re_prefix_length y" and "\<forall>y \<in> set ys. re_prefix_length y < re_prefix_length x"
proof
  let ?P = "\<lambda>y. \<not> re_prefix_length y < re_prefix_length x"
  let ?xs = "takeWhile ?P (ro_routes r)" and ?ys = "dropWhile ?P (ro_routes r)"
  show app: "ro_routes r = ?xs @ ?ys" by simp
  have "take (length ?xs) (ro_routes r) = ?xs" "drop (length ?xs) (ro_routes r) = ?ys"
    by (simp_all add: takeWhile_eq_take [symmetric] dropWhile_eq_drop [symmetric])
  then show "ro_routes (install x r) = ?xs @ x # ?ys"
    using assms(2) by (simp add: install_def add_route_def Let_def not_less)
  show "\<forall>y \<in> set ?xs. re_prefix_length x \<le> re_prefix_length y" by (auto dest: set_takeWhileD)
  have "descending ?ys" using assms(1) app by (metis sorted_wrt_append)
  show "\<forall>y \<in> set ?ys. re_prefix_length y < re_prefix_length x"
  proof
    fix y assume y: "y \<in> set ?ys"
    then obtain h t where ys: "?ys = h # t" by (metis list.exhaust list.set_cases)
    then have "re_prefix_length h < re_prefix_length x" using hd_dropWhile [of ?P "ro_routes r"] by simp
    moreover have "y = h \<or> re_prefix_length y \<le> re_prefix_length h" using \<open>descending ?ys\<close> y unfolding ys by auto
    ultimately show "re_prefix_length y < re_prefix_length x" by auto
  qed
qed

lemma install_ok:
  assumes "routes_ok (ro_routes r)"
  shows "routes_ok (ro_routes (install x r)) \<and> find_route d (install x r) =
    best_match d [x] (find_route d r)"
proof (cases "re_prefix_length x \<le> 32")
  case True
  obtain xs ys where s: "ro_routes r = xs @ ys" "ro_routes (install x r) = xs @ x # ys"
    "\<forall>y \<in> set xs. re_prefix_length x \<le> re_prefix_length y" "\<forall>y \<in> set ys. re_prefix_length y < re_prefix_length x"
    using install_routes [OF assms True] by blast
  have m: "matches d x \<longleftrightarrow> d AND route_mask (re_prefix_length x) = re_prefix x AND route_mask (re_prefix_length x)"
    using True by (simp add: matches_def mask_eq_iff)
  have "routes_ok (ro_routes (install x r))" using assms s True by (auto simp: sorted_wrt_append less_imp_le)
  moreover have "find_route d (install x r) = best_match d [x] (find_route d r)"
  proof (cases "find_route_loop d xs")
    case None
    then show ?thesis
      using s(1,2,4) m find_route_loop_Some [of d ys]
      by (auto simp: find_route_def find_route_loop_append Let_def split: option.splits)
  next
    case (Some y)
    then have "\<not> re_prefix_length y < re_prefix_length x" using s(3) find_route_loop_Some [OF Some] by (simp add: not_less)
    then show ?thesis using s(1,2) Some by (simp add: find_route_def find_route_loop_append)
  qed
  ultimately show ?thesis by simp
next
  case False
  then have "install x r = r" "\<not> matches d x" by (simp_all add: install_def add_route_def matches_def not_le)
  then show ?thesis using assms by simp
qed

lemma best_match_Cons: "best_match d (x # xs) best = best_match d xs (best_match d [x] best)"
  by simp

text \<open>
  C27. Routing is longest prefix match: whatever routes are installed, in whatever order,
  \<open>find_route\<close> returns the first installed among the longest prefixes that agree with the
  destination, and none exactly when no prefix does; routes with more than 32 bits are ignored.
\<close>

theorem find_route_longest_prefix:
  "find_route destination (fold install routes Router_new) = best_match destination routes None"
proof -
  have "routes_ok (ro_routes r) \<Longrightarrow> find_route destination (fold install routes r) = best_match destination routes (find_route destination r)" for r
  proof (induction routes arbitrary: r)
    case (Cons x xs)
    then show ?case using install_ok [OF Cons.prems, of x destination] by (metis best_match_Cons fold_simps(2))
  qed simp
  from this [of Router_new] show ?thesis by (simp add: Router_new_def find_route_def)
qed

section \<open>A router serves its interfaces one after the other\<close>

definition received :: "router \<Rightarrow> ipv4_datagram list list" where
  "received r = map ni_datagrams_received (ro_interfaces r)"

text \<open>The router with nothing left to forward, and the datagrams it had to forward, in order.\<close>

definition drained :: "router \<Rightarrow> router" where
  "drained r = r\<lparr>ro_interfaces := map (\<lambda>n. n\<lparr>ni_datagrams_received := []\<rparr>) (ro_interfaces r)\<rparr>"

definition arrivals :: "u64 list \<Rightarrow> router \<Rightarrow> (u64 \<times> ipv4_datagram) list" where
  "arrivals is r = concat (map (\<lambda>i. map (Pair i) (received r ! unat i)) is)"

fun forward_all :: "(u64 \<times> ipv4_datagram) list \<Rightarrow> router \<Rightarrow> ((u64 \<times> ethernet_frame) list \<times> router) result" where
  "forward_all [] r = Inr ([], r)"
| "forward_all ((i, dg) # rest) r =
     rbind (forward dg i r) (\<lambda>(out, r). rbind (forward_all rest r) (\<lambda>(outs, r). Inr (out @ outs, r)))"

definition drained_result :: "('a \<times> router) result \<Rightarrow> ('a \<times> router) result" where
  "drained_result m = rbind m (\<lambda>(out, r). Inr (out, drained r))"

lemma drained_result_simps [simp]:
  "drained_result (Inl e) = Inl e" "drained_result (Inr (out, r)) = Inr (out, drained r)"
  by (simp_all add: drained_result_def)

lemma send_datagram_cleared:
  "send_datagram dg hop (n\<lparr>ni_datagrams_received := []\<rparr>) =
     rbind (send_datagram dg hop n) (\<lambda>(out, n). Inr (out, n\<lparr>ni_datagrams_received := []\<rparr>))"
proof (cases "ipv4_numeric hop")
  case (Inr ip)
  obtain mac t where look: "arp_lookup ip (ni_arp_table n) = (mac, t)" by fastforce
  have ipv4: "send_ipv4 dg m (n'\<lparr>ni_datagrams_received := []\<rparr>) = send_ipv4 dg m n'" for m n'
    by (simp add: send_ipv4_def make_frame_def)
  have arp: "send_arp_request hop (n'\<lparr>ni_datagrams_received := []\<rparr>) = send_arp_request hop n'" for n'
    by (simp add: send_arp_request_def make_frame_def)
  have upd: "n\<lparr>ni_datagrams_received := [], ni_arp_table := t\<rparr> = (n\<lparr>ni_arp_table := t\<rparr>)\<lparr>ni_datagrams_received := []\<rparr>"
    "m\<lparr>ni_datagrams_received := [], ni_arp_queue := q\<rparr> = (m\<lparr>ni_arp_queue := q\<rparr>)\<lparr>ni_datagrams_received := []\<rparr>" for q m
    by simp_all
  show ?thesis
    by (cases mac; cases "add_pending dg hop (ni_arp_queue n)")
      (simp_all add: send_datagram_def Inr look Let_def ipv4 arp upd rbind_assoc)
qed (simp add: send_datagram_def)

lemma find_route_drained [simp]: "find_route d (drained r) = find_route d r"
  by (simp add: find_route_def drained_def)

lemma length_drained [simp]: "length (ro_interfaces (drained r)) = length (ro_interfaces r)"
  by (simp add: drained_def)

lemma forward_drained: "forward dg i (drained r) = drained_result (forward dg i r)"
proof -
  have send: "rbind (send_datagram dg' hop (ro_interfaces (drained r) ! k)) (\<lambda>(out, n). Inr (map f out, (drained r)\<lparr>ro_interfaces := (ro_interfaces (drained r))[k := n]\<rparr>))
    = drained_result (rbind (send_datagram dg' hop (ro_interfaces r ! k)) (\<lambda>(out, n). Inr (map f out, r\<lparr>ro_interfaces := (ro_interfaces r)[k := n]\<rparr>)))"
    if "k < length (ro_interfaces r)" for dg' hop k f
    using that by (cases "send_datagram dg' hop (ro_interfaces r ! k)") (auto simp: drained_def send_datagram_cleared map_update)
  show ?thesis
    by (cases "IPv4Header_compute_checksum ((dg_header dg)\<lparr>ip_ttl := ip_ttl (dg_header dg) - 1\<rparr>)")
      (auto simp: forward_def send Let_def split: option.splits)
qed

lemma received_forward: "forward dg i r = Inr (out, r') \<Longrightarrow> received r' = received r"
  using forward_received(1) by (simp add: received_def)

lemma received_pop: "unat i < length (ro_interfaces r) \<Longrightarrow> received (pop_received i r) = (received r)[unat i := tl (received r ! unat i)]"
  by (simp add: received_def pop_received_def map_update)

lemma drained_pop [simp]: "drained (pop_received i r) = drained r"
  by (cases "unat i < length (ro_interfaces r)")
    (simp_all add: drained_def pop_received_def map_update list_update_same_conv list_update_beyond not_less)

lemma route_queue_eq:
  assumes "unat i < length (ro_interfaces r)"
  shows "drained_result (route_queue i r) = forward_all (map (Pair i) (received r ! unat i)) (drained r)"
    and "route_queue i r = Inr (out, r') \<Longrightarrow> received r' = (received r)[unat i := []]"
proof -
  have "unat i < length (ro_interfaces r) \<Longrightarrow>
      drained_result (route_queue i r) = forward_all (map (Pair i) (received r ! unat i)) (drained r) \<and>
      (\<forall>out r'. route_queue i r = Inr (out, r') \<longrightarrow> received r' = (received r)[unat i := []])"
  proof (induction i r rule: route_queue.induct)
    case (1 i r)
    let ?q = "ni_datagrams_received (ro_interfaces r ! unat i)"
    have q: "received r ! unat i = ?q" using "1.prems" by (simp add: received_def)
    show ?case
    proof (cases ?q)
      case Nil
      then have "(received r)[unat i := []] = received r" using list_update_id [of "received r" "unat i"] q by simp
      then show ?thesis using "1.prems" Nil q route_queue.simps [of i r] by simp
    next
      case (Cons dg rest)
      show ?thesis
      proof (cases "forward dg i r")
        case (Inl e)
        then show ?thesis using "1.prems" Cons q route_queue.simps [of i r] by (simp add: forward_drained)
      next
        case (Inr x)
        obtain out r' where x: "x = (out, r')" by fastforce
        have f: "forward dg i r = Inr (out, r')" using Inr x by simp
        have len: "unat i < length (ro_interfaces (pop_received i r'))"
          using "1.prems" forward_received(2) [OF f] by (simp add: pop_received_def)
        have rec: "received (pop_received i r') = (received r)[unat i := rest]"
          using received_pop [of i r'] received_forward [OF f] "1.prems" forward_received(2) [OF f] q Cons by simp
        have nth: "received (pop_received i r') ! unat i = rest" using rec "1.prems" by (simp add: received_def)
        note ih = "1.IH" [OF "1.prems" Cons Inr x [symmetric] len, unfolded nth drained_pop]
        have "forward_all (map (Pair i) rest) (drained r') = drained_result (route_queue i (pop_received i r'))"
          using ih by simp
        then show ?thesis
          using "1.prems" Cons q f route_queue.simps [of i r] conjunct2 [OF ih] rec
          by (cases "route_queue i (pop_received i r')") (auto simp: forward_drained)
      qed
    qed
  qed
  then show "drained_result (route_queue i r) = forward_all (map (Pair i) (received r ! unat i)) (drained r)"
    and "route_queue i r = Inr (out, r') \<Longrightarrow> received r' = (received r)[unat i := []]"
    using assms by auto
qed


lemma forward_all_append:
  "forward_all (xs @ ys) r = rbind (forward_all xs r) (\<lambda>(out, r). rbind (forward_all ys r) (\<lambda>(outs, r). Inr (out @ outs, r)))"
proof (induction xs arbitrary: r)
  case Nil
  show ?case by (cases "forward_all ys r") auto
next
  case (Cons x xs)
  obtain i dg where x: "x = (i, dg)" by fastforce
  show ?case
  proof (cases "forward dg i r")
    case (Inr y)
    obtain out r' where "y = (out, r')" by fastforce
    then show ?thesis
      using Inr x Cons.IH [of r'] by (cases "forward_all xs r'"; cases "forward_all ys (snd (projr (forward_all xs r')))")
        (auto split: prod.splits)
  qed (simp add: x)
qed

lemma route_loop_eq:
  assumes "distinct (map unat is)" and "\<forall>i \<in> set is. unat i < length (ro_interfaces r)"
  shows "drained_result (route_loop is r) = forward_all (arrivals is r) (drained r) \<and>
    (\<forall>out r'. route_loop is r = Inr (out, r') \<longrightarrow> received r' = fold (\<lambda>i qs. qs[unat i := []]) is (received r))"
  using assms
proof (induction "is" arbitrary: r)
  case Nil
  then show ?case by (simp add: arrivals_def)
next
  case (Cons i "is")
  have i: "unat i < length (ro_interfaces r)" using Cons.prems by simp
  have fwd: "forward_all (map (Pair i) (received r ! unat i)) (drained r) = drained_result (route_queue i r)"
    using route_queue_eq(1) [OF i] by simp
  show ?case
  proof (cases "route_queue i r")
    case (Inl e)
    then show ?thesis using fwd by (simp add: arrivals_def forward_all_append)
  next
    case (Inr x)
    obtain out r' where x: "x = (out, r')" by fastforce
    have q: "route_queue i r = Inr (out, r')" using Inr x by simp
    have rec: "received r' = (received r)[unat i := []]" by (rule route_queue_eq(2) [OF i q])
    have len: "length (ro_interfaces r') = length (ro_interfaces r)"
      using arg_cong [OF rec, of length] by (simp add: received_def)
    have "\<forall>j \<in> set is. (received r)[unat i := []] ! unat j = received r ! unat j"
      using Cons.prems(1) by (metis (no_types, lifting) distinct.simps(2) image_eqI list.simps(9) list.set_map nth_list_update_neq)
    then have "arrivals is r' = arrivals is r"
      by (auto simp: arrivals_def rec intro!: arg_cong [where f = concat])
    moreover have ih: "drained_result (route_loop is r') = forward_all (arrivals is r') (drained r')"
        "\<forall>out r''. route_loop is r' = Inr (out, r'') \<longrightarrow> received r'' = fold (\<lambda>i qs. qs[unat i := []]) is (received r')"
      using Cons.IH [of r'] Cons.prems len by auto
    ultimately have "forward_all (arrivals is r) (drained r') = drained_result (route_loop is r')" by simp
    moreover have "arrivals (i # is) r = map (Pair i) (received r ! unat i) @ arrivals is r" by (simp add: arrivals_def)
    ultimately show ?thesis
      using q fwd ih(2) rec by (cases "route_loop is r'") (auto simp: forward_all_append)
  qed
qed

lemma clear_all:
  assumes "length qs < 2 ^ 64"
  shows "fold (\<lambda>i qs. qs[unat i := []]) (map of_nat [0 ..< length qs] :: u64 list) qs = replicate (length qs) []"
proof -
  have "n \<le> length qs \<Longrightarrow> fold (\<lambda>i qs. qs[unat i := []]) (map of_nat [0 ..< n] :: u64 list) qs = replicate n [] @ drop n qs" for n
  proof (induction n)
    case (Suc n)
    then have "unat (of_nat n :: u64) = n" using assms by (simp add: unat_of_nat_u64)
    then show ?case using Suc by (simp add: list_update_append Cons_nth_drop_Suc [symmetric] replicate_append_same)
  qed simp
  from this [of "length qs"] show ?thesis by simp
qed

lemma route_forwards_all:
  assumes "length (ro_interfaces r) < 2 ^ 64"
  shows "route r = forward_all (arrivals (map of_nat [0 ..< length (ro_interfaces r)]) r) (drained r)"
proof -
  let ?is = "map of_nat [0 ..< length (ro_interfaces r)] :: u64 list"
  have un: "map unat ?is = [0 ..< length (ro_interfaces r)]"
    using assms by (auto intro!: map_idI simp: unat_of_nat_u64)
  have idx: "distinct (map unat ?is)" "\<forall>i \<in> set ?is. unat i < length (ro_interfaces r)"
    using assms by (simp_all only: un distinct_upt) (auto simp: unat_of_nat_u64)
  note l = route_loop_eq [OF idx]
  have "drained r' = r'" if "route_loop ?is r = Inr (out, r')" for out r'
  proof -
    have "received r' = replicate (length (ro_interfaces r)) []"
      using l that clear_all [of "received r"] assms by (simp add: received_def)
    then have "\<forall>n \<in> set (ro_interfaces r'). ni_datagrams_received n = []"
      by (metis (no_types, lifting) in_set_conv_nth in_set_replicate length_map nth_map nth_mem received_def)
    then have "map (\<lambda>n. n\<lparr>ni_datagrams_received := []\<rparr>) (ro_interfaces r') = ro_interfaces r'"
      by (intro map_idI) simp
    then show ?thesis by (simp add: drained_def)
  qed
  then have "drained_result (route_loop ?is r) = route_loop ?is r" by (cases "route_loop ?is r") auto
  then show ?thesis using l by (simp add: route_def)
qed

text \<open>
  C36. \<^verbatim>\<open>Router::route\<close> always returns and forwards every waiting datagram exactly once: it does the
  same as forwarding the datagrams that wait when it is called, interface by interface and in the
  order they arrived, on a router whose queues are empty; in particular no queue is left with a
  datagram, and datagrams are not added to a queue behind its back.
\<close>

theorem route_drains:
  assumes "length (ro_interfaces r) < 2 ^ 64"
  shows "route r = forward_all (arrivals (map of_nat [0 ..< length (ro_interfaces r)]) r) (drained r)"
  using route_forwards_all [OF assms] .

theorem route_drains_witness:
  "let n = NetworkInterface_new ''eth0'' [2, 0, 0, 0, 0, 1] (from_ipv4_numeric 5);
       r = \<lparr>ro_interfaces = [n\<lparr>ni_datagrams_received := [IPv4Datagram_new]\<rparr>, n], ro_routes = []\<rparr>
   in route r = forward_all [(0, IPv4Datagram_new)] \<lparr>ro_interfaces = [n, n], ro_routes = []\<rparr> \<and>
      route r = Inr ([], \<lparr>ro_interfaces = [n, n], ro_routes = []\<rparr>)"
proof -
  let ?n = "NetworkInterface_new ''eth0'' [2, 0, 0, 0, 0, 1] (from_ipv4_numeric 5)"
  let ?r = "\<lparr>ro_interfaces = [?n\<lparr>ni_datagrams_received := [IPv4Datagram_new]\<rparr>, ?n], ro_routes = []\<rparr>"
  have n: "?n\<lparr>ni_datagrams_received := []\<rparr> = ?n" "ni_datagrams_received ?n = []"
    by (simp_all add: NI_initialize_def NetworkInterface_new_def)
  have "route ?r = forward_all (arrivals (map of_nat [0 ..< length (ro_interfaces ?r)]) ?r) (drained ?r)"
    by (rule route_drains) simp
  then have "route ?r = forward_all [(0, IPv4Datagram_new)] \<lparr>ro_interfaces = [?n, ?n], ro_routes = []\<rparr>"
    by (simp add: arrivals_def received_def drained_def n upt_rec)
  moreover have "\<dots> = Inr ([], \<lparr>ro_interfaces = [?n, ?n], ro_routes = []\<rparr>)"
    by (simp add: forward_def find_route_def)
  ultimately show ?thesis by (simp add: Let_def)
qed

section \<open>Forwarding one datagram\<close>

text \<open>
  The interfaces are in states that satisfy \<open>ni_inv\<close>, whether or not \<^verbatim>\<open>initialize()\<close> was called on them, and the routes lead to
  interfaces of the router.  \<open>network_router_inv\<close> in \<open>End_To_End\<close> shows it of the routers of \<^verbatim>\<open>endtoend.cc\<close>.
\<close>

definition ro_inv :: "router \<Rightarrow> bool" where
  "ro_inv r \<longleftrightarrow> list_all ni_inv (ro_interfaces r) \<and> (\<forall>x \<in> set (ro_routes r).
     unat (re_interface_num x) < length (ro_interfaces r) \<and> (\<forall>a. re_next_hop x = Some a \<longrightarrow> is_ipv4 a))"

text \<open>Where a datagram goes: the route and the next hop, unless it is dropped.\<close>

definition next_step :: "ipv4_datagram \<Rightarrow> u64 \<Rightarrow> router \<Rightarrow> (u64 \<times> address) option" where
  "next_step dg arrived_on r =
     (case find_route (ip_dst (dg_header dg)) r of
        None \<Rightarrow> None
      | Some x \<Rightarrow> if ip_ttl (dg_header dg) \<le> 1 \<or> re_interface_num x = arrived_on \<and> re_next_hop x \<noteq> None then None
          else Some (re_interface_num x, case re_next_hop x of None \<Rightarrow> from_ipv4_numeric (ip_dst (dg_header dg)) | Some a \<Rightarrow> a))"

definition hop_header :: "ipv4_header \<Rightarrow> ipv4_header" where
  "hop_header h = (let h = h\<lparr>ip_ttl := ip_ttl h - 1\<rparr> in h\<lparr>ip_cksum := header_checksum h\<rparr>)"

lemma hop_header_ok:
  "checksum_value (checksum_add (ip_bytes (hop_header h)) (InternetChecksum_new 0)) = 0"
  "1 < ip_ttl h \<Longrightarrow> unat (ip_ttl (hop_header h)) = unat (ip_ttl h) - 1 \<and> 0 < ip_ttl (hop_header h)"
  "hop_header h = h\<lparr>ip_ttl := ip_ttl (hop_header h), ip_cksum := ip_cksum (hop_header h)\<rparr>"
proof -
  show "checksum_value (checksum_add (ip_bytes (hop_header h)) (InternetChecksum_new 0)) = 0"
    by (rule header_sums_to_zero) (simp add: hop_header_def Let_def)
  show "1 < ip_ttl h \<Longrightarrow> unat (ip_ttl (hop_header h)) = unat (ip_ttl h) - 1 \<and> 0 < ip_ttl (hop_header h)"
    using unat_sub [of "1 :: u8" "ip_ttl h"] by (simp add: hop_header_def Let_def word_less_nat_alt word_le_nat_alt)
qed (simp add: hop_header_def Let_def)

lemma forward_ok:
  assumes inv: "ro_inv r" and ver: "ip_ver (dg_header dg) = 4"
  shows "\<exists>out r'. forward dg i r = Inr (out, r') \<and> ro_inv r' \<and>
    (case next_step dg i r of
       None \<Rightarrow> out = [] \<and> r' = r
     | Some (k, hop) \<Rightarrow> \<exists>frames n'. out = map (Pair k) frames \<and> r' = r\<lparr>ro_interfaces := (ro_interfaces r)[unat k := n']\<rparr> \<and>
         resolver_step (ro_interfaces r ! unat k) (ni_abs (ro_interfaces r ! unat k))
           (Send (dg\<lparr>dg_header := hop_header (dg_header dg)\<rparr>) hop) frames (ni_abs n'))"
proof (cases "next_step dg i r")
  case None
  then show ?thesis using inv by (auto simp: next_step_def forward_def split: option.splits if_splits)
next
  case (Some kh)
  then obtain x where x: "find_route (ip_dst (dg_header dg)) r = Some x" "\<not> ip_ttl (dg_header dg) \<le> 1"
      "\<not> (re_interface_num x = i \<and> re_next_hop x \<noteq> None)"
      "kh = (re_interface_num x, case re_next_hop x of None \<Rightarrow> from_ipv4_numeric (ip_dst (dg_header dg)) | Some a \<Rightarrow> a)"
    by (auto simp: next_step_def split: option.splits if_splits)
  let ?k = "unat (re_interface_num x)" and ?hop = "snd kh"
  let ?dg = "dg\<lparr>dg_header := hop_header (dg_header dg)\<rparr>"
  have "x \<in> set (ro_routes r)" using x(1) find_route_loop_Some by (simp add: find_route_def)
  then have k: "?k < length (ro_interfaces r)" and hop: "is_ipv4 ?hop"
    using inv x(4) by (auto simp: ro_inv_def split: option.splits)
  have n: "ni_inv (ro_interfaces r ! ?k)" using inv k by (simp add: ro_inv_def list_all_length)
  have ok: "op_ok (Send ?dg ?hop)" using ver hop by (simp add: hop_header_def Let_def)
  obtain out n' where s: "send_datagram ?dg ?hop (ro_interfaces r ! ?k) = Inr (out, n')" "ni_inv n'"
      "resolver_step (ro_interfaces r ! ?k) (ni_abs (ro_interfaces r ! ?k)) (Send ?dg ?hop) out (ni_abs n')"
    using send_datagram_refines [OF n ok] by blast
  have c: "IPv4Header_compute_checksum ((dg_header dg)\<lparr>ip_ttl := ip_ttl (dg_header dg) - 1\<rparr>) = Inr (hop_header (dg_header dg))"
    using compute_checksum_ok [of "(dg_header dg)\<lparr>ip_ttl := ip_ttl (dg_header dg) - 1\<rparr>"] ver by (simp add: hop_header_def Let_def)
  have "ip_dst (hop_header (dg_header dg)) = ip_dst (dg_header dg)" by (simp add: hop_header_def Let_def)
  then have "forward dg i r = Inr (map (Pair (re_interface_num x)) out, r\<lparr>ro_interfaces := (ro_interfaces r)[?k := n']\<rparr>)"
    using x k s(1) by (cases "re_next_hop x") (auto simp: forward_def c Let_def)
  moreover have "ro_inv (r\<lparr>ro_interfaces := (ro_interfaces r)[?k := n']\<rparr>)"
    using inv s(2) k by (auto simp: ro_inv_def list_all_length nth_list_update)
  ultimately show ?thesis using Some x(4) s(3) by auto
qed

text \<open>
  C37. Forwarding a datagram, in a router whose interfaces, initialised or not, are in a state that they can reach and whose
  routes name interfaces of the router and IPv4 next hops: it is dropped when its time to live is used up, when no route matches
  and when its route leads to a gateway on the network it came from; otherwise it is sent, with the
  time to live one lower but not zero and a correct header checksum and everything else as it was, by
  the interface of the route, to the route's next hop or else straight to its destination; no other
  interface and no route changes.
\<close>

theorem router_forwards:
  assumes "ro_inv r" and "ip_ver (dg_header dg) = 4"
  shows "\<exists>out r' h. forward dg i r = Inr (out, r') \<and> ro_inv r' \<and>
    h = (dg_header dg)\<lparr>ip_ttl := ip_ttl h, ip_cksum := ip_cksum h\<rparr> \<and>
    (case next_step dg i r of
       None \<Rightarrow> out = [] \<and> r' = r
     | Some (k, hop) \<Rightarrow>
         unat (ip_ttl h) = unat (ip_ttl (dg_header dg)) - 1 \<and> 0 < ip_ttl h \<and>
         checksum_value (checksum_add (ip_bytes h) (InternetChecksum_new 0)) = 0 \<and>
         (\<exists>frames n'. out = map (Pair k) frames \<and> r' = r\<lparr>ro_interfaces := (ro_interfaces r)[unat k := n']\<rparr> \<and>
           resolver_step (ro_interfaces r ! unat k) (ni_abs (ro_interfaces r ! unat k))
             (Send (dg\<lparr>dg_header := h\<rparr>) hop) frames (ni_abs n')))"
proof -
  have "1 < ip_ttl (dg_header dg)" if "next_step dg i r = Some kh" for kh
    using that by (auto simp: next_step_def not_le split: option.splits if_splits)
  then show ?thesis
    using forward_ok [OF assms, of i] hop_header_ok(1,2) [of "dg_header dg"] hop_header_ok(3) [of "dg_header dg"]
    by (cases "next_step dg i r") (auto intro!: exI [of _ "hop_header (dg_header dg)"])
qed


theorem router_forwards_witness:
  "let n = NetworkInterface_new ''eth0'' [2, 0, 0, 0, 0, 1] (from_ipv4_numeric 5);
       x = \<lparr>re_prefix = 0x0a000000, re_prefix_length = 8, re_next_hop = None, re_interface_num = 1\<rparr>;
       r = \<lparr>ro_interfaces = [n, n], ro_routes = [x]\<rparr>;
       dg = \<lparr>dg_header = IPv4Header_new\<lparr>ip_dst := 0x0a000001\<rparr>, dg_payload = []\<rparr>
   in next_step dg 0 r = Some (1, from_ipv4_numeric 0x0a000001) \<and>
      (\<exists>frames n' h. forward dg 0 r = Inr (map (Pair 1) frames, r\<lparr>ro_interfaces := [n, n']\<rparr>) \<and> unat (ip_ttl h) = 127 \<and>
        resolver_step n (ni_abs n) (Send (dg\<lparr>dg_header := h\<rparr>) (from_ipv4_numeric 0x0a000001)) frames (ni_abs n'))"
proof -
  let ?n = "NetworkInterface_new ''eth0'' [2, 0, 0, 0, 0, 1] (from_ipv4_numeric 5)"
  let ?x = "\<lparr>re_prefix = 0x0a000000, re_prefix_length = 8, re_next_hop = None, re_interface_num = 1\<rparr>"
  let ?r = "\<lparr>ro_interfaces = [?n, ?n], ro_routes = [?x]\<rparr>"
  let ?dg = "\<lparr>dg_header = IPv4Header_new\<lparr>ip_dst := 0x0a000001\<rparr>, dg_payload = []\<rparr>"
  have inv: "ro_inv ?r" using ni_inv_new [of "from_ipv4_numeric 5"] by (simp add: ro_inv_def)
  have "route_mask 8 = 0xff000000" by (simp add: route_mask_def mask_eq_exp_minus_1)
  then have step: "next_step ?dg 0 ?r = Some (1, from_ipv4_numeric 0x0a000001)"
    by (simp add: next_step_def find_route_def IPv4Header_new_def DEFAULT_TTL_def word_le_nat_alt)
  have ver: "ip_ver (dg_header ?dg) = 4" by (simp add: IPv4Header_new_def)
  have ttl: "unat (ip_ttl (dg_header ?dg)) - 1 = 127" by (simp add: IPv4Header_new_def DEFAULT_TTL_def)
  from router_forwards [OF inv ver, of 0, unfolded step ttl] obtain h frames n' where
      "forward ?dg 0 ?r = Inr (map (Pair 1) frames, ?r\<lparr>ro_interfaces := (ro_interfaces ?r)[unat (1 :: u64) := n']\<rparr>)"
      "unat (ip_ttl h) = 127"
      "resolver_step (ro_interfaces ?r ! unat (1 :: u64)) (ni_abs (ro_interfaces ?r ! unat (1 :: u64)))
         (Send (?dg\<lparr>dg_header := h\<rparr>) (from_ipv4_numeric 0x0a000001)) frames (ni_abs n')"
    unfolding option.case prod.case by blast
  then show ?thesis unfolding Let_def using step by auto
qed

end
