(* ===== verification/End_To_End.thy ===== *)
theory End_To_End
  imports Router Minnow_Socket
begin

text \<open>
  \<^verbatim>\<open>src/apps/endtoend.cc\<close>: a TCP socket over a network interface of its own, and a router between that host and
  the Internet, which stands for the router of the other side.  The adapter between TCP and the interface
  is an instance of the adapters of \<open>Minnow_Socket\<close>; the thread that runs the router is a behaviour of the event
  loop of \<^verbatim>\<open>eventloop.cc\<close>.  System calls and random numbers are parameters.  Output to \<^verbatim>\<open>cerr\<close> is left out.
\<close>

section \<open>Addresses and frames\<close>

text \<open>The numbers that the six calls of \<^verbatim>\<open>random_device\<close> draw, cut to bytes.\<close>

definition random_bytes :: "(nat \<Rightarrow> u32) \<Rightarrow> ethernet_address" where
  "random_bytes rand = map (\<lambda>i. ucast (rand i)) [0, 1, 2, 3, 4, 5]"

definition random_host_ethernet_address :: "(nat \<Rightarrow> u32) \<Rightarrow> ethernet_address" where
  "random_host_ethernet_address rand =
     (let addr = random_bytes rand;
          addr = addr[0 := addr ! 0 OR 2]
      in addr[0 := addr ! 0 AND 0xfe])"

definition random_router_ethernet_address :: "(nat \<Rightarrow> u32) \<Rightarrow> ethernet_address" where
  "random_router_ethernet_address rand = (random_bytes rand)[0 := 2, 1 := 0, 2 := 0]"

definition serialize_frame :: "ethernet_frame \<Rightarrow> bytes cpp_ref list result" where
  "serialize_frame = serialize (\<lambda>f s. Inr (EthernetFrame_serialize f s))"

definition maybe_receive_frame :: "bytes syscall \<Rightarrow> fd_wrapper \<Rightarrow> (ethernet_frame option \<times> fd_wrapper) result" where
  "maybe_receive_frame outcome fd =
     (let strs = [replicate (unat EthernetHeader_LENGTH) 0, replicate (unat IPv4Header_LENGTH) 0, replicate (unat TCP_HEADER_LENGTH) 0, []] in
      rbind (FD_readv strs outcome fd) (\<lambda>(strs, fd).
      rbind (parse EthernetFrame_parse EthernetFrame_new (map Owned strs)) (\<lambda>(frame, ok).
      Inr (if ok then Some frame else None, fd))))"

fun make_socket_pair :: "(int \<times> int) syscall \<Rightarrow> int syscall \<Rightarrow> int syscall \<Rightarrow> (fd_wrapper \<times> fd_wrapper) result" where
  "make_socket_pair (Failed errno) getfl0 getfl1 = Inl (Unix_Error ''socketpair'' errno)"
| "make_socket_pair (Returned (fd0, fd1)) getfl0 getfl1 =
     rbind (FDWrapper_new fd0 getfl0) (\<lambda>w0. rbind (FDWrapper_new fd1 getfl1) (\<lambda>w1. Inr (w0, w1)))"

section \<open>The adapter\<close>

text \<open>
  The first socket of the pair is the adapter's; the second one is \<^verbatim>\<open>frame_fd\<close>, which the router's thread uses.
  \<^verbatim>\<open>transmit\<close> writes a frame; the kernel's answer is a function of the bytes offered.
\<close>

record interface_adapter =
  na_base :: fd_adapter
  na_socket :: fd_wrapper
  na_interface :: network_interface
  na_next_hop :: address

fun transmit_frames :: "(bytes \<Rightarrow> int syscall) \<Rightarrow> ethernet_frame list \<Rightarrow> fd_wrapper \<Rightarrow> fd_wrapper result" where
  "transmit_frames outcome [] fd = Inr fd"
| "transmit_frames outcome (x # xs) fd =
     rbind (serialize_frame x) (\<lambda>buffers.
     rbind (FD_write_refs buffers (outcome (concat_refs buffers)) fd) (\<lambda>(_, fd). transmit_frames outcome xs fd))"

text \<open>
  The interface is a member of the adapter, no \<^verbatim>\<open>shared_ptr\<close> owns it: \<^verbatim>\<open>weak_from_this\<close> is empty in
  \<^verbatim>\<open>initialize\<close>, and the callback that it registers never finds its object.
\<close>

definition initialize_unowned :: "network_interface \<Rightarrow> network_interface" where
  "initialize_unowned n = NI_initialize False n"

definition NetworkInterfaceAdapter_new :: "fd_wrapper \<Rightarrow> (nat \<Rightarrow> u32) \<Rightarrow> address \<Rightarrow> address \<Rightarrow> interface_adapter" where
  "NetworkInterfaceAdapter_new first rand ip_address next_hop =
     \<lparr>na_base = FdAdapterBase_new, na_socket = first,
      na_interface = initialize_unowned (NetworkInterface_new ''network interface adapter'' (random_host_ethernet_address rand) ip_address),
      na_next_hop = next_hop\<rparr>"

definition adapter_received :: "(bytes \<Rightarrow> int syscall) \<Rightarrow> ethernet_frame \<Rightarrow> interface_adapter \<Rightarrow> (ipv4_datagram option \<times> interface_adapter) result" where
  "adapter_received outcome frame a =
     rbind (recv_frame frame (na_interface a)) (\<lambda>(frames, n).
     rbind (transmit_frames outcome frames (na_socket a)) (\<lambda>fd.
     let a = a\<lparr>na_interface := n, na_socket := fd\<rparr> in
     case ni_datagrams_received n of
       [] \<Rightarrow> Inr (None, a)
     | dgram # rest \<Rightarrow> Inr (Some dgram, a\<lparr>na_interface := n\<lparr>ni_datagrams_received := rest\<rparr>\<rparr>)))"

definition Interface_read :: "(bytes \<Rightarrow> int syscall) \<Rightarrow> bytes syscall \<Rightarrow> interface_adapter \<Rightarrow> (tcp_message option \<times> interface_adapter) result" where
  "Interface_read outcome data a =
     rbind (maybe_receive_frame data (na_socket a)) (\<lambda>(frame_opt, fd).
     let a = a\<lparr>na_socket := fd\<rparr> in
     case frame_opt of
       None \<Rightarrow> Inr (None, a)
     | Some frame \<Rightarrow>
         rbind (adapter_received outcome frame a) (\<lambda>(dgram, a).
         case dgram of
           None \<Rightarrow> Inr (None, a)
         | Some dgram \<Rightarrow> rbind (unwrap_tcp_in_ip dgram (na_base a)) (\<lambda>(msg, base). Inr (msg, a\<lparr>na_base := base\<rparr>))))"

text \<open>The frames that a message makes the interface send, and \<^verbatim>\<open>write\<close>, which sends one frame at most.\<close>

definition message_frames :: "tcp_message \<Rightarrow> interface_adapter \<Rightarrow> (ethernet_frame list \<times> network_interface) result" where
  "message_frames msg a = rbind (wrap_tcp_in_ip msg (na_base a)) (\<lambda>dgram. send_datagram dgram (na_next_hop a) (na_interface a))"

definition Interface_write :: "tcp_message \<Rightarrow> int syscall \<Rightarrow> interface_adapter \<Rightarrow> interface_adapter result" where
  "Interface_write msg ret a =
     rbind (message_frames msg a) (\<lambda>(frames, n).
     rbind (transmit_frames (\<lambda>bytes. ret) frames (na_socket a)) (\<lambda>fd. Inr (a\<lparr>na_interface := n, na_socket := fd\<rparr>)))"

definition Interface_tick :: "(bytes \<Rightarrow> int syscall) \<Rightarrow> u64 \<Rightarrow> interface_adapter \<Rightarrow> interface_adapter result" where
  "Interface_tick outcome ms a =
     rbind (NI_tick ms (na_interface a)) (\<lambda>(frames, n).
     rbind (transmit_frames outcome frames (na_socket a)) (\<lambda>fd. Inr (a\<lparr>na_interface := n, na_socket := fd\<rparr>)))"

definition interface_ops :: "(bytes \<Rightarrow> int syscall) \<Rightarrow> interface_adapter adapter" where
  "interface_ops outcome = \<lparr>ad_read = Interface_read outcome, ad_write = Interface_write, ad_tick = Interface_tick outcome, ad_fd = na_socket,
     ad_configure = (\<lambda>cfg a. a\<lparr>na_base := (na_base a)\<lparr>fa_cfg := cfg\<rparr>\<rparr>),
     ad_set_listening = (\<lambda>l a. a\<lparr>na_base := set_listening l (na_base a)\<rparr>)\<rparr>"

section \<open>The socket\<close>

text \<open>
  \<^verbatim>\<open>connect\<close> draws a port; \<^verbatim>\<open>bind\<close> compares the textual addresses, which are the same when the numbers are;
  \<open>to_string\<close> is what \<^verbatim>\<open>getnameinfo\<close> makes of an address.
\<close>

definition EndToEnd_connect :: "(bytes \<Rightarrow> int syscall) \<Rightarrow> u32 \<Rightarrow> address \<Rightarrow> address \<Rightarrow> (tcp_message \<Rightarrow> int syscall) \<Rightarrow> u64
    \<Rightarrow> (interface_adapter, 'k) turn list \<Rightarrow> (interface_adapter, 'k) minnow_loop \<Rightarrow> (address \<times> loop_state \<times> (interface_adapter, 'k) minnow_loop) result" where
  "EndToEnd_connect outcome rand local_addr address ret now turns l =
     (let local_addr = Address_of (ad_ipv4 local_addr) (ucast rand);
          cfg = FdAdapterConfig_new\<lparr>fc_source := local_addr, fc_destination := address\<rparr>
      in rbind (Minnow_connect (interface_ops outcome) TCPConfig_default cfg ret now turns l) (\<lambda>(state, l). Inr (local_addr, state, l)))"

definition EndToEnd_bind :: "(address \<Rightarrow> string) \<Rightarrow> address \<Rightarrow> address \<Rightarrow> address result" where
  "EndToEnd_bind to_string address local_addr =
     (if ad_ipv4 address \<noteq> ad_ipv4 local_addr then Inl (Runtime_Error (''Cannot bind to '' @ to_string address))
      else rbind (address_port address) (\<lambda>port. Inr (Address_of (ad_ipv4 local_addr) port)))"

definition EndToEnd_listen_and_accept :: "(bytes \<Rightarrow> int syscall) \<Rightarrow> address \<Rightarrow> u64
    \<Rightarrow> (interface_adapter, 'k) turn list \<Rightarrow> (interface_adapter, 'k) minnow_loop \<Rightarrow> (loop_state \<times> (interface_adapter, 'k) minnow_loop) result" where
  "EndToEnd_listen_and_accept outcome local_addr now turns l =
     Minnow_listen_and_accept (interface_ops outcome) TCPConfig_default (FdAdapterConfig_new\<lparr>fc_source := local_addr\<rparr>) now turns l"

section \<open>The network\<close>

text \<open>
  What the thread of the network works on: the router and the queues of the two ports.  \<open>nw_outcomes\<close> are the
  outcomes of the reads and writes of the callbacks; the last two fields record the frames that the two
  ports were given and those that were written, which the program does not have.
\<close>

record port =
  po_frames :: "ethernet_frame list"
  po_given :: "ethernet_frame list"
  po_written :: "ethernet_frame list"

record network =
  nw_router :: router
  nw_to_host :: port
  nw_to_internet :: port
  nw_outcomes :: "nat \<Rightarrow> bytes syscall \<times> (bytes \<Rightarrow> int syscall)"
  nw_calls :: nat

definition port_new :: port where
  "port_new = \<lparr>po_frames = [], po_given = [], po_written = []\<rparr>"

definition port_push :: "ethernet_frame list \<Rightarrow> port \<Rightarrow> port" where
  "port_push frames p = (let clones = map (\<lambda>f. f\<lparr>ef_payload := clone_payload (ef_payload f)\<rparr>) frames
     in p\<lparr>po_frames := po_frames p @ clones, po_given := po_given p @ clones\<rparr>)"

definition frame_fd :: nat where
  "frame_fd = 0"

definition internet_fd :: nat where
  "internet_fd = 1"

definition host_side :: u64 where
  "host_side = 0"

definition internet_side :: u64 where
  "internet_side = 1"

text \<open>The frames that the router's interfaces transmit go to the queue of their port.\<close>

definition push_frames :: "(u64 \<times> ethernet_frame) list \<Rightarrow> network \<Rightarrow> network" where
  "push_frames out w = w\<lparr>nw_to_host := port_push (map snd (filter (\<lambda>(i, f). i = host_side) out)) (nw_to_host w),
     nw_to_internet := port_push (map snd (filter (\<lambda>(i, f). i = internet_side) out)) (nw_to_internet w)\<rparr>"

text \<open>A frame for an interface of the router, and the datagrams that are then to be routed.\<close>

definition router_receives :: "u64 \<Rightarrow> ethernet_frame \<Rightarrow> router \<Rightarrow> ((u64 \<times> ethernet_frame) list \<times> router) result" where
  "router_receives side frame r =
     rbind (Router_interface side r) (\<lambda>n.
     rbind (recv_frame frame n) (\<lambda>(frames, n).
     rbind (route (r\<lparr>ro_interfaces := (ro_interfaces r)[unat side := n]\<rparr>)) (\<lambda>(out, r).
     Inr (map (Pair side) frames @ out, r))))"

definition frames_in :: "nat \<Rightarrow> u64 \<Rightarrow> network el_context \<Rightarrow> network el_context result" where
  "frames_in fd side c =
     (let w = el_world c; (data, outcome) = nw_outcomes w (nw_calls w); w = w\<lparr>nw_calls := nw_calls w + 1\<rparr> in
      rbind (maybe_receive_frame data (el_fds c fd)) (\<lambda>(frame_opt, desc).
      let c = c\<lparr>el_fds := (el_fds c)(fd := desc)\<rparr> in
      case frame_opt of
        None \<Rightarrow> Inr (c\<lparr>el_world := w\<rparr>)
      | Some frame \<Rightarrow>
          rbind (router_receives side frame (nw_router w)) (\<lambda>(out, r).
          Inr (c\<lparr>el_world := push_frames out (w\<lparr>nw_router := r\<rparr>)\<rparr>))))"

text \<open>\<^verbatim>\<open>front\<close> of an empty queue is undefined behaviour.\<close>

definition port_send :: "(bytes \<Rightarrow> int syscall) \<Rightarrow> port \<times> fd_wrapper \<Rightarrow> (port \<times> fd_wrapper) result" where
  "port_send outcome pd =
     (case po_frames (fst pd) of
        [] \<Rightarrow> Inl Undefined_Behaviour
      | f # rest \<Rightarrow>
          rbind (transmit_frames outcome [f] (snd pd)) (\<lambda>desc.
          Inr ((fst pd)\<lparr>po_frames := rest, po_written := po_written (fst pd) @ [f]\<rparr>, desc)))"

definition frames_to_host :: "network el_context \<Rightarrow> network el_context result" where
  "frames_to_host c =
     (let w = el_world c; (data, outcome) = nw_outcomes w (nw_calls w) in
      rbind (port_send outcome (nw_to_host w, el_fds c frame_fd)) (\<lambda>(p, desc).
      Inr (c\<lparr>el_fds := (el_fds c)(frame_fd := desc), el_world := w\<lparr>nw_to_host := p, nw_calls := nw_calls w + 1\<rparr>\<rparr>)))"

definition frames_to_internet :: "network el_context \<Rightarrow> network el_context result" where
  "frames_to_internet c =
     (let w = el_world c; (data, outcome) = nw_outcomes w (nw_calls w) in
      rbind (port_send outcome (nw_to_internet w, el_fds c internet_fd)) (\<lambda>(p, desc).
      Inr (c\<lparr>el_fds := (el_fds c)(internet_fd := desc), el_world := w\<lparr>nw_to_internet := p, nw_calls := nw_calls w + 1\<rparr>\<rparr>)))"

definition network_step :: "nat \<Rightarrow> network el_context \<Rightarrow> network el_context result" where
  "network_step i =
     (if i = 0 then frames_in frame_fd host_side else if i = 1 then frames_to_host
      else if i = 2 then frames_to_internet else frames_in internet_fd internet_side)"

definition network_rules :: "(network, unit) el_behaviour" where
  "network_rules = \<lparr>
     bh_interest = (\<lambda>i c. if i = 1 then po_frames (nw_to_host (el_world c)) \<noteq> []
       else if i = 2 then po_frames (nw_to_internet (el_world c)) \<noteq> [] else True),
     bh_callback = (\<lambda>i l. rbind (network_step i (el_context l)) (\<lambda>c. Inr (l\<lparr>el_context := c\<rparr>))),
     bh_cancel = (\<lambda>i. Inr), bh_error = (\<lambda>i. Inr)\<rparr>"

text \<open>The router of the client and of the server.\<close>

definition network_interface_new :: "string \<Rightarrow> (nat \<Rightarrow> u32) \<Rightarrow> u32 \<Rightarrow> network_interface" where
  "network_interface_new name rand ip = NetworkInterface_new name (random_router_ethernet_address rand) (Address_of ip 0)"

definition network_router :: "bool \<Rightarrow> (nat \<Rightarrow> u32) \<Rightarrow> (nat \<Rightarrow> u32) \<Rightarrow> router" where
  "network_router is_client rand rand' =
     (if is_client then
        let (host_side, router) = add_interface (network_interface_new ''host_side'' rand 0xc0a80001) Router_new;
            (internet_side, router) = add_interface (network_interface_new ''internet side'' rand' 0x0a0000c0) router;
            router = add_route 0xc0a80000 16 None host_side router;
            router = add_route 0x0a000000 8 None internet_side router
        in add_route 0xac100000 12 (Some (Address_of 0x0a0000ac 0)) internet_side router
      else
        let (host_side, router) = add_interface (network_interface_new ''host_side'' rand 0xac100001) Router_new;
            (internet_side, router) = add_interface (network_interface_new ''internet side'' rand' 0x0a0000ac) router;
            router = add_route 0xac100000 12 None host_side router;
            router = add_route 0x0a000000 8 None internet_side router
        in add_route 0xc0a80000 16 (Some (Address_of 0x0a0000c0 0)) internet_side router)"

definition host_address :: "bool \<Rightarrow> address" where
  "host_address is_client = (if is_client then Address_of 0xc0a80032 0 else Address_of 0xac100064 0)"

definition host_next_hop :: "bool \<Rightarrow> address" where
  "host_next_hop is_client = (if is_client then Address_of 0xc0a80001 0 else Address_of 0xac100001 0)"

text \<open>The UDP socket: the outcomes of \<^verbatim>\<open>socket\<close> with \<^verbatim>\<open>fcntl\<close>, of the three \<^verbatim>\<open>sendto\<close> and of \<^verbatim>\<open>connect\<close>.\<close>

definition internet_socket :: "int syscall \<Rightarrow> int syscall \<Rightarrow> (nat \<Rightarrow> int syscall) \<Rightarrow> int syscall \<Rightarrow> fd_wrapper result" where
  "internet_socket sock getfl sent conn =
     rbind (Socket_new sock getfl) (\<lambda>w.
     rbind (Datagram_sendto (sent 0) w) (\<lambda>w.
     rbind (Datagram_sendto (sent 1) w) (\<lambda>w.
     rbind (Datagram_sendto (sent 2) w) (\<lambda>w.
     rbind (Socket_connect conn w) (\<lambda>_. Inr w)))))"

definition network_init :: "bool \<Rightarrow> (nat \<Rightarrow> u32) \<Rightarrow> (nat \<Rightarrow> u32) \<Rightarrow> (nat \<Rightarrow> bytes syscall \<times> (bytes \<Rightarrow> int syscall))
    \<Rightarrow> fd_wrapper \<Rightarrow> fd_wrapper \<Rightarrow> network event_loop result" where
  "network_init is_client rand rand' ocs frame_sock internet_sock =
     (let c = \<lparr>el_fds = (\<lambda>i. if i = frame_fd then frame_sock else internet_sock), el_cancel_requested = (\<lambda>i. False),
               el_world = \<lparr>nw_router = network_router is_client rand rand', nw_to_host = port_new, nw_to_internet = port_new,
                           nw_outcomes = ocs, nw_calls = 0\<rparr>\<rparr> in
      rbind (add_poll_rule ''frames from host to router'' frame_fd In (EventLoop_new c)) (\<lambda>l.
      rbind (add_poll_rule ''frames from router to host'' frame_fd Out l) (\<lambda>l.
      rbind (add_poll_rule ''frames from router to Internet'' internet_fd Out l) (\<lambda>l.
      add_poll_rule ''frames from Internet to router'' internet_fd In l))))"

definition network_tick :: "u64 \<Rightarrow> network \<Rightarrow> network result" where
  "network_tick side w =
     rbind (Router_interface side (nw_router w)) (\<lambda>n.
     rbind (NI_tick 10 n) (\<lambda>(frames, n).
     Inr (push_frames (map (Pair side) frames)
            (w\<lparr>nw_router := (nw_router w)\<lparr>ro_interfaces := (ro_interfaces (nw_router w))[unat side := n]\<rparr>\<rparr>))))"

text \<open>One turn: what \<^verbatim>\<open>poll\<close> and \<^verbatim>\<open>getsockopt\<close> return, and whether the exit flag is set at its end; whether the loop goes on.\<close>

type_synonym turn_outcome = "((int \<times> u16) list \<Rightarrow> int \<Rightarrow> (int \<times> u16 list) syscall) \<times> (int \<Rightarrow> (int \<times> nat) syscall) \<times> bool"

fun network_turn :: "turn_outcome \<Rightarrow> network event_loop \<Rightarrow> (bool \<times> network event_loop) result" where
  "network_turn (poll, sockopt, exit_flag) l =
     rbind (wait_next_event network_rules poll sockopt 10 l) (\<lambda>(res, acts, l).
     if res = Exit then Inr (False, l)
     else rbind (network_tick host_side (el_world (el_context l))) (\<lambda>w.
          rbind (network_tick internet_side w) (\<lambda>w.
          Inr (\<not> exit_flag, l\<lparr>el_context := (el_context l)\<lparr>el_world := w\<rparr>\<rparr>))))"

fun network_loop :: "turn_outcome list \<Rightarrow> network event_loop \<Rightarrow> (bool \<times> network event_loop) result" where
  "network_loop [] l = Inr (True, l)"
| "network_loop (t # ts) l = rbind (network_turn t l) (\<lambda>(on, l). if on then network_loop ts l else Inr (False, l))"

section \<open>Frames on the wire\<close>

lemma serialize_frame_ok:
  "\<exists>bufs. serialize_frame f = Inr bufs \<and> concat_refs bufs = eh_bytes (ef_header f) @ concat_refs (ef_payload f)"
proof -
  obtain s where "EthernetHeader_serialize (ef_header f) Serializer_new = s" "sr_bytes s = eh_bytes (ef_header f)"
    by (simp add: EthernetHeader_serialize_def eh_bytes_def Let_def)
  then show ?thesis using Serializer_finish_ok(1)[of "Serializer_refs (ef_payload f) s"]
    by (simp add: serialize_frame_def serialize_def EthernetFrame_serialize_def)
qed

lemma maybe_receive_frame_ok:
  assumes "eh_valid h" and "length (eh_bytes h @ d) \<le> 16438"
  shows "\<exists>refs. maybe_receive_frame (Returned (eh_bytes h @ d)) fd = Inr (Some \<lparr>ef_header = h, ef_payload = refs\<rparr>, register_read fd)
    \<and> list_all is_owned refs \<and> no_gap (map ref_get refs) \<and> concat_refs refs = d"
proof -
  let ?bufs = "[replicate (unat EthernetHeader_LENGTH) 0, replicate (unat IPv4Header_LENGTH) 0, replicate (unat TCP_HEADER_LENGTH) 0, []]"
  let ?data = "eh_bytes h @ d" and ?ns = "[14, 20, 20, kReadBufferSize]"
  let ?strs = "scatter ?ns ?data"
  have sizes: "FD_read_sizes ?bufs = ?ns"
    by (simp add: FD_read_sizes_def EthernetHeader_LENGTH_def IPv4Header_LENGTH_def TCP_HEADER_LENGTH_def)
  have total: "sum_list ?ns = 16438" by (simp add: kReadBufferSize_def)
  then have rd: "FD_readv ?bufs (Returned ?data) fd = Inr (?strs, register_read fd)"
    using leD[OF assms(2)] unfolding FD_readv.simps sizes by (simp only: if_False)
  have cat: "concat ?strs = ?data" using assms(2) total by (intro concat_scatter) simp
  have "no_gap ?strs" using assms(2) total by (intro no_gap_scatter) (simp_all add: kReadBufferSize_def)
  then obtain p where p: "Parser_new (map Owned ?strs) = Inr p" "pr_ok p ?data"
    using Parser_new_ok[of "map Owned ?strs"] cat assms(2) by (auto simp: concat_refs_eq comp_def list_all_iff)
  from EthernetHeader_parse_ok[OF assms(1) eh_valid_new p(2)] obtain p' where p': "EthernetHeader_parse EthernetHeader_new p = Inr (h, p')" "pr_ok p' d"
    by blast
  obtain refs where r: "all_remaining p' = Inr refs" "concat_refs refs = d" "list_all is_owned refs" "no_gap (map ref_get refs)"
    using all_remaining_ok[OF p'(2)] by blast
  have "maybe_receive_frame (Returned ?data) fd = Inr (Some \<lparr>ef_header = h, ef_payload = refs\<rparr>, register_read fd)"
    unfolding maybe_receive_frame_def Let_def rd rbind.simps prod.case
    using p(1) p' r(1) by (simp add: parse_def EthernetFrame_parse_def EthernetFrame_new_def pr_ok_def)
  then show ?thesis using r(2-4) by blast
qed

section \<open>A datagram on its way\<close>

text \<open>What a frame carries, and what an interface sends and receives of it.\<close>

definition carries :: "ethernet_frame \<Rightarrow> ethernet_address \<Rightarrow> ipv4_header \<Rightarrow> bytes \<Rightarrow> bool" where
  "carries f mac h d \<longleftrightarrow> eh_valid (ef_header f) \<and> eh_dst (ef_header f) = mac \<and> eh_type (ef_header f) = TYPE_IPv4
     \<and> concat_refs (ef_payload f) = ip_bytes h @ d"

definition knows :: "network_interface \<Rightarrow> u32 \<Rightarrow> ethernet_address \<Rightarrow> bool" where
  "knows n ip mac \<longleftrightarrow> fst (arp_lookup ip (ni_arp_table n)) = Some mac"

lemma arp_lookup_known: "fst (arp_lookup ip t) = Some mac \<Longrightarrow> arp_lookup ip t = (Some mac, t)"
  by (auto simp: arp_lookup_def Let_def split: option.splits if_splits)

lemma concat_nonempty_refs: "concat (map ref_get (map Ref_duplicate (filter (\<lambda>r. ref_get r \<noteq> []) refs))) = concat (map ref_get refs)"
  by (induction refs) (auto simp: Ref_duplicate_def)

lemma ipv4_frame_carries:
  "length mac = 6 \<Longrightarrow> length (ni_ethernet_address n) = 6 \<Longrightarrow> carries (ipv4_frame n dg mac) mac (dg_header dg) (concat_refs (dg_payload dg))"
  using concat_nonempty_refs[of "dg_payload dg"]
  by (simp add: carries_def ipv4_frame_def make_frame_def eh_valid_def concat_refs_eq)

lemma send_known:
  assumes "knows n (ad_ipv4 hop) mac" and "is_ipv4 hop" and "ip_ver (dg_header dg) = 4"
  shows "send_datagram dg hop n = Inr ([ipv4_frame n dg mac], n)"
  using arp_lookup_known[OF assms(1)[unfolded knows_def]] assms(2,3) by (simp add: send_datagram_def send_ipv4_ok)

lemma recv_carried:
  assumes "eh_dst (ef_header f) = ni_ethernet_address n" and "eh_type (ef_header f) = TYPE_IPv4"
    and "list_all is_owned (ef_payload f)" and "no_gap (map ref_get (ef_payload f))" and "concat_refs (ef_payload f) = ip_bytes h @ d"
    and "ip_valid h" and "unat (ip_len h) = 20 + length d"
  shows "\<exists>refs. recv_frame f n = Inr ([], n\<lparr>ni_datagrams_received := ni_datagrams_received n @ [\<lparr>dg_header = h, dg_payload = refs\<rparr>]\<rparr>)
    \<and> list_all is_owned refs \<and> no_gap (map ref_get refs) \<and> concat_refs refs = d"
proof -
  have "length (ip_bytes h @ d) < 2 ^ 64"
    using assms(7) unsigned_less[where ?w = "ip_len h" and ?'a = nat] by simp
  then obtain p where p: "Parser_new (ef_payload f) = Inr p" "pr_ok p (ip_bytes h @ d)"
    using Parser_new_ok[OF assms(3,4)] assms(5) by auto
  from IPv4Datagram_parse_ok[OF assms(6,7) p(2)] obtain refs p' where
    "IPv4Datagram_parse IPv4Datagram_new p = Inr (\<lparr>dg_header = h, dg_payload = refs\<rparr>, p')" "\<not> pr_error p'"
    "concat_refs refs = d" "list_all is_owned refs" "no_gap (map ref_get refs)" by blast
  then show ?thesis using p(1) assms(1,2) by (auto simp: recv_frame_def parse_def)
qed

lemma forward_known:
  assumes "next_step dg i r = Some (k, hop)" and "unat k < length (ro_interfaces r)" and "knows (ro_interfaces r ! unat k) (ad_ipv4 hop) mac"
    and "is_ipv4 hop" and "ip_ver (dg_header dg) = 4"
  shows "forward dg i r = Inr ([(k, ipv4_frame (ro_interfaces r ! unat k) (dg\<lparr>dg_header := hop_header (dg_header dg)\<rparr>) mac)], r)"
proof -
  let ?h = "(dg_header dg)\<lparr>ip_ttl := ip_ttl (dg_header dg) - 1\<rparr>"
  obtain x where x1: "find_route (ip_dst (dg_header dg)) r = Some x"
    using assms(1) by (cases "find_route (ip_dst (dg_header dg)) r") (simp_all add: next_step_def)
  have x: "\<not> ip_ttl (dg_header dg) \<le> 1" "\<not> (re_interface_num x = i \<and> re_next_hop x \<noteq> None)" "k = re_interface_num x"
      "hop = (case re_next_hop x of None \<Rightarrow> from_ipv4_numeric (ip_dst (dg_header dg)) | Some a \<Rightarrow> a)"
    using assms(1) unfolding next_step_def x1 option.case by (simp_all split: if_split_asm)
  have c: "IPv4Header_compute_checksum ?h = Inr (hop_header (dg_header dg))"
    using compute_checksum_ok[of ?h] assms(5) by (simp add: hop_header_def Let_def)
  have h: "ip_dst (hop_header (dg_header dg)) = ip_dst (dg_header dg)" "ip_ver (hop_header (dg_header dg)) = 4"
    using assms(5) by (simp_all add: hop_header_def Let_def)
  then have s: "send_datagram (dg\<lparr>dg_header := hop_header (dg_header dg)\<rparr>) hop (ro_interfaces r ! unat k) =
      Inr ([ipv4_frame (ro_interfaces r ! unat k) (dg\<lparr>dg_header := hop_header (dg_header dg)\<rparr>) mac], ro_interfaces r ! unat k)"
    using send_known[OF assms(3,4)] by simp
  have id: "r\<lparr>ro_interfaces := (ro_interfaces r)[unat k := ro_interfaces r ! unat k]\<rparr> = r" by (cases r) simp
  have nh: "(case re_next_hop x of None \<Rightarrow> from_ipv4_numeric (ip_dst (hop_header (dg_header dg))) | Some a \<Rightarrow> a) = hop"
    by (simp only: x(4) h(1))
  have x3: "(k = i \<and> re_next_hop x \<noteq> None) = False" using x(2,3) by simp
  show ?thesis
    by (simp only: forward_def x1 x(1) option.case Let_def c rbind.simps nh x(3)[symmetric] x3 if_False if_True assms(2) s prod.case id list.map)
qed

lemma next_step_interfaces [simp]: "next_step dg i (r\<lparr>ro_interfaces := ns\<rparr>) = next_step dg i r"
  by (simp add: next_step_def find_route_def)

lemma next_step_payload: "dg_header dg = h \<Longrightarrow> next_step dg i r = next_step \<lparr>dg_header = h, dg_payload = []\<rparr> i r"
  unfolding next_step_def by (auto split: option.split)

definition idle :: "router \<Rightarrow> bool" where
  "idle r \<longleftrightarrow> length (ro_interfaces r) = 2 \<and> (\<forall>n\<in>set (ro_interfaces r). ni_datagrams_received n = [] \<and> length (ni_ethernet_address n) = 6)"

lemma router_passes:
  assumes "idle r" and "side = 0 \<or> side = 1" and "eh_dst (ef_header g) = ni_ethernet_address (ro_interfaces r ! unat side)"
    and "eh_type (ef_header g) = TYPE_IPv4" and "list_all is_owned (ef_payload g)" and "no_gap (map ref_get (ef_payload g))"
    and "concat_refs (ef_payload g) = ip_bytes h @ d" and "ip_valid h" and "unat (ip_len h) = 20 + length d"
    and "next_step \<lparr>dg_header = h, dg_payload = []\<rparr> side r = Some (k, hop)" and "k = 0 \<or> k = 1" and "is_ipv4 hop"
    and "knows (ro_interfaces r ! unat k) (ad_ipv4 hop) mac" and "length mac = 6"
  shows "\<exists>f. router_receives side g r = Inr ([(k, f)], r) \<and> carries f mac (hop_header h) d"
proof -
  let ?n = "ro_interfaces r ! unat side" and ?nk = "ro_interfaces r ! unat k"
  obtain n0 n1 where r: "ro_interfaces r = [n0, n1]" "ni_datagrams_received n0 = []" "ni_datagrams_received n1 = []"
      "length (ni_ethernet_address n0) = 6" "length (ni_ethernet_address n1) = 6"
    using assms(1) by (auto simp: idle_def length_Suc_conv numeral_2_eq_2)
  have e: "ni_datagrams_received ?n = []" "length (ni_ethernet_address ?nk) = 6" using r assms(2,11) by auto
  obtain refs where recv: "recv_frame g ?n = Inr ([], ?n\<lparr>ni_datagrams_received := [\<lparr>dg_header = h, dg_payload = refs\<rparr>]\<rparr>)"
      "concat_refs refs = d"
    using recv_carried[OF assms(3-9)] e(1) by auto
  define dg where "dg = \<lparr>dg_header = h, dg_payload = refs\<rparr>"
  define r1 where "r1 = r\<lparr>ro_interfaces := (ro_interfaces r)[unat side := ?n\<lparr>ni_datagrams_received := [dg]\<rparr>]\<rparr>"
  have d: "drained r1 = r"
    using assms(2) r by (auto simp: drained_def r1_def intro!: router.equality network_interface.equality)
  have len: "length (ro_interfaces r1) = 2" using r(1) by (auto simp: r1_def split: nat.split)
  then have idx: "map of_nat [0 ..< length (ro_interfaces r1)] = [0, 1 :: u64]" by (simp add: upt_rec numeral_2_eq_2)
  have a: "arrivals [0, 1] r1 = [(side, dg)]"
    using assms(2) r(1-3) by (elim disjE) (simp_all add: arrivals_def received_def r1_def)
  have "length (ro_interfaces r1) < 2 ^ 64" using len by simp
  then have "route r1 = rbind (forward dg side r) (\<lambda>(out, r). Inr (out, r))"
    using route_forwards_all[of r1] a d idx by (cases "forward dg side r") auto
  moreover have "forward dg side r = Inr ([(k, ipv4_frame ?nk (dg\<lparr>dg_header := hop_header h\<rparr>) mac)], r)"
    using forward_known[OF _ _ assms(13,12), of dg side] assms(8,10,11) r(1) next_step_payload[of dg h side r]
    by (auto simp: dg_def ip_valid_def)
  moreover have "Router_interface side r = Inr ?n" using assms(2) r(1) by (auto simp: Router_interface_def)
  ultimately have "router_receives side g r = Inr ([(k, ipv4_frame ?nk (dg\<lparr>dg_header := hop_header h\<rparr>) mac)], r)"
    using recv(1) by (simp add: router_receives_def r1_def dg_def)
  then show ?thesis using ipv4_frame_carries[OF assms(14) e(2), of "dg\<lparr>dg_header := hop_header h\<rparr>"] recv(2) by (auto simp: dg_def)
qed

lemma carries_wire:
  assumes "carries f mac h d" and "length d \<le> 16404"
  shows "\<exists>b g. serialize_frame f = Inr b \<and> maybe_receive_frame (Returned (concat_refs b)) fd = Inr (Some g, register_read fd)
    \<and> eh_dst (ef_header g) = mac \<and> eh_type (ef_header g) = TYPE_IPv4 \<and> list_all is_owned (ef_payload g) \<and> no_gap (map ref_get (ef_payload g))
    \<and> concat_refs (ef_payload g) = ip_bytes h @ d"
proof -
  obtain b where b: "serialize_frame f = Inr b" "concat_refs b = eh_bytes (ef_header f) @ ip_bytes h @ d"
    using serialize_frame_ok[of f] assms(1) by (auto simp: carries_def)
  have v: "eh_valid (ef_header f)" using assms(1) by (simp add: carries_def)
  then have "length (eh_bytes (ef_header f) @ ip_bytes h @ d) \<le> 16438"
    using assms(2) by (simp add: eh_valid_def eh_bytes_def length_int_bytes)
  from maybe_receive_frame_ok[OF v this, of fd] show ?thesis using b assms(1) by (fastforce simp: carries_def)
qed

text \<open>The routes of the two routers.\<close>

definition gateway :: "bool \<Rightarrow> address" where
  "gateway is_client = Address_of (if is_client then 0x0a0000c0 else 0x0a0000ac) 0"

definition routes_of :: "bool \<Rightarrow> router \<Rightarrow> bool" where
  "routes_of is_client r \<longleftrightarrow> ro_routes r = ro_routes (network_router is_client (\<lambda>i. 0) (\<lambda>i. 0))"

lemma ro_routes_add:
  "ro_routes (add_route p len hop k r) = (if len > 32 then ro_routes r else
     takeWhile (\<lambda>x. \<not> len > re_prefix_length x) (ro_routes r) @
     \<lparr>re_prefix = p, re_prefix_length = len, re_next_hop = hop, re_interface_num = k\<rparr> # dropWhile (\<lambda>x. \<not> len > re_prefix_length x) (ro_routes r))"
  by (simp add: add_route_def Let_def takeWhile_eq_take[symmetric] dropWhile_eq_drop[symmetric])

lemma add_interface_new:
  "add_interface n Router_new = (0, \<lparr>ro_interfaces = [n], ro_routes = []\<rparr>)"
  "add_interface n \<lparr>ro_interfaces = [n0], ro_routes = []\<rparr> = (1, \<lparr>ro_interfaces = [n0, n], ro_routes = []\<rparr>)"
  by (simp_all add: add_interface_def Router_new_def size64_def Let_def)

lemma route_masks: "route_mask 16 = 0xffff0000" "route_mask 12 = 0xfff00000" "route_mask 8 = 0xff000000"
  by (simp_all add: route_mask_def mask_eq_exp_minus_1)

lemma network_router_routes:
  "ro_routes (network_router True rand rand') =
     [\<lparr>re_prefix = 0xc0a80000, re_prefix_length = 16, re_next_hop = None, re_interface_num = 0\<rparr>,
      \<lparr>re_prefix = 0xac100000, re_prefix_length = 12, re_next_hop = Some (gateway False), re_interface_num = 1\<rparr>,
      \<lparr>re_prefix = 0x0a000000, re_prefix_length = 8, re_next_hop = None, re_interface_num = 1\<rparr>]"
  "ro_routes (network_router False rand rand') =
     [\<lparr>re_prefix = 0xc0a80000, re_prefix_length = 16, re_next_hop = Some (gateway True), re_interface_num = 1\<rparr>,
      \<lparr>re_prefix = 0xac100000, re_prefix_length = 12, re_next_hop = None, re_interface_num = 0\<rparr>,
      \<lparr>re_prefix = 0x0a000000, re_prefix_length = 8, re_next_hop = None, re_interface_num = 1\<rparr>]"
  by (simp_all add: network_router_def add_interface_new Let_def ro_routes_add gateway_def)

lemma network_routes: "routes_of c (network_router c rand rand')"
  by (cases c) (simp_all add: routes_of_def network_router_routes)

lemma network_next_step:
  assumes "routes_of c r" and "1 < ip_ttl h"
  shows "ip_dst h = ad_ipv4 (host_address (\<not> c)) \<Longrightarrow> next_step \<lparr>dg_header = h, dg_payload = []\<rparr> host_side r = Some (internet_side, gateway (\<not> c))"
    and "ip_dst h = ad_ipv4 (host_address c) \<Longrightarrow> next_step \<lparr>dg_header = h, dg_payload = []\<rparr> internet_side r = Some (host_side, from_ipv4_numeric (ip_dst h))"
  using assms by (cases c; simp add: routes_of_def network_router_routes next_step_def find_route_def route_masks host_address_def
      host_side_def internet_side_def Let_def)+

lemma wrap_ttl: "wrap_tcp_in_ip msg a = Inr dg \<Longrightarrow> ip_ttl (dg_header dg) = DEFAULT_TTL"
  by (auto simp: wrap_tcp_in_ip_def Let_def rbind_Inr_iff IPv4Header_new_def IPv4Header_LENGTH_def dest!: compute_checksum_valid(3))

lemma hop_header_valid:
  assumes "ip_valid h"
  shows "ip_valid (hop_header h)" "ip_len (hop_header h) = ip_len h" "ip_dst (hop_header h) = ip_dst h" "ip_src (hop_header h) = ip_src h"
    "ip_proto (hop_header h) = ip_proto h" "pseudo_checksum (hop_header h) = pseudo_checksum h" "ip_ttl (hop_header h) = ip_ttl h - 1"
  using assms by (simp_all add: hop_header_def Let_def ip_valid_def pseudo_checksum_def payload_length_def)

lemma message_frames_known:
  assumes "wrap_tcp_in_ip msg (na_base a) = Inr dg" and "ip_ver (dg_header dg) = 4"
    and "knows (na_interface a) (ad_ipv4 (na_next_hop a)) mac" and "is_ipv4 (na_next_hop a)"
  shows "message_frames msg a = Inr ([ipv4_frame (na_interface a) dg mac], na_interface a)"
  using assms(1) send_known[OF assms(3,4,2)] by (simp add: message_frames_def)

lemma Interface_read_known:
  assumes "maybe_receive_frame data (na_socket b) = Inr (Some g, register_read (na_socket b))"
    and "recv_frame g (na_interface b) = Inr ([], (na_interface b)\<lparr>ni_datagrams_received := [dg]\<rparr>)"
    and "ni_datagrams_received (na_interface b) = []" and "unwrap_tcp_in_ip dg (na_base b) = Inr (msg, na_base b)"
  shows "Interface_read outcome data b = Inr (msg, b\<lparr>na_socket := register_read (na_socket b)\<rparr>)"
proof -
  have "(na_interface b)\<lparr>ni_datagrams_received := []\<rparr> = na_interface b" using assms(3) by (cases "na_interface b") simp
  then show ?thesis using assms(1,2,4) by (simp add: Interface_read_def adapter_received_def Let_def)
qed

text \<open>
  The state of the network when all the addresses on the way from one host to the other are known:
  the host's adapter, the router of its side, the router of the other side, the other host's adapter.
\<close>

definition mac_of :: "router \<Rightarrow> u64 \<Rightarrow> ethernet_address" where
  "mac_of r side = ni_ethernet_address (ro_interfaces r ! unat side)"

definition path_ready :: "bool \<Rightarrow> interface_adapter \<Rightarrow> router \<Rightarrow> router \<Rightarrow> interface_adapter \<Rightarrow> bool" where
  "path_ready c a r r' b \<longleftrightarrow>
     na_next_hop a = host_next_hop c \<and> length (ni_ethernet_address (na_interface a)) = 6 \<and> length (ni_ethernet_address (na_interface b)) = 6
     \<and> ni_datagrams_received (na_interface b) = [] \<and> routes_of c r \<and> idle r \<and> routes_of (\<not> c) r' \<and> idle r'
     \<and> knows (na_interface a) (ad_ipv4 (host_next_hop c)) (mac_of r host_side)
     \<and> knows (ro_interfaces r ! unat internet_side) (ad_ipv4 (gateway (\<not> c))) (mac_of r' internet_side)
     \<and> knows (ro_interfaces r' ! unat host_side) (ad_ipv4 (host_address (\<not> c))) (ni_ethernet_address (na_interface b))"

definition connected :: "bool \<Rightarrow> fd_adapter \<Rightarrow> fd_adapter \<Rightarrow> bool" where
  "connected c a b \<longleftrightarrow> (let src = fc_source (fa_cfg a); dst = fc_destination (fa_cfg a) in
     is_ipv4 src \<and> is_ipv4 dst \<and> ad_ipv4 src = ad_ipv4 (host_address c) \<and> ad_ipv4 dst = ad_ipv4 (host_address (\<not> c))
     \<and> fc_source (fa_cfg b) = dst \<and> fc_destination (fa_cfg b) = src \<and> \<not> fa_listen b)"

lemma unwrap_wrapped:
  assumes "connected c a b" and "length (sm_payload (ref_get (msg_sender msg))) \<le> 65495" and "ip_src h = ad_ipv4 (fc_source (fa_cfg a))"
    and "ip_dst h = ad_ipv4 (fc_destination (fa_cfg a))" and "ip_proto h = PROTO_TCP" and "list_all is_owned refs"
    and "no_gap (map ref_get refs)" and "concat_refs refs = seg_bytes (wrapped_segment msg a h)"
  shows "unwrap_tcp_in_ip \<lparr>dg_header = h, dg_payload = refs\<rparr> b = Inr (Some (on_wire msg), b)"
proof -
  obtain seg where "parse (TCPSegment_parse (pseudo_checksum h)) TCPSegment_new refs = Inr (seg, True)" "seg_message seg = on_wire msg"
      "ud_src_port (seg_udinfo seg) = ad_port (fc_source (fa_cfg a))" "ud_dst_port (seg_udinfo seg) = ad_port (fc_destination (fa_cfg a))"
    using parse_wrapped[OF assms(2,6-8)] by blast
  then show ?thesis using assms(1,3-5) by (simp add: unwrap_tcp_in_ip_def on_wire_def Let_def connected_def)
qed

text \<open>One hop: a frame that carries the datagram is received and passed on.\<close>

lemma hop_passes:
  assumes "carries f (mac_of r side) h d" and "length d \<le> 16404" and "idle r" and "side = 0 \<or> side = 1" and "ip_valid h"
    and "unat (ip_len h) = 20 + length d" and "next_step \<lparr>dg_header = h, dg_payload = []\<rparr> side r = Some (k, hop)" and "k = 0 \<or> k = 1"
    and "is_ipv4 hop" and "knows (ro_interfaces r ! unat k) (ad_ipv4 hop) mac" and "length mac = 6"
  shows "\<exists>b g f'. serialize_frame f = Inr b \<and> maybe_receive_frame (Returned (concat_refs b)) fd = Inr (Some g, register_read fd)
    \<and> router_receives side g r = Inr ([(k, f')], r) \<and> carries f' mac (hop_header h) d"
proof -
  obtain b g where b: "serialize_frame f = Inr b" "maybe_receive_frame (Returned (concat_refs b)) fd = Inr (Some g, register_read fd)"
      "eh_dst (ef_header g) = mac_of r side" "eh_type (ef_header g) = TYPE_IPv4" "list_all is_owned (ef_payload g)"
      "no_gap (map ref_get (ef_payload g))" "concat_refs (ef_payload g) = ip_bytes h @ d"
    using carries_wire[OF assms(1,2)] by blast
  from router_passes[OF assms(3,4) b(3)[unfolded mac_of_def] b(4-7) assms(5-11)] b(1,2) show ?thesis by blast
qed

text \<open>The last hop: the adapter of the other host reads the message.\<close>

lemma host_reads:
  assumes "carries f (ni_ethernet_address (na_interface b)) h (seg_bytes (wrapped_segment msg a h))" and "connected c a (na_base b)"
    and "length (sm_payload (ref_get (msg_sender msg))) \<le> 16384" and "ip_valid h"
    and "unat (ip_len h) = 20 + length (seg_bytes (wrapped_segment msg a h))" and "ni_datagrams_received (na_interface b) = []"
    and "ip_src h = ad_ipv4 (fc_source (fa_cfg a))" and "ip_dst h = ad_ipv4 (fc_destination (fa_cfg a))" and "ip_proto h = PROTO_TCP"
  shows "\<exists>bufs. serialize_frame f = Inr bufs
    \<and> Interface_read outcome (Returned (concat_refs bufs)) b = Inr (Some (on_wire msg), b\<lparr>na_socket := register_read (na_socket b)\<rparr>)"
proof -
  let ?d = "seg_bytes (wrapped_segment msg a h)"
  have d: "length ?d \<le> 16404"
    using assms(3) by (simp add: wrapped_segment_def seg_bytes_def Let_def length_int_bytes Ref_duplicate_def)
  obtain bufs g where w: "serialize_frame f = Inr bufs"
      "maybe_receive_frame (Returned (concat_refs bufs)) (na_socket b) = Inr (Some g, register_read (na_socket b))"
      "eh_dst (ef_header g) = ni_ethernet_address (na_interface b)" "eh_type (ef_header g) = TYPE_IPv4" "list_all is_owned (ef_payload g)"
      "no_gap (map ref_get (ef_payload g))" "concat_refs (ef_payload g) = ip_bytes h @ ?d"
    using carries_wire[OF assms(1) d] by blast
  obtain refs where recv: "recv_frame g (na_interface b) = Inr ([], (na_interface b)\<lparr>ni_datagrams_received := [\<lparr>dg_header = h, dg_payload = refs\<rparr>]\<rparr>)"
      "list_all is_owned refs" "no_gap (map ref_get refs)" "concat_refs refs = ?d"
    using recv_carried[OF w(3-7) assms(4,5)] assms(6) by auto
  have "unwrap_tcp_in_ip \<lparr>dg_header = h, dg_payload = refs\<rparr> (na_base b) = Inr (Some (on_wire msg), na_base b)"
    using unwrap_wrapped[OF assms(2) _ assms(7-9) recv(2-4)] assms(3) by simp
  from Interface_read_known[OF w(2) recv(1) assms(6) this] w(1) show ?thesis by blast
qed

lemma host_addresses: "is_ipv4 (host_address c)" "is_ipv4 (host_next_hop c)" "is_ipv4 (gateway c)" "is_ipv4 (from_ipv4_numeric ip)"
  "ad_ipv4 (from_ipv4_numeric ip) = ip"
  by (simp_all add: host_address_def host_next_hop_def gateway_def)

lemma idle_mac: "idle r \<Longrightarrow> side = 0 \<or> side = 1 \<Longrightarrow> length (mac_of r side) = 6"
  by (auto simp: idle_def mac_of_def)

lemmas sides = host_side_def internet_side_def

text \<open>
  C2. A message goes from one host to the other through both routers: when the addresses on the way are
  known, the adapter of one host sends one frame; the router of its side receives it from the wire and sends
  one frame on the Internet; the router of the other side sends one frame to its host, and the
  adapter of that host reads the same message from it.  This holds in both directions and for every
  message with up to 16384 bytes of payload.
\<close>

theorem end_to_end_delivers:
  assumes "path_ready c a r r' b" and "connected c (na_base a) (na_base b)" and "length (sm_payload (ref_get (msg_sender msg))) \<le> 16384"
  shows "\<exists>f1 b1 g1 f2 b2 g2 f3 b3.
    message_frames msg a = Inr ([f1], na_interface a) \<and> serialize_frame f1 = Inr b1
    \<and> maybe_receive_frame (Returned (concat_refs b1)) fd = Inr (Some g1, register_read fd)
    \<and> router_receives host_side g1 r = Inr ([(internet_side, f2)], r) \<and> serialize_frame f2 = Inr b2
    \<and> maybe_receive_frame (Returned (concat_refs b2)) fd' = Inr (Some g2, register_read fd')
    \<and> router_receives internet_side g2 r' = Inr ([(host_side, f3)], r') \<and> serialize_frame f3 = Inr b3
    \<and> Interface_read outcome (Returned (concat_refs b3)) b = Inr (Some (on_wire msg), b\<lparr>na_socket := register_read (na_socket b)\<rparr>)"
proof -
  note p = assms(1)[unfolded path_ready_def]
  let ?src = "fc_source (fa_cfg (na_base a))" and ?dst = "fc_destination (fa_cfg (na_base a))"
  have len: "length (sm_payload (ref_get (msg_sender msg))) \<le> 65495" using assms(3) by simp
  have ad: "is_ipv4 ?src" "is_ipv4 ?dst" "ad_ipv4 ?dst = ad_ipv4 (host_address (\<not> c))"
    using assms(2) by (simp_all add: connected_def Let_def)
  obtain dg where dg: "wrap_tcp_in_ip msg (na_base a) = Inr dg" "ip_valid (dg_header dg)" "ip_src (dg_header dg) = ad_ipv4 ?src"
      "ip_dst (dg_header dg) = ad_ipv4 ?dst" "ip_proto (dg_header dg) = PROTO_TCP"
      "concat_refs (dg_payload dg) = seg_bytes (wrapped_segment msg (na_base a) (dg_header dg))"
      "unat (ip_len (dg_header dg)) = 20 + length (concat_refs (dg_payload dg))"
    using wrap_tcp_in_ip_ok[OF ad(1,2) len] by blast
  define h d where "h = dg_header dg" and "d = concat_refs (dg_payload dg)"
  note v1 = hop_header_valid[OF dg(2)[folded h_def]]
  note v2 = hop_header_valid[OF v1(1)]
  have d: "length d = 20 + length (sm_payload (ref_get (msg_sender msg)))"
    unfolding d_def dg(6) by (simp add: wrapped_segment_def seg_bytes_def Let_def length_int_bytes Ref_duplicate_def)
  have dl: "length d \<le> 16404" "unat (ip_len h) = 20 + length d" using d assms(3) dg(7) by (simp_all add: h_def d_def)
  have ttl: "ip_ttl h = 128" using wrap_ttl[OF dg(1)] by (simp add: h_def DEFAULT_TTL_def)
  then have ttl': "1 < ip_ttl h" "1 < ip_ttl (hop_header h)" by (simp_all add: v1(7))
  let ?f1 = "ipv4_frame (na_interface a) dg (mac_of r host_side)"
  have f1: "message_frames msg a = Inr ([?f1], na_interface a)"
    using message_frames_known[OF dg(1)] p dg(2) host_addresses(2) by (simp add: ip_valid_def)
  have c1: "carries ?f1 (mac_of r host_side) h d"
    using ipv4_frame_carries[of "mac_of r host_side" "na_interface a" dg] idle_mac p by (simp add: h_def d_def sides)
  obtain b1 g1 f2 where h1: "serialize_frame ?f1 = Inr b1" "maybe_receive_frame (Returned (concat_refs b1)) fd = Inr (Some g1, register_read fd)"
      "router_receives host_side g1 r = Inr ([(internet_side, f2)], r)" "carries f2 (mac_of r' internet_side) (hop_header h) d"
    using hop_passes[OF c1 dl(1) _ _ dg(2)[folded h_def] dl(2) network_next_step(1)[OF _ ttl'(1)], of c "mac_of r' internet_side" fd]
      p dg(4) ad(3) host_addresses(3) idle_mac[of r'] by (auto simp: sides h_def)
  have n2: "next_step \<lparr>dg_header = hop_header h, dg_payload = []\<rparr> internet_side r' = Some (host_side, from_ipv4_numeric (ip_dst h))"
    using network_next_step(2)[of "\<not> c" r' "hop_header h"] p ttl'(2) v1(3) dg(4) ad(3) by (simp add: h_def)
  obtain b2 g2 f3 where h2: "serialize_frame f2 = Inr b2" "maybe_receive_frame (Returned (concat_refs b2)) fd' = Inr (Some g2, register_read fd')"
      "router_receives internet_side g2 r' = Inr ([(host_side, f3)], r')"
      "carries f3 (ni_ethernet_address (na_interface b)) (hop_header (hop_header h)) d"
    using hop_passes[OF h1(4) dl(1) _ _ v1(1) _ n2, of "ni_ethernet_address (na_interface b)" fd'] p dl(2) v1(2) dg(4) ad(3) host_addresses(4,5)
    by (auto simp: sides h_def)
  have "wrapped_segment msg (na_base a) (hop_header (hop_header h)) = wrapped_segment msg (na_base a) h"
    by (simp add: wrapped_segment_def v1(6) v2(6))
  then obtain b3 where "serialize_frame f3 = Inr b3"
      "Interface_read outcome (Returned (concat_refs b3)) b = Inr (Some (on_wire msg), b\<lparr>na_socket := register_read (na_socket b)\<rparr>)"
    using host_reads[OF _ assms(2,3) v2(1), of f3 outcome] h2(4) dg(3-6) dl(2) v1(2-5) v2(2-5) p by (auto simp: h_def d_def)
  then show ?thesis using f1 h1(1-3) h2(1-3) by blast
qed

section \<open>The queues of the ports\<close>

definition port_ok :: "port \<Rightarrow> bool" where
  "port_ok p \<longleftrightarrow> po_given p = po_written p @ po_frames p"

definition network_ok :: "network \<Rightarrow> bool" where
  "network_ok w \<longleftrightarrow> port_ok (nw_to_host w) \<and> port_ok (nw_to_internet w)"

lemma push_frames_ok: "network_ok w \<Longrightarrow> network_ok (push_frames out (w\<lparr>nw_router := r\<rparr>))"
  by (simp add: network_ok_def push_frames_def port_ok_def port_push_def Let_def)

lemma port_send_ok: "port_send outcome (p, desc) = Inr (p', desc') \<Longrightarrow> port_ok p \<Longrightarrow> port_ok p'"
  by (auto simp: port_send_def port_ok_def rbind_Inr_iff split: list.splits)

lemma network_ok_calls [simp]: "network_ok (w\<lparr>nw_calls := n\<rparr>) = network_ok w"
  by (simp add: network_ok_def)

lemma frames_in_ok: "frames_in fd side c = Inr c' \<Longrightarrow> network_ok (el_world c) \<Longrightarrow> network_ok (el_world c')"
  by (auto simp: frames_in_def Let_def rbind_Inr_iff push_frames_ok split: prod.splits option.splits)

lemma frames_out_ok:
  "frames_to_host c = Inr c' \<Longrightarrow> network_ok (el_world c) \<Longrightarrow> network_ok (el_world c')"
  "frames_to_internet c = Inr c' \<Longrightarrow> network_ok (el_world c) \<Longrightarrow> network_ok (el_world c')"
  by (auto simp: frames_to_host_def frames_to_internet_def Let_def rbind_Inr_iff network_ok_def dest!: port_send_ok split: prod.splits)

lemma network_rules_keep: "poll_keeps network_rules (network_ok \<circ> el_world)"
  unfolding poll_keeps_def
  by (auto simp: network_rules_def rbind_Inr_iff network_step_def dest: frames_in_ok frames_out_ok split: if_splits)

text \<open>A writing rule is called only when its queue has a frame: nothing empties it before the callback.\<close>

lemma network_told: "told network_rules c c' \<Longrightarrow> c' = c"
  by (induction rule: told.induct) (auto simp: network_rules_def)

lemma network_wanted:
  "wanted network_rules P 1 c \<Longrightarrow> po_frames (nw_to_host (el_world c)) \<noteq> []"
  "wanted network_rules P 2 c \<Longrightarrow> po_frames (nw_to_internet (el_world c)) \<noteq> []"
  by (auto simp: wanted_def dest!: network_told) (simp_all add: network_rules_def)

lemma network_tick_ok: "network_tick side w = Inr w' \<Longrightarrow> network_ok w \<Longrightarrow> network_ok w'"
  by (auto simp: network_tick_def rbind_Inr_iff push_frames_ok)

lemma network_turn_ok:
  assumes "network_turn t l = Inr (on, l')" and "network_ok (el_world (el_context l))"
  shows "network_ok (el_world (el_context l'))"
proof (cases t)
  case (fields poll sockopt exit_flag)
  then obtain res acts l1 where w: "wait_next_event network_rules poll sockopt 10 l = Inr (res, acts, l1)"
    using assms(1) by (auto simp: rbind_Inr_iff)
  have "network_ok (el_world (el_context l1))" using poll_round_keeps[OF network_rules_keep w] assms(2) by simp
  then show ?thesis using assms(1) fields w by (auto simp: rbind_Inr_iff split: if_splits dest: network_tick_ok)
qed

lemma network_loop_ok: "network_loop ts l = Inr (on, l') \<Longrightarrow> network_ok (el_world (el_context l)) \<Longrightarrow> network_ok (el_world (el_context l'))"
  by (induction ts arbitrary: l) (auto simp: rbind_Inr_iff split: if_splits dest: network_turn_ok)

lemma network_init_ok: "network_init c rand rand' ocs fs is = Inr l \<Longrightarrow> network_ok (el_world (el_context l))"
  by (auto simp: network_init_def add_poll_rule_def add_category_def add_fd_rule_def new_rule_def EventLoop_new_def network_ok_def port_ok_def
      port_new_def rbind_Inr_iff Let_def split: if_splits)

text \<open>
  The network loses and reorders no frame: at any time, what the router gave to a port is what was
  written to the port's socket followed by what waits in its queue.
\<close>

theorem network_relays:
  assumes "network_init c rand rand' ocs frame_sock internet_sock = Inr l" and "network_loop ts l = Inr (on, l')"
  shows "po_given (nw_to_host (el_world (el_context l'))) =
      po_written (nw_to_host (el_world (el_context l'))) @ po_frames (nw_to_host (el_world (el_context l')))
    \<and> po_given (nw_to_internet (el_world (el_context l'))) =
      po_written (nw_to_internet (el_world (el_context l'))) @ po_frames (nw_to_internet (el_world (el_context l')))"
  using network_loop_ok[OF assms(2) network_init_ok[OF assms(1)]] by (simp add: network_ok_def port_ok_def)

lemma ro_interfaces_add: "ro_interfaces (add_route p len hop k r) = ro_interfaces r"
  by (simp add: add_route_def Let_def)

lemma network_router_interfaces:
  "ro_interfaces (network_router c rand rand') =
     [network_interface_new ''host_side'' rand (if c then 0xc0a80001 else 0xac100001),
      network_interface_new ''internet side'' rand' (if c then 0x0a0000c0 else 0x0a0000ac)]"
  by (simp add: network_router_def add_interface_new Let_def ro_interfaces_add)

text \<open>A turn in which the host has sent something that is not a frame, and one in which nothing happens.\<close>

definition ex_socket :: fd_wrapper where
  "ex_socket = \<lparr>fw_fd = 5, fw_eof = False, fw_closed = False, fw_non_blocking = False, fw_read_count = 0, fw_write_count = 0\<rparr>"

definition ex_turns :: "turn_outcome list" where
  "ex_turns = [(\<lambda>entries timeout. Returned (1, [POLLIN, 0, 0, 0]), \<lambda>fd. Failed ENOTSOCK, False),
     (\<lambda>entries timeout. Returned (0, []), \<lambda>fd. Failed ENOTSOCK, False)]"

definition ex_network :: "network event_loop result" where
  "ex_network = network_init True (\<lambda>i. 0) (\<lambda>i. 1) (\<lambda>n. (Returned [1, 2, 3], \<lambda>b. Returned (int (length b)))) ex_socket ex_socket"

lemma ex_not_a_frame: "maybe_receive_frame (Returned [1, 2, 3]) ex_socket = Inr (None, register_read ex_socket)"
  by code_simp

lemma port_push_Nil: "port_push [] p = p"
  by (simp add: port_push_def)

lemma network_tick_fresh:
  assumes "nw_router w = network_router c rand rand'" and "side = host_side \<or> side = internet_side"
  shows "network_tick side w = Inr w"
proof -
  obtain name ra ip where n: "Router_interface side (nw_router w) = Inr (network_interface_new name ra ip)"
    using assms by (auto simp: Router_interface_def network_router_interfaces host_side_def internet_side_def)
  have "NI_tick 10 (network_interface_new name ra ip) = Inr ([], network_interface_new name ra ip)"
    by (simp add: NI_tick_def network_interface_new_def NetworkInterface_new_def ARPQueue_tick_def ARPQueue_new_def)
  moreover have "(ro_interfaces (nw_router w))[unat side := network_interface_new name ra ip] = ro_interfaces (nw_router w)"
    using n by (auto simp: Router_interface_def list_update_same_conv split: if_splits)
  ultimately show ?thesis using n by (simp add: network_tick_def push_frames_def port_push_Nil)
qed

lemmas loop_simps = network_init_def add_poll_rule_def add_category_def add_fd_rule_def new_rule_def EventLoop_new_def size64_def
  wait_next_event_def setup_loop_Cons fd_dead_def network_rules_def direction_event_def POLLIN_def POLLOUT_def POLLERR_def POLLHUP_def POLLNVAL_def
  Let_def service_count_def network_step_def frames_in_def frame_fd_def internet_fd_def

lemma ex_network_run: "\<exists>l l'. ex_network = Inr l \<and> network_loop ex_turns l = Inr (True, l')"
  by (simp add: ex_network_def ex_turns_def loop_simps ex_not_a_frame network_tick_fresh)
    (simp add: ex_socket_def register_read_def port_new_def)

theorem network_relays_witness:
  "\<exists>l l'. ex_network = Inr l \<and> network_loop ex_turns l = Inr (True, l')
     \<and> po_given (nw_to_host (el_world (el_context l'))) = po_written (nw_to_host (el_world (el_context l'))) @ po_frames (nw_to_host (el_world (el_context l')))"
proof -
  obtain l l' where r: "ex_network = Inr l" "network_loop ex_turns l = Inr (True, l')" using ex_network_run by (elim exE conjE) (rule that)
  from network_relays[OF r(1)[unfolded ex_network_def] r(2)] r show ?thesis by blast
qed

section \<open>The routers of the program\<close>

text \<open>They satisfy the invariant under which forwarding is specified, so \<open>router_forwards\<close> is about them.\<close>

lemma network_router_inv: "ro_inv (network_router c rand rand')"
  using ni_inv_new
  by (cases c) (auto simp: ro_inv_def network_router_interfaces network_interface_new_def network_router_routes gateway_def)

section \<open>Requests are not repeated by the passing of time\<close>

lemma NI_tick_silent:
  assumes "\<not> asks_again n"
  shows "\<exists>n'. NI_tick ms n = Inr ([], n') \<and> \<not> asks_again n'"
  using assms
  by (cases "aq_on_timeout (ni_arp_queue n)")
    (auto simp: NI_tick_def ARPQueue_tick_def on_arp_timeout_def asks_again_def Let_def send_each_none split: prod.splits)

lemma add_pending_callback: "add_pending dg hop q = Inr q' \<Longrightarrow> aq_on_timeout q' = aq_on_timeout q"
  by (auto simp: add_pending_def Let_def rbind_Inr_iff)

lemma pop_pending_callback: "aq_on_timeout (snd (pop_pending ip q)) = aq_on_timeout q"
  by (simp add: pop_pending_def split: option.split)

lemma send_datagram_callback:
  assumes "send_datagram dg hop n = Inr (out, n')"
  shows "asks_again n' = asks_again n"
proof (cases "ipv4_numeric hop")
  case (Inr ip)
  then show ?thesis using assms
    by (cases "arp_lookup ip (ni_arp_table n)")
      (auto simp: send_datagram_def asks_again_def rbind_Inr_iff Let_def dest: add_pending_callback split: option.splits if_splits)
qed (use assms in \<open>simp add: send_datagram_def\<close>)

lemma flush_callback:
  assumes "flush_pending_for ip n = Inr (out, n')"
  shows "asks_again n' = asks_again n"
  using assms pop_pending_callback[of ip "ni_arp_queue n"]
  by (cases "arp_lookup ip (ni_arp_table n)"; cases "pop_pending ip (ni_arp_queue n)")
    (auto simp: flush_pending_for_def asks_again_def rbind_Inr_iff Let_def split: option.splits)

lemma recv_frame_callback: "recv_frame f n = Inr (out, n') \<Longrightarrow> asks_again n' = asks_again n"
  by (auto simp: recv_frame_def Let_def rbind_Inr_iff dest!: flush_callback split: if_splits) (auto simp: asks_again_def)

lemma iface_step_callback:
  assumes "iface_step p n = Inr (out, n')" and "\<not> asks_again n"
  shows "\<not> asks_again n'"
proof (cases p)
  case (Elapse ms)
  then show ?thesis using assms(1) NI_tick_silent[OF assms(2), of ms] by auto
qed (use assms in \<open>auto dest: send_datagram_callback recv_frame_callback\<close>)

lemma iface_run_callback: "iface_run ops n = Inr (out, n') \<Longrightarrow> \<not> asks_again n \<Longrightarrow> \<not> asks_again n'"
  by (induction ops arbitrary: n out) (auto simp: rbind_Inr_iff dest: iface_step_callback)

lemma end_to_end_callbacks:
  "\<not> asks_again (na_interface (NetworkInterfaceAdapter_new first rand ip hop))"
  "\<not> asks_again (network_interface_new name rand ip')"
  by (simp_all add: NetworkInterfaceAdapter_new_def initialize_unowned_def network_interface_new_def)

text \<open>
  No interface of this program repeats an unanswered request on its own: the interfaces of the router are never
  initialized, and the callback that the adapter's interface registers has no object to call.  However these
  interfaces were used, the passing of time makes them send nothing; only another datagram for the same hop,
  after the five seconds, makes them ask again (\<open>interface_asks_twice\<close>).
\<close>

lemma end_to_end_never_repeats:
  assumes "n = na_interface (NetworkInterfaceAdapter_new first rand ip hop) \<or> n \<in> set (ro_interfaces (network_router c rand rand'))"
    and "iface_run ops n = Inr (out, n')"
  shows "\<exists>n''. NI_tick ms n' = Inr ([], n'')"
proof -
  have "\<not> asks_again n" using assms(1) end_to_end_callbacks by (auto simp: network_router_interfaces)
  then show ?thesis using NI_tick_silent[OF iface_run_callback[OF assms(2)], of ms] by blast
qed

section \<open>A message on its way\<close>

text \<open>An interface that has learned an address; the network of the program with the addresses known.\<close>

definition learned :: "u32 \<Rightarrow> ethernet_address \<Rightarrow> network_interface \<Rightarrow> network_interface" where
  "learned ip mac n = n\<lparr>ni_arp_table := add_entry ip mac []\<rparr>"

lemma knows_entry: "ni_arp_table n = add_entry ip mac [] \<Longrightarrow> knows n ip mac"
  using arp_lookup_ok[of "add_entry ip mac []" ip] add_entry_ok(1,2)[of "[]" ip mac] by (simp add: knows_def)

definition ex_host :: "bool \<Rightarrow> ethernet_address \<Rightarrow> interface_adapter" where
  "ex_host c mac =
     (let a = NetworkInterfaceAdapter_new ex_socket (\<lambda>i. if c then 1 else 2) (host_address c) (host_next_hop c) in
      a\<lparr>na_base := \<lparr>fa_cfg = FdAdapterConfig_new\<lparr>fc_source := host_address c, fc_destination := host_address (\<not> c)\<rparr>, fa_listen = False\<rparr>,
        na_interface := learned (ad_ipv4 (host_next_hop c)) mac (na_interface a)\<rparr>)"

definition ex_router :: "bool \<Rightarrow> ethernet_address \<Rightarrow> ethernet_address \<Rightarrow> router" where
  "ex_router c host_mac peer_mac =
     (let r = network_router c (\<lambda>i. if c then 3 else 4) (\<lambda>i. if c then 5 else 6) in
      r\<lparr>ro_interfaces := [learned (ad_ipv4 (host_address c)) host_mac (ro_interfaces r ! 0),
                         learned (ad_ipv4 (gateway (\<not> c))) peer_mac (ro_interfaces r ! 1)]\<rparr>)"

definition ex_host_mac :: "bool \<Rightarrow> ethernet_address" where
  "ex_host_mac c = random_host_ethernet_address (\<lambda>i. if c then 1 else 2)"

definition ex_mac :: "bool \<Rightarrow> u64 \<Rightarrow> ethernet_address" where
  "ex_mac c side = mac_of (network_router c (\<lambda>i. if c then 3 else 4) (\<lambda>i. if c then 5 else 6)) side"

lemma ex_path:
  "path_ready True (ex_host True (ex_mac True host_side)) (ex_router True (ex_host_mac True) (ex_mac False internet_side))
     (ex_router False (ex_host_mac False) (ex_mac True internet_side)) (ex_host False (ex_mac False host_side))"
  by (simp add: path_ready_def ex_host_def ex_router_def ex_host_mac_def ex_mac_def mac_of_def idle_def routes_of_def host_side_def internet_side_def
      NetworkInterfaceAdapter_new_def initialize_unowned_def NI_initialize_def set_callback_def NetworkInterface_new_def network_router_interfaces network_interface_new_def
      random_host_ethernet_address_def random_router_ethernet_address_def random_bytes_def network_router_routes Let_def)
    (simp add: learned_def knows_entry)

theorem end_to_end_delivers_witness:
  "let a = ex_host True (ex_mac True host_side); r = ex_router True (ex_host_mac True) (ex_mac False internet_side);
       r' = ex_router False (ex_host_mac False) (ex_mac True internet_side); b = ex_host False (ex_mac False host_side)
   in \<exists>f1 b1 g1 f2 b2 g2 f3 b3.
    message_frames TCPMessage_new a = Inr ([f1], na_interface a) \<and> serialize_frame f1 = Inr b1
    \<and> maybe_receive_frame (Returned (concat_refs b1)) ex_socket = Inr (Some g1, register_read ex_socket)
    \<and> router_receives host_side g1 r = Inr ([(internet_side, f2)], r) \<and> serialize_frame f2 = Inr b2
    \<and> maybe_receive_frame (Returned (concat_refs b2)) ex_socket = Inr (Some g2, register_read ex_socket)
    \<and> router_receives internet_side g2 r' = Inr ([(host_side, f3)], r') \<and> serialize_frame f3 = Inr b3
    \<and> Interface_read (\<lambda>bytes. Returned 0) (Returned (concat_refs b3)) b = Inr (Some (on_wire TCPMessage_new), b\<lparr>na_socket := register_read (na_socket b)\<rparr>)"
proof -
  have "connected True (na_base (ex_host True m)) (na_base (ex_host False m'))" for m m'
    using host_addresses(1) by (simp add: connected_def ex_host_def Let_def)
  moreover have "length (sm_payload (ref_get (msg_sender TCPMessage_new))) \<le> 16384"
    by (simp add: TCPMessage_new_def SenderMessage_new_def)
  ultimately show ?thesis unfolding Let_def using end_to_end_delivers[OF ex_path] by blast
qed

end
