(* ===== verification/Object_Pool.thy ===== *)
theory Object_Pool
  imports Ref
begin

text \<open>
  \<^verbatim>\<open>src/util/object_pool.hh\<close>: a pool that lends objects.  An object is named by its slot, the position in
  the \<^verbatim>\<open>deque\<close>; slots stand for addresses, since \<^verbatim>\<open>emplace_back\<close> does not move the elements of a \<^verbatim>\<open>deque\<close>
  and none is ever removed.  The creator is the object that it makes at this call; the resetter is a
  function of the state.  Every operation holds the mutex from its first line to its last, so it is
  one step.  The locale \<open>lender\<close> is what the clients of a pool rely on.
\<close>

record 'a object_wrapper =
  ow_obj :: 'a
  ow_is_borrowed :: bool

record 'a object_pool =
  op_max_size :: u64
  op_pool :: "'a object_wrapper list"
  op_resetter :: "'a \<Rightarrow> 'a"

definition GeneralObjectPool_new :: "(nat \<Rightarrow> 'a) \<Rightarrow> ('a \<Rightarrow> 'a) \<Rightarrow> u64 \<Rightarrow> u64 \<Rightarrow> 'a object_pool" where
  "GeneralObjectPool_new creator resetter initial_size max_size =
     \<lparr>op_max_size = max_size,
      op_pool = map (\<lambda>i. \<lparr>ow_obj = creator i, ow_is_borrowed = False\<rparr>) [0..<unat initial_size],
      op_resetter = resetter\<rparr>"

text \<open>\<^verbatim>\<open>std::find_if\<close>, with the position as the iterator and \<open>None\<close> for \<^verbatim>\<open>end()\<close>.\<close>

fun find_if :: "('a \<Rightarrow> bool) \<Rightarrow> 'a list \<Rightarrow> nat option" where
  "find_if P [] = None"
| "find_if P (x # xs) = (if P x then Some 0 else map_option Suc (find_if P xs))"

definition pool_borrow :: "'a \<Rightarrow> 'a object_pool \<Rightarrow> (nat cpp_ref \<times> 'a object_pool) result" where
  "pool_borrow made p =
     (case find_if (\<lambda>w. \<not> ow_is_borrowed w) (op_pool p) of
        Some i \<Rightarrow> Inr (Ref_borrow i, p\<lparr>op_pool := (op_pool p)[i := (op_pool p ! i)\<lparr>ow_is_borrowed := True\<rparr>]\<rparr>)
      | None \<Rightarrow>
          if length (op_pool p) < unat (op_max_size p)
          then Inr (Ref_borrow (length (op_pool p)),
                    p\<lparr>op_pool := op_pool p @ [\<lparr>ow_obj = made, ow_is_borrowed = True\<rparr>]\<rparr>)
          else Inl (Runtime_Error ''Object pool is full''))"

definition return_object :: "nat \<Rightarrow> 'a object_pool \<Rightarrow> 'a object_pool result" where
  "return_object obj p =
     (case find_if (\<lambda>i. i = obj) [0..<length (op_pool p)] of
        Some i \<Rightarrow> Inr (p\<lparr>op_pool := (op_pool p)[i := \<lparr>ow_obj = op_resetter p (ow_obj (op_pool p ! i)), ow_is_borrowed = False\<rparr>]\<rparr>)
      | None \<Rightarrow> Inl (Runtime_Error ''Object not found in pool''))"

definition pool_size :: "'a object_pool \<Rightarrow> nat" where
  "pool_size p = length (op_pool p)"

definition borrowed_count :: "'a object_pool \<Rightarrow> nat" where
  "borrowed_count p = length (filter ow_is_borrowed (op_pool p))"

definition available_count :: "'a object_pool \<Rightarrow> nat" where
  "available_count p = length (filter (\<lambda>w. \<not> ow_is_borrowed w) (op_pool p))"

section \<open>Lenders\<close>

text \<open>
  A lender lends things that no one holds and takes back what is held.  \<open>served\<close> is a history of its
  clients: who holds which thing, most recent first, with every request answered and every thing
  returned by the client who holds it.
\<close>

lemma remove1_held:
  "distinct (map snd held) \<Longrightarrow> (c, t) \<in> set held \<Longrightarrow>
   distinct (map snd (remove1 (c, t) held)) \<and> snd ` set (remove1 (c, t) held) = snd ` set held - {t}"
  by (induction held) force+

locale lender =
  fixes lend :: "'r \<Rightarrow> 's \<Rightarrow> ('t \<times> 's) option"
    and take_back :: "'t \<Rightarrow> 's \<Rightarrow> 's option"
    and lent :: "'s \<Rightarrow> 't set"
  assumes lend_fresh: "lend r s = Some (t, s') \<Longrightarrow> t \<notin> lent s \<and> lent s' = insert t (lent s)"
    and take_back_held: "t \<in> lent s \<Longrightarrow> \<exists>s'. take_back t s = Some s' \<and> lent s' = lent s - {t}"
begin

inductive served :: "'s \<Rightarrow> ('c \<times> 't) list \<Rightarrow> 's \<Rightarrow> ('c \<times> 't) list \<Rightarrow> bool" where
  served_none: "served s held s held"
| served_lend: "served s held s' held' \<Longrightarrow> lend r s' = Some (t, s'') \<Longrightarrow> served s held s'' ((c, t) # held')"
| served_back: "served s held s' held' \<Longrightarrow> (c, t) \<in> set held' \<Longrightarrow> take_back t s' = Some s'' \<Longrightarrow>
    served s held s'' (remove1 (c, t) held')"

lemma served_apart:
  "served s held s' held' \<Longrightarrow> distinct (map snd held) \<Longrightarrow> snd ` set held = lent s \<Longrightarrow>
   distinct (map snd held') \<and> snd ` set held' = lent s'"
proof (induction rule: served.induct)
  case (served_back s held s' held' c t s'')
  then have h: "distinct (map snd held')" "snd ` set held' = lent s'" by simp_all
  with served_back(2) have "t \<in> lent s'" by force
  then show ?case using take_back_held [of t s'] remove1_held [OF h(1) served_back(2)] h(2) served_back(3) by auto
qed (auto dest: lend_fresh)

end

section \<open>The pool as a lender\<close>

definition lent_slots :: "'a object_pool \<Rightarrow> nat set" where
  "lent_slots p = {i. i < length (op_pool p) \<and> ow_is_borrowed (op_pool p ! i)}"

definition pool_lend :: "'a \<Rightarrow> 'a object_pool \<Rightarrow> (nat \<times> 'a object_pool) option" where
  "pool_lend made p = (case pool_borrow made p of Inr (r, p') \<Rightarrow> Some (ref_get r, p') | Inl _ \<Rightarrow> None)"

definition pool_take_back :: "nat \<Rightarrow> 'a object_pool \<Rightarrow> 'a object_pool option" where
  "pool_take_back obj p = (case return_object obj p of Inr p' \<Rightarrow> Some p' | Inl _ \<Rightarrow> None)"

lemma find_if_Some: "find_if P xs = Some i \<Longrightarrow> i < length xs \<and> P (xs ! i) \<and> (\<forall>j<i. \<not> P (xs ! j))"
proof (induction xs arbitrary: i)
  case (Cons x xs)
  show ?case
  proof (cases "P x")
    case False
    then obtain k where "find_if P xs = Some k" "i = Suc k" using Cons.prems by auto
    then show ?thesis using Cons.IH [of k] False by (auto simp: nth_Cons split: nat.splits)
  qed (use Cons.prems in auto)
qed simp

lemma find_if_None: "find_if P xs = None \<longleftrightarrow> (\<forall>x\<in>set xs. \<not> P x)"
  by (induction xs) auto

lemma find_slot: "find_if (\<lambda>i. i = k) [0..<n] = (if k < n then Some k else None)"
proof (cases "k < n")
  case True
  then obtain i where "find_if (\<lambda>i. i = k) [0..<n] = Some i" using find_if_None [of "\<lambda>i. i = k" "[0..<n]"] by fastforce
  then show ?thesis using find_if_Some [of "\<lambda>i. i = k" "[0..<n]" i] True by auto
next
  case False
  then show ?thesis using find_if_None [of "\<lambda>i. i = k" "[0..<n]"] by auto
qed

lemma pool_borrow_cases:
  obtains i where "pool_borrow made p = Inr (Borrowed i, p\<lparr>op_pool := (op_pool p)[i := (op_pool p ! i)\<lparr>ow_is_borrowed := True\<rparr>]\<rparr>)"
    "i < pool_size p" "\<not> ow_is_borrowed (op_pool p ! i)"
  | "pool_borrow made p = Inr (Borrowed (pool_size p), p\<lparr>op_pool := op_pool p @ [\<lparr>ow_obj = made, ow_is_borrowed = True\<rparr>]\<rparr>)"
    "pool_size p < unat (op_max_size p)" "\<forall>w\<in>set (op_pool p). ow_is_borrowed w"
  | "pool_borrow made p = Inl (Runtime_Error ''Object pool is full'')"
    "unat (op_max_size p) \<le> pool_size p" "\<forall>w\<in>set (op_pool p). ow_is_borrowed w"
proof (cases "find_if (\<lambda>w. \<not> ow_is_borrowed w) (op_pool p)")
  case None
  then have "\<forall>w\<in>set (op_pool p). ow_is_borrowed w" by (simp add: find_if_None)
  then show thesis using that(2,3) None
    by (cases "length (op_pool p) < unat (op_max_size p)") (auto simp: pool_borrow_def Ref_borrow_def pool_size_def)
next
  case (Some i)
  then show thesis using that(1) [of i] find_if_Some [OF Some] by (auto simp: pool_borrow_def Ref_borrow_def pool_size_def)
qed

lemma return_object_eq:
  "return_object k p =
     (if k < pool_size p
      then Inr (p\<lparr>op_pool := (op_pool p)[k := \<lparr>ow_obj = op_resetter p (ow_obj (op_pool p ! k)), ow_is_borrowed = False\<rparr>]\<rparr>)
      else Inl (Runtime_Error ''Object not found in pool''))"
  by (simp add: return_object_def find_slot pool_size_def)

lemma finite_lent [simp]: "finite (lent_slots p)"
  by (simp add: lent_slots_def)

lemma lent_less: "i \<in> lent_slots p \<Longrightarrow> i < pool_size p"
  by (simp add: lent_slots_def pool_size_def)

lemma lent_after_update:
  "i < pool_size p \<Longrightarrow> lent_slots (p\<lparr>op_pool := (op_pool p)[i := w]\<rparr>)
     = (if ow_is_borrowed w then insert i (lent_slots p) else lent_slots p - {i})"
  by (auto simp: lent_slots_def pool_size_def nth_list_update)

lemma lent_after_append:
  "lent_slots (p\<lparr>op_pool := op_pool p @ [w]\<rparr>) = (if ow_is_borrowed w then insert (pool_size p) (lent_slots p) else lent_slots p)"
  by (auto simp: lent_slots_def pool_size_def nth_append less_Suc_eq)

lemma pool_lend_fresh:
  assumes "pool_lend made p = Some (i, p')"
  shows "i \<notin> lent_slots p \<and> lent_slots p' = insert i (lent_slots p)"
proof -
  obtain r where r: "pool_borrow made p = Inr (r, p')" "i = ref_get r"
    using assms by (auto simp: pool_lend_def split: sum.splits)
  show ?thesis
  proof (cases rule: pool_borrow_cases [of made p])
    case (1 j)
    then show ?thesis using r lent_after_update [of j p "(op_pool p ! j)\<lparr>ow_is_borrowed := True\<rparr>"] by (auto simp: lent_slots_def)
  next
    case 2
    then show ?thesis using r lent_less [of "pool_size p" p] lent_after_append [of p] by auto
  qed (use r in simp)
qed

lemma pool_take_back_held:
  "i \<in> lent_slots p \<Longrightarrow> \<exists>p'. pool_take_back i p = Some p' \<and> lent_slots p' = lent_slots p - {i}"
  using lent_less [of i p] by (simp add: pool_take_back_def return_object_eq lent_after_update)

interpretation pool: lender pool_lend pool_take_back lent_slots
  by unfold_locales (fact pool_lend_fresh, fact pool_take_back_held)


section \<open>Histories of clients\<close>

text \<open>
  What the clients of a pool do: borrow (with the object that the creator would make) or return an object.  A
  client holds what it has borrowed and not returned.  \<^verbatim>\<open>return_object\<close> takes back any object of the pool,
  whoever hands it in and whether or not it is lent; a request that throws leaves everything as it is.
\<close>

datatype ('c, 'a) pool_request = Borrow 'c 'a | Return 'c nat

fun pool_step :: "('c, 'a) pool_request \<Rightarrow> 'a object_pool \<times> ('c \<times> nat) list \<Rightarrow> 'a object_pool \<times> ('c \<times> nat) list" where
  "pool_step (Borrow c made) (p, held) =
     (case pool_borrow made p of Inr (r, p') \<Rightarrow> (p', (c, ref_get r) # held) | Inl _ \<Rightarrow> (p, held))"
| "pool_step (Return c i) (p, held) =
     (case return_object i p of Inr p' \<Rightarrow> (p', remove1 (c, i) held) | Inl _ \<Rightarrow> (p, held))"

text \<open>Clients that return only what they hold.\<close>

fun fair_request :: "('c, 'a) pool_request \<Rightarrow> ('c \<times> nat) list \<Rightarrow> bool" where
  "fair_request (Borrow c made) held = True"
| "fair_request (Return c i) held \<longleftrightarrow> (c, i) \<in> set held"

fun fair_requests :: "('c, 'a) pool_request list \<Rightarrow> 'a object_pool \<times> ('c \<times> nat) list \<Rightarrow> bool" where
  "fair_requests [] ph = True"
| "fair_requests (r # rs) ph \<longleftrightarrow> fair_request r (snd ph) \<and> fair_requests rs (pool_step r ph)"

lemma pool_step_served:
  assumes "pool.served p0 h0 (fst ph) (snd ph)" and "fair_request r (snd ph)"
  shows "pool.served p0 h0 (fst (pool_step r ph)) (snd (pool_step r ph))"
proof (cases ph)
  case (Pair p held)
  then have s: "pool.served p0 h0 p held" using assms by simp
  show ?thesis
  proof (cases r)
    case (Borrow c made)
    then show ?thesis using s pool.served_lend [OF s, of made] Pair by (auto simp: pool_lend_def split: sum.splits)
  next
    case (Return c i)
    then show ?thesis using s pool.served_back [OF s, of c i] assms(2) Pair by (auto simp: pool_take_back_def split: sum.splits)
  qed
qed

lemma pool_run_served:
  "pool.served p0 h0 (fst ph) (snd ph) \<Longrightarrow> fair_requests rs ph \<Longrightarrow> pool.served p0 h0 (fst (fold pool_step rs ph)) (snd (fold pool_step rs ph))"
proof (induction rs arbitrary: ph)
  case (Cons r rs)
  then show ?case using pool_step_served [of p0 h0 ph r] Cons.IH [of "pool_step r ph"] by simp
qed simp

lemma pool_step_size:
  "pool_size (fst ph) \<le> pool_size (fst (pool_step r ph))
   \<and> (pool_size (fst (pool_step r ph)) \<le> max (pool_size (fst ph)) (unat (op_max_size (fst ph))))
   \<and> op_max_size (fst (pool_step r ph)) = op_max_size (fst ph)"
proof (cases "(r, ph)" rule: pool_step.cases)
  case (1 c made p held)
  then show ?thesis by (cases rule: pool_borrow_cases [of made p]) (simp_all add: pool_size_def)
next
  case (2 c i p held)
  then show ?thesis by (auto simp: return_object_eq) (simp_all add: pool_size_def)
qed

lemma pool_run_size:
  "pool_size (fst (fold pool_step rs (p, h))) \<le> max (pool_size p) (unat (op_max_size p))
   \<and> op_max_size (fst (fold pool_step rs (p, h))) = op_max_size p"
proof (induction rs rule: rev_induct)
  case (snoc r rs)
  then show ?case using pool_step_size [of "fold pool_step rs (p, h)" r] by auto
qed simp

lemma borrowed_count_lent: "borrowed_count p = card (lent_slots p)"
  by (simp add: borrowed_count_def lent_slots_def length_filter_conv_card)

lemma pool_counts: "pool_size p = borrowed_count p + available_count p"
  by (simp add: pool_size_def borrowed_count_def available_count_def sum_length_filter_compl)

lemma lent_new [simp]: "lent_slots (GeneralObjectPool_new c r n m) = {}"
  by (auto simp: lent_slots_def GeneralObjectPool_new_def)

lemma size_new [simp]: "pool_size (GeneralObjectPool_new c r n m) = unat n" "op_max_size (GeneralObjectPool_new c r n m) = m"
  by (simp_all add: pool_size_def GeneralObjectPool_new_def)

lemma pool_full_iff:
  "pool_borrow made p = Inl e \<longleftrightarrow> e = Runtime_Error ''Object pool is full'' \<and> available_count p = 0 \<and> unat (op_max_size p) \<le> pool_size p"
proof (cases rule: pool_borrow_cases [of made p])
  case (1 i)
  then have "op_pool p ! i \<in> set (filter (\<lambda>w. \<not> ow_is_borrowed w) (op_pool p))" by (simp add: pool_size_def)
  then have "available_count p \<noteq> 0" unfolding available_count_def using length_pos_if_in_set by fastforce
  then show ?thesis using 1 by simp
qed (auto simp: available_count_def filter_empty_conv)

text \<open>
  C26.  As long as its clients return only objects that they hold, an object pool never lends an object to two of them at
  once: after any such sequence of requests to a new pool the objects held are distinct and are exactly the ones the pool
  counts as borrowed, the counts add up to the size, the size is at most the larger of the limit
  and the number of objects made at the start, and a request to borrow fails exactly when every
  object is lent and the limit is reached.
\<close>

theorem pool_lends_apart:
  assumes "fair_requests rs (GeneralObjectPool_new creator resetter initial_size max_size, [])"
    and "fold pool_step rs (GeneralObjectPool_new creator resetter initial_size max_size, []) = (p, held)"
  shows "distinct (map snd held) \<and> borrowed_count p = length held \<and> pool_size p = borrowed_count p + available_count p
    \<and> (\<forall>(c, i)\<in>set held. i < pool_size p \<and> ow_is_borrowed (op_pool p ! i))
    \<and> pool_size p \<le> max (unat initial_size) (unat max_size)
    \<and> (\<forall>made e. pool_borrow made p = Inl e \<longleftrightarrow>
         e = Runtime_Error ''Object pool is full'' \<and> length held = pool_size p \<and> unat max_size \<le> pool_size p)"
proof -
  let ?p = "GeneralObjectPool_new creator resetter initial_size max_size"
  have "pool.served ?p [] p held" using pool_run_served [OF _ assms(1), of ?p "[]"] assms(2) pool.served_none by fastforce
  from pool.served_apart [OF this] have a: "distinct (map snd held)" "snd ` set held = lent_slots p" by simp_all
  have b: "borrowed_count p = length held" using distinct_card [OF a(1)] a(2) borrowed_count_lent [of p] by simp
  have s: "pool_size p \<le> max (unat initial_size) (unat max_size)" "op_max_size p = max_size"
    using pool_run_size [of rs ?p "[]"] assms(2) by simp_all
  have h: "\<forall>(c, i)\<in>set held. i < pool_size p \<and> ow_is_borrowed (op_pool p ! i)"
    using equalityD1 [OF a(2)] by (force simp: lent_slots_def pool_size_def)
  have "available_count p = 0 \<longleftrightarrow> length held = pool_size p" using pool_counts [of p] b by linarith
  then have "\<forall>made e. pool_borrow made p = Inl e \<longleftrightarrow>
      e = Runtime_Error ''Object pool is full'' \<and> length held = pool_size p \<and> unat max_size \<le> pool_size p"
    using pool_full_iff [of _ p] s(2) by simp
  then show ?thesis using a(1) b s(1) h pool_counts [of p] by blast
qed

theorem pool_lends_apart_witness:
  "fold pool_step [Borrow ''a'' (7::int), Borrow ''b'' 8, Return ''a'' 0, Borrow ''c'' 9] (GeneralObjectPool_new (\<lambda>_. 5) (\<lambda>_. 0) 1 2, [])
     = (\<lparr>op_max_size = 2, op_pool = [\<lparr>ow_obj = 0, ow_is_borrowed = True\<rparr>, \<lparr>ow_obj = 8, ow_is_borrowed = True\<rparr>],
          op_resetter = (\<lambda>_. 0)\<rparr>, [(''c'', 0), (''b'', 1)])
   \<and> distinct (map snd [(''c'', 0), (''b'', 1::nat)])"
proof -
  let ?p = "\<lparr>op_max_size = 2, op_pool = [\<lparr>ow_obj = 0, ow_is_borrowed = True\<rparr>, \<lparr>ow_obj = 8, ow_is_borrowed = True\<rparr>],
          op_resetter = (\<lambda>_. 0)\<rparr> :: int object_pool"
  let ?rs = "[Borrow ''a'' 7, Borrow ''b'' 8, Return ''a'' 0, Borrow ''c'' 9]"
  let ?s = "(GeneralObjectPool_new (\<lambda>_. 5) (\<lambda>_. 0) 1 2, [])"
  have r: "fold pool_step ?rs ?s = (?p, [(''c'', 0), (''b'', 1)])"
    by (simp add: GeneralObjectPool_new_def pool_borrow_def return_object_def Ref_borrow_def)
  have "fair_requests ?rs ?s"
    by (simp add: GeneralObjectPool_new_def pool_borrow_def return_object_def Ref_borrow_def)
  from pool_lends_apart [OF this r] r show ?thesis by blast
qed

text \<open>
  The condition is needed: \<^verbatim>\<open>return_object\<close> does not look at \<^verbatim>\<open>is_borrowed\<close>.  A client that returns its object twice takes
  away the object of the client that has borrowed it in between, and the next one to borrow gets the same object.
\<close>

lemma double_return_lends_twice:
  assumes "0 < initial_size" and "a \<noteq> b"
  shows "\<exists>p. fold pool_step [Borrow a x, Return a 0, Borrow b y, Return a 0, Borrow c z]
      (GeneralObjectPool_new creator resetter initial_size max_size, []) = (p, [(c, 0), (b, 0)])"
proof -
  have "0 < unat initial_size" using assms by (simp add: unat_gt_0)
  then have n: "[0..<unat initial_size] = 0 # [1..<unat initial_size]" by (simp add: upt_rec)
  show ?thesis using assms(2)
    by (simp add: GeneralObjectPool_new_def n pool_borrow_def return_object_eq pool_size_def Ref_borrow_def)
qed

end
