(* ===== verification/C_Strings.thy ===== *)
theory C_Strings
  imports Prelude
begin

text \<open>
  What the programs use of the C library to read numbers from text: \<^verbatim>\<open>strtol\<close> (with base 10, or base 0, which
  reads the base from the prefix), \<^verbatim>\<open>std::stoi\<close> on top of it, and \<^verbatim>\<open>strncmp\<close>.  A C string is the list of
  its characters without the final null.  The locale is the C one.
\<close>

definition c_isspace :: "char \<Rightarrow> bool" where
  "c_isspace c \<longleftrightarrow> (let n = of_char c :: nat in n = 32 \<or> 9 \<le> n \<and> n \<le> 13)"

definition digit_value :: "char \<Rightarrow> nat option" where
  "digit_value c = (let n = of_char c in
     if 48 \<le> n \<and> n \<le> 57 then Some (n - 48)
     else if 97 \<le> n \<and> n \<le> 122 then Some (n - 87)
     else if 65 \<le> n \<and> n \<le> 90 then Some (n - 55)
     else None)"

definition digit_in :: "nat \<Rightarrow> char \<Rightarrow> nat option" where
  "digit_in base c = (case digit_value c of Some d \<Rightarrow> if d < base then Some d else None | None \<Rightarrow> None)"

fun scan_digits :: "nat \<Rightarrow> nat \<Rightarrow> string \<Rightarrow> nat \<times> string" where
  "scan_digits base acc [] = (acc, [])"
| "scan_digits base acc (c # cs) =
     (case digit_in base c of Some d \<Rightarrow> scan_digits base (acc * base + d) cs | None \<Rightarrow> (acc, c # cs))"

fun scan_sign :: "string \<Rightarrow> bool \<times> string" where
  "scan_sign [] = (False, [])"
| "scan_sign (c # cs) = (if c = CHR ''-'' then (True, cs) else if c = CHR ''+'' then (False, cs) else (False, c # cs))"

fun scan_base :: "string \<Rightarrow> nat \<times> string" where
  "scan_base (z # x # c # cs) =
     (if z = CHR ''0'' \<and> (x = CHR ''x'' \<or> x = CHR ''X'') \<and> digit_in 16 c \<noteq> None then (16, c # cs)
      else if z = CHR ''0'' then (8, z # x # c # cs) else (10, z # x # c # cs))"
| "scan_base (z # s) = (if z = CHR ''0'' then (8, z # s) else (10, z # s))"
| "scan_base [] = (10, [])"

definition LONG_MAX :: int where
  "LONG_MAX = 2 ^ 63 - 1"

definition LONG_MIN :: int where
  "LONG_MIN = - (2 ^ 63)"

text \<open>The outcome of \<^verbatim>\<open>strtol\<close>: the value, whether there were digits, and whether \<^verbatim>\<open>errno\<close> is set to \<^verbatim>\<open>ERANGE\<close>.\<close>

definition strtol_full :: "nat \<Rightarrow> string \<Rightarrow> int \<times> bool \<times> bool" where
  "strtol_full base s =
     (let (neg, s) = scan_sign (dropWhile c_isspace s);
          (b, s) = (if base = 0 then scan_base s else (base, s));
          (n, rest) = scan_digits b 0 s;
          v = (if neg then - int n else int n);
          clamped = max LONG_MIN (min LONG_MAX v)
      in (clamped, length rest < length s, clamped \<noteq> v))"

definition strtol :: "nat \<Rightarrow> string \<Rightarrow> int" where
  "strtol base s = fst (strtol_full base s)"

definition stoi :: "string \<Rightarrow> int result" where
  "stoi s = (case strtol_full 10 s of (v, found, erange) \<Rightarrow>
     if \<not> found then Inl Invalid_Argument
     else if erange \<or> v < - (2 ^ 31) \<or> 2 ^ 31 - 1 < v then Inl Out_Of_Range
     else Inr v)"

definition strncmp_eq :: "string \<Rightarrow> string \<Rightarrow> nat \<Rightarrow> bool" where
  "strncmp_eq s t n \<longleftrightarrow> take n s = take n t"

section \<open>Reading what was printed\<close>

lemma digit_value_digit_char: "d < 36 \<Longrightarrow> digit_value (digit_char d) = Some d"
  by (auto simp: digit_value_def digit_char_def Let_def of_char_of take_bit_eq_mod)

lemma digit_in_digit_char [simp]: "d < base \<Longrightarrow> base \<le> 36 \<Longrightarrow> digit_in base (digit_char d) = Some d"
  by (simp add: digit_in_def digit_value_digit_char)

lemma scan_digits_append: "scan_digits base acc xs = (n, []) \<Longrightarrow> scan_digits base acc (xs @ ys) = scan_digits base n ys"
  by (induction base acc xs rule: scan_digits.induct) (auto split: option.splits)

lemma scan_digits_digits:
  "2 \<le> base \<Longrightarrow> base \<le> 36 \<Longrightarrow> scan_digits base 0 (digits base n) = (n, [])"
proof (induction base n rule: digits.induct)
  case (1 base n)
  show ?case
  proof (cases "n < base")
    case True
    then show ?thesis using 1 by (simp add: digits.simps [of base n])
  next
    case False
    then have "scan_digits base 0 (digits base (n div base)) = (n div base, [])" using 1 by simp
    then show ?thesis using 1 False by (simp add: digits.simps [of base n] scan_digits_append)
  qed
qed

lemma digits_neq_Nil [simp]: "digits base n \<noteq> []"
  by (simp add: digits.simps [of base n])

lemma hd_digits: "2 \<le> base \<Longrightarrow> 0 < n \<Longrightarrow> \<exists>d. 0 < d \<and> d < base \<and> hd (digits base n) = digit_char d"
proof (induction base n rule: digits.induct)
  case (1 base n)
  show ?case
  proof (cases "n < base")
    case True
    then show ?thesis using 1 by (auto simp: digits.simps [of base n])
  next
    case False
    then have "0 < n div base" using 1 by (simp add: div_greater_zero_iff)
    then show ?thesis using 1 False by (simp add: digits.simps [of base n])
  qed
qed

lemma of_digit_char: "d < 10 \<Longrightarrow> (of_char (digit_char d) :: nat) = 48 + d"
  by (simp add: digit_char_def of_char_of take_bit_eq_mod)

lemma digit_char_plain:
  assumes "d < 10"
  shows "\<not> c_isspace (digit_char d)" "digit_char d \<noteq> CHR ''-''" "digit_char d \<noteq> CHR ''+''" "0 < d \<Longrightarrow> digit_char d \<noteq> CHR ''0''"
proof -
  have *: "digit_char d \<noteq> c" if "(of_char c :: nat) \<noteq> 48 + d" for c using that of_digit_char [OF assms] by auto
  show "\<not> c_isspace (digit_char d)" by (simp add: c_isspace_def of_digit_char assms)
  show "digit_char d \<noteq> CHR ''-''" "digit_char d \<noteq> CHR ''+''" "0 < d \<Longrightarrow> digit_char d \<noteq> CHR ''0''"
    by (rule *, simp)+
qed

lemma digit_char_0: "digit_char 0 = CHR ''0''"
  by code_simp

lemma strtol_dec:
  assumes "n < 2 ^ 63" and "base = 0 \<or> base = 10"
  shows "strtol_full base (dec_string n) = (int n, True, False)"
proof (cases "n = 0")
  case True
  then show ?thesis using assms(2)
    by (auto simp: strtol_full_def dec_string_def digits.simps [of 10 0] digit_char_0 c_isspace_def digit_in_def
        digit_value_def LONG_MAX_def LONG_MIN_def)
next
  case False
  then obtain d where d: "0 < d" "d < 10" "hd (dec_string n) = digit_char d" using hd_digits [of 10 n] by (auto simp: dec_string_def)
  then obtain cs where cs: "dec_string n = digit_char d # cs" by (metis dec_string_def digits_neq_Nil list.collapse)
  note plain = digit_char_plain [OF d(2)] d(1)
  have "scan_base (dec_string n) = (10, dec_string n)" using plain unfolding cs by (cases "digit_char d # cs" rule: scan_base.cases) auto
  moreover have "scan_sign (dropWhile c_isspace (dec_string n)) = (False, dec_string n)" using plain unfolding cs by simp
  moreover have "scan_digits 10 0 (dec_string n) = (n, [])" by (simp add: dec_string_def scan_digits_digits)
  ultimately show ?thesis using assms cs by (auto simp: strtol_full_def LONG_MAX_def LONG_MIN_def)
qed

lemma stoi_dec: "n < 2 ^ 31 \<Longrightarrow> stoi (dec_string n) = Inr (int n)"
  by (simp add: stoi_def strtol_dec)

end
