(* ===== verification/Raw_Address.thy ===== *)
theory Raw_Address
  imports Socket TCP_Over_IP C_Strings
begin

text \<open>
  The whole of \<^verbatim>\<open>src/util/address.cc\<close>, on the bytes of the \<^verbatim>\<open>sockaddr_storage\<close> that an \<^verbatim>\<open>Address\<close> wraps, in the layout of
  Linux on a little-endian machine.  \<open>address_of\<close> takes such an address to the record of theory
  \<open>Address\<close>, on which the stack is modelled, and the operations there are the images of the ones here.  The
  C library's \<^verbatim>\<open>getaddrinfo\<close> and \<^verbatim>\<open>getnameinfo\<close> are parameters: the first takes node, service and hints to an error
  code and the first address of the answer, if there is one; the second takes an address to an error
  code and the numeric forms of host and service.
\<close>

record raw_address =
  ra_size :: u32
  ra_storage :: bytes

definition sockaddr_storage_size :: nat where
  "sockaddr_storage_size = 128"

definition sockaddr_of :: "bytes \<Rightarrow> raw_address result" where
  "sockaddr_of addr =
     (if length addr > sockaddr_storage_size then Inl (Runtime_Error ''invalid sockaddr size'')
      else Inr \<lparr>ra_size = of_nat (length addr), ra_storage = addr @ replicate (sockaddr_storage_size - length addr) 0\<rparr>)"

text \<open>The fields of \<^verbatim>\<open>sockaddr\<close> and \<^verbatim>\<open>sockaddr_in\<close>: the family in host byte order, port and address in network order.\<close>

definition raw_family :: "raw_address \<Rightarrow> u16" where
  "raw_family r = be_value (rev (take 2 (ra_storage r))) 0"

definition sin_port :: "raw_address \<Rightarrow> u16" where
  "sin_port r = be_value (take 2 (drop 2 (ra_storage r))) 0"

definition sin_addr :: "raw_address \<Rightarrow> u32" where
  "sin_addr r = be_value (take 4 (drop 4 (ra_storage r))) 0"

definition sockaddr_in :: "u16 \<Rightarrow> u32 \<Rightarrow> bytes" where
  "sockaddr_in port ip = rev (int_bytes AF_INET) @ int_bytes port @ int_bytes ip @ replicate 8 0"

record addrinfo =
  ai_flags :: int
  ai_family :: u16

definition make_hints :: "int \<Rightarrow> u16 \<Rightarrow> addrinfo" where
  "make_hints flags family = \<lparr>ai_flags = flags, ai_family = family\<rparr>"

definition AI_ALL :: int where
  "AI_ALL = 0x10"

definition AI_NUMERICHOST :: int where
  "AI_NUMERICHOST = 4"

definition AI_NUMERICSERV :: int where
  "AI_NUMERICSERV = 0x400"

type_synonym name_resolver = "string \<Rightarrow> string \<Rightarrow> addrinfo \<Rightarrow> int \<times> bytes option"

definition Address_hints :: "name_resolver \<Rightarrow> string \<Rightarrow> string \<Rightarrow> addrinfo \<Rightarrow> raw_address result" where
  "Address_hints gai node service hints =
     (case gai node service hints of (gai_ret, resolved_address) \<Rightarrow>
        if gai_ret \<noteq> 0 then Inl (Tagged_Error (''getaddrinfo('' @ node @ '', '' @ service @ '')'') gai_ret)
        else case resolved_address of
          None \<Rightarrow> Inl (Runtime_Error ''getaddrinfo returned successfully but with no results'')
        | Some addr \<Rightarrow> sockaddr_of addr)"

definition Address_host :: "name_resolver \<Rightarrow> string \<Rightarrow> string \<Rightarrow> raw_address result" where
  "Address_host gai hostname service = Address_hints gai hostname service (make_hints AI_ALL AF_INET)"

definition Address_ip :: "name_resolver \<Rightarrow> string \<Rightarrow> u16 \<Rightarrow> raw_address result" where
  "Address_ip gai ip port =
     Address_hints gai ip (dec_string (unat port)) (make_hints (or AI_NUMERICHOST AI_NUMERICSERV) AF_INET)"

text \<open>Accessors.\<close>

type_synonym name_info = "raw_address \<Rightarrow> int \<times> string \<times> string"

definition is_internet :: "raw_address \<Rightarrow> bool" where
  "is_internet r \<longleftrightarrow> raw_family r = AF_INET \<or> raw_family r = AF_INET6"

definition ip_port :: "name_info \<Rightarrow> raw_address \<Rightarrow> (string \<times> u16) result" where
  "ip_port gni r =
     (if \<not> is_internet r then Inl (Runtime_Error ''Address::ip_port() called on non-Internet address'')
      else case gni r of (gni_ret, ip, port) \<Rightarrow>
        if gni_ret \<noteq> 0 then Inl (Tagged_Error ''getnameinfo'' gni_ret)
        else rbind (stoi port) (\<lambda>n. Inr (ip, of_int n)))"

definition raw_ip :: "name_info \<Rightarrow> raw_address \<Rightarrow> string result" where
  "raw_ip gni r = rbind (ip_port gni r) (\<lambda>(ip, port). Inr ip)"

definition raw_port :: "name_info \<Rightarrow> raw_address \<Rightarrow> u16 result" where
  "raw_port gni r = rbind (ip_port gni r) (\<lambda>(ip, port). Inr port)"

definition raw_to_string :: "name_info \<Rightarrow> raw_address \<Rightarrow> string result" where
  "raw_to_string gni r =
     (if is_internet r then rbind (ip_port gni r) (\<lambda>(ip, port). Inr (ip @ '':'' @ dec_string (unat port)))
      else Inr ''(non-Internet address)'')"

definition raw_ipv4_numeric :: "raw_address \<Rightarrow> u32 result" where
  "raw_ipv4_numeric r =
     (if raw_family r \<noteq> AF_INET \<or> ra_size r \<noteq> sizeof_sockaddr_in
      then Inl (Runtime_Error ''ipv4_numeric called on non-IPV4 address'')
      else Inr (sin_addr r))"

definition raw_from_ipv4_numeric :: "u32 \<Rightarrow> raw_address result" where
  "raw_from_ipv4_numeric ip_address = sockaddr_of (sockaddr_in 0 ip_address)"

definition raw_eq :: "raw_address \<Rightarrow> raw_address \<Rightarrow> bool" where
  "raw_eq r other \<longleftrightarrow>
     (if ra_size r \<noteq> ra_size other then False
      else take (unat (ra_size r)) (ra_storage r) = take (unat (ra_size r)) (ra_storage other))"

text \<open>The checked cast \<^verbatim>\<open>as\<close>: the bytes of the address, seen as one of three structures.\<close>

datatype sockaddr_type = Sockaddr_In | Sockaddr_In6 | Sockaddr_Ll

fun sockaddr_family :: "sockaddr_type \<Rightarrow> u16" where
  "sockaddr_family Sockaddr_In = AF_INET"
| "sockaddr_family Sockaddr_In6 = AF_INET6"
| "sockaddr_family Sockaddr_Ll = 17"

fun sizeof_sockaddr :: "sockaddr_type \<Rightarrow> nat" where
  "sizeof_sockaddr Sockaddr_In = 16"
| "sizeof_sockaddr Sockaddr_In6 = 28"
| "sizeof_sockaddr Sockaddr_Ll = 20"

definition Address_as :: "sockaddr_type \<Rightarrow> raw_address \<Rightarrow> bytes result" where
  "Address_as t r =
     (if sizeof_sockaddr t < unat (ra_size r) \<or> raw_family r \<noteq> sockaddr_family t
      then Inl (Runtime_Error ''Address::as() conversion failure'')
      else Inr (take (sizeof_sockaddr t) (ra_storage r)))"

section \<open>Addresses as records\<close>

definition address_of :: "raw_address \<Rightarrow> address" where
  "address_of r = \<lparr>ad_size = ra_size r, ad_family = raw_family r, ad_port = sin_port r, ad_ipv4 = sin_addr r\<rparr>"

definition raw_wf :: "raw_address \<Rightarrow> bool" where
  "raw_wf r \<longleftrightarrow> length (ra_storage r) = sockaddr_storage_size \<and> unat (ra_size r) \<le> sockaddr_storage_size"

lemma length_sockaddr_in [simp]: "length (sockaddr_in port ip) = 16"
  by (simp add: sockaddr_in_def length_int_bytes)

lemma be_value_family: "be_value (rev (rev (int_bytes (x :: u16)))) 0 = x"
  by (simp add: be_value_16)

lemma sockaddr_in_fields:
  assumes "ra_storage r = sockaddr_in port ip @ rest"
  shows "raw_family r = AF_INET" "sin_port r = port" "sin_addr r = ip"
  using assms be_value_16 [of port] be_value_32 [of ip] be_value_16 [of AF_INET]
  by (simp_all add: raw_family_def sin_port_def sin_addr_def sockaddr_in_def length_int_bytes)

lemma sockaddr_of_wf: "sockaddr_of addr = Inr r \<Longrightarrow> raw_wf r \<and> unat (ra_size r) = length addr \<and> take (length addr) (ra_storage r) = addr"
  by (auto simp: sockaddr_of_def raw_wf_def sockaddr_storage_size_def unat_of_nat take_bit_nat_eq_self split: if_splits)

lemma sockaddr_of_in: "\<exists>r. sockaddr_of (sockaddr_in port ip) = Inr r \<and> address_of r = Address_of ip port"
proof -
  let ?r = "\<lparr>ra_size = 16, ra_storage = sockaddr_in port ip @ replicate 112 0\<rparr>"
  have "sockaddr_of (sockaddr_in port ip) = Inr ?r" by (simp add: sockaddr_of_def sockaddr_storage_size_def)
  moreover have "address_of ?r = Address_of ip port"
    using sockaddr_in_fields [of ?r port ip "replicate 112 0"] by (simp add: address_of_def Address_of_def sizeof_sockaddr_in_def)
  ultimately show ?thesis by blast
qed

text \<open>
  \<^verbatim>\<open>inet_ntoa\<close>, and what the manual of \<^verbatim>\<open>getnameinfo\<close> says of the numeric forms of an IPv4 address.
\<close>

definition inet_ntoa :: "u32 \<Rightarrow> string" where
  "inet_ntoa ip =
     dec_string (unat (drop_bit 24 ip)) @ ''.'' @ dec_string (unat (and (drop_bit 16 ip) 0xff)) @ ''.''
     @ dec_string (unat (and (drop_bit 8 ip) 0xff)) @ ''.'' @ dec_string (unat (and ip 0xff))"

definition numeric_names :: "name_info \<Rightarrow> bool" where
  "numeric_names gni \<longleftrightarrow>
     (\<forall>r. raw_family r = AF_INET \<and> ra_size r = sizeof_sockaddr_in \<longrightarrow>
        gni r = (0, inet_ntoa (sin_addr r), dec_string (unat (sin_port r))))"

lemma stoi_port: "stoi (dec_string (unat (p :: u16))) = Inr (int (unat p))"
proof -
  have "unat p < 2 ^ 16" using unsigned_less [where ?w = p and ?'a = nat] by simp
  then show ?thesis by (intro stoi_dec) simp
qed

lemma is_ipv4_address_of: "is_ipv4 (address_of r) \<longleftrightarrow> raw_family r = AF_INET \<and> ra_size r = sizeof_sockaddr_in"
  by (simp add: is_ipv4_def address_of_def)

lemma ip_port_numeric:
  assumes "numeric_names gni" and "is_ipv4 (address_of r)"
  shows "ip_port gni r = Inr (inet_ntoa (sin_addr r), sin_port r)"
proof -
  have ip: "raw_family r = AF_INET" "ra_size r = sizeof_sockaddr_in" using assms(2) by (simp_all add: is_ipv4_address_of)
  then have "gni r = (0, inet_ntoa (sin_addr r), dec_string (unat (sin_port r)))"
    using assms(1) by (simp add: numeric_names_def)
  then show ?thesis using ip by (simp add: ip_port_def is_internet_def stoi_port)
qed

lemma raw_eq_image:
  assumes "sockaddr_of (sockaddr_in p i) = Inr r" and "sockaddr_of (sockaddr_in q j) = Inr s"
  shows "raw_eq r s \<longleftrightarrow> p = q \<and> i = j"
proof -
  have "ra_size r = 16" "ra_size s = 16" using assms by (auto simp: sockaddr_of_def split: if_splits)
  moreover have "take 16 (ra_storage r) = sockaddr_in p i" "take 16 (ra_storage s) = sockaddr_in q j"
    using sockaddr_of_wf [OF assms(1)] sockaddr_of_wf [OF assms(2)] by simp_all
  moreover have "sockaddr_in p i = sockaddr_in q j \<longleftrightarrow> p = q \<and> i = j"
    by (auto simp: sockaddr_in_def length_int_bytes) (metis be_value_16, metis be_value_32)
  ultimately show ?thesis by (simp add: raw_eq_def)
qed

text \<open>
  C31.  The records on which the stack is modelled are faithful to the bytes of a socket address: for every
  address the numeric IPv4 address (or the exception) is the same, the port of an IPv4 address is the
  same when \<^verbatim>\<open>getnameinfo\<close> gives numeric names, \<^verbatim>\<open>from_ipv4_numeric\<close> never throws and makes the same address,
  and two \<^verbatim>\<open>sockaddr_in\<close> structures are equal as bytes exactly when their records are.
\<close>

theorem raw_address_refines:
  assumes "numeric_names gni"
  shows "ipv4_numeric (address_of r) = raw_ipv4_numeric r
    \<and> (is_ipv4 (address_of r) \<longrightarrow> address_port (address_of r) = raw_port gni r)
    \<and> map_sum id address_of (raw_from_ipv4_numeric ip) = Inr (from_ipv4_numeric ip)
    \<and> (sockaddr_of (sockaddr_in p i) = Inr s \<longrightarrow> sockaddr_of (sockaddr_in q j) = Inr t
         \<longrightarrow> raw_eq s t \<longleftrightarrow> address_of s = address_of t)"
proof (intro conjI impI)
  show "ipv4_numeric (address_of r) = raw_ipv4_numeric r"
    by (simp add: ipv4_numeric_def raw_ipv4_numeric_def address_of_def)
  show "address_port (address_of r) = raw_port gni r" if "is_ipv4 (address_of r)"
    using ip_port_numeric [OF assms that] that by (simp add: raw_port_def address_of_def)
  show "map_sum id address_of (raw_from_ipv4_numeric ip) = Inr (from_ipv4_numeric ip)"
    using sockaddr_of_in [of 0 ip] by (auto simp: raw_from_ipv4_numeric_def Address_of_def from_ipv4_numeric_def)
  show "raw_eq s t \<longleftrightarrow> address_of s = address_of t"
    if s: "sockaddr_of (sockaddr_in p i) = Inr s" "sockaddr_of (sockaddr_in q j) = Inr t"
  proof -
    have "address_of s = Address_of i p" "address_of t = Address_of j q"
      using sockaddr_of_in [of p i] sockaddr_of_in [of q j] s by simp_all
    then show ?thesis using raw_eq_image [OF s] by (auto simp: Address_of_def)
  qed
qed

definition ex_names :: name_info where
  "ex_names r = (0, inet_ntoa (sin_addr r), dec_string (unat (sin_port r)))"

lemma numeric_names_ex: "numeric_names ex_names"
  by (simp add: numeric_names_def ex_names_def)

lemma ex_local: "is_ipv4 (address_of \<lparr>ra_size = 16, ra_storage = sockaddr_in 80 0x7f000001\<rparr>)"
  using sockaddr_in_fields [of "\<lparr>ra_size = 16, ra_storage = sockaddr_in 80 0x7f000001\<rparr>" 80 "0x7f000001" "[]"]
  by (simp add: is_ipv4_address_of sizeof_sockaddr_in_def)

theorem raw_address_refines_witness:
  "numeric_names ex_names
   \<and> raw_port ex_names \<lparr>ra_size = 16, ra_storage = sockaddr_in 80 0x7f000001\<rparr> = Inr 80"
proof -
  let ?r = "\<lparr>ra_size = 16, ra_storage = sockaddr_in 80 0x7f000001\<rparr>"
  have "address_port (address_of ?r) = raw_port ex_names ?r"
    using raw_address_refines [OF numeric_names_ex, of ?r] ex_local by blast
  moreover have "address_port (address_of ?r) = Inr 80"
    using ex_local sockaddr_in_fields [of ?r 80 "0x7f000001" "[]"] by (simp add: address_of_def)
  ultimately show ?thesis by (simp add: numeric_names_ex)
qed

text \<open>
  An address made from a dotted quad and a port, by a resolver that answers a numeric request with that
  address, reads back as the same number and port, prints as \<^verbatim>\<open>ip:port\<close>, can be cast to \<^verbatim>\<open>sockaddr_in\<close> and to none
  of the other structures; when the resolver fails, the constructor throws its error.
\<close>

theorem address_roundtrip:
  assumes "gai (inet_ntoa ip) (dec_string (unat port)) (make_hints (or AI_NUMERICHOST AI_NUMERICSERV) AF_INET) = (ret, Some (sockaddr_in port ip))"
    and "numeric_names gni"
  shows "(ret = 0 \<longrightarrow> (\<exists>r. Address_ip gai (inet_ntoa ip) port = Inr r \<and> address_of r = Address_of ip port
      \<and> raw_ipv4_numeric r = Inr ip \<and> raw_port gni r = Inr port \<and> raw_ip gni r = Inr (inet_ntoa ip)
      \<and> raw_to_string gni r = Inr (inet_ntoa ip @ '':'' @ dec_string (unat port))
      \<and> Address_as Sockaddr_In r = Inr (sockaddr_in port ip)
      \<and> (\<forall>t. t \<noteq> Sockaddr_In \<longrightarrow> Address_as t r = Inl (Runtime_Error ''Address::as() conversion failure''))))
    \<and> (ret \<noteq> 0 \<longrightarrow> Address_ip gai (inet_ntoa ip) port
         = Inl (Tagged_Error (''getaddrinfo('' @ inet_ntoa ip @ '', '' @ dec_string (unat port) @ '')'') ret))"
proof (intro conjI impI)
  assume "ret = 0"
  obtain r where r: "sockaddr_of (sockaddr_in port ip) = Inr r" "address_of r = Address_of ip port"
    using sockaddr_of_in by blast
  then have f: "raw_family r = AF_INET" "sin_addr r = ip" "sin_port r = port" "ra_size r = 16"
    by (simp_all add: address_of_def Address_of_def sizeof_sockaddr_in_def)
  have ip: "is_ipv4 (address_of r)" using r by simp
  note pp = ip_port_numeric [OF assms(2) ip]
  have "Address_as Sockaddr_In r = Inr (sockaddr_in port ip)"
    using sockaddr_of_wf [OF r(1)] f by (simp add: Address_as_def)
  moreover have "Address_as t r = Inl (Runtime_Error ''Address::as() conversion failure'')" if "t \<noteq> Sockaddr_In" for t
    using that f by (cases t) (simp_all add: Address_as_def AF_INET_def AF_INET6_def)
  moreover have "Address_ip gai (inet_ntoa ip) port = Inr r"
    using assms(1) r \<open>ret = 0\<close> by (simp add: Address_ip_def Address_hints_def)
  moreover have "raw_ipv4_numeric r = Inr ip" using f by (simp add: raw_ipv4_numeric_def sizeof_sockaddr_in_def)
  moreover have "is_internet r" using f by (simp add: is_internet_def)
  ultimately show "\<exists>r. Address_ip gai (inet_ntoa ip) port = Inr r \<and> address_of r = Address_of ip port
      \<and> raw_ipv4_numeric r = Inr ip \<and> raw_port gni r = Inr port \<and> raw_ip gni r = Inr (inet_ntoa ip)
      \<and> raw_to_string gni r = Inr (inet_ntoa ip @ '':'' @ dec_string (unat port))
      \<and> Address_as Sockaddr_In r = Inr (sockaddr_in port ip)
      \<and> (\<forall>t. t \<noteq> Sockaddr_In \<longrightarrow> Address_as t r = Inl (Runtime_Error ''Address::as() conversion failure''))"
    using r(2) pp f by (intro exI [of _ r]) (simp add: raw_port_def raw_ip_def raw_to_string_def)
qed (use assms(1) in \<open>simp add: Address_ip_def Address_hints_def\<close>)

theorem address_roundtrip_witness:
  "\<exists>r. Address_ip (\<lambda>_ _ _. (0, Some (sockaddr_in 53 0x08080808))) (inet_ntoa 0x08080808) 53 = Inr r
     \<and> raw_to_string ex_names r = Inr ''8.8.8.8:53''"
proof -
  have t: "inet_ntoa 0x08080808 @ '':'' @ dec_string (unat (53 :: u16)) = ''8.8.8.8:53''" by code_simp
  show ?thesis
    using address_roundtrip [of "\<lambda>_ _ _. (0, Some (sockaddr_in 53 0x08080808))" "0x08080808" 53 0, OF refl numeric_names_ex] t
    by auto
qed

end
