(* ===== verification/Single_Float.thy ===== *)
theory Single_Float
  imports Prelude
begin

text \<open>
  The single-precision arithmetic that \<^verbatim>\<open>src/apps/tcp_ipv4.cc\<close> uses for a loss rate: a product, rounded to the nearest number
  with 24 significant bits (ties to even), and the conversion of a \<^verbatim>\<open>float\<close> to \<^verbatim>\<open>uint16_t\<close>, which cuts off the fraction and is
  undefined if the rest does not fit.  A finite number is a mantissa times a power of two; the sign of zero is
  left out, no conversion shows it.  \<^verbatim>\<open>FLT_EVAL_METHOD\<close> is 0: products of \<^verbatim>\<open>float\<close> are rounded to \<^verbatim>\<open>float\<close>.
\<close>

datatype float32 = Finite int int | Infinite bool | NaN

fun bit_length :: "nat \<Rightarrow> nat" where
  "bit_length n = (if n = 0 then 0 else Suc (bit_length (n div 2)))"

declare bit_length.simps [simp del]

lemma bit_length_simps [simp]:
  "bit_length 0 = 0" "bit_length (Suc 0) = 1" "bit_length (numeral k) = Suc (bit_length (numeral k div 2))"
  by (simp_all add: bit_length.simps)

definition round_half_even :: "nat \<Rightarrow> nat \<Rightarrow> nat" where
  "round_half_even n s =
     (let q = n div 2 ^ s; r = n mod 2 ^ s
      in if 2 * r > 2 ^ s \<or> 2 * r = 2 ^ s \<and> odd q then q + 1 else q)"

definition float_round :: "int \<Rightarrow> int \<Rightarrow> float32" where
  "float_round m e =
     (let n = nat \<bar>m\<bar>;
          s = nat (max (int (bit_length n) - 24) (- 149 - e));
          q = round_half_even n s;
          e = e + int s
      in if 0 \<le> e \<and> 2 ^ 128 \<le> q * 2 ^ nat e then Infinite (m < 0) else Finite (sgn m * int q) e)"

fun float_times :: "float32 \<Rightarrow> float32 \<Rightarrow> float32" where
  "float_times NaN y = NaN"
| "float_times x NaN = NaN"
| "float_times (Finite m e) (Finite n f) = float_round (m * n) (e + f)"
| "float_times (Finite m e) (Infinite neg) = (if m = 0 then NaN else Infinite (neg \<noteq> (m < 0)))"
| "float_times (Infinite neg) (Finite m e) = (if m = 0 then NaN else Infinite (neg \<noteq> (m < 0)))"
| "float_times (Infinite neg) (Infinite neg') = Infinite (neg \<noteq> neg')"

fun float_to_u16 :: "float32 \<Rightarrow> u16 result" where
  "float_to_u16 (Finite m e) =
     (let t = (if 0 \<le> e then m * 2 ^ nat e else sgn m * (\<bar>m\<bar> div 2 ^ nat (- e)))
      in if 0 \<le> t \<and> t \<le> 65535 then Inr (of_int t) else Inl Undefined_Behaviour)"
| "float_to_u16 (Infinite neg) = Inl Undefined_Behaviour"
| "float_to_u16 NaN = Inl Undefined_Behaviour"

section \<open>Rounding keeps bounds\<close>

lemma bit_length_ge: "n \<noteq> 0 \<Longrightarrow> 2 ^ (bit_length n - 1) \<le> n"
proof (induction n rule: bit_length.induct)
  case (1 n)
  show ?case
  proof (cases "n div 2 = 0")
    case True
    then show ?thesis using 1(2) by (simp add: bit_length.simps [of n] bit_length.simps [of 0])
  next
    case False
    then have "2 ^ (bit_length (n div 2) - 1) \<le> n div 2" using 1 by blast
    moreover have "bit_length (n div 2) \<noteq> 0" using False by (simp add: bit_length.simps [of "n div 2"])
    then have "(2 :: nat) ^ bit_length (n div 2) = 2 * 2 ^ (bit_length (n div 2) - 1)" by (cases "bit_length (n div 2)") simp_all
    ultimately show ?thesis using 1(2) by (simp add: bit_length.simps [of n])
  qed
qed

lemma round_half_even_le:
  assumes "n \<le> c * 2 ^ s"
  shows "round_half_even n s \<le> c"
proof (cases "n div 2 ^ s = c")
  case True
  moreover have "c * 2 ^ s + n mod 2 ^ s = n" using True div_mult_mod_eq [of n "2 ^ s"] by simp
  ultimately have "n mod 2 ^ s = 0" using assms by linarith
  then show ?thesis using True by (simp add: round_half_even_def)
next
  case False
  moreover have "n div 2 ^ s \<le> c" using div_le_mono [OF assms, of "2 ^ s"] by simp
  ultimately show ?thesis by (auto simp: round_half_even_def Let_def)
qed

lemma round_half_even_0: "round_half_even 0 s = 0"
  by (simp add: round_half_even_def)

text \<open>Numbers from 0 to 1.\<close>

fun unit_rate :: "float32 \<Rightarrow> bool" where
  "unit_rate (Finite m e) \<longleftrightarrow> 0 \<le> m \<and> (if 0 \<le> e then m * 2 ^ nat e \<le> 1 else m \<le> 2 ^ nat (- e))"
| "unit_rate _ \<longleftrightarrow> False"

lemma unit_rateE:
  assumes "unit_rate x"
  obtains m k where "x = Finite (int m) (- int k)" "m \<le> 2 ^ k" | k where "x = Finite 0 (int k)"
proof (cases x)
  case (Finite m e)
  show thesis
  proof (cases "0 \<le> e")
    case True
    then have "m * 2 ^ nat e \<le> 1" "0 \<le> m" using assms Finite by simp_all
    moreover have "nat e = 0" if "m \<noteq> 0"
    proof (rule ccontr)
      assume "nat e \<noteq> 0"
      then have "(2 :: int) \<le> 2 ^ nat e" by (cases "nat e") simp_all
      moreover have "(2 :: int) ^ nat e \<le> m * 2 ^ nat e" using that \<open>0 \<le> m\<close> by simp
      ultimately show False using \<open>m * 2 ^ nat e \<le> 1\<close> by linarith
    qed
    ultimately have "m = 0 \<or> m = 1 \<and> nat e = 0" by (cases "m = 0") simp_all
    then show thesis using that(1) [of 1 0] that(2) [of "nat e"] Finite True by auto
  next
    case False
    then have "m \<le> 2 ^ nat (- e)" "0 \<le> m" using assms Finite by simp_all
    then have "nat m \<le> 2 ^ nat (- e)" by (simp add: nat_le_iff)
    then show thesis using that(1) [of "nat m" "nat (- e)"] Finite False \<open>0 \<le> m\<close> by auto
  qed
qed (use assms in simp_all)

text \<open>The product of a bound below \<open>2 ^ 24\<close> and a number from 0 to 1 does not exceed the bound.\<close>

lemma scaled_rate:
  assumes "m \<le> 2 ^ k" and "c < 2 ^ 16"
  obtains q j where "float_round (int (c * m)) (- int k) = Finite (int q) (- int j)" "q \<le> c * 2 ^ j"
proof -
  let ?n = "c * m" and ?s = "nat (max (int (bit_length (c * m)) - 24) (- 149 - - int k))"
  have n: "?n \<le> c * 2 ^ k" using assms(1) by simp
  have s: "?s \<le> k"
  proof (cases "?n = 0")
    case True
    then have "bit_length (c * m) = 0" by (subst bit_length.simps) simp
    then show ?thesis by simp
  next
    case False
    have "(2 :: nat) ^ (bit_length ?n - 1) \<le> c * 2 ^ k" using bit_length_ge [OF False] n by linarith
    also have "\<dots> < 2 ^ (16 + k)" using assms(2) by (simp add: power_add)
    finally have "bit_length ?n - 1 < 16 + k" by simp
    then show ?thesis by linarith
  qed
  let ?q = "round_half_even ?n ?s"
  have "(2 :: nat) ^ k = 2 ^ (k - ?s) * 2 ^ ?s" using s by (metis le_add_diff_inverse2 power_add)
  then have "?n \<le> (c * 2 ^ (k - ?s)) * 2 ^ ?s" using n by (simp only: mult.assoc)
  then have q: "?q \<le> c * 2 ^ (k - ?s)" by (rule round_half_even_le)
  have e: "- int k + int ?s = - int (k - ?s)" using s by simp
  have "?q * 2 ^ nat (- int k + int ?s) < 2 ^ 128" if "0 \<le> - int k + int ?s"
  proof -
    have "k - ?s = 0" "nat (- int k + int ?s) = 0" using that s by linarith+
    then have "?q * 2 ^ nat (- int k + int ?s) \<le> c" using q by (simp only: power_0 mult_1_right)
    then show ?thesis using assms(2) by simp
  qed
  then have "\<not> (0 \<le> - int k + int ?s \<and> 2 ^ 128 \<le> ?q * 2 ^ nat (- int k + int ?s))" by (metis not_le)
  moreover have "sgn (int ?n) * int ?q = int ?q"
  proof (cases "?n = 0")
    case True
    show ?thesis unfolding True round_half_even_0 by simp
  qed (simp add: sgn_if)
  ultimately have "float_round (int ?n) (- int k) = Finite (int ?q) (- int (k - ?s))"
    by (simp only: float_round_def Let_def nat_int abs_of_nat e if_False)
  then show thesis using that q by blast
qed

lemma unit_rate_converts:
  assumes "unit_rate x" and "c < 2 ^ 16"
  shows "\<exists>r. float_to_u16 (float_times (Finite (int c) 0) x) = Inr r"
  using assms(1)
proof (cases rule: unit_rateE)
  case (1 m k)
  obtain q j where qj: "float_round (int (c * m)) (- int k) = Finite (int q) (- int j)" "q \<le> c * 2 ^ j"
    using scaled_rate [OF 1(2) assms(2)] by blast
  have "q div 2 ^ j \<le> c" using div_le_mono [OF qj(2), of "2 ^ j"] by simp
  then have "int (q div 2 ^ j) \<le> 65535" using assms(2) by simp
  then show ?thesis using qj(1) 1(1) by (cases "j = 0"; cases "q = 0") (simp_all add: zdiv_int sgn_if Let_def pos_imp_zdiv_nonneg_iff)
next
  case (2 k)
  then show ?thesis by (simp add: float_round_def round_half_even_def Let_def)
qed

end
