(* ===== verification/TCP_IPv4_Program.thy ===== *)
theory TCP_IPv4_Program
  imports Raw_Address TCP_Messages Single_Float
begin

text \<open>
  \<^verbatim>\<open>src/apps/tcp_ipv4.cc\<close>: the command line of the program that connects the terminal to a TCP connection over
  a TUN device.  The arguments are a list of C strings.  Name resolution, the two random numbers and \<^verbatim>\<open>strtof\<close>, a function from
  strings to single-precision numbers, are parameters; the scaling of a loss rate and its conversion to 16 bits,
  which is undefined out of range, are in \<open>loss_rate\<close>.  A run of a part of the program gives a value, ends the program with a status
  and a message under the usage text, aborts it, or throws.
\<close>

datatype 'a finish = Value 'a | Exit int string | Abort | Raised cpp_error

fun of_result :: "'a result \<Rightarrow> 'a finish" where
  "of_result (Inr x) = Value x"
| "of_result (Inl e) = Raised e"

fun fbind :: "'a finish \<Rightarrow> ('a \<Rightarrow> 'b finish) \<Rightarrow> 'b finish" where
  "fbind (Value x) f = f x"
| "fbind (Exit n m) f = Exit n m"
| "fbind Abort f = Abort"
| "fbind (Raised e) f = Raised e"

definition TUN_DFLT :: string where
  "TUN_DFLT = ''tun144''"

definition LOCAL_ADDRESS_DFLT :: string where
  "LOCAL_ADDRESS_DFLT = ''169.254.144.9''"

definition arg :: "string list \<Rightarrow> u64 \<Rightarrow> string finish" where
  "arg args i = (if unat i < length args then Value (args ! unat i) else Raised Undefined_Behaviour)"

definition check_argc :: "string list \<Rightarrow> u64 \<Rightarrow> string \<Rightarrow> unit finish" where
  "check_argc args cur err = (if size64 args \<le> cur + 3 then Exit 1 err else Value ())"

record app_config =
  ac_fsm :: tcp_config
  ac_filt :: fd_adapter_config
  ac_tundev :: "string option"
  ac_listen :: bool
  ac_source_address :: string
  ac_source_port :: string

definition app_config_default :: "u32 \<Rightarrow> u32 \<Rightarrow> app_config" where
  "app_config_default isn port =
     \<lparr>ac_fsm = TCPConfig_default\<lparr>cfg_isn := Wrap32 isn\<rparr>, ac_filt = FdAdapterConfig_new, ac_tundev = None, ac_listen = False,
      ac_source_address = LOCAL_ADDRESS_DFLT, ac_source_port = dec_string (unat (ucast port :: u16))\<rparr>"

text \<open>A loss rate as a fraction of 65535.\<close>

definition loss_rate :: "float32 \<Rightarrow> u16 result" where
  "loss_rate lossrate = float_to_u16 (float_times (Finite 65535 0) lossrate)"

text \<open>One turn of the loop over the options.\<close>

definition with_argument :: "string list \<Rightarrow> u64 \<Rightarrow> string \<Rightarrow> (string \<Rightarrow> app_config finish) \<Rightarrow> (u64 \<times> app_config) finish" where
  "with_argument args cur err f =
     fbind (check_argc args cur err) (\<lambda>_.
     fbind (arg args (cur + 1)) (\<lambda>a.
     fbind (f a) (\<lambda>c. Value (cur + 2, c))))"

definition option_step :: "(string \<Rightarrow> float32) \<Rightarrow> string list \<Rightarrow> u64 \<Rightarrow> app_config \<Rightarrow> (u64 \<times> app_config) finish" where
  "option_step strtof args cur c =
     fbind (arg args cur) (\<lambda>opt.
     if strncmp_eq ''-l'' opt 3 then Value (cur + 1, c\<lparr>ac_listen := True\<rparr>)
     else if strncmp_eq ''-a'' opt 3 then
       with_argument args cur ''ERROR: -a requires one argument.'' (\<lambda>a. Value (c\<lparr>ac_source_address := a\<rparr>))
     else if strncmp_eq ''-s'' opt 3 then
       with_argument args cur ''ERROR: -s requires one argument.'' (\<lambda>a. Value (c\<lparr>ac_source_port := a\<rparr>))
     else if strncmp_eq ''-w'' opt 3 then
       with_argument args cur ''ERROR: -w requires one argument.''
         (\<lambda>a. Value (c\<lparr>ac_fsm := (ac_fsm c)\<lparr>cfg_recv_capacity := of_int (strtol 0 a)\<rparr>\<rparr>))
     else if strncmp_eq ''-t'' opt 3 then
       with_argument args cur ''ERROR: -t requires one argument.''
         (\<lambda>a. Value (c\<lparr>ac_fsm := (ac_fsm c)\<lparr>cfg_rt_timeout := of_int (strtol 0 a)\<rparr>\<rparr>))
     else if strncmp_eq ''-d'' opt 3 then
       with_argument args cur ''ERROR: -t requires one argument.'' (\<lambda>a. Value (c\<lparr>ac_tundev := Some a\<rparr>))
     else if strncmp_eq ''-Lu'' opt 3 then
       with_argument args cur ''ERROR: -Lu requires one argument.''
         (\<lambda>a. fbind (of_result (loss_rate (strtof a))) (\<lambda>r. Value (c\<lparr>ac_filt := (ac_filt c)\<lparr>fc_loss_rate_up := r\<rparr>\<rparr>)))
     else if strncmp_eq ''-Ld'' opt 3 then
       with_argument args cur ''ERROR: -Lu requires one argument.''
         (\<lambda>a. fbind (of_result (loss_rate (strtof a))) (\<lambda>r. Value (c\<lparr>ac_filt := (ac_filt c)\<lparr>fc_loss_rate_dn := r\<rparr>\<rparr>)))
     else if strncmp_eq ''-h'' opt 3 then Exit 0 []
     else Exit 1 (''ERROR: unrecognized option '' @ opt))"

lemma fbind_Value_iff: "fbind m f = Value y \<longleftrightarrow> (\<exists>x. m = Value x \<and> f x = Value y)"
  by (cases m) auto

lemma with_argument_advances: "with_argument args cur err f = Value (cur', c') \<Longrightarrow> cur' = cur + 2"
  by (auto simp: with_argument_def fbind_Value_iff)

lemma option_step_advances: "option_step strtof args cur c = Value (cur', c') \<Longrightarrow> cur' = cur + 1 \<or> cur' = cur + 2"
  by (auto simp: option_step_def fbind_Value_iff dest: with_argument_advances split: if_splits)

lemma left_shrinks: "2 < (n :: u64) \<Longrightarrow> unat (n - 1) < unat n \<and> unat (n - 2) < unat n"
  by (simp add: word_less_nat_alt unat_sub_if_size)

function options_loop :: "(string \<Rightarrow> float32) \<Rightarrow> string list \<Rightarrow> u64 \<Rightarrow> app_config \<Rightarrow> (u64 \<times> app_config) finish" where
  "options_loop strtof args cur c =
     (if 2 < size64 args - cur then
        case option_step strtof args cur c of
          Value (cur', c') \<Rightarrow> options_loop strtof args cur' c'
        | Exit n m \<Rightarrow> Exit n m
        | Abort \<Rightarrow> Abort
        | Raised e \<Rightarrow> Raised e
      else Value (cur, c))"
  by pat_completeness auto

termination
proof (relation "measure (\<lambda>(strtof, args, cur, c). unat (size64 args - cur))", goal_cases)
  case (2 strtof args cur c x cur' c')
  then show ?case using left_shrinks [of "size64 args - cur"] option_step_advances [of strtof args cur c cur' c']
    by (auto simp: diff_diff_eq)
qed simp

declare options_loop.simps [simp del]

text \<open>The positional arguments, and \<^verbatim>\<open>main\<close> up to the point where the socket is made.\<close>

definition positional ::
  "name_resolver \<Rightarrow> name_info \<Rightarrow> string list \<Rightarrow> u64 \<Rightarrow> app_config \<Rightarrow> (tcp_config \<times> fd_adapter_config \<times> bool \<times> string option) finish" where
  "positional gai gni args cur c =
     (if ac_listen c then
        fbind (arg args (cur + 1)) (\<lambda>service.
        fbind (of_result (Address_host gai ''0'' service)) (\<lambda>source.
        fbind (of_result (raw_port gni source)) (\<lambda>source_port.
        if source_port = 0 then Exit 1 ''ERROR: listen port cannot be zero in server mode.''
        else Value (ac_fsm c, (ac_filt c)\<lparr>fc_source := address_of source\<rparr>, True, ac_tundev c))))
      else
        fbind (arg args cur) (\<lambda>host.
        fbind (arg args (cur + 1)) (\<lambda>service.
        fbind (of_result (Address_host gai host service)) (\<lambda>destination.
        fbind (of_result (Address_host gai (ac_source_address c) (ac_source_port c))) (\<lambda>source.
        Value (ac_fsm c, (ac_filt c)\<lparr>fc_destination := address_of destination, fc_source := address_of source\<rparr>,
               False, ac_tundev c))))))"

definition get_config ::
  "name_resolver \<Rightarrow> name_info \<Rightarrow> (string \<Rightarrow> float32) \<Rightarrow> u32 \<Rightarrow> u32 \<Rightarrow> string list
   \<Rightarrow> (tcp_config \<times> fd_adapter_config \<times> bool \<times> string option) finish" where
  "get_config gai gni strtof isn port args =
     fbind (options_loop strtof args 1 (app_config_default isn port)) (\<lambda>(cur, c). positional gai gni args cur c)"

definition tcp_ipv4_main ::
  "name_resolver \<Rightarrow> name_info \<Rightarrow> (string \<Rightarrow> float32) \<Rightarrow> u32 \<Rightarrow> u32 \<Rightarrow> string list
   \<Rightarrow> (tcp_config \<times> fd_adapter_config \<times> bool \<times> string) finish" where
  "tcp_ipv4_main gai gni strtof isn port args =
     (if args = [] then Abort
      else if length args < 3 then Exit 1 ''ERROR: required arguments are missing.''
      else case get_config gai gni strtof isn port args of
        Value (c_fsm, c_filt, listen, tun_dev_name) \<Rightarrow>
          Value (c_fsm, c_filt, listen, case tun_dev_name of None \<Rightarrow> TUN_DFLT | Some d \<Rightarrow> d)
      | Exit n m \<Rightarrow> Exit n m
      | Abort \<Rightarrow> Abort
      | Raised Undefined_Behaviour \<Rightarrow> Raised Undefined_Behaviour
      | Raised e \<Rightarrow> Exit 1 [])"

section \<open>Reading inside the arguments\<close>

lemma unat_arg_next [u64_arith]: "unat cur + n < 2 ^ 64 \<Longrightarrow> n < 2 ^ 64 \<Longrightarrow> unat ((cur :: u64) + of_nat n) = unat cur + n"
  by (simp add: unat_add_u64 unat_of_nat_u64)

lemma unat_arg_steps:
  assumes "unat cur + 3 < 2 ^ 64"
  shows "unat ((cur :: u64) + 1) = unat cur + 1" "unat (cur + 2) = unat cur + 2" "unat (cur + 3) = unat cur + 3"
  using assms unat_arg_next [of cur 1] unat_arg_next [of cur 2] unat_arg_next [of cur 3] by simp_all

lemma more_options_iff:
  assumes "length args < 2 ^ 64" and "unat cur \<le> length args"
  shows "2 < size64 args - cur \<longleftrightarrow> unat cur + 2 < length args"
proof -
  have "cur \<le> size64 args" using assms by (simp add: word_le_nat_alt unat_size64)
  then have "unat (size64 args - cur) = length args - unat cur" using assms by (simp add: unat_sub_u64 unat_size64)
  then show ?thesis by (auto simp: word_less_nat_alt)
qed

lemma check_argc_eq:
  assumes "length args < 2 ^ 64 - 3" and "unat cur < length args"
  shows "check_argc args cur err = (if length args \<le> unat cur + 3 then Exit 1 err else Value ())"
  using assms unat_arg_steps(3) [of cur] by (simp add: check_argc_def word_le_nat_alt unat_size64)

lemma with_argument_eq:
  assumes "length args < 2 ^ 64 - 3" and "unat cur + 2 < length args"
  shows "with_argument args cur err f =
    (if length args = unat cur + 3 then Exit 1 err else fbind (f (args ! (unat cur + 1))) (\<lambda>c. Value (cur + 2, c)))"
  using assms unat_arg_steps(1) [of cur] by (simp add: with_argument_def check_argc_eq arg_def)

definition defined :: "'a finish \<Rightarrow> bool" where
  "defined r \<longleftrightarrow> r \<noteq> Raised Undefined_Behaviour \<and> r \<noteq> Abort \<and> (\<forall>n m. r = Exit n m \<longrightarrow> n = 0 \<or> n = 1)"

text \<open>An argument that is read as a loss rate and is not a number from 0 to 1.\<close>

definition bad_rate :: "(string \<Rightarrow> float32) \<Rightarrow> string list \<Rightarrow> bool" where
  "bad_rate strtof args \<longleftrightarrow> (\<exists>i. i + 1 < length args \<and> (strncmp_eq ''-Lu'' (args ! i) 3 \<or> strncmp_eq ''-Ld'' (args ! i) 3)
     \<and> \<not> unit_rate (strtof (args ! (i + 1))))"

definition safe :: "(string \<Rightarrow> float32) \<Rightarrow> string list \<Rightarrow> (u64 \<times> app_config) finish \<Rightarrow> bool" where
  "safe strtof args r \<longleftrightarrow> (defined r \<or> r = Raised Undefined_Behaviour \<and> bad_rate strtof args)
     \<and> (\<forall>cur c. r = Value (cur, c) \<longrightarrow> unat cur + 2 \<le> length args)"

lemma safe_simps [simp]:
  "safe strtof args (Exit 0 m)" "safe strtof args (Exit 1 m)" "safe strtof args (Raised e) \<longleftrightarrow> e \<noteq> Undefined_Behaviour \<or> bad_rate strtof args"
  "\<not> safe strtof args Abort" "safe strtof args (Value (cur, c)) \<longleftrightarrow> unat cur + 2 \<le> length args"
  by (auto simp: safe_def defined_def)

lemma loss_rate_examples:
  "loss_rate (Finite 1 (- 1)) = Inr 32767" "loss_rate (Finite 1 0) = Inr 65535" "loss_rate (Finite 2 0) = Inl Undefined_Behaviour"
  by (simp_all add: loss_rate_def float_round_def round_half_even_def sgn_if Let_def)

lemma loss_rate_unit: "unit_rate x \<Longrightarrow> \<exists>r. loss_rate x = Inr r"
  using unit_rate_converts [of x 65535] by (simp add: loss_rate_def)

lemma loss_rate_error: "loss_rate x = Inl e \<Longrightarrow> e = Undefined_Behaviour"
  unfolding loss_rate_def by (cases "float_times (Finite 65535 0) x") (auto simp: Let_def split: if_splits)

lemma with_argument_safe:
  assumes "length args < 2 ^ 64 - 3" and "unat cur + 2 < length args"
    and "defined (f (args ! (unat cur + 1))) \<or> f (args ! (unat cur + 1)) = Raised Undefined_Behaviour \<and> bad_rate strtof args"
  shows "safe strtof args (with_argument args cur err f)"
proof -
  have "safe strtof args (fbind (f (args ! (unat cur + 1))) (\<lambda>c. Value (cur + 2, c)))" if "length args \<noteq> unat cur + 3"
    using that assms unat_arg_steps(2) [of cur] by (cases "f (args ! (unat cur + 1))") (auto simp: defined_def)
  then show ?thesis using assms by (simp add: with_argument_eq)
qed

lemma option_step_safe:
  assumes "length args < 2 ^ 64 - 3" and "unat cur + 2 < length args"
  shows "safe strtof args (option_step strtof args cur c)"
proof -
  note w = with_argument_safe [OF assms, of _ strtof]
  have d: "defined (Value x)" for x :: app_config by (simp add: defined_def)
  have l: "defined (fbind (of_result (loss_rate (strtof a))) (\<lambda>r. Value (g r))) \<or>
      fbind (of_result (loss_rate (strtof a))) (\<lambda>r. Value (g r)) = Raised Undefined_Behaviour \<and> bad_rate strtof args"
    if "strncmp_eq ''-Lu'' (args ! unat cur) 3 \<or> strncmp_eq ''-Ld'' (args ! unat cur) 3" "a = args ! (unat cur + 1)"
    for a and g :: "u16 \<Rightarrow> app_config"
  proof (cases "unit_rate (strtof a)")
    case True
    then show ?thesis using loss_rate_unit [of "strtof a"] d by auto
  next
    case False
    then have "bad_rate strtof args" unfolding bad_rate_def using that assms(2) by (intro exI [of _ "unat cur"]) auto
    then show ?thesis using loss_rate_error [of "strtof a"] d by (cases "loss_rate (strtof a)") auto
  qed
  have a: "arg args cur = Value (args ! unat cur)" using assms(2) by (simp add: arg_def)
  have v: "safe strtof args (Value (cur + 1, c'))" for c' using assms(1,2) unat_arg_steps(1) [of cur] by simp
  have i: "(P \<Longrightarrow> safe strtof args r) \<Longrightarrow> safe strtof args r' \<Longrightarrow> safe strtof args (if P then r else r')" for P r r' by simp
  show ?thesis unfolding option_step_def a fbind.simps
    by (intro i v w disjI1 [OF d] safe_simps(1,2) l) blast+
qed

lemma options_loop_safe:
  assumes "length args < 2 ^ 64 - 3"
  shows "unat cur + 2 \<le> length args \<Longrightarrow> safe strtof args (options_loop strtof args cur c)
    \<and> (\<forall>cur' c'. options_loop strtof args cur c = Value (cur', c') \<longrightarrow> unat cur' + 2 = length args)"
  using assms
proof (induction strtof args cur c rule: options_loop.induct)
  case (1 strtof args cur c)
  show ?case
  proof (cases "2 < size64 args - cur")
    case True
    then have s: "safe strtof args (option_step strtof args cur c)"
      using 1(2,3) more_options_iff [of args cur] by (intro option_step_safe) auto
    show ?thesis
    proof (cases "option_step strtof args cur c")
      case (Value x)
      obtain cur' c' where x: "x = (cur', c')" by (cases x)
      then have "unat cur' + 2 \<le> length args" using s Value by simp
      from 1(1) [OF True Value x [symmetric] this 1(3)] show ?thesis
        using True Value x by (simp add: options_loop.simps [of strtof args cur c])
    qed (use s True in \<open>simp_all add: options_loop.simps [of strtof args cur c]\<close>)
  next
    case False
    then show ?thesis using 1(2,3) more_options_iff [of args cur] by (simp add: options_loop.simps [of strtof args cur c])
  qed
qed

lemma Address_host_no_UB: "Address_host gai h s \<noteq> Inl Undefined_Behaviour"
  by (simp add: Address_host_def Address_hints_def sockaddr_of_def split: prod.splits option.splits)

lemma raw_port_no_UB: "raw_port gni r \<noteq> Inl Undefined_Behaviour"
  by (auto simp: raw_port_def ip_port_def stoi_def split: prod.splits)


lemma fbind_defined:
  "defined m \<Longrightarrow> (\<And>x. m = Value x \<Longrightarrow> defined (f x)) \<Longrightarrow> defined (fbind m f)"
  by (cases m) (auto simp: defined_def)

lemma defined_of_result: "defined (of_result r) \<longleftrightarrow> r \<noteq> Inl Undefined_Behaviour"
  by (cases r) (auto simp: defined_def)

lemma positional_defined:
  assumes "unat cur + 2 = length args" and "length args < 2 ^ 64 - 3"
  shows "defined (positional gai gni args cur c)"
proof -
  have "arg args cur = Value (args ! unat cur)" "arg args (cur + 1) = Value (args ! (unat cur + 1))"
    using assms unat_arg_steps(1) [of cur] by (simp_all add: arg_def)
  then show ?thesis
    by (auto simp: positional_def defined_of_result Address_host_no_UB raw_port_no_UB intro!: fbind_defined) (simp_all add: defined_def)
qed

lemma get_config_defined:
  assumes "length args < 2 ^ 64 - 3" and "3 \<le> length args"
  shows "defined (get_config gai gni strtof isn port args) \<or>
    get_config gai gni strtof isn port args = Raised Undefined_Behaviour \<and> bad_rate strtof args"
proof -
  let ?loop = "options_loop strtof args 1 (app_config_default isn port)"
  have s: "safe strtof args ?loop" "\<And>cur c. ?loop = Value (cur, c) \<Longrightarrow> unat cur + 2 = length args"
    using options_loop_safe [of args 1 strtof "app_config_default isn port"] assms by auto
  show ?thesis
  proof (cases "?loop = Raised Undefined_Behaviour")
    case True
    then show ?thesis using s(1) by (simp add: get_config_def)
  next
    case False
    then have "defined ?loop" using s(1) by (auto simp: safe_def)
    then show ?thesis using s(2) positional_defined [OF _ assms(1)] unfolding get_config_def
      by (intro disjI1 fbind_defined) auto
  qed
qed

section \<open>What a command line means\<close>

text \<open>
  The options as the usage message lists them, how they are written, and what each one sets.  A loss rate
  is a number from 0 to 1, as the usage message says; others have no meaning.
\<close>

datatype app_option =
    Listen
  | Source_Address string
  | Source_Port string
  | Window string
  | Timeout string
  | Device string
  | Loss_Up string
  | Loss_Down string

fun render :: "app_option \<Rightarrow> string list" where
  "render Listen = [''-l'']"
| "render (Source_Address a) = [''-a'', a]"
| "render (Source_Port a) = [''-s'', a]"
| "render (Window a) = [''-w'', a]"
| "render (Timeout a) = [''-t'', a]"
| "render (Device a) = [''-d'', a]"
| "render (Loss_Up a) = [''-Lu'', a]"
| "render (Loss_Down a) = [''-Ld'', a]"

fun apply_option :: "(string \<Rightarrow> u16) \<Rightarrow> app_option \<Rightarrow> app_config \<Rightarrow> app_config" where
  "apply_option rate Listen c = c\<lparr>ac_listen := True\<rparr>"
| "apply_option rate (Source_Address a) c = c\<lparr>ac_source_address := a\<rparr>"
| "apply_option rate (Source_Port a) c = c\<lparr>ac_source_port := a\<rparr>"
| "apply_option rate (Window a) c = c\<lparr>ac_fsm := (ac_fsm c)\<lparr>cfg_recv_capacity := of_int (strtol 0 a)\<rparr>\<rparr>"
| "apply_option rate (Timeout a) c = c\<lparr>ac_fsm := (ac_fsm c)\<lparr>cfg_rt_timeout := of_int (strtol 0 a)\<rparr>\<rparr>"
| "apply_option rate (Device a) c = c\<lparr>ac_tundev := Some a\<rparr>"
| "apply_option rate (Loss_Up a) c = c\<lparr>ac_filt := (ac_filt c)\<lparr>fc_loss_rate_up := rate a\<rparr>\<rparr>"
| "apply_option rate (Loss_Down a) c = c\<lparr>ac_filt := (ac_filt c)\<lparr>fc_loss_rate_dn := rate a\<rparr>\<rparr>"

fun rate_ok :: "(string \<Rightarrow> float32) \<Rightarrow> app_option \<Rightarrow> bool" where
  "rate_ok strtof (Loss_Up a) \<longleftrightarrow> unit_rate (strtof a)"
| "rate_ok strtof (Loss_Down a) \<longleftrightarrow> unit_rate (strtof a)"
| "rate_ok strtof _ \<longleftrightarrow> True"

definition rate_of :: "(string \<Rightarrow> float32) \<Rightarrow> string \<Rightarrow> u16" where
  "rate_of strtof a = (case loss_rate (strtof a) of Inr r \<Rightarrow> r | Inl _ \<Rightarrow> 0)"

lemma rate_of_unit: "unit_rate (strtof a) \<Longrightarrow> loss_rate (strtof a) = Inr (rate_of strtof a)"
  using loss_rate_unit [of "strtof a"] by (auto simp: rate_of_def)

lemma option_step_render:
  assumes "rate_ok strtof p" and "args = pre @ render p @ rest" and "2 \<le> length rest" and "unat cur = length pre" and "length args < 2 ^ 64 - 3"
  shows "option_step strtof args cur c = Value (cur + of_nat (length (render p)), apply_option (rate_of strtof) p c)"
proof -
  have a: "arg args cur = Value (hd (render p))"
    using assms by (cases p) (simp_all add: arg_def nth_append)
  have w: "with_argument args cur err f = fbind (f (render p ! 1)) (\<lambda>c. Value (cur + 2, c))" if "p \<noteq> Listen" for err f
  proof -
    have "length (render p) = 2" using that by (cases p) simp_all
    then have "args ! (unat cur + 1) = render p ! 1" "length args \<noteq> unat cur + 3" "unat cur + 2 < length args"
      using assms by (auto simp: nth_append)
    then show ?thesis using with_argument_eq [OF assms(5), of cur err f] by simp
  qed
  show ?thesis using assms(1) by (cases p) (simp_all add: option_step_def a w strncmp_eq_def numeral_3_eq_3 rate_of_unit)
qed

lemma options_loop_render:
  assumes "length args < 2 ^ 64 - 3"
  shows "list_all (rate_ok strtof) opts \<Longrightarrow> args = pre @ concat (map render opts) @ [host, service] \<Longrightarrow> unat cur = length pre
    \<Longrightarrow> \<exists>cur'. unat cur' + 2 = length args
          \<and> options_loop strtof args cur c = Value (cur', fold (apply_option (rate_of strtof)) opts c)"
proof (induction opts arbitrary: pre cur c)
  case Nil
  then have "\<not> 2 < size64 args - cur" using assms more_options_iff [of args cur] by simp
  then have "options_loop strtof args cur c = Value (cur, c)" by (simp add: options_loop.simps [of _ args cur])
  then show ?case using Nil by (intro exI [of _ cur]) simp
next
  case (Cons p opts)
  let ?rest = "concat (map render opts) @ [host, service]" and ?cur = "cur + of_nat (length (render p))"
  have args: "args = pre @ render p @ ?rest" "args = (pre @ render p) @ ?rest" using Cons.prems(2) by simp_all
  have len: "1 \<le> length (render p)" "length (render p) \<le> 2" by (cases p; simp)+
  have step: "option_step strtof args cur c = Value (?cur, apply_option (rate_of strtof) p c)"
    using option_step_render [OF _ args(1) _ Cons.prems(3) assms] Cons.prems(1) by simp
  have total: "length args = length pre + length (render p) + length (concat (map render opts)) + 2"
    using args(1) by simp
  then have "unat cur + 2 < length args" "unat cur \<le> length args" using Cons.prems(3) len by linarith+
  then have more: "2 < size64 args - cur" using more_options_iff [of args cur] assms by simp
  have "unat ?cur = length (pre @ render p)"
    using unat_arg_next [of cur "length (render p)"] Cons.prems(3) len total assms by simp
  from Cons.IH [OF _ args(2) this, of "apply_option (rate_of strtof) p c"] Cons.prems(1) show ?case
    using more step by (simp add: options_loop.simps [of _ args cur])
qed


lemma get_config_render:
  fixes argv0 opts host service strtof isn port
  defines "args \<equiv> argv0 # concat (map render opts) @ [host, service]"
    and "c \<equiv> fold (apply_option (rate_of strtof)) opts (app_config_default isn port)"
  assumes "length args < 2 ^ 64 - 3" and "list_all (rate_ok strtof) opts"
  obtains cur where "get_config gai gni strtof isn port args = positional gai gni args cur c"
    "arg args cur = Value host" "arg args (cur + 1) = Value service"
proof -
  obtain cur where cur: "unat cur + 2 = length args"
    "options_loop strtof args 1 (app_config_default isn port) = Value (cur, c)"
    using options_loop_render [OF assms(3,4), of "[argv0]" host service 1] by (auto simp: args_def c_def)
  have "args ! unat cur = host" "args ! (unat cur + 1) = service" "unat (cur + 1) = unat cur + 1"
    using cur(1) assms(3) unat_arg_steps(1) [of cur] by (simp_all add: args_def nth_append)
  then show thesis using that [of cur] cur by (simp add: get_config_def arg_def)
qed

text \<open>
  C32.  On a command line made of any options in any order, then a host and a port, \<^verbatim>\<open>tcp_ipv4\<close> starts with exactly the
  configuration that the options describe, each one applied in turn to the defaults of the code, provided that the names
  resolve, that the loss rates are numbers from 0 to 1 and, in server mode, that the port is not 0.  In client mode the
  resolved host is the destination and the source is the chosen address and port.  In server mode the source is the
  local address \<^verbatim>\<open>0\<close> with the given port: the host is not looked at, although the usage text says that it is bound.
  The window without \<^verbatim>\<open>-w\<close> is \<open>DEFAULT_CAPACITY\<close>, not the \<open>MAX_PAYLOAD_SIZE\<close> of the usage text.  The device
  is the given one or the default one.
\<close>

theorem command_line_parsed:
  fixes argv0 opts host service strtof isn port
  defines "args \<equiv> argv0 # concat (map render opts) @ [host, service]"
    and "c \<equiv> fold (apply_option (rate_of strtof)) opts (app_config_default isn port)"
  assumes "length args < 2 ^ 64 - 3" and "list_all (rate_ok strtof) opts"
    and "ac_listen c \<Longrightarrow> Address_host gai ''0'' service = Inr src \<and> (\<exists>p. raw_port gni src = Inr p \<and> p \<noteq> 0)"
    and "\<not> ac_listen c \<Longrightarrow> Address_host gai host service = Inr dst
      \<and> Address_host gai (ac_source_address c) (ac_source_port c) = Inr src"
  shows "cfg_recv_capacity (ac_fsm (app_config_default isn port)) = DEFAULT_CAPACITY \<and>
    tcp_ipv4_main gai gni strtof isn port args =
    Value (ac_fsm c,
           if ac_listen c then (ac_filt c)\<lparr>fc_source := address_of src\<rparr>
           else (ac_filt c)\<lparr>fc_destination := address_of dst, fc_source := address_of src\<rparr>,
           ac_listen c, case ac_tundev c of None \<Rightarrow> TUN_DFLT | Some d \<Rightarrow> d)"
proof -
  have len: "3 \<le> length args" by (simp add: args_def)
  obtain cur where cur: "get_config gai gni strtof isn port args = positional gai gni args cur c"
    "arg args cur = Value host" "arg args (cur + 1) = Value service"
    using get_config_render [of argv0 opts host service] assms(3,4) unfolding args_def c_def by blast
  have "positional gai gni args cur c = Value (ac_fsm c,
           if ac_listen c then (ac_filt c)\<lparr>fc_source := address_of src\<rparr>
           else (ac_filt c)\<lparr>fc_destination := address_of dst, fc_source := address_of src\<rparr>, ac_listen c, ac_tundev c)"
    using assms(5,6) cur(2,3) by (auto simp: positional_def)
  moreover have "cfg_recv_capacity (ac_fsm (app_config_default isn port)) = DEFAULT_CAPACITY"
    by (simp add: app_config_default_def TCPConfig_default_def)
  ultimately show ?thesis using cur(1) len by (auto simp: tcp_ipv4_main_def)
qed

definition ex_resolver :: name_resolver where
  "ex_resolver host service hints = (0, Some (sockaddr_in (of_int (strtol 10 service)) 0))"

theorem command_line_parsed_witness:
  "case tcp_ipv4_main ex_resolver ex_names (\<lambda>s. Finite 1 (- 1)) 7 8 [''tcp_ipv4'', ''-l'', ''-w'', ''0x10'', ''-Lu'', ''0.5'', ''-d'', ''tun7'', ''x'', ''90''] of
     Value (fsm, filt, listen, dev) \<Rightarrow> cfg_recv_capacity fsm = 16 \<and> listen \<and> dev = ''tun7'' \<and> fc_source filt = Address_of 0 90
       \<and> fc_loss_rate_up filt = 32767
   | _ \<Rightarrow> False"
proof -
  obtain r where r: "sockaddr_of (sockaddr_in 90 0) = Inr r" "address_of r = Address_of 0 90" using sockaddr_of_in by blast
  have n: "of_int (strtol 10 ''90'') = (90 :: u16)" "of_int (strtol 0 ''0x10'') = (16 :: u64)" by code_simp+
  have "ip_port ex_names r = Inr (inet_ntoa (sin_addr r), sin_port r)"
    using ip_port_numeric [OF numeric_names_ex] r by simp
  then have p: "raw_port ex_names r = Inr 90" using r(2) by (simp add: raw_port_def address_of_def Address_of_def)
  have a: "Address_host ex_resolver ''0'' ''90'' = Inr r" using r n by (simp add: Address_host_def Address_hints_def ex_resolver_def)
  have l: "rate_of (\<lambda>s. Finite 1 (- 1)) s = 32767" for s
    using loss_rate_examples(1) by (simp add: rate_of_def)
  show ?thesis
    using command_line_parsed [of "''tcp_ipv4''" "[Listen, Window ''0x10'', Loss_Up ''0.5'', Device ''tun7'']" "''x''" "''90''"
        "\<lambda>s. Finite 1 (- 1)" 7 8 ex_resolver r ex_names] r p a n l
    by simp
qed

text \<open>
  C33.  Whatever the arguments, \<^verbatim>\<open>tcp_ipv4\<close> never reads an argument that is not there, and the loop over the options ends: with
  at least one argument (the program's name), \<^verbatim>\<open>main\<close> makes a configuration or ends the program with an error status or
  the usage message, except that an argument of \<^verbatim>\<open>-Lu\<close> or \<^verbatim>\<open>-Ld\<close> that is not a number from 0 to 1 may make the conversion to
  16 bits undefined.  A rate of 2 does so.
\<close>

theorem command_line_safe:
  assumes "0 < length args" and "length args < 2 ^ 64 - 3"
  shows "((\<exists>v. tcp_ipv4_main gai gni strtof isn port args = Value v)
      \<or> (\<exists>status msg. tcp_ipv4_main gai gni strtof isn port args = Exit status msg \<and> (status = 1 \<or> status = 0))
      \<or> tcp_ipv4_main gai gni strtof isn port args = Raised Undefined_Behaviour
        \<and> (\<exists>i. i + 1 < length args \<and> (strncmp_eq ''-Lu'' (args ! i) 3 \<or> strncmp_eq ''-Ld'' (args ! i) 3)
             \<and> \<not> unit_rate (strtof (args ! (i + 1)))))
    \<and> loss_rate (Finite 2 0) = Inl Undefined_Behaviour"
proof (rule conjI)
  show "loss_rate (Finite 2 0) = Inl Undefined_Behaviour" by (rule loss_rate_examples(3))
  show "(\<exists>v. tcp_ipv4_main gai gni strtof isn port args = Value v)
      \<or> (\<exists>status msg. tcp_ipv4_main gai gni strtof isn port args = Exit status msg \<and> (status = 1 \<or> status = 0))
      \<or> tcp_ipv4_main gai gni strtof isn port args = Raised Undefined_Behaviour
        \<and> (\<exists>i. i + 1 < length args \<and> (strncmp_eq ''-Lu'' (args ! i) 3 \<or> strncmp_eq ''-Ld'' (args ! i) 3)
             \<and> \<not> unit_rate (strtof (args ! (i + 1))))"
  proof (cases "length args < 3")
    case True
    then show ?thesis using assms(1) by (auto simp: tcp_ipv4_main_def)
  next
    case False
    then have d: "defined (get_config gai gni strtof isn port args) \<or>
        get_config gai gni strtof isn port args = Raised Undefined_Behaviour \<and> bad_rate strtof args"
      using get_config_defined assms(2) by simp
    show ?thesis
    proof (cases "get_config gai gni strtof isn port args")
      case (Exit status msg)
      then show ?thesis using d False by (auto simp: tcp_ipv4_main_def defined_def)
    qed (use d False in \<open>auto simp: tcp_ipv4_main_def defined_def bad_rate_def split: cpp_error.splits\<close>)
  qed
qed

theorem command_line_safe_witness:
  "0 < length [''tcp_ipv4'', ''-w'', ''1'', ''host'']
   \<and> (let r = tcp_ipv4_main ex_resolver ex_names (\<lambda>s. Finite 2 0) 1 2 [''tcp_ipv4'', ''-w'', ''1'', ''host''] in
        (\<exists>v. r = Value v) \<or> (\<exists>status msg. r = Exit status msg \<and> (status = 1 \<or> status = 0)))"
proof -
  let ?args = "[''tcp_ipv4'', ''-w'', ''1'', ''host'']"
  have "\<not> strncmp_eq ''-Lu'' (?args ! i) 3 \<and> \<not> strncmp_eq ''-Ld'' (?args ! i) 3" if "i + 1 < length ?args" for i
    using that by (auto simp: less_Suc_eq strncmp_eq_def numeral_3_eq_3)
  then show ?thesis
    using command_line_safe [of ?args ex_resolver ex_names "\<lambda>s. Finite 2 0" 1 2] by (auto simp: Let_def)
qed

text \<open>The option \<^verbatim>\<open>-Lu 2\<close> makes the program's behaviour undefined.\<close>

lemma loss_rate_two_undefined:
  assumes "strtof ''2'' = Finite 2 0"
  shows "tcp_ipv4_main gai gni strtof isn port [''tcp_ipv4'', ''-Lu'', ''2'', host, service] = Raised Undefined_Behaviour"
  using assms
  by (simp add: tcp_ipv4_main_def get_config_def options_loop.simps option_step_def with_argument_def check_argc_def arg_def
      strncmp_eq_def numeral_3_eq_3 size64_def loss_rate_examples(3) Let_def)

text \<open>
  A timeout is read as a \<^verbatim>\<open>long\<close> and stored in 16 bits without a check, so that a timeout of 65536 ms is 0, while every
  window size below the limit of \<^verbatim>\<open>long\<close> is taken as it is.
\<close>

theorem option_numbers:
  assumes "n < 2 ^ 63"
  shows "unat (cfg_rt_timeout (ac_fsm (apply_option rate (Timeout (dec_string n)) c))) = n mod 65536"
    and "unat (cfg_recv_capacity (ac_fsm (apply_option rate (Window (dec_string n)) c))) = n"
proof -
  have "strtol 0 (dec_string n) = int n" using strtol_dec [OF assms, of 0] by (simp add: strtol_def)
  then show "unat (cfg_rt_timeout (ac_fsm (apply_option rate (Timeout (dec_string n)) c))) = n mod 65536"
    "unat (cfg_recv_capacity (ac_fsm (apply_option rate (Window (dec_string n)) c))) = n"
    using assms by (simp_all add: unat_of_nat take_bit_eq_mod)
qed

end
