(* ===== verification/Robust_Parsing.thy ===== *)
theory Robust_Parsing
  imports Network_Interface TCP_Segment
begin

text \<open>
  Parsing of arbitrary bytes.  Whatever arrives, in whatever buffers, parsing a header or message neither
  throws nor reads outside its input, as long as the buffers are owned and none in the middle is empty; it
  ends with a parser that is well-formed, possibly in the error state.  \<open>reads\<close> says so of a computation,
  and \<open>reads_rules\<close> carries it through the parsers of the wire formats.
\<close>

named_theorems reads_rules \<open>computations that read without exception\<close>

definition reads :: "('a \<times> parser) result \<Rightarrow> bool" where
  "reads m \<longleftrightarrow> (\<exists>x p. m = Inr (x, p) \<and> bl_wf (pr_input p))"

lemma reads_bind [reads_rules]:
  "reads m \<Longrightarrow> (\<And>x p. bl_wf (pr_input p) \<Longrightarrow> reads (f x p)) \<Longrightarrow> reads (rbind m (\<lambda>(x, p). f x p))"
  by (auto simp: reads_def)

lemma reads_return: "bl_wf (pr_input p) \<Longrightarrow> reads (Inr (x, p))"
  by (simp add: reads_def)

lemma reads_error [reads_rules]: "bl_wf (pr_input p) \<Longrightarrow> reads (Inr (x, Parser_set_error p))"
  by (simp add: reads_def Parser_set_error_def)

lemma reads_integer_loop: "pr_ok p d \<Longrightarrow> n \<le> length d \<Longrightarrow> reads (integer_loop n acc p)"
  using integer_loop_ok [of p "take n d" "drop n d" acc] by (auto simp: reads_def pr_ok_def min_absorb2)

lemma reads_octet: "pr_ok p d \<Longrightarrow> 1 \<le> length d \<Longrightarrow> reads (read_octet p)"
  using read_octet_ok [of p "hd d" "tl d"] by (cases d) (auto simp: reads_def pr_ok_def)

lemma reads_sized_integer:
  fixes old :: "'a::len word"
  assumes "bl_wf (pr_input p)" and "LENGTH('a) div 8 < 2 ^ 64"
  shows "reads (Parser_integer old p)"
proof (cases "pr_error (check_size (of_nat (LENGTH('a) div 8)) p)")
  case True
  then show ?thesis using assms(1) by (simp add: Parser_integer_def reads_def check_size_def)
next
  case False
  then have eq: "check_size (of_nat (LENGTH('a) div 8)) p = p" "\<not> pr_error p"
    by (auto simp: check_size_def split: if_splits)
  then have ok: "pr_ok p (bl_content (pr_input p))" using assms(1) by (simp add: pr_ok_def)
  have n: "LENGTH('a) div 8 \<le> length (bl_content (pr_input p))" using check_size_ok(1) [OF ok assms(2)] False by simp
  show ?thesis
  proof (cases "LENGTH('a) div 8 = 1")
    case True
    have "reads (rbind (read_octet p) (\<lambda>(b, p). Inr (ucast b :: 'a word, p)))"
      using n True by (intro reads_bind reads_octet [OF ok] reads_return) simp_all
    then show ?thesis using eq True by (simp add: Parser_integer_def)
  next
    case False
    then show ?thesis using eq reads_integer_loop [OF ok n] by (simp add: Parser_integer_def)
  qed
qed

lemma reads_integer [reads_rules]:
  "bl_wf (pr_input p) \<Longrightarrow> reads (Parser_integer (a :: u8) p)"
  "bl_wf (pr_input p) \<Longrightarrow> reads (Parser_integer (b :: u16) p)"
  "bl_wf (pr_input p) \<Longrightarrow> reads (Parser_integer (c :: u32) p)"
  by (simp_all add: reads_sized_integer)

text \<open>Arrays keep their length, also when the input is too short.\<close>

lemma reads_octets [reads_rules]:
  assumes "bl_wf (pr_input p)"
  shows "reads (Parser_octets old p)"
  using assms
proof (induction old arbitrary: p)
  case Nil
  then show ?case by (simp add: reads_def)
next
  case (Cons b bs)
  show ?case unfolding Parser_octets.simps by (intro reads_bind reads_integer Cons reads_return)
qed

lemma length_Parser_octets: "Parser_octets old p = Inr (new, p') \<Longrightarrow> length new = length old"
  by (induction old arbitrary: p new p') (auto simp: rbind_Inr_iff)

lemma reads_remove_prefix:
  "bl_wf (pr_input p) \<Longrightarrow> (\<And>p. bl_wf (pr_input p) \<Longrightarrow> reads (f p)) \<Longrightarrow> reads (rbind (Parser_remove_prefix n p) f)"
  using BufferList_remove_prefix_ok [of "pr_input p" n] by (auto simp: Parser_remove_prefix_def)

lemma parser_rest:
  assumes "bl_wf (pr_input p)"
  shows "\<exists>refs. all_remaining p = Inr refs" "\<exists>bs. concatenate_all_remaining p = Inr bs" "\<exists>views. Parser_buffer p = Inr views"
proof -
  let ?p = "p\<lparr>pr_error := False\<rparr>"
  have ok: "pr_ok ?p (bl_content (pr_input p))" using assms by (simp add: pr_ok_def)
  have eq: "all_remaining ?p = all_remaining p" "concatenate_all_remaining ?p = concatenate_all_remaining p" "Parser_buffer ?p = Parser_buffer p"
    by (simp_all add: all_remaining_def concatenate_all_remaining_def Parser_buffer_def)
  show "\<exists>refs. all_remaining p = Inr refs" "\<exists>bs. concatenate_all_remaining p = Inr bs" "\<exists>views. Parser_buffer p = Inr views"
    using all_remaining_ok [OF ok] concatenate_all_remaining_ok [OF ok] Parser_buffer_ok [OF ok] eq by auto
qed

lemma reads_rest:
  assumes "bl_wf (pr_input p)"
  shows "(\<And>r. reads (f r)) \<Longrightarrow> reads (rbind (all_remaining p) f)"
    and "(\<And>r. reads (g r)) \<Longrightarrow> reads (rbind (concatenate_all_remaining p) g)"
    and "(\<And>r. reads (h r)) \<Longrightarrow> reads (rbind (Parser_buffer p) h)"
  using parser_rest [OF assms] by auto

lemma reads_if [reads_rules]: "reads a \<Longrightarrow> reads b \<Longrightarrow> reads (if P then a else b)"
  by simp

section \<open>The wire formats\<close>

lemma EthernetFrame_reads: "bl_wf (pr_input p) \<Longrightarrow> reads (EthernetFrame_parse f p)"
  unfolding EthernetFrame_parse_def EthernetHeader_parse_def
  by (intro reads_rules reads_rest reads_return)

lemma ARPMessage_reads: "bl_wf (pr_input p) \<Longrightarrow> reads (ARPMessage_parse m p)"
  unfolding ARPMessage_parse_def Let_def by (intro reads_rules reads_return)

lemma reads_get_mut: "(\<And>x. reads (f x)) \<Longrightarrow> reads (rbind (get_mut (Owned y)) f)"
  by simp

lemma TCPSegment_reads:
  "bl_wf (pr_input p) \<Longrightarrow> reads (TCPSegment_parse c TCPSegment_new p)"
  unfolding TCPSegment_parse_def TCPSegment_new_def TCPMessage_new_def Let_def tcp_segment.simps tcp_message.simps
  by (intro reads_rules reads_rest reads_remove_prefix reads_get_mut reads_return)


text \<open>
  The parser of an IPv4 header computes the checksum of what it has read only when the version is 4, so
  it does not throw either.  Cutting off what follows the payload may leave fewer bytes than have been
  skipped; taking the rest then throws \<^verbatim>\<open>std::out_of_range\<close>, the one exception of the parsers.
\<close>

lemma reads_set_error: "bl_wf (pr_input p) \<Longrightarrow> bl_wf (pr_input (Parser_set_error p))"
  by (simp add: Parser_set_error_def)

lemma header_tail_reads:
  assumes "bl_wf (pr_input p)"
  shows "reads (let p = (if ip_ver h \<noteq> 4 then Parser_set_error p else p);
           p = (if ip_hlen h < 5 then Parser_set_error p else p)
       in if pr_error p then Inr (h, p)
          else
            rbind (Parser_remove_prefix (ucast (ip_hlen h) * 4 - ucast IPv4Header_LENGTH) p) (\<lambda>p.
            let given_cksum = ip_cksum h in
            rbind (IPv4Header_compute_checksum h) (\<lambda>h.
              Inr (h, if ip_cksum h \<noteq> given_cksum then Parser_set_error p else p))))"
proof (cases "ip_ver h = 4 \<and> \<not> ip_hlen h < 5 \<and> \<not> pr_error p")
  case True
  then have v: "ip_ver h = 4" by simp
  have "reads (rbind (Parser_remove_prefix n p) (\<lambda>p. rbind (IPv4Header_compute_checksum h) (\<lambda>h'.
      Inr (h', if ip_cksum h' \<noteq> ip_cksum h then Parser_set_error p else p))))" for n
    using assms unfolding compute_checksum_ok [OF v] rbind.simps
    by (intro reads_remove_prefix) (auto simp: reads_def Parser_set_error_def)
  then show ?thesis using True by (simp add: Let_def)
next
  case False
  then show ?thesis using assms by (auto simp: Let_def reads_def Parser_set_error_def)
qed

lemma IPv4Header_reads: "bl_wf (pr_input p) \<Longrightarrow> reads (IPv4Header_parse h p)"
  unfolding IPv4Header_parse_def Let_def by (intro reads_bind reads_integer header_tail_reads [unfolded Let_def])

lemma truncate_loop_nonempty: "bs \<noteq> [] \<Longrightarrow> truncate_loop k len bs \<noteq> []"
  by (cases bs) auto

lemma dump_truncated:
  assumes "bl_wf bl"
  shows "(\<exists>refs. BufferList_dump_all (BufferList_truncate len bl) = Inr refs)
    \<or> BufferList_dump_all (BufferList_truncate len bl) = Inl Out_Of_Range \<and> len < bl_size bl"
proof (cases "bl_size bl \<le> len")
  case True
  then show ?thesis
    using parser_rest(1) [of "\<lparr>pr_input = bl, pr_error = False\<rparr>"] assms by (simp add: BufferList_truncate_def all_remaining_def)
next
  case False
  then have "bl_buffer bl \<noteq> []" using assms by (auto simp: bl_wf_def bl_content_def)
  then have "truncate_loop 0 (unat len) (bl_buffer bl) \<noteq> []" by (rule truncate_loop_nonempty)
  then show ?thesis using False
    by (auto simp: BufferList_truncate_def BufferList_dump_all_def str_substr_def split: list.splits)
qed

lemma IPv4Datagram_reads:
  assumes "bl_wf (pr_input p)"
  shows "(\<exists>dg p'. IPv4Datagram_parse dg0 p = Inr (dg, p')) \<or> IPv4Datagram_parse dg0 p = Inl Out_Of_Range"
proof -
  obtain h p' where h: "IPv4Header_parse (dg_header dg0) p = Inr (h, p')" "bl_wf (pr_input p')"
    using IPv4Header_reads [OF assms, of "dg_header dg0"] by (auto simp: reads_def)
  show ?thesis using dump_truncated [OF h(2), of "ucast (payload_length h)"] h(1)
    by (auto simp: IPv4Datagram_parse_def all_remaining_def Parser_truncate_def Let_def)
qed


lemma parse_reads:
  assumes "list_all is_owned bufs" and "no_gap (map ref_get bufs)" and "length (concat_refs bufs) < 2 ^ 64"
  obtains p where "Parser_new bufs = Inr p" "bl_wf (pr_input p)"
  using Parser_new_ok [OF assms] that by (auto simp: pr_ok_def)

lemma ARPMessage_parse_length:
  assumes "ARPMessage_parse ARPMessage_new p = Inr (m, p')"
  shows "arp_shape m"
  using assms
  by (auto simp: ARPMessage_parse_def rbind_Inr_iff Let_def arp_shape_def ARPMessage_new_def ETHERNET_ZERO_def split: if_splits
      dest!: length_Parser_octets)

text \<open>
  C15.  Whatever bytes arrive, parsing them as an Ethernet frame, an ARP message, an IPv4 header or a TCP segment
  returns: nothing is thrown, nothing is read outside the input, no loop runs for ever, and the Ethernet
  addresses of an ARP message have six bytes even when the input is cut short.  Parsing an IPv4 datagram
  returns or throws \<^verbatim>\<open>std::out_of_range\<close>.
\<close>

theorem parsers_never_throw:
  assumes "list_all is_owned bufs" and "no_gap (map ref_get bufs)" and "length (concat_refs bufs) < 2 ^ 64"
  shows "(\<exists>f ok. parse EthernetFrame_parse EthernetFrame_new bufs = Inr (f, ok))
    \<and> (\<exists>m ok. parse ARPMessage_parse ARPMessage_new bufs = Inr (m, ok) \<and> arp_shape m)
    \<and> (\<exists>h ok. parse IPv4Header_parse IPv4Header_new bufs = Inr (h, ok))
    \<and> (\<exists>seg ok. parse (TCPSegment_parse pseudo) TCPSegment_new bufs = Inr (seg, ok))
    \<and> ((\<exists>dg ok. parse IPv4Datagram_parse IPv4Datagram_new bufs = Inr (dg, ok))
        \<or> parse IPv4Datagram_parse IPv4Datagram_new bufs = Inl Out_Of_Range)"
proof -
  obtain p where p: "Parser_new bufs = Inr p" "bl_wf (pr_input p)" using parse_reads [OF assms] .
  have arp: "arp_shape m" if "parse ARPMessage_parse ARPMessage_new bufs = Inr (m, ok)" for m ok
    using that p ARPMessage_parse_length by (auto simp: parse_def rbind_Inr_iff)
  show ?thesis
    using EthernetFrame_reads [OF p(2), of EthernetFrame_new] ARPMessage_reads [OF p(2), of ARPMessage_new]
      IPv4Header_reads [OF p(2), of IPv4Header_new] TCPSegment_reads [OF p(2), of pseudo]
      IPv4Datagram_reads [OF p(2), of IPv4Datagram_new] p(1) arp
    by (auto simp: parse_def reads_def)
qed

theorem parsers_never_throw_witness:
  "\<exists>m ok. parse ARPMessage_parse ARPMessage_new [Owned [0, 1, 8], Owned [0, 6, 4]] = Inr (m, ok) \<and> arp_shape m"
  using parsers_never_throw [of "[Owned [0, 1, 8], Owned [0, 6, 4]]" 0] by (simp add: concat_refs_eq)

end
