(* ===== verification/Text_Forms.thy ===== *)
theory Text_Forms
  imports Robust_Parsing Raw_Address
begin

text \<open>
  The textual forms of headers and frames: \<^verbatim>\<open>to_string\<close> of \<^verbatim>\<open>ethernet_header.cc\<close>, \<^verbatim>\<open>arp_message.cc\<close>, \<^verbatim>\<open>ipv4_header.cc\<close> and
  \<^verbatim>\<open>tcp_segment.cc\<close>, and \<^verbatim>\<open>pretty_print\<close> and \<^verbatim>\<open>summary\<close> of \<^verbatim>\<open>helpers.cc\<close>.
\<close>

text \<open>Output of a number in hexadecimal with width two and fill character \<^verbatim>\<open>0\<close>.\<close>

definition hex2 :: "u8 \<Rightarrow> string" where
  "hex2 b = (let s = hex_string (unat b) in replicate (2 - length s) CHR ''0'' @ s)"

fun ethernet_to_string :: "ethernet_address \<Rightarrow> string" where
  "ethernet_to_string [] = []"
| "ethernet_to_string [b] = hex2 b"
| "ethernet_to_string (b # bs) = hex2 b @ '':'' @ ethernet_to_string bs"

definition EthernetHeader_to_string :: "ethernet_header \<Rightarrow> string" where
  "EthernetHeader_to_string h =
     ''dst='' @ ethernet_to_string (eh_dst h) @ '' src='' @ ethernet_to_string (eh_src h) @ '' type=''
     @ (if eh_type h = TYPE_IPv4 then ''IPv4''
        else if eh_type h = TYPE_ARP then ''ARP''
        else ''[unknown type '' @ hex_string (unat (eh_type h)) @ ''!]'')"

definition ARPMessage_to_string :: "arp_message \<Rightarrow> string" where
  "ARPMessage_to_string m =
     (let opcode_str = ''(unknown type)'';
          opcode_str = (if arp_opcode m = OPCODE_REQUEST then ''REQUEST'' else opcode_str);
          opcode_str = (if arp_opcode m = OPCODE_REPLY then ''REPLY'' else opcode_str)
      in ''opcode='' @ opcode_str @ '', sender='' @ ethernet_to_string (arp_sender_ethernet_address m) @ ''/''
         @ inet_ntoa (arp_sender_ip_address m) @ '', target='' @ ethernet_to_string (arp_target_ethernet_address m)
         @ ''/'' @ inet_ntoa (arp_target_ip_address m))"

definition IPv4Header_to_string :: "ipv4_header \<Rightarrow> string" where
  "IPv4Header_to_string h =
     ''IPv'' @ hex_string (unat (ip_ver h)) @ '' len='' @ dec_string (unat (ip_len h)) @ '' proto='' @ dec_string (unat (ip_proto h))
     @ '' ttl='' @ dec_string (unat (ip_ttl h)) @ '' src='' @ inet_ntoa (ip_src h) @ '' dst='' @ inet_ntoa (ip_dst h)"

definition c_isprint :: "u8 \<Rightarrow> bool" where
  "c_isprint ch \<longleftrightarrow> 0x20 \<le> ch \<and> ch \<le> 0x7e"

definition escape :: "u8 \<Rightarrow> string" where
  "escape ch = (if c_isprint ch \<and> ch \<noteq> 0x22 then [char_of (unat ch)] else CHR 0x5c # ''x'' @ hex2 ch)"

fun pretty_print_loop :: "nat \<Rightarrow> bytes \<Rightarrow> string \<Rightarrow> string \<times> bool" where
  "pretty_print_loop max_length [] ss = (ss, False)"
| "pretty_print_loop max_length (ch # str) ss =
     (if max_length \<le> length ss then (ss, True) else pretty_print_loop max_length str (ss @ escape ch))"

definition pretty_print :: "bytes \<Rightarrow> nat \<Rightarrow> string" where
  "pretty_print str max_length =
     (case pretty_print_loop max_length str [] of (ret, truncated) \<Rightarrow>
        if truncated then (if 3 \<le> length ret then take (length ret - 3) ret @ ''...'' else ret @ ''...'') else ret)"

definition TCPSegment_to_string :: "tcp_segment \<Rightarrow> string" where
  "TCPSegment_to_string seg =
     (let sender = ref_get (msg_sender (seg_message seg)); receiver = ref_get (msg_receiver (seg_message seg))
      in ''TCP seqno='' @ dec_string (unat (raw_value (sm_seqno sender)))
         @ (if sm_SYN sender then '' +SYN'' else [])
         @ (if sm_payload sender \<noteq> [] then '' payload='' @ [CHR 0x22] @ pretty_print (sm_payload sender) 32 @ [CHR 0x22] else [])
         @ (if sm_FIN sender then '' +FIN'' else [])
         @ (if sm_RST sender \<or> rm_RST receiver then '' +RST'' else [])
         @ (case rm_ackno receiver of None \<Rightarrow> [] | Some ackno \<Rightarrow> '' ACK<'' @ dec_string (unat (raw_value ackno)) @ ''>'')
         @ '' winsize='' @ dec_string (unat (rm_window_size receiver))
         @ '' src='' @ dec_string (unat (ud_src_port (seg_udinfo seg))) @ '' dst='' @ dec_string (unat (ud_dst_port (seg_udinfo seg))))"

definition summary :: "ethernet_frame \<Rightarrow> string result" where
  "summary frame =
     (let out = EthernetHeader_to_string (ef_header frame) @ '' payload: '';
          payload = clone_payload (ef_payload frame)
      in if eh_type (ef_header frame) = TYPE_IPv4 then
           rbind (parse IPv4Datagram_parse IPv4Datagram_new payload) (\<lambda>(dgram, ok).
           if ok then
             let out = out @ IPv4Header_to_string (dg_header dgram) @ '' payload='' in
             if ip_proto (dg_header dgram) = PROTO_TCP then
               rbind (parse (TCPSegment_parse (pseudo_checksum (dg_header dgram))) TCPSegment_new (dg_payload dgram)) (\<lambda>(tcp_seg, ok).
               Inr (out @ (if ok then TCPSegment_to_string tcp_seg else ''bad TCP segment'')))
             else Inr (out @ [CHR 0x22] @ pretty_print (concat_refs (dg_payload dgram)) 32 @ [CHR 0x22])
           else Inr (out @ ''bad IPv4 datagram''))
         else if eh_type (ef_header frame) = TYPE_ARP then
           rbind (parse ARPMessage_parse ARPMessage_new payload) (\<lambda>(arp, ok).
           Inr (out @ (if ok then ARPMessage_to_string arp else ''bad ARP message'')))
         else Inr (out @ ''unknown frame type''))"

section \<open>Printing\<close>

lemma length_digits_le: "2 \<le> base \<Longrightarrow> n < base ^ k \<Longrightarrow> 0 < k \<Longrightarrow> length (digits base n) \<le> k"
proof (induction k arbitrary: n)
  case (Suc k)
  show ?case
  proof (cases "n < base")
    case False
    then have "0 < k" using Suc.prems by (cases k) auto
    have "n div base < base ^ k" using Suc.prems by (simp add: less_mult_imp_div_less mult.commute)
    then show ?thesis using Suc.IH [of "n div base"] Suc.prems(1) False \<open>0 < k\<close> by (simp add: digits.simps [of base n])
  qed (simp add: digits.simps [of base n])
qed simp

lemma length_hex2 [simp]: "length (hex2 b) = 2"
proof -
  have "unat b < 16 ^ 2" using unsigned_less [where ?w = b and ?'a = nat] by simp
  then have "length (hex_string (unat b)) \<le> 2" using length_digits_le [of 16 "unat b" 2] by (simp add: hex_string_def)
  then show ?thesis by (simp add: hex2_def Let_def)
qed

lemma length_ethernet_to_string: "length (ethernet_to_string a) = 3 * length a - 1"
  by (induction a rule: ethernet_to_string.induct) auto

lemma length_escape: "length (escape ch) \<le> 4" "escape ch \<noteq> []"
  by (simp_all add: escape_def)

lemma set_digits: "c \<in> set (digits 16 n) \<Longrightarrow> \<exists>d<16. c = digit_char d"
proof (induction "16 :: nat" n rule: digits.induct)
  case (1 n)
  then show ?case by (cases "n < 16") (auto simp: digits.simps [of 16 n] intro: exI [of _ "n mod 16"])
qed


text \<open>Characters that are safe between double quotes.\<close>

definition plain :: "char \<Rightarrow> bool" where
  "plain c \<longleftrightarrow> (let n = of_char c :: nat in 0x20 \<le> n \<and> n \<le> 0x7e \<and> n \<noteq> 0x22)"

lemma plain_digit: "d < 16 \<Longrightarrow> plain (digit_char d)"
  by (auto simp: plain_def digit_char_def of_char_of take_bit_eq_mod Let_def)

lemma plain_hex2: "c \<in> set (hex2 b) \<Longrightarrow> plain c"
  using set_digits [of c "unat b"] plain_digit digit_char_0 plain_digit [of 0]
  by (auto simp: hex2_def hex_string_def Let_def)

lemma of_char_byte: "(of_char (char_of (unat (ch :: u8)) :: char) :: nat) = unat ch"
  using unsigned_less [where ?w = ch and ?'a = nat] by (simp add: of_char_of take_bit_eq_mod)

lemma plain_escape: "c \<in> set (escape ch) \<Longrightarrow> plain c"
proof (cases "c_isprint ch \<and> ch \<noteq> 0x22")
  case True
  assume "c \<in> set (escape ch)"
  moreover have "0x20 \<le> unat ch" "unat ch \<le> 0x7e" "unat ch \<noteq> 0x22"
    using True by (auto simp: c_isprint_def word_le_nat_alt word_unat_eq_iff)
  ultimately show ?thesis using True of_char_byte [of ch] by (auto simp: escape_def plain_def Let_def)
next
  case False
  assume "c \<in> set (escape ch)"
  then consider "c = CHR 0x5c" | "c = CHR ''x''" | "c \<in> set (hex2 ch)" using False by (auto simp: escape_def)
  then show ?thesis by cases (auto simp: plain_def dest: plain_hex2)
qed

lemma pretty_print_loop_ok:
  assumes "pretty_print_loop m str ss = (r, t)" and "length ss \<le> m + 3" and "length ss < 4 \<longrightarrow> length ss \<le> m" and "\<forall>c\<in>set ss. plain c"
  shows "length r \<le> m + 3 \<and> (length r < 4 \<longrightarrow> length r \<le> m) \<and> (\<forall>c\<in>set r. plain c)"
  using assms
proof (induction m str ss rule: pretty_print_loop.induct)
  case (2 m ch str ss)
  show ?case
  proof (cases "m \<le> length ss")
    case False
    have "length (escape ch) = 1 \<or> length (escape ch) = 4" by (simp add: escape_def)
    then have "length (ss @ escape ch) \<le> m + 3" "length (ss @ escape ch) < 4 \<longrightarrow> length (ss @ escape ch) \<le> m" using False by auto
    moreover have "\<forall>c\<in>set (ss @ escape ch). plain c" using 2(5) plain_escape by auto
    ultimately show ?thesis using 2(1) [OF False] 2(2) False by simp
  qed (use 2 in simp)
qed simp

lemma pretty_print_loop_plain:
  "\<forall>ch\<in>set str. c_isprint ch \<and> ch \<noteq> 0x22 \<Longrightarrow> length ss + length str \<le> m
    \<Longrightarrow> pretty_print_loop m str ss = (ss @ map (\<lambda>ch. char_of (unat ch)) str, False)"
  by (induction m str ss rule: pretty_print_loop.induct) (auto simp: escape_def)

text \<open>
  \<^verbatim>\<open>pretty_print\<close> gives at most three characters more than the limit, all of them printable and none a double
  quote, so that its result can stand between quotes; a string of such characters within the limit is
  printed as it is.
\<close>

theorem pretty_print_bounded:
  "length (pretty_print str m) \<le> m + 3 \<and> (\<forall>c\<in>set (pretty_print str m). plain c)
   \<and> ((\<forall>ch\<in>set str. c_isprint ch \<and> ch \<noteq> 0x22) \<longrightarrow> length str \<le> m \<longrightarrow> pretty_print str m = map (\<lambda>ch. char_of (unat ch)) str)"
proof (intro conjI impI)
  obtain r t where r: "pretty_print_loop m str [] = (r, t)" by (cases "pretty_print_loop m str []")
  have ok: "length r \<le> m + 3" "length r < 4 \<longrightarrow> length r \<le> m" "\<forall>c\<in>set r. plain c"
    using pretty_print_loop_ok [OF r] by simp_all
  have dots: "\<forall>c\<in>set (''...''). plain c" by (simp add: plain_def)
  show "length (pretty_print str m) \<le> m + 3" using ok by (auto simp: pretty_print_def r)
  show "\<forall>c\<in>set (pretty_print str m). plain c" using ok(3) dots by (auto simp: pretty_print_def r dest: in_set_takeD)
  show "pretty_print str m = map (\<lambda>ch. char_of (unat ch)) str"
    if "\<forall>ch\<in>set str. c_isprint ch \<and> ch \<noteq> 0x22" "length str \<le> m"
    using pretty_print_loop_plain [of str "[]" m] that by (simp add: pretty_print_def)
qed

theorem pretty_print_bounded_witness:
  "pretty_print [0x68, 0x69] 32 = ''hi'' \<and> length (pretty_print (replicate 40 0x22) 32) \<le> 35"
proof -
  have "\<forall>ch\<in>set [0x68, 0x69]. c_isprint ch \<and> ch \<noteq> 0x22" by (simp add: c_isprint_def)
  moreover have "map (\<lambda>ch. char_of (unat (ch :: u8))) [0x68, 0x69] = ''hi''" by code_simp
  ultimately show ?thesis
    using pretty_print_bounded [of "[0x68, 0x69]" 32] pretty_print_bounded [of "replicate 40 0x22" 32] by simp
qed


section \<open>Summaries\<close>

lemma truncate_empty: "concat bs = [] \<Longrightarrow> k < len \<Longrightarrow> truncate_loop k len bs = bs"
  by (induction bs) auto

lemma no_gap_truncate: "no_gap bs \<Longrightarrow> k < len \<Longrightarrow> no_gap (truncate_loop k len bs)"
  by (induction k len bs rule: truncate_loop.induct) (auto simp: truncate_empty split: if_splits)

lemma truncate_first:
  "truncate_loop k len (b # bs) = b' # bs' \<Longrightarrow> k < len \<Longrightarrow> b' = b \<or> bs' = []"
  by (auto split: if_splits)

lemma length_truncate: "k \<le> len \<Longrightarrow> length (concat (truncate_loop k len bs)) \<le> length (concat bs)"
  by (induction k len bs rule: truncate_loop.induct) auto

lemma dump_truncated_ok:
  assumes "bl_wf bl" and "BufferList_dump_all (BufferList_truncate len bl) = Inr refs"
  shows "list_all is_owned refs \<and> no_gap (map ref_get refs) \<and> length (concat_refs refs) < 2 ^ 64"
proof (cases "bl_size bl \<le> len \<or> len = 0")
  case True
  show ?thesis
  proof (cases "bl_size bl \<le> len")
    case True
    then have "all_remaining \<lparr>pr_input = bl, pr_error = False\<rparr> = Inr refs" using assms(2) by (simp add: BufferList_truncate_def all_remaining_def)
    then show ?thesis
      using all_remaining_ok [of "\<lparr>pr_input = bl, pr_error = False\<rparr>" "bl_content bl"] assms(1) bl_content_length by (auto simp: pr_ok_def)
  next
    case False
    then show ?thesis using True assms(2) by (simp add: BufferList_truncate_def BufferList_dump_all_def concat_refs_def)
  qed
next
  case False
  then have len: "0 < unat len" "\<not> bl_size bl \<le> len" "len \<noteq> 0" by (auto simp: unat_gt_0)
  let ?bs = "truncate_loop 0 (unat len) (bl_buffer bl)"
  obtain b bs where b: "bl_buffer bl = b # bs" using assms(1) len by (cases "bl_buffer bl") (auto simp: bl_wf_def bl_content_def)
  then obtain b' bs' where b': "?bs = b' # bs'" using truncate_loop_nonempty [of "bl_buffer bl" 0 "unat len"] by (cases ?bs) auto
  have refs: "refs = Owned (drop (unat (bl_skip bl)) b') # map Owned bs'" "unat (bl_skip bl) \<le> length b'"
    using assms(2) len b' by (auto simp: BufferList_truncate_def BufferList_dump_all_def str_substr_def split: if_splits)
  have gap: "no_gap (b' # bs')" using no_gap_truncate [of "bl_buffer bl" 0 "unat len"] assms(1) len b' by (simp add: bl_wf_def)
  have "length (concat (b' # bs')) \<le> length (concat (bl_buffer bl))" using length_truncate [of 0 "unat len" "bl_buffer bl"] b' by simp
  then have "length (concat_refs refs) < 2 ^ 64" using refs assms(1) by (auto simp: bl_wf_def concat_refs_eq comp_def)
  moreover have "no_gap (map ref_get refs)"
    using gap refs truncate_first [of 0 "unat len" b bs b' bs'] b b' len assms(1) by (auto simp: bl_wf_def comp_def split: if_splits)
  ultimately show ?thesis using refs by (simp add: list_all_iff)
qed

lemma IPv4Datagram_payload_ok:
  assumes "bl_wf (pr_input p)" and "IPv4Datagram_parse dg0 p = Inr (dg, p')"
  shows "list_all is_owned (dg_payload dg) \<and> no_gap (map ref_get (dg_payload dg)) \<and> length (concat_refs (dg_payload dg)) < 2 ^ 64"
proof -
  obtain h q where h: "IPv4Header_parse (dg_header dg0) p = Inr (h, q)" "bl_wf (pr_input q)"
    using IPv4Header_reads [OF assms(1), of "dg_header dg0"] by (auto simp: reads_def)
  then have "BufferList_dump_all (BufferList_truncate (ucast (payload_length h)) (pr_input q)) = Inr (dg_payload dg)"
    using assms(2) by (auto simp: IPv4Datagram_parse_def all_remaining_def Parser_truncate_def Let_def rbind_Inr_iff)
  then show ?thesis using dump_truncated_ok [OF h(2)] by blast
qed

text \<open>
  \<^verbatim>\<open>summary\<close> describes every frame, whatever its bytes and whether its buffers are owned or borrowed: it starts with
  the header and goes on with the payload as far as it can be parsed.  The one exception is the
  \<^verbatim>\<open>std::out_of_range\<close> of datagrams with padding; \<^verbatim>\<open>clone\<close> makes borrowed buffers readable.
\<close>

theorem summary_returns:
  assumes "no_gap (map ref_get (ef_payload frame))" and "length (concat_refs (ef_payload frame)) < 2 ^ 64"
  shows "(\<exists>s. summary frame = Inr (EthernetHeader_to_string (ef_header frame) @ '' payload: '' @ s))
    \<or> summary frame = Inl Out_Of_Range \<and> parse IPv4Datagram_parse IPv4Datagram_new (clone_payload (ef_payload frame)) = Inl Out_Of_Range"
proof -
  let ?bufs = "clone_payload (ef_payload frame)"
  have "list_all is_owned ?bufs" "map ref_get ?bufs = map ref_get (ef_payload frame)"
    by (simp_all add: clone_payload_def list_all_iff)
  then obtain p where p: "Parser_new ?bufs = Inr p" "bl_wf (pr_input p)"
    using parse_reads [of ?bufs] assms by (auto simp: concat_refs_eq)
  have arp: "\<exists>m ok. parse ARPMessage_parse ARPMessage_new ?bufs = Inr (m, ok)"
    using ARPMessage_reads [OF p(2), of ARPMessage_new] p(1) by (auto simp: parse_def reads_def)
  have tcp: "\<exists>seg ok'. parse (TCPSegment_parse c) TCPSegment_new (dg_payload dg) = Inr (seg, ok')"
    if dg: "parse IPv4Datagram_parse IPv4Datagram_new ?bufs = Inr (dg, ok)" for c dg ok
  proof -
    obtain p' where "IPv4Datagram_parse IPv4Datagram_new p = Inr (dg, p')" using dg p(1) by (auto simp: parse_def rbind_Inr_iff)
    from IPv4Datagram_payload_ok [OF p(2) this] obtain q where q: "Parser_new (dg_payload dg) = Inr q" "bl_wf (pr_input q)"
      using parse_reads [of "dg_payload dg"] by blast
    then show ?thesis using TCPSegment_reads [OF q(2), of c] by (auto simp: parse_def reads_def)
  qed
  have "(\<exists>dg ok. parse IPv4Datagram_parse IPv4Datagram_new ?bufs = Inr (dg, ok)) \<or> parse IPv4Datagram_parse IPv4Datagram_new ?bufs = Inl Out_Of_Range"
    using IPv4Datagram_reads [OF p(2), of IPv4Datagram_new] p(1) by (auto simp: parse_def)
  then consider (dgram) dg ok where "parse IPv4Datagram_parse IPv4Datagram_new ?bufs = Inr (dg, ok)"
    | (thrown) "parse IPv4Datagram_parse IPv4Datagram_new ?bufs = Inl Out_Of_Range" by blast
  then show ?thesis
  proof cases
    case dgram
    obtain seg ok' where "parse (TCPSegment_parse (pseudo_checksum (dg_header dg))) TCPSegment_new (dg_payload dg) = Inr (seg, ok')"
      using tcp [OF dgram] by blast
    then show ?thesis using dgram arp by (auto simp: summary_def Let_def)
  next
    case thrown
    then show ?thesis using arp by (auto simp: summary_def Let_def)
  qed
qed

theorem summary_returns_witness:
  "\<exists>s. summary \<lparr>ef_header = EthernetHeader_new\<lparr>eh_type := TYPE_ARP\<rparr>, ef_payload = [Borrowed [1, 2]]\<rparr>
     = Inr (EthernetHeader_to_string (EthernetHeader_new\<lparr>eh_type := TYPE_ARP\<rparr>) @ '' payload: '' @ s)"
proof -
  have "parse IPv4Datagram_parse IPv4Datagram_new (clone_payload [Borrowed [1, 2]]) \<noteq> Inl Out_Of_Range" by code_simp
  then show ?thesis
    using summary_returns [of "\<lparr>ef_header = EthernetHeader_new\<lparr>eh_type := TYPE_ARP\<rparr>, ef_payload = [Borrowed [1, 2]]\<rparr>"]
    by (simp add: concat_refs_eq)
qed

end
