(* ===== verification/Small_Programs.thy ===== *)
theory Small_Programs
  imports TCP_IPv4_Program Demo_Protocol
begin

text \<open>
  The smaller programs of \<^verbatim>\<open>src/apps\<close> over the parts they use: opening a TUN or TAP device (\<^verbatim>\<open>src/util/tun.cc\<close>), the
  test packet of \<^verbatim>\<open>iptest.cc\<close>, \<^verbatim>\<open>get_URL\<close> of \<^verbatim>\<open>webget.cc\<close>, and the connection of \<^verbatim>\<open>tcp_native.cc\<close>.  System calls and
  the C library are parameters, as in the other theories.
\<close>

section \<open>TUN and TAP devices\<close>

record ifreq =
  ifr_name :: string
  ifr_flags :: int

definition IFNAMSIZ :: nat where
  "IFNAMSIZ = 16"

definition IFF_TUN :: int where
  "IFF_TUN = 1"

definition IFF_TAP :: int where
  "IFF_TAP = 2"

definition IFF_NO_PI :: int where
  "IFF_NO_PI = 0x1000"

definition tun_request :: "string \<Rightarrow> bool \<Rightarrow> ifreq" where
  "tun_request devname is_tun =
     \<lparr>ifr_name = take (IFNAMSIZ - 1) devname, ifr_flags = (if is_tun then IFF_TUN else IFF_TAP) OR IFF_NO_PI\<rparr>"

definition TunTapFD_new :: "string \<Rightarrow> bool \<Rightarrow> int syscall \<Rightarrow> int syscall \<Rightarrow> (ifreq \<Rightarrow> int syscall) \<Rightarrow> fd_wrapper result" where
  "TunTapFD_new devname is_tun open getfl ioctl =
     rbind (CheckSystemCall ''open'' open) (\<lambda>fd.
     rbind (FDWrapper_new fd getfl) (\<lambda>w.
     rbind (FD_CheckSystemCall ''ioctl'' (ioctl (tun_request devname is_tun)) w) (\<lambda>_. Inr w)))"

section \<open>iptest\<close>

definition iptest_segment :: tcp_segment where
  "iptest_segment =
     \<lparr>seg_message = \<lparr>msg_sender = Owned \<lparr>sm_seqno = Wrap32 12345, sm_SYN = True, sm_payload = ascii ''Hello'', sm_FIN = True, sm_RST = False\<rparr>,
                     msg_receiver = Owned \<lparr>rm_ackno = None, rm_window_size = 9987, rm_RST = False\<rparr>\<rparr>,
      seg_udinfo = \<lparr>ud_src_port = 54321, ud_dst_port = 8080, ud_cksum = 0\<rparr>\<rparr>"

definition iptest_header :: "ipv4_header result" where
  "iptest_header = IPv4Header_compute_checksum
     (IPv4Header_new\<lparr>ip_src := push_bit 24 127 OR 1, ip_dst := push_bit 24 198 OR push_bit 16 41 OR 4, ip_len := 45\<rparr>)"

text \<open>
  The segment is serialized before its checksum is computed, and what is computed then is not used any more.
\<close>

definition iptest_packet :: "bytes cpp_ref list result" where
  "iptest_packet =
     rbind iptest_header (\<lambda>header.
     let seg = iptest_segment;
         s1 = TCPSegment_serialize seg Serializer_new;
         seg = TCPSegment_compute_checksum (pseudo_checksum header) seg
     in serialize IPv4Datagram_serialize \<lparr>dg_header = header, dg_payload = Serializer_finish s1\<rparr>)"

definition iptest_program_body :: "fd_wrapper result \<Rightarrow> int syscall \<Rightarrow> (int \<times> fd_wrapper) result" where
  "iptest_program_body tun write =
     rbind tun (\<lambda>w. rbind iptest_packet (\<lambda>packet. FD_write_refs packet write w))"

text \<open>
   The test packet of \<^verbatim>\<open>iptest\<close> is a good IPv4 datagram with a bad TCP segment: the receiving side parses
  the datagram and rejects the segment, because the checksum is computed only after the segment has
  been serialized; computed before, it would have been accepted.
\<close>

theorem iptest_segment_rejected:
  "(case rbind iptest_packet (\<lambda>packet. parse IPv4Datagram_parse IPv4Datagram_new (clone_payload packet)) of
      Inl e \<Rightarrow> False
    | Inr (dg, ok) \<Rightarrow> ok \<and> (case parse (TCPSegment_parse (pseudo_checksum (dg_header dg))) TCPSegment_new (dg_payload dg) of
        Inl e \<Rightarrow> False | Inr (seg, ok) \<Rightarrow> \<not> ok))
   \<and> (case iptest_header of Inl e \<Rightarrow> False | Inr h \<Rightarrow>
        (case parse (TCPSegment_parse (pseudo_checksum h)) TCPSegment_new
           (clone_payload (Serializer_finish (TCPSegment_serialize (TCPSegment_compute_checksum (pseudo_checksum h) iptest_segment) Serializer_new))) of
           Inl e \<Rightarrow> False | Inr (seg, ok) \<Rightarrow> ok \<and> sm_payload (ref_get (msg_sender (seg_message seg))) = ascii ''Hello''))"
  by code_simp

section \<open>webget\<close>

text \<open>
  The outcomes of the calls of \<^verbatim>\<open>get_URL\<close>, the reads in order.  A \<^verbatim>\<open>unix_error\<close> of a step is caught and thrown again
  with a longer text; the text of an error code is a parameter.
\<close>

record fetch =
  fe_resolver :: name_resolver
  fe_socket :: "int syscall"
  fe_getfl :: "int syscall"
  fe_connect :: "int syscall"
  fe_write :: "int syscall"
  fe_shutdown :: "int syscall"
  fe_reads :: "bytes syscall list"

fun rethrow :: "(int \<Rightarrow> string) \<Rightarrow> string \<Rightarrow> 'a result \<Rightarrow> 'a result" where
  "rethrow strerror text (Inl (Unix_Error attempt errno)) = Inl (Unix_Error (text @ attempt @ '': '' @ strerror errno) errno)"
| "rethrow strerror text r = r"

definition http_request :: "string \<Rightarrow> string \<Rightarrow> string" where
  "http_request host path =
     (let crlf = [CHR 0x0d, CHR 0x0a]
      in ''GET '' @ path @ '' HTTP/1.0'' @ crlf @ ''Host: '' @ host @ crlf @ ''Connection: close'' @ crlf @ crlf)"

text \<open>
  The loop that prints the response: what it has printed, and how it ends.  \<open>None\<close>: the read after the given ones has
  not returned.  A read asks for as many bytes as the last one brought.
\<close>

fun response_loop :: "bytes syscall list \<Rightarrow> bytes \<Rightarrow> fd_wrapper \<Rightarrow> bytes \<times> fd_wrapper option result" where
  "response_loop reads response w =
     (if fw_eof w then ([], Inr (Some w))
      else case reads of
        [] \<Rightarrow> ([], Inr None)
      | r # reads \<Rightarrow>
          (case FD_read response r w of
             Inl e \<Rightarrow> ([], Inl e)
           | Inr (response, w) \<Rightarrow>
               (case response_loop reads response w of (printed, end) \<Rightarrow> (response @ printed, end))))"

declare response_loop.simps [simp del]

definition get_URL :: "(int \<Rightarrow> string) \<Rightarrow> fetch \<Rightarrow> string \<Rightarrow> string \<Rightarrow> bytes \<times> fd_wrapper option result" where
  "get_URL strerror f host path =
     (if host = [] \<or> path = [] then ([], Inl (Runtime_Error ''Empty host or path''))
      else case
        rbind (Socket_new (fe_socket f) (fe_getfl f)) (\<lambda>tcp.
        rbind (rethrow strerror (''Failed to connect to '' @ host @ '': '')
                 (rbind (Address_host (fe_resolver f) host ''http'') (\<lambda>_. Socket_connect (fe_connect f) tcp))) (\<lambda>_.
        rethrow strerror (''Failed to send request to '' @ host @ '': '')
          (rbind (FD_write (ascii (http_request host path)) (fe_write f) tcp) (\<lambda>(_, tcp).
           Socket_shutdown SHUT_WR (fe_shutdown f) tcp)))) of
        Inl e \<Rightarrow> ([], Inl e)
      | Inr tcp \<Rightarrow>
          (case response_loop (fe_reads f) [] tcp of
             (printed, end) \<Rightarrow> (printed, rethrow strerror (''Failed to read response from '' @ host @ '': '') end)))"

definition webget_main :: "(int \<Rightarrow> string) \<Rightarrow> fetch \<Rightarrow> string list \<Rightarrow> bytes \<times> unit option finish" where
  "webget_main strerror f args =
     (if args = [] then ([], Abort)
      else if length args \<noteq> 3 then ([], Exit 1 [])
      else case get_URL strerror f (args ! 1) (args ! 2) of
        (printed, Inl e) \<Rightarrow> (printed, Exit 1 [])
      | (printed, Inr None) \<Rightarrow> (printed, Value None)
      | (printed, Inr (Some w)) \<Rightarrow> (printed, Exit 0 []))"

text \<open>
  What the kernel may bring: chunks that are not empty and fit the buffer, then the end.
\<close>

fun chunks_fit :: "nat \<Rightarrow> bytes list \<Rightarrow> bool" where
  "chunks_fit n [] \<longleftrightarrow> True"
| "chunks_fit n (c # cs) \<longleftrightarrow> c \<noteq> [] \<and> length c \<le> n \<and> chunks_fit (length c) cs"

lemma response_loop_ok:
  "chunks_fit (FD_read_size response) chunks \<Longrightarrow> \<not> fw_eof w
    \<Longrightarrow> \<exists>w'. response_loop (map Returned chunks @ [Returned []]) response w = (concat chunks, Inr (Some w'))"
proof (induction chunks arbitrary: response w)
  case Nil
  then show ?case
    by (simp add: response_loop.simps [of "[Returned []]"] response_loop.simps [of "[]"] Let_def set_eof_def)
next
  case (Cons c cs)
  then have "\<exists>w'. response_loop (map Returned cs @ [Returned []]) c (register_read w) = (concat cs, Inr (Some w'))"
    by (intro Cons.IH) (simp_all add: FD_read_size_def register_read_def)
  then show ?case using Cons.prems by (auto simp: response_loop.simps [of "Returned c # _"] Let_def)
qed

definition fetches :: "fetch \<Rightarrow> string \<Rightarrow> bool" where
  "fetches f host \<longleftrightarrow> (\<exists>fd flags a m n. fe_socket f = Returned fd \<and> 0 \<le> fd \<and> fe_getfl f = Returned flags
     \<and> Address_host (fe_resolver f) host ''http'' = Inr a \<and> fe_connect f = Returned m \<and> fe_shutdown f = Returned n)"

lemma get_URL_ok:
  assumes "fetches f host" and "host \<noteq> []" and "path \<noteq> []" and "fe_write f = Returned n"
    and "0 < n" and "n \<le> int (length (http_request host path))"
    and "fe_reads f = map Returned chunks @ [Returned []]" and "chunks_fit kReadBufferSize chunks"
  shows "\<exists>w. get_URL strerror f host path = (concat chunks, Inr (Some w))"
proof -
  obtain fd flags a m k where c: "fe_socket f = Returned fd" "0 \<le> fd" "fe_getfl f = Returned flags"
      "Address_host (fe_resolver f) host ''http'' = Inr a" "fe_connect f = Returned m" "fe_shutdown f = Returned k"
    using assms(1) by (auto simp: fetches_def)
  obtain w where w: "FDWrapper_new fd (Returned flags) = Inr w" "\<not> fw_eof w"
    using c(2) by (simp add: FDWrapper_new_def)
  have len: "length (ascii s) = length s" for s by (simp add: ascii_def)
  have "FD_write (ascii (http_request host path)) (Returned n) w = Inr (n, register_write w)"
    using assms(5,6) by (simp add: FD_write_def FD_writev_def len Let_def)
  moreover have "Socket_shutdown SHUT_WR (Returned k) (register_write w) = Inr (register_write (register_write w))"
    by (simp add: Socket_shutdown_def SHUT_WR_def SHUT_RD_def)
  moreover obtain w' where "response_loop (map Returned chunks @ [Returned []]) [] (register_write (register_write w)) = (concat chunks, Inr (Some w'))"
    using response_loop_ok [of "[]" chunks "register_write (register_write w)"] assms(8) w(2) by (auto simp: FD_read_size_def register_write_def)
  ultimately show ?thesis
    using assms(2-4,7) c w by (simp add: get_URL_def Socket_new_def Socket_connect_def)
qed

text \<open>
  \<^verbatim>\<open>webget\<close> prints exactly the response of the server: when its calls succeed and the kernel brings the response in
  any chunks, the output is their concatenation and the status is 0.
\<close>

theorem webget_prints_response:
  assumes "fetches f host" and "host \<noteq> []" and "path \<noteq> []" and "fe_write f = Returned (int (length (http_request host path)))"
    and "fe_reads f = map Returned chunks @ [Returned []]" and "chunks_fit kReadBufferSize chunks"
  shows "webget_main strerror f [argv0, host, path] = (concat chunks, Exit 0 [])"
proof -
  have "0 < length (http_request host path)" by (simp add: http_request_def Let_def)
  then obtain w where "get_URL strerror f host path = (concat chunks, Inr (Some w))"
    using get_URL_ok [OF assms(1-4) _ _ assms(5,6), of strerror] by auto
  then show ?thesis by (simp add: webget_main_def)
qed

definition ex_fetch :: fetch where
  "ex_fetch = \<lparr>fe_resolver = (\<lambda>_ _ _. (0, Some (sockaddr_in 80 0x7f000001))), fe_socket = Returned 3, fe_getfl = Returned 0,
     fe_connect = Returned 0, fe_write = Returned (int (length (http_request ''h'' ''/''))), fe_shutdown = Returned 0,
     fe_reads = [Returned (ascii ''HTTP''), Returned (ascii ''/1.0''), Returned []]\<rparr>"

theorem webget_prints_response_witness:
  "webget_main (\<lambda>_. []) ex_fetch [''webget'', ''h'', ''/''] = (ascii ''HTTP/1.0'', Exit 0 [])"
proof -
  obtain a where "sockaddr_of (sockaddr_in 80 0x7f000001) = Inr a" using sockaddr_of_in by blast
  then have "Address_host (fe_resolver ex_fetch) ''h'' ''http'' = Inr a"
    by (simp add: Address_host_def Address_hints_def ex_fetch_def)
  then have "fetches ex_fetch ''h''" by (auto simp: fetches_def ex_fetch_def)
  from webget_prints_response [OF this, of "''/''" "[ascii ''HTTP'', ascii ''/1.0'']" "\<lambda>_. []" "''webget''"]
  show ?thesis by (simp add: ex_fetch_def ascii_def kReadBufferSize_def)
qed

text \<open>
  The number of bytes that \<^verbatim>\<open>write\<close> has taken is not looked at: when the kernel takes only part of the request, the rest
  is never sent, the writing direction is shut down, and the program still ends with status 0.
\<close>

theorem webget_partial_write:
  assumes "fetches f host" and "host \<noteq> []" and "path \<noteq> []" and "fe_write f = Returned n" and "0 < n"
    and "n < int (length (http_request host path))"
    and "fe_reads f = map Returned chunks @ [Returned []]" and "chunks_fit kReadBufferSize chunks"
  shows "webget_main strerror f [argv0, host, path] = (concat chunks, Exit 0 [])"
  using get_URL_ok [OF assms(1-5) _ assms(7,8), of strerror] assms(6) by (auto simp: webget_main_def)

section \<open>tcp\_native\<close>

text \<open>
  The arguments: whether to listen, and host and port.  In server mode they are the second and third argument.
\<close>

definition native_args :: "string list \<Rightarrow> (bool \<times> string \<times> string) finish" where
  "native_args args =
     (let argc = length args;
          server_mode = (3 \<le> argc \<and> strncmp_eq ''-l'' (args ! 1) 3)
      in if argc = 0 then Abort
         else if argc < 3 \<or> server_mode \<and> argc < 4 then Exit 1 []
         else if server_mode then fbind (arg args 2) (\<lambda>host. fbind (arg args 3) (\<lambda>port. Value (True, host, port)))
         else fbind (arg args 1) (\<lambda>host. fbind (arg args 2) (\<lambda>port. Value (False, host, port))))"

record native_calls =
  nc_resolver :: name_resolver
  nc_socket :: "int syscall"
  nc_getfl :: "int syscall"
  nc_setsockopt :: "int syscall"
  nc_bind :: "int syscall"
  nc_listen :: "int syscall"
  nc_accept :: "int syscall"
  nc_client_getfl :: "int syscall"
  nc_sockopts :: "sockopt \<times> sockopt \<times> sockopt"
  nc_connect :: "int syscall"

definition native_listen :: "native_calls \<Rightarrow> string \<Rightarrow> string \<Rightarrow> fd_wrapper result" where
  "native_listen c host port =
     rbind (Socket_new (nc_socket c) (nc_getfl c)) (\<lambda>listening_socket.
     rbind (set_reuseaddr (nc_setsockopt c) listening_socket) (\<lambda>_.
     rbind (Address_host (nc_resolver c) host port) (\<lambda>_.
     rbind (Socket_bind (nc_bind c) listening_socket) (\<lambda>_.
     rbind (TCPSocket_listen (nc_listen c) listening_socket) (\<lambda>_.
     case nc_sockopts c of (d, t, p) \<Rightarrow>
     rbind (TCPSocket_accept (nc_accept c) (nc_client_getfl c) d t p listening_socket) (\<lambda>(connected_socket, _).
     Inr connected_socket))))))"

definition native_connect :: "native_calls \<Rightarrow> string \<Rightarrow> string \<Rightarrow> fd_wrapper result" where
  "native_connect c host port =
     rbind (Socket_new (nc_socket c) (nc_getfl c)) (\<lambda>connecting_socket.
     rbind (Address_host (nc_resolver c) host port) (\<lambda>peer.
     rbind (Socket_connect (nc_connect c) connecting_socket) (\<lambda>_. Inr connecting_socket)))"

definition native_socket :: "native_calls \<Rightarrow> string list \<Rightarrow> fd_wrapper finish" where
  "native_socket c args =
     fbind (native_args args) (\<lambda>(server_mode, host, port).
     case (if server_mode then native_listen c host port else native_connect c host port) of
       Inl e \<Rightarrow> Exit 1 [] | Inr socket \<Rightarrow> Value socket)"

lemma native_args_in_range: "0 < length args \<Longrightarrow> \<exists>r. native_args args = Value r \<or> native_args args = Exit 1 []"
  by (auto simp: native_args_def arg_def Let_def)

lemma native_socket_checked:
  assumes "native_socket c args = Value w" and "\<forall>errno. nc_accept c \<noteq> Failed errno"
  shows "nc_accept c = Returned (fw_fd w) \<or> nc_socket c = Returned (fw_fd w)"
proof -
  obtain m host port where "(case (if m then native_listen c host port else native_connect c host port) of
      Inl e \<Rightarrow> Exit 1 [] | Inr socket \<Rightarrow> Value socket) = Value w"
    using assms(1) by (auto simp: native_socket_def fbind_Value_iff)
  then have r: "(if m then native_listen c host port else native_connect c host port) = Inr w"
    by (cases "if m then native_listen c host port else native_connect c host port") auto
  obtain fd where a: "nc_accept c = Returned fd" using assms(2) by (cases "nc_accept c") auto
  show ?thesis
  proof (cases m)
    case True
    obtain d t p where "nc_sockopts c = (d, t, p)" by (cases "nc_sockopts c")
    then show ?thesis using True r a
      by (auto simp: native_listen_def rbind_Inr_iff TCPSocket_accept_def Socket_from_fd_def Let_def dest: FDWrapper_new_fd split: prod.splits if_splits)
  next
    case False
    then show ?thesis using r
      by (cases "nc_socket c") (auto simp: native_connect_def rbind_Inr_iff Socket_new_def dest: FDWrapper_new_fd)
  qed
qed

section \<open>Conveniences\<close>

text \<open>
  \<^verbatim>\<open>CS144TCPSocket::connect\<close> (the configuration it hands to the Minnow socket), the command line of \<^verbatim>\<open>endtoend.cc\<close>,
  \<^verbatim>\<open>PacketSocket::set_promiscuous\<close>, \<^verbatim>\<open>notnull\<close> of \<^verbatim>\<open>exception.hh\<close>, and the debug handler of \<^verbatim>\<open>debug.cc\<close>.
\<close>

definition CS144_config :: "name_resolver \<Rightarrow> u32 \<Rightarrow> address \<Rightarrow> (tcp_config \<times> fd_adapter_config) result" where
  "CS144_config gai random address =
     rbind (Address_host gai ''169.254.144.9'' (dec_string (unat (ucast random :: u16)))) (\<lambda>source.
     Inr (TCPConfig_default\<lparr>cfg_rt_timeout := 100\<rparr>,
          FdAdapterConfig_new\<lparr>fc_source := address_of source, fc_destination := address\<rparr>))"

definition end_to_end_args :: "string list \<Rightarrow> (bool \<times> string \<times> string \<times> bool) finish" where
  "end_to_end_args args =
     (let argc = length args
      in if argc = 0 then Abort
         else if argc \<noteq> 4 \<and> argc \<noteq> 5 then Exit 1 []
         else fbind (arg args 1) (\<lambda>mode.
              if mode \<noteq> ''client'' \<and> mode \<noteq> ''server'' then Exit 1 []
              else fbind (arg args 2) (\<lambda>host. fbind (arg args 3) (\<lambda>port. Value (mode = ''client'', host, port, argc = 5)))))"

definition sll_ifindex :: "bytes \<Rightarrow> u32" where
  "sll_ifindex sockaddr = be_value (rev (take 4 (drop 4 sockaddr))) 0"

definition set_promiscuous :: "raw_address result \<Rightarrow> (u32 \<Rightarrow> int syscall) \<Rightarrow> fd_wrapper \<Rightarrow> unit result" where
  "set_promiscuous own setsockopt w =
     rbind own (\<lambda>a.
     rbind (Address_as Sockaddr_Ll a) (\<lambda>sockaddr. Socket_setsockopt (setsockopt (sll_ifindex sockaddr)) w))"

definition notnull :: "string \<Rightarrow> 'a option \<Rightarrow> 'a result" where
  "notnull context x = (case x of Some y \<Rightarrow> Inr y | None \<Rightarrow> Inl (Runtime_Error (context @ '': returned null pointer'')))"

datatype 'h debug_handler = Default_Debug_Handler | Debug_Handler 'h

record ('h, 'a) debug =
  de_handler :: "'h debug_handler"
  de_arg :: "'a option"

definition debug_initial :: "('h, 'a) debug" where
  "debug_initial = \<lparr>de_handler = Default_Debug_Handler, de_arg = None\<rparr>"

text \<open>What a message does: the default handler prints it, another one is called with its argument.\<close>

datatype ('h, 'a) debug_effect = Printed string | Called 'h "'a option" string

definition debug_str :: "string \<Rightarrow> ('h, 'a) debug \<Rightarrow> ('h, 'a) debug_effect" where
  "debug_str message d =
     (case de_handler d of Default_Debug_Handler \<Rightarrow> Printed (''DEBUG: '' @ message @ [CHR 0x0a])
      | Debug_Handler h \<Rightarrow> Called h (de_arg d) message)"

definition set_debug_handler :: "'h \<Rightarrow> 'a option \<Rightarrow> ('h, 'a) debug \<Rightarrow> ('h, 'a) debug" where
  "set_debug_handler handler a d = d\<lparr>de_handler := Debug_Handler handler, de_arg := a\<rparr>"

definition reset_debug_handler :: "('h, 'a) debug \<Rightarrow> ('h, 'a) debug" where
  "reset_debug_handler d = d\<lparr>de_handler := Default_Debug_Handler\<rparr>"

lemma debug_handlers:
  "debug_str s (set_debug_handler h a d) = Called h a s"
  "debug_str s (reset_debug_handler d) = debug_str s debug_initial"
  by (simp_all add: debug_str_def set_debug_handler_def reset_debug_handler_def debug_initial_def)

lemma end_to_end_args_defined: "0 < length args \<Longrightarrow> defined (end_to_end_args args)"
  by (auto simp: end_to_end_args_def arg_def defined_def Let_def)

lemma CS144_config_ok:
  assumes "CS144_config gai random address = Inr (fsm, filt)"
  shows "cfg_rt_timeout fsm = 100 \<and> cfg_recv_capacity fsm = DEFAULT_CAPACITY \<and> fc_destination filt = address
    \<and> fc_loss_rate_up filt = 0 \<and> fc_loss_rate_dn filt = 0"
  using assms by (auto simp: CS144_config_def rbind_Inr_iff TCPConfig_default_def FdAdapterConfig_new_def)

lemma set_promiscuous_needs_link_layer:
  "set_promiscuous (Inr a) so w = Inr () \<Longrightarrow> raw_family a = 17"
  by (auto simp: set_promiscuous_def rbind_Inr_iff Address_as_def split: if_splits)

end
