(* ===== verification/IPv4_Padding.thy ===== *)
theory IPv4_Padding
  imports IPv4 "HOL-Library.Sublist"
begin

text \<open>
  What \<^verbatim>\<open>IPv4Datagram::parse\<close> makes of a datagram with padding behind it in the same buffer, which is what a short
  Ethernet frame looks like after one read.  \<^verbatim>\<open>BufferList::truncate\<close> counts the bytes of the header, which have been
  skipped in the first buffer, as part of the payload.
\<close>

section \<open>Parsing takes buffers off the front\<close>

definition rest_of :: "parser \<Rightarrow> parser \<Rightarrow> bool" where
  "rest_of p' p \<longleftrightarrow> suffix (bl_buffer (pr_input p')) (bl_buffer (pr_input p))"

lemma rest_of_refl [simp]: "rest_of p p"
  by (simp add: rest_of_def)

lemma rest_of_trans: "rest_of p'' p' \<Longrightarrow> rest_of p' p \<Longrightarrow> rest_of p'' p"
  unfolding rest_of_def by (rule suffix_order.trans)

lemma rest_of_flags [simp]: "rest_of (Parser_set_error p') p = rest_of p' p" "rest_of p' (check_size n p) = rest_of p' p"
  "rest_of (check_size n p') p = rest_of p' p"
  by (simp_all add: rest_of_def Parser_set_error_def check_size_def)

lemma remove_prefix_suffix: "BufferList_remove_prefix n bl = Inr bl' \<Longrightarrow> suffix (bl_buffer bl') (bl_buffer bl)"
proof (induction n bl arbitrary: bl' rule: BufferList_remove_prefix.induct)
  case (1 len bl)
  show ?case
  proof (cases "len \<noteq> 0 \<and> bl_buffer bl \<noteq> []")
    case False
    then show ?thesis using "1.prems" by (subst (asm) BufferList_remove_prefix.simps) auto
  next
    case True
    then obtain view where v: "BufferList_peek bl = Inr view"
      using "1.prems" by (subst (asm) BufferList_remove_prefix.simps) (auto split: sum.splits)
    define m where "m = min len (size64 view)"
    define b1 where "b1 = bl\<lparr>bl_skip := bl_skip bl + m, bl_size := bl_size bl - m\<rparr>"
    define b2 where "b2 = (if bl_skip b1 = size64 (hd (bl_buffer b1)) then b1\<lparr>bl_buffer := tl (bl_buffer b1), bl_skip := 0\<rparr> else b1)"
    have "BufferList_remove_prefix (len - m) b2 = Inr bl'"
      using "1.prems" True v by (subst (asm) BufferList_remove_prefix.simps) (auto simp: m_def b1_def b2_def Let_def split: if_splits)
    then have "suffix (bl_buffer bl') (bl_buffer b2)"
      using "1.IH" [OF True v m_def b1_def] unfolding b2_def by blast
    moreover have "suffix (bl_buffer b2) (bl_buffer bl)" by (simp add: b2_def b1_def)
    ultimately show ?thesis by (rule suffix_order.trans)
  qed
qed

lemma Parser_remove_prefix_rest: "Parser_remove_prefix n p = Inr p' \<Longrightarrow> rest_of p' p"
  by (auto simp: Parser_remove_prefix_def rbind_Inr_iff rest_of_def dest: remove_prefix_suffix)

lemma read_octet_rest: "read_octet p = Inr (b, p') \<Longrightarrow> rest_of p' p"
  by (auto simp: read_octet_def rbind_Inr_iff dest: Parser_remove_prefix_rest split: if_splits)

lemma integer_loop_rest: "integer_loop n out p = Inr (v, p') \<Longrightarrow> rest_of p' p"
  by (induction n arbitrary: out p) (auto simp: rbind_Inr_iff dest: read_octet_rest intro: rest_of_trans)

lemma Parser_integer_rest: "Parser_integer out p = Inr (v, p') \<Longrightarrow> rest_of p' p"
  by (auto simp: Parser_integer_def rbind_Inr_iff Let_def dest: read_octet_rest integer_loop_rest split: if_splits)

text \<open>\<open>leaves m p\<close>: the computation \<open>m\<close>, started at \<open>p\<close>, leaves the rest of its buffers.\<close>

definition leaves :: "('a \<times> parser) result \<Rightarrow> parser \<Rightarrow> bool" where
  "leaves m p \<longleftrightarrow> (\<forall>x p'. m = Inr (x, p') \<longrightarrow> rest_of p' p)"

lemma leaves_bind:
  "leaves m p \<Longrightarrow> (\<And>x p'. rest_of p' p \<Longrightarrow> leaves (f x p') p) \<Longrightarrow> leaves (rbind m (\<lambda>(x, p'). f x p')) p"
  unfolding leaves_def by (auto simp: rbind_Inr_iff)

lemma leaves_integer: "rest_of p' p \<Longrightarrow> leaves (Parser_integer v p') p"
  unfolding leaves_def using Parser_integer_rest rest_of_trans by blast

lemma IPv4Header_parse_rest: "IPv4Header_parse h p = Inr (h', p') \<Longrightarrow> rest_of p' p"
proof -
  have "leaves (IPv4Header_parse h p) p"
    unfolding IPv4Header_parse_def Let_def
    by (intro leaves_bind leaves_integer rest_of_refl, assumption+)
      (auto simp: leaves_def rbind_Inr_iff dest!: Parser_remove_prefix_rest intro: rest_of_trans split: if_splits)
  then show "IPv4Header_parse h p = Inr (h', p') \<Longrightarrow> rest_of p' p" unfolding leaves_def by blast
qed

section \<open>Datagrams with padding\<close>

lemma single_buffer:
  assumes "IPv4Header_parse old p = Inr (h, p')" and "bl_buffer (pr_input p) = [whole]"
    and "pr_ok p' rest" and "rest \<noteq> []" and "length whole = n + length rest" and "length whole < 2 ^ 64"
  shows "bl_buffer (pr_input p') = [whole] \<and> unat (bl_skip (pr_input p')) = n"
proof -
  have c: "bl_content (pr_input p') = rest" using assms(3) by (simp add: pr_ok_def)
  have "suffix (bl_buffer (pr_input p')) [whole]" using IPv4Header_parse_rest [OF assms(1)] assms(2) by (simp add: rest_of_def)
  moreover have "bl_buffer (pr_input p') \<noteq> []" using c assms(4) by (auto simp: bl_content_def)
  ultimately have b: "bl_buffer (pr_input p') = [whole]" by (cases "bl_buffer (pr_input p')") (auto simp: suffix_Cons)
  then have "length whole - unat (bl_skip (pr_input p')) = length rest" using c by (auto simp: bl_content_def)
  then show ?thesis using b assms(4,5) by (cases rest) auto
qed

text \<open>
  C40. A valid datagram without options, received in one buffer with padding behind it: without payload it is parsed as it
  should be; with a payload of less than twenty bytes parsing throws \<^verbatim>\<open>std::out_of_range\<close>; and with a longer one
  the last twenty bytes of the payload are missing from what is delivered, without an error.
\<close>

theorem ipv4_padding_damages:
  assumes "ip_valid h" and "unat (ip_len h) = 20 + length d" and "pad \<noteq> []" and "20 + length d + length pad < 2 ^ 64"
  shows "parse IPv4Datagram_parse IPv4Datagram_new [Owned (ip_bytes h @ d @ pad)] =
    (if d = [] then Inr (\<lparr>dg_header = h, dg_payload = []\<rparr>, True)
     else if length d < 20 then Inl Out_Of_Range
     else Inr (\<lparr>dg_header = h, dg_payload = [Owned (take (length d - 20) d)]\<rparr>, True))"
proof -
  let ?whole = "ip_bytes h @ d @ pad"
  have "no_gap (map ref_get [Owned ?whole])" using assms(3) by (intro no_gap_full) auto
  then obtain p where p: "Parser_new [Owned ?whole] = Inr p" "pr_ok p (ip_bytes h @ d @ pad)"
    using Parser_new_ok [of "[Owned ?whole]"] assms(4) by (auto simp: concat_refs_eq simp del: no_gap.simps)
  have b: "bl_buffer (pr_input p) = [?whole]" using p(1) by (auto simp: Parser_new_def BufferList_new_def)
  obtain p' where p': "IPv4Header_parse IPv4Header_new p = Inr (h, p')" "pr_ok p' (d @ pad)"
    using ipv4.par [OF assms(1) _ p(2)] by blast
  have s: "bl_buffer (pr_input p') = [?whole]" "unat (bl_skip (pr_input p')) = 20"
    using single_buffer [OF p'(1) b p'(2), of 20] assms(3,4) by simp_all
  have len: "unat (payload_length h) = length d"
    using assms(1,2) unat_sub [of "20 :: u16" "ip_len h"] by (simp add: payload_length_def ip_valid_def word_le_nat_alt)
  then have u: "unat (ucast (payload_length h) :: u64) = length d"
    using unsigned_less [where ?w = "payload_length h" and ?'a = nat] by (simp add: unsigned_ucast_eq take_bit_nat_eq_self)
  have sz: "unat (bl_size (pr_input p')) = length d + length pad" using p'(2) unat_bl_size [of "pr_input p'"] by (simp add: pr_ok_def)
  then have "\<not> bl_size (pr_input p') \<le> ucast (payload_length h)" using u assms(3) by (simp add: word_le_nat_alt)
  moreover have "(ucast (payload_length h) :: u64) = 0 \<longleftrightarrow> d = []" using u by (metis length_0_conv unat_eq_zero)
  ultimately have "Parser_truncate (ucast (payload_length h)) p' =
      p'\<lparr>pr_input := (if d = [] then (pr_input p')\<lparr>bl_buffer := [], bl_size := 0\<rparr>
         else (pr_input p')\<lparr>bl_buffer := [take (length d) ?whole], bl_size := ucast (payload_length h)\<rparr>)\<rparr>"
    using u s assms(3) by (simp add: Parser_truncate_def BufferList_truncate_def str_resize_def)
  moreover have "(bl_skip (pr_input p') :: u64) \<noteq> 0" using s(2) by auto
  ultimately have "IPv4Datagram_parse IPv4Datagram_new p =
      (if d = [] then Inr (\<lparr>dg_header = h, dg_payload = []\<rparr>, p'\<lparr>pr_input := (pr_input p')\<lparr>bl_buffer := [], bl_size := 0\<rparr>\<rparr>)
       else if length d < 20 then Inl Out_Of_Range
       else Inr (\<lparr>dg_header = h, dg_payload = [Owned (take (length d - 20) d)]\<rparr>,
         p'\<lparr>pr_input := (pr_input p')\<lparr>bl_buffer := [take (length d) ?whole], bl_size := ucast (payload_length h)\<rparr>\<rparr>))"
    using p'(1) s(2) \<open>(ucast (payload_length h) :: u64) = 0 \<longleftrightarrow> d = []\<close>
    by (simp add: IPv4Datagram_parse_def IPv4Datagram_new_def all_remaining_def BufferList_dump_all_def str_substr_def Let_def)
  then show ?thesis using p(1) p'(2) by (auto simp: parse_def pr_ok_def)
qed

text \<open>Two bytes of payload, and twenty-two bytes of which two arrive.\<close>

theorem ipv4_padding_damages_witness:
  "(\<exists>h. ip_valid h \<and> parse IPv4Datagram_parse IPv4Datagram_new [Owned (ip_bytes h @ [1, 2] @ replicate 24 0)] = Inl Out_Of_Range)
   \<and> (\<exists>h. ip_valid h \<and> parse IPv4Datagram_parse IPv4Datagram_new [Owned (ip_bytes h @ ([7, 8] @ replicate 20 9) @ replicate 4 0)]
        = Inr (\<lparr>dg_header = h, dg_payload = [Owned [7, 8]]\<rparr>, True))"
proof -
  let ?h = "\<lambda>n. (IPv4Header_new\<lparr>ip_len := n\<rparr>)\<lparr>ip_cksum := header_checksum (IPv4Header_new\<lparr>ip_len := n\<rparr>)\<rparr>"
  have "ip_hlen IPv4Header_new = 5" "ip_ver IPv4Header_new = 4" "ip_offset IPv4Header_new = 0"
    by (simp_all add: IPv4Header_new_def IPv4Header_LENGTH_def)
  then have v: "ip_valid (?h n)" for n by (simp add: ip_valid_def)
  show ?thesis
    using ipv4_padding_damages [OF v, of 22 "[1, 2]" "replicate 24 0"] v [of 22] v [of 42]
      ipv4_padding_damages [OF v, of 42 "[7, 8] @ replicate 20 9" "replicate 4 0"]
    by (intro conjI exI [of _ "?h 22"] exI [of _ "?h 42"]) simp_all
qed

end
