(* ===== verification/Spec2Isabelle.thy ===== *)
theory Spec2Isabelle
  imports Minnow_System Epoll_Server Worker_Pool Stream_Copy End_To_End Object_Pool TCP_IPv4_Program
    Text_Forms Small_Programs IPv4_Padding
begin

text \<open>
  The Minnow TCP/IP stack (\<^verbatim>\<open>src/src\<close>, \<^verbatim>\<open>src/util\<close>), its demo programs (\<^verbatim>\<open>src/demo\<close>) and its applications
  (\<^verbatim>\<open>src/apps\<close>), as a shallow embedding in HOL.

  \<^bold>\<open>The program and its parts.\<close>
  An application writes bytes to, and reads them from, one end of a local stream socket.  The other end
  belongs to a \<^verbatim>\<open>TCPMinnowSocket\<close>, whose thread runs an event loop with three rules: datagrams from the
  network to the \<^verbatim>\<open>TCPPeer\<close>, bytes of the application to the peer's outbound stream, bytes of the inbound
  stream to the application.  The peer is a \<^verbatim>\<open>TCPSender\<close> (a \<^verbatim>\<open>ByteStream\<close> cut into segments that are kept
  and retransmitted until they are acknowledged) and a \<^verbatim>\<open>TCPReceiver\<close> (a \<^verbatim>\<open>Reassembler\<close> that puts segments
  in order into another \<^verbatim>\<open>ByteStream\<close>).  An adapter turns the messages of the peer into TCP segments in IPv4
  datagrams and sends them to a TUN device, possibly dropping some, or to a \<^verbatim>\<open>NetworkInterface\<close>, which
  resolves Ethernet addresses with ARP; a \<^verbatim>\<open>Router\<close> forwards datagrams between interfaces.  Beside the
  stack are a client and two servers for a small message protocol, one with a pool of worker threads,
  one on the epoll loop, and a few programs that use the parts from the command line.

  \<^bold>\<open>Conventions.\<close>
  Machine integers are words of their width (\<open>u8\<close> to \<open>u64\<close> of \<open>Prelude\<close>) wherever the code computes with
  them, and \<^verbatim>\<open>int\<close> values from the kernel are integers.  An exception is \<open>Inl\<close> of a \<open>cpp_error\<close>, with the text
  of the message; undefined behaviour (\<^verbatim>\<open>front\<close> of an empty queue, an empty optional, a dangling reference)
  is the error \<open>Undefined_Behaviour\<close>, so that a theorem that an operation returns \<open>Inr\<close> excludes it.
  Operations pass the state of their object explicitly; callbacks (\<^verbatim>\<open>transmit\<close>, ports) are the list of what
  is handed to them.  The kernel, the C library, the clock and random numbers are parameters: an
  operation takes the outcome of the system calls it makes, and theorems hold for all outcomes or
  name what they need of them (a write takes no negative number of bytes, say).

  \<^bold>\<open>The theories.\<close>
  \<^item> \<open>Prelude\<close>: words, results, strings and list lemmas; \<open>Ref\<close>: \<^verbatim>\<open>util/ref.hh\<close>, a value that is owned or borrowed.
  \<^item> \<open>Byte_Stream\<close>: \<^verbatim>\<open>byte_stream.cc\<close>, \<^verbatim>\<open>byte_stream_helpers.cc\<close>.  The locale \<open>byte_queue\<close> is the contract that readers
    rely on; the stream refines a bounded FIFO queue.
  \<^item> \<open>Reassembler\<close>: \<^verbatim>\<open>reassembler.cc\<close>; the invariant, that insertion stores exactly the bytes in the window, and that
    any covering sequence of substrings reassembles the stream.
  \<^item> \<open>Wrapping_Integers\<close>, \<open>TCP_Messages\<close>, \<open>TCP_Receiver\<close>, \<open>Timer\<close>, \<open>TCP_Sender\<close>, \<open>TCP_Peer\<close>: the files of these names
    in \<^verbatim>\<open>src/src\<close> and \<^verbatim>\<open>src/util\<close>.  The sender has an inductive run relation with its invariant.
  \<^item> \<open>Connection\<close>: two peers over a network that loses, repeats, delays and reorders messages; what arrives
    is a prefix of what was written, an end of stream means that all of it arrived, and no operation fails.
  \<^item> \<open>Checksum\<close>, \<open>Parser\<close>, \<open>Ethernet\<close>, \<open>ARP_Message\<close>, \<open>IPv4\<close>, \<open>TCP_Segment\<close>: wire formats over the parser and
    serializer of \<^verbatim>\<open>util/parser.hh\<close>; the locale \<open>codec\<close> is the contract of a header, interpreted for each of them.
    \<open>IPv4_Padding\<close> says what becomes of a datagram with padding behind it.
  \<^item> \<open>ARP_Table\<close>, \<open>ARP_Queue\<close>, \<open>Network_Interface\<close>, \<open>Router\<close>, \<open>Address\<close>: \<^verbatim>\<open>arp_table.cc\<close>, \<^verbatim>\<open>arp_message_queue.cc\<close>,
    \<^verbatim>\<open>network_interface.cc\<close>, \<^verbatim>\<open>router.cc\<close>, \<^verbatim>\<open>address.cc\<close>.  The interface refines an abstract resolver, initialised
    or not; whether its timeout callback still finds it is a field, set by \<open>NI_initialize\<close> from whether a \<^verbatim>\<open>shared_ptr\<close> owns it.  The
    router's scan of its sorted table finds the longest matching prefix.
  \<^item> \<open>File_Descriptor\<close>, \<open>Socket\<close>, \<open>TCP_Over_IP\<close>: descriptors and sockets over the outcomes of system calls, and
    the TUN and lossy adapters.
  \<^item> \<open>Event_Loop\<close>, \<open>Epoll_Event_Loop\<close>: a round of the two event loops, for any \<open>behaviour\<close> of the rules; the locale
    \<open>dispatcher\<close> states what users of a loop rely on.  \<open>poll_round_keeps\<close> and its counterpart carry an invariant of the
    program that runs in the loop through any round.
  \<^item> \<open>Minnow_Socket\<close>: \<^verbatim>\<open>tcp_minnow_socket_impl.hh\<close> as a behaviour of the epoll loop; \<open>Minnow_System\<close>: two of them
    over TUN adapters and a bad network.
  \<^item> \<open>Stream_Copy\<close>, \<open>End_To_End\<close>: \<^verbatim>\<open>apps/bidirectional_stream_copy.cc\<close> and \<^verbatim>\<open>apps/endtoend.cc\<close> as behaviours of the
    polling loop; a message crosses two adapters and two routers.
  \<^item> \<open>C_Strings\<close>, \<open>Raw_Address\<close>: what is used of the C library to read numbers, and the whole of \<^verbatim>\<open>address.cc\<close> on the bytes of a
    socket address, which the records of \<open>Address\<close> abstract.
  \<^item> \<open>Robust_Parsing\<close>: parsing of arbitrary bytes never throws (with one exception, datagrams with padding);
    \<open>Text_Forms\<close>: \<^verbatim>\<open>helpers.cc\<close> and the \<^verbatim>\<open>to_string\<close> functions.
  \<^item> \<open>Single_Float\<close>, \<open>TCP_IPv4_Program\<close>: the command line of \<^verbatim>\<open>apps/tcp_ipv4.cc\<close>, with the single precision arithmetic that
    scales the loss rates; \<open>Small_Programs\<close>: \<^verbatim>\<open>tun.cc\<close>, \<^verbatim>\<open>iptest.cc\<close>, \<^verbatim>\<open>webget.cc\<close>,
    \<^verbatim>\<open>tcp_native.cc\<close>, \<^verbatim>\<open>debug.cc\<close> and some conveniences.
  \<^item> \<open>Object_Pool\<close>: \<^verbatim>\<open>util/object_pool.hh\<close>; the locale \<open>lender\<close> is what its clients rely on, as long as
    they return only what they hold, which the pool does not check.
  \<^item> \<open>Demo_Protocol\<close>, \<open>Epoll_Server\<close>, \<open>Worker_Pool\<close>: the programs of \<^verbatim>\<open>src/demo\<close>; the pool of threads is a step
    relation with one step per critical section; spurious wake-ups are a relation of their own, so that no theorem counts on them.

  \<^bold>\<open>Bounds and fuel.\<close>
  The loops of the stack terminate and are total functions, with a measure where the recursion is not
  structural (what is left to read, to send, to parse).  The loops that may run forever (\<^verbatim>\<open>_tcp_loop\<close>, the
  event loops of the programs, the threads of the pool) are functions of the list of outcomes of their
  rounds, or step relations: a theorem about them holds after any number of rounds.  No function has
  fuel.  The inner loop of rules without a descriptor has the bound of the code, 128 calls.

  \<^bold>\<open>Not modelled.\<close>
  Object lifetimes, except where a dangling reference is the point (\<open>Epoll_Server\<close>, \<open>End_To_End\<close>); starting and
  joining of threads, except the worker pool; text output to the terminal, except what \<^verbatim>\<open>webget\<close> prints;
  \<^verbatim>\<open>strtof\<close>, which \<^verbatim>\<open>tcp_ipv4.cc\<close> calls and which is a parameter; \<^verbatim>\<open>random.cc\<close>, whose numbers are parameters; \<^verbatim>\<open>ip_raw.cc\<close>, which has no
  code; \<^verbatim>\<open>demangle\<close>, which asks the C++ runtime.
\<close>

end
